(* ===== verification/Coro_Prelude.thy ===== *)
theory Coro_Prelude
  imports Main "HOL-Library.Word" "HOL-Library.Multiset"
begin

section \<open>Shared vocabulary of the development\<close>

text \<open>
  Types and lemmas every component uses: coroutine handles and time points, the library's
  exceptions as values, the erase loops over a deque, and the generic argument that an
  invariant kept by every step holds in every reachable state.

  A coroutine handle is its frame address, a natural number; \<open>0\<close> is the null handle.
  Time points of \<open>steady_clock\<close> are integers (ticks of the clock).
\<close>

type_synonym handle = nat
type_synonym time = int
type_synonym u64 = "64 word"
type_synonym u32 = "32 word"

abbreviation (input) null_handle :: handle where
  "null_handle \<equiv> 0"

text \<open>The collection of facts that say how an operation changes the fields a proof looks at.\<close>

named_theorems frame_simps
named_theorems inv_defs

subsection \<open>Exceptions as values\<close>

text \<open>The exception classes of exceptions.hpp and the standard exceptions the sources throw;
  the \<open>what\<close> strings are not kept.\<close>

datatype coro_error =
    CancelledError
  | TimeoutError
  | ClosedChannelError
  | BrokenPromiseError
  | StructuredConcurrencyError
  | IncompleteStreamError nat nat
  | StreamOverflowError nat
  | QueueShutDown
  | OverloadError
  | SystemError
  | LogicError
  | InvalidArgument
  | RuntimeError
  | UserException nat

type_synonym 'a result = "coro_error + 'a"

subsection \<open>Erasing from a deque\<close>

text \<open>The loop that erases the first element satisfying a test and stops.\<close>

fun erase_first :: "('a \<Rightarrow> bool) \<Rightarrow> 'a list \<Rightarrow> 'a list" where
  "erase_first P [] = []"
| "erase_first P (x # xs) = (if P x then xs else x # erase_first P xs)"

lemma set_erase_first: "set (erase_first P xs) \<subseteq> set xs"
  by (induction xs) auto

lemma set_erase_firstD: "x \<in> set (erase_first P xs) \<Longrightarrow> x \<in> set xs"
  using set_erase_first by fastforce

lemma distinct_erase_first: "distinct xs \<Longrightarrow> distinct (erase_first P xs)"
  by (induction xs) (auto dest: set_erase_firstD)

lemma erase_first_id: "(\<And>x. x \<in> set xs \<Longrightarrow> \<not> P x) \<Longrightarrow> erase_first P xs = xs"
  by (induction xs) auto

lemma erase_first_eq_remove1: "erase_first (\<lambda>y. y = x) xs = remove1 x xs"
  by (induction xs) auto

lemma length_erase_first_le: "length (erase_first P xs) \<le> length xs"
  by (induction xs) auto

lemma erase_first_mem: "x \<in> set xs \<Longrightarrow> \<not> P x \<Longrightarrow> x \<in> set (erase_first P xs)"
  by (induction xs) auto

lemma length_erase_first:
  "length (erase_first P xs) = (if \<exists>x\<in>set xs. P x then length xs - 1 else length xs)"
proof (induction xs)
  case (Cons x xs)
  have "\<exists>y\<in>set xs. P y \<Longrightarrow> 0 < length xs"
    by (auto dest: length_pos_if_in_set)
  with Cons show ?case by auto
qed simp

lemma tl_subset: "x \<in> set (tl xs) \<Longrightarrow> x \<in> set xs"
  by (cases xs) auto

subsection \<open>Counting in lists\<close>

lemma count_list_filter_le: "count_list (filter P xs) x \<le> count_list xs x"
  by (induction xs) auto

lemma count_list_snoc: "count_list (xs @ [y]) x = count_list xs x + (if x = y then 1 else 0)"
  by (induction xs) auto

subsection \<open>Stores of awaiters\<close>

text \<open>Awaiters live at addresses; \<open>marked P N\<close> are the addresses of those that satisfy a test.\<close>

definition marked :: "('v \<Rightarrow> bool) \<Rightarrow> (nat \<Rightarrow> 'v option) \<Rightarrow> nat set" where
  "marked P N = {n. \<exists>v. N n = Some v \<and> P v}"

lemma marked_upd:
  "marked P (N(n \<mapsto> v)) = (if P v then insert n (marked P N) else marked P N - {n})"
  "marked P (N(n := None)) = marked P N - {n}"
  "marked P Map.empty = {}"
  by (auto simp: marked_def)

lemma marked_iff: "n \<in> marked P N \<longleftrightarrow> (\<exists>v. N n = Some v \<and> P v)"
  by (simp add: marked_def)

lemma finite_marked: "finite (dom N) \<Longrightarrow> finite (marked P N)"
  by (rule finite_subset [of _ "dom N"]) (auto simp: marked_def)

text \<open>The effect of one task's change of phase on a count.\<close>

lemma card_marked_upd:
  assumes "finite (dom N)"
  shows "card (marked P (N(t \<mapsto> p))) + (case N t of Some q \<Rightarrow> if P q then 1 else 0 | None \<Rightarrow> 0)
       = card (marked P N) + (if P p then 1 else (0 :: nat))"
proof -
  have fin: "finite (marked P N)" using assms by (rule finite_marked)
  have "t \<in> marked P N \<longleftrightarrow> (case N t of Some q \<Rightarrow> P q | None \<Rightarrow> False)" by (auto simp: marked_iff split: option.split)
  moreover have "t \<in> marked P N \<Longrightarrow> 0 < card (marked P N)" using fin by (auto simp: card_gt_0_iff)
  ultimately show ?thesis
    using fin by (cases "N t") (auto simp: marked_upd card_insert_if card_Diff_singleton_if card_gt_0_iff Suc_diff_1 split: if_splits)
qed

lemma marked_disjoint: "n \<in> marked P N \<Longrightarrow> n \<notin> marked (\<lambda>v. \<not> P v) N"
  by (auto simp: marked_def)

text \<open>The values of the marked awaiters.\<close>

definition node_vals :: "('v \<Rightarrow> bool) \<Rightarrow> ('v \<Rightarrow> 'a) \<Rightarrow> (nat \<Rightarrow> 'v option) \<Rightarrow> 'a multiset" where
  "node_vals P f N = (\<Sum>n\<in>marked P N. {#f (the (N n))#})"

lemma node_vals_upd:
  assumes "finite (marked P N)"
  shows "node_vals P f (N(n \<mapsto> v)) = node_vals P f (N(n := None)) + (if P v then {#f v#} else {#})"
proof -
  have fin: "finite (marked P N - {n})" using assms by simp
  have "(\<Sum>m\<in>marked P N - {n}. {#f (the ((N(n \<mapsto> v)) m))#}) = (\<Sum>m\<in>marked P N - {n}. {#f (the ((N(n := None)) m))#})"
    by (rule sum.cong) auto
  then show ?thesis
    using fin by (auto simp: node_vals_def marked_upd insert_Diff_if sum.insert_remove)
qed

lemma node_vals_split:
  assumes "finite (marked P N)" "N n = Some v"
  shows "node_vals P f N = node_vals P f (N(n := None)) + (if P v then {#f v#} else {#})"
  using node_vals_upd [OF assms(1), of f n v] assms(2) by (simp add: fun_upd_idem)

lemma node_vals_None: "N n = None \<Longrightarrow> N(n := None) = N"
  by auto

subsection \<open>Reachable states\<close>

inductive reachable :: "('s \<Rightarrow> bool) \<Rightarrow> ('s \<Rightarrow> 's \<Rightarrow> bool) \<Rightarrow> 's \<Rightarrow> bool"
  for init :: "'s \<Rightarrow> bool" and step :: "'s \<Rightarrow> 's \<Rightarrow> bool"
  where
    reachable_init: "init s \<Longrightarrow> reachable init step s"
  | reachable_step: "reachable init step s \<Longrightarrow> step s t \<Longrightarrow> reachable init step t"

lemma reachable_steps: "step\<^sup>*\<^sup>* s t \<Longrightarrow> reachable init step s \<Longrightarrow> reachable init step t"
  by (induction rule: rtranclp_induct) (auto intro: reachable.intros)

text \<open>The contract every stateful component is shown to keep: an invariant of its start states
  that each of its steps preserves.\<close>

locale inductive_invariant =
  fixes init :: "'s \<Rightarrow> bool"
    and step :: "'s \<Rightarrow> 's \<Rightarrow> bool"
    and inv :: "'s \<Rightarrow> bool"
  assumes inv_init: "init s \<Longrightarrow> inv s"
    and inv_step: "inv s \<Longrightarrow> step s t \<Longrightarrow> inv t"
begin

lemma invariant_reachable: "reachable init step s \<Longrightarrow> inv s"
  by (induction rule: reachable.induct) (auto intro: inv_init inv_step)

lemma invariant_steps: "step\<^sup>*\<^sup>* s t \<Longrightarrow> inv s \<Longrightarrow> inv t"
  by (induction rule: rtranclp_induct) (auto intro: inv_step)

end

text \<open>A component that implements a more abstract one: its steps, from states its invariant allows,
  are steps of the abstract system.\<close>

locale refinement = inductive_invariant init step inv
  for init :: "'s \<Rightarrow> bool" and step :: "'s \<Rightarrow> 's \<Rightarrow> bool" and inv :: "'s \<Rightarrow> bool" +
  fixes abs :: "'s \<Rightarrow> 'a"
    and ainit :: "'a \<Rightarrow> bool"
    and astep :: "'a \<Rightarrow> 'a \<Rightarrow> bool"
  assumes abs_init: "init s \<Longrightarrow> ainit (abs s)"
    and abs_step: "inv s \<Longrightarrow> step s t \<Longrightarrow> astep (abs s) (abs t)"
begin

lemma refines_reachable: "reachable init step s \<Longrightarrow> reachable ainit astep (abs s)"
proof (induction rule: reachable.induct)
  case (reachable_step s t)
  then show ?case
    using abs_step [OF invariant_reachable] by (blast intro: reachable.reachable_step)
qed (auto intro: abs_init reachable.reachable_init)

lemma refines_steps: "step\<^sup>*\<^sup>* s t \<Longrightarrow> inv s \<Longrightarrow> astep\<^sup>*\<^sup>* (abs s) (abs t)"
proof (induction rule: rtranclp_induct)
  case (step t u)
  then show ?case
    using abs_step [OF invariant_steps] by (blast intro: rtranclp.rtrancl_into_rtrancl)
qed simp

end

end
