(* ===== verification/Ready_Queue.thy ===== *)
theory Ready_Queue
  imports Coro_Prelude
begin

section \<open>The ready queue of the event loop\<close>

text \<open>
  \<open>detail::ReadyQueue\<close> of include/coro/event_loop.hpp: a FIFO of ready entries kept as a vector
  with a head index, whose storage is reclaimed when the last entry is popped. The locale
  \<open>fifo_queue\<close> is the contract of a FIFO; it is interpreted on the vector-with-head model, and the
  clients (the event loop) use the list the abstraction function gives.
\<close>

text \<open>A handle with the generation of its frame: generations tell frames apart that were
  allocated at one address one after the other.\<close>

record ready_entry =
  re_handle :: handle
  re_generation :: u64

lemma ready_entry_eqI:
  "re_handle x = re_handle y \<Longrightarrow> re_generation x = re_generation y \<Longrightarrow> x = (y :: ready_entry)"
  by (cases x; cases y) simp

record ready_queue =
  rq_items :: "ready_entry list"
  rq_head :: nat

definition rq_new :: ready_queue where
  "rq_new = \<lparr>rq_items = [], rq_head = 0\<rparr>"

definition rq_push :: "ready_entry \<Rightarrow> ready_queue \<Rightarrow> ready_queue" where
  "rq_push e q = q\<lparr>rq_items := rq_items q @ [e]\<rparr>"

definition rq_empty :: "ready_queue \<Rightarrow> bool" where
  "rq_empty q \<longleftrightarrow> length (rq_items q) \<le> rq_head q"

text \<open>Reading past the end is undefined behaviour in the source: no value here.\<close>

definition rq_front :: "ready_queue \<Rightarrow> ready_entry option" where
  "rq_front q = (if rq_head q < length (rq_items q) then Some (rq_items q ! rq_head q) else None)"

definition rq_pop :: "ready_queue \<Rightarrow> ready_queue" where
  "rq_pop q =
     (let q' = q\<lparr>rq_head := Suc (rq_head q)\<rparr>
      in if rq_head q' = length (rq_items q') then \<lparr>rq_items = [], rq_head = 0\<rparr> else q')"

definition rq_swap :: "ready_queue \<Rightarrow> ready_queue \<Rightarrow> ready_queue \<times> ready_queue" where
  "rq_swap a b = (b, a)"

subsection \<open>The FIFO contract\<close>

locale fifo_queue =
  fixes new :: 'q
    and push :: "'a \<Rightarrow> 'q \<Rightarrow> 'q"
    and front :: "'q \<Rightarrow> 'a option"
    and pop :: "'q \<Rightarrow> 'q"
    and is_empty :: "'q \<Rightarrow> bool"
    and wf :: "'q \<Rightarrow> bool"
    and contents :: "'q \<Rightarrow> 'a list"
  assumes wf_new: "wf new"
    and contents_new: "contents new = []"
    and wf_push: "wf q \<Longrightarrow> wf (push x q)"
    and contents_push: "wf q \<Longrightarrow> contents (push x q) = contents q @ [x]"
    and wf_pop: "wf q \<Longrightarrow> contents q \<noteq> [] \<Longrightarrow> wf (pop q)"
    and contents_pop: "wf q \<Longrightarrow> contents q \<noteq> [] \<Longrightarrow> contents (pop q) = tl (contents q)"
    and front_contents: "wf q \<Longrightarrow> front q = (case contents q of [] \<Rightarrow> None | x # _ \<Rightarrow> Some x)"
    and empty_contents: "wf q \<Longrightarrow> is_empty q \<longleftrightarrow> contents q = []"
begin

definition push_all :: "'a list \<Rightarrow> 'q \<Rightarrow> 'q" where
  "push_all xs q = fold push xs q"

fun drain :: "nat \<Rightarrow> 'q \<Rightarrow> 'a list" where
  "drain 0 q = []"
| "drain (Suc n) q = (case front q of None \<Rightarrow> [] | Some x \<Rightarrow> x # drain n (pop q))"

lemma push_all_contents: "wf q \<Longrightarrow> wf (push_all xs q) \<and> contents (push_all xs q) = contents q @ xs"
  by (induction xs arbitrary: q) (auto simp: push_all_def wf_push contents_push)

lemma drain_contents: "wf q \<Longrightarrow> drain n q = take n (contents q)"
proof (induction n arbitrary: q)
  case (Suc n)
  then show ?case
    by (cases "contents q") (auto simp: front_contents contents_pop wf_pop)
qed simp

text \<open>What was pushed comes out, in the order it went in.\<close>

lemma fifo_order: "drain (length xs) (push_all xs new) = xs"
  using push_all_contents [OF wf_new, of xs] by (simp add: drain_contents contents_new)

end

subsection \<open>The vector with a head index is a FIFO\<close>

definition rq_wf :: "ready_queue \<Rightarrow> bool" where
  "rq_wf q \<longleftrightarrow> rq_head q < length (rq_items q) \<or> rq_items q = [] \<and> rq_head q = 0"

definition rq_list :: "ready_queue \<Rightarrow> ready_entry list" where
  "rq_list q = drop (rq_head q) (rq_items q)"

interpretation rq: fifo_queue rq_new rq_push rq_front rq_pop rq_empty rq_wf rq_list
proof unfold_locales
  fix q
  assume "rq_wf q" "rq_list q \<noteq> []"
  then show "rq_list (rq_pop q) = tl (rq_list q)"
    by (auto simp: rq_wf_def rq_list_def rq_pop_def tl_drop drop_Suc simp flip: drop_Suc)
next
  fix q
  assume "rq_wf q"
  then show "rq_front q = (case rq_list q of [] \<Rightarrow> None | x # _ \<Rightarrow> Some x)"
    by (auto simp: rq_wf_def rq_list_def rq_front_def simp flip: Cons_nth_drop_Suc)
qed (auto simp: rq_wf_def rq_list_def rq_new_def rq_push_def rq_pop_def rq_empty_def Let_def)

lemmas rq_simps [simp] =
  rq.wf_new rq.contents_new rq.wf_push rq.contents_push rq.wf_pop rq.contents_pop rq.empty_contents

end
