(* ===== verification/Frame_Tracker.thy ===== *)
theory Frame_Tracker
  imports Ready_Queue
begin

section \<open>The frame register of the event loop\<close>

text \<open>
  \<open>detail::FrameState\<close> and \<open>detail::FrameTracker\<close> of include/coro/event_loop.hpp: the table of
  live coroutine frames with their generation, the flag that makes queueing idempotent and the
  epoch of the wait in progress, and the set of abandoned handles. The counters are 64-bit and
  wrap. All methods run under the loop's mutex, so each is one atomic step.
\<close>

record frame_state =
  fs_generation :: u64
  fs_scheduled :: bool
  fs_wait_epoch :: u64

record frame_tracker =
  live_frames :: "handle \<Rightarrow> frame_state option"
  next_generation :: u64
  next_wait_epoch :: u64
  abandoned_handles :: "handle set"

definition ft_new :: frame_tracker where
  "ft_new = \<lparr>live_frames = Map.empty, next_generation = 0, next_wait_epoch = 0,
             abandoned_handles = {}\<rparr>"

definition new_frame_state :: "u64 \<Rightarrow> frame_state" where
  "new_frame_state gen = \<lparr>fs_generation = gen, fs_scheduled = False, fs_wait_epoch = 0\<rparr>"

text \<open>\<open>try_emplace\<close> keeps an existing entry of the address.\<close>

definition ft_add :: "handle \<Rightarrow> frame_tracker \<Rightarrow> u64 \<times> frame_tracker" where
  "ft_add h ft =
     (let gen = next_generation ft + 1; ft = ft\<lparr>next_generation := gen\<rparr>
      in (gen, case live_frames ft h of
                 Some _ \<Rightarrow> ft
               | None \<Rightarrow> ft\<lparr>live_frames := (live_frames ft)(h \<mapsto> new_frame_state gen)\<rparr>))"

definition ft_remove :: "handle \<Rightarrow> frame_tracker \<Rightarrow> frame_tracker" where
  "ft_remove h ft = ft\<lparr>live_frames := (live_frames ft)(h := None)\<rparr>"

definition set_frame :: "handle \<Rightarrow> frame_state \<Rightarrow> frame_tracker \<Rightarrow> frame_tracker" where
  "set_frame h st ft = ft\<lparr>live_frames := (live_frames ft)(h \<mapsto> st)\<rparr>"

definition try_reserve :: "handle \<Rightarrow> frame_tracker \<Rightarrow> ready_entry option \<times> frame_tracker" where
  "try_reserve h ft =
     (case live_frames ft h of
        None \<Rightarrow> (None, ft)
      | Some st \<Rightarrow>
          if fs_scheduled st then (None, ft)
          else (Some \<lparr>re_handle = h, re_generation = fs_generation st\<rparr>,
                set_frame h (st\<lparr>fs_scheduled := True\<rparr>) ft))"

definition generation_of :: "handle \<Rightarrow> frame_tracker \<Rightarrow> u64 option" where
  "generation_of h ft = map_option fs_generation (live_frames ft h)"

definition try_reserve_entry :: "ready_entry \<Rightarrow> frame_tracker \<Rightarrow> bool \<times> frame_tracker" where
  "try_reserve_entry e ft =
     (case live_frames ft (re_handle e) of
        None \<Rightarrow> (False, ft)
      | Some st \<Rightarrow>
          if fs_generation st \<noteq> re_generation e then (False, ft)
          else if fs_scheduled st then (False, ft)
          else (True, set_frame (re_handle e) (st\<lparr>fs_scheduled := True\<rparr>) ft))"

definition ft_release :: "ready_entry \<Rightarrow> frame_tracker \<Rightarrow> bool \<times> frame_tracker" where
  "ft_release e ft =
     (case live_frames ft (re_handle e) of
        None \<Rightarrow> (False, ft)
      | Some st \<Rightarrow>
          if fs_generation st \<noteq> re_generation e then (False, ft)
          else (True, set_frame (re_handle e) (st\<lparr>fs_scheduled := False\<rparr>) ft))"

definition ft_begin_wait :: "handle \<Rightarrow> frame_tracker \<Rightarrow> u64 \<times> frame_tracker" where
  "ft_begin_wait h ft =
     (let epoch = next_wait_epoch ft + 1; ft = ft\<lparr>next_wait_epoch := epoch\<rparr>
      in if h = null_handle then (epoch, ft)
         else (epoch, case live_frames ft h of
                        None \<Rightarrow> ft
                      | Some st \<Rightarrow> set_frame h (st\<lparr>fs_wait_epoch := epoch\<rparr>) ft))"

definition try_reserve_if_current ::
  "handle \<Rightarrow> u64 \<Rightarrow> frame_tracker \<Rightarrow> ready_entry option \<times> frame_tracker" where
  "try_reserve_if_current h epoch ft =
     (case live_frames ft h of
        None \<Rightarrow> (None, ft)
      | Some st \<Rightarrow>
          if fs_wait_epoch st \<noteq> epoch then (None, ft)
          else if fs_scheduled st then (None, ft)
          else (Some \<lparr>re_handle = h, re_generation = fs_generation st\<rparr>,
                set_frame h (st\<lparr>fs_scheduled := True\<rparr>) ft))"

definition ft_end_wait :: "handle \<Rightarrow> u64 \<Rightarrow> frame_tracker \<Rightarrow> frame_tracker" where
  "ft_end_wait h epoch ft =
     (case live_frames ft h of
        None \<Rightarrow> ft
      | Some st \<Rightarrow>
          if fs_wait_epoch st = epoch then set_frame h (st\<lparr>fs_wait_epoch := 0\<rparr>) ft else ft)"

definition wait_is_current :: "handle \<Rightarrow> u64 \<Rightarrow> frame_tracker \<Rightarrow> bool" where
  "wait_is_current h epoch ft =
     (case live_frames ft h of None \<Rightarrow> False | Some st \<Rightarrow> fs_wait_epoch st = epoch)"

definition ft_mark_abandoned :: "handle \<Rightarrow> frame_tracker \<Rightarrow> bool \<times> frame_tracker" where
  "ft_mark_abandoned h ft =
     (case live_frames ft h of
        None \<Rightarrow> (False, ft)
      | Some st \<Rightarrow>
          if \<not> fs_scheduled st then (False, ft)
          else (True, ft\<lparr>abandoned_handles := insert h (abandoned_handles ft)\<rparr>))"

definition ft_mark_io_abandoned :: "handle \<Rightarrow> frame_tracker \<Rightarrow> frame_tracker" where
  "ft_mark_io_abandoned h ft = ft\<lparr>abandoned_handles := insert h (abandoned_handles ft)\<rparr>"

definition ft_is_abandoned :: "handle \<Rightarrow> frame_tracker \<Rightarrow> bool" where
  "ft_is_abandoned h ft \<longleftrightarrow> h \<in> abandoned_handles ft"

text \<open>The destruction of the frame itself is the caller's: the register only forgets the mark.\<close>

definition ft_cleanup_abandoned :: "handle \<Rightarrow> frame_tracker \<Rightarrow> frame_tracker" where
  "ft_cleanup_abandoned h ft = ft\<lparr>abandoned_handles := abandoned_handles ft - {h}\<rparr>"

lemmas ft_defs =
  ft_add_def ft_remove_def try_reserve_def generation_of_def try_reserve_entry_def ft_release_def
  ft_begin_wait_def try_reserve_if_current_def ft_end_wait_def wait_is_current_def
  ft_mark_abandoned_def ft_mark_io_abandoned_def ft_is_abandoned_def ft_cleanup_abandoned_def
  set_frame_def new_frame_state_def

subsection \<open>Wait epochs\<close>

text \<open>No frame carries an epoch or a generation that has not been handed out yet. The counters are
  64-bit, so the next number is fresh as long as the counter has not wrapped.\<close>

definition ft_wf :: "frame_tracker \<Rightarrow> bool" where
  "ft_wf ft \<longleftrightarrow>
     (\<forall>h st. live_frames ft h = Some st \<longrightarrow>
        fs_generation st \<le> next_generation ft \<and> fs_wait_epoch st \<le> next_wait_epoch ft)"

definition counters_left :: "frame_tracker \<Rightarrow> bool" where
  "counters_left ft \<longleftrightarrow> next_generation ft \<noteq> - 1 \<and> next_wait_epoch ft \<noteq> - 1"

lemma word_less_Suc: "(x :: u64) \<noteq> - 1 \<Longrightarrow> x < x + 1"
  using inc_less_eq_triv_imp [of x] by (auto simp: not_le [symmetric])

lemma word_le_Suc: "(y :: u64) \<le> x \<Longrightarrow> x \<noteq> - 1 \<Longrightarrow> y \<le> x + 1"
  using word_less_Suc [of x] by simp

lemma word_Suc_not_zero: "(x :: u64) \<noteq> - 1 \<Longrightarrow> x + 1 \<noteq> 0"
  using word_less_Suc [of x] by auto

lemma ft_wf_new: "ft_wf ft_new"
  by (simp add: ft_wf_def ft_new_def)

lemma ft_wf_add: "ft_wf ft \<Longrightarrow> counters_left ft \<Longrightarrow> ft_wf (snd (ft_add h ft))"
  by (auto simp: ft_wf_def ft_defs counters_left_def Let_def word_le_Suc split: option.split)

lemma ft_wf_begin_wait: "ft_wf ft \<Longrightarrow> counters_left ft \<Longrightarrow> ft_wf (snd (ft_begin_wait h ft))"
  by (auto simp: ft_wf_def ft_defs counters_left_def Let_def word_le_Suc split: option.split)

lemma ft_wf_others:
  assumes "ft_wf ft"
  shows "ft_wf (ft_remove h ft)" "ft_wf (snd (try_reserve h ft))"
    "ft_wf (snd (try_reserve_entry e ft))" "ft_wf (snd (ft_release e ft))"
    "ft_wf (snd (try_reserve_if_current h ep ft))" "ft_wf (ft_end_wait h ep ft)"
    "ft_wf (snd (ft_mark_abandoned h ft))" "ft_wf (ft_mark_io_abandoned h ft)"
    "ft_wf (ft_cleanup_abandoned h ft)"
  using assms by (fastforce simp: ft_wf_def ft_defs split: option.split)+

text \<open>A wait that begins gets an epoch no earlier wait of any frame had.\<close>

lemma begin_wait_fresh:
  "ft_wf ft \<Longrightarrow> counters_left ft \<Longrightarrow> live_frames ft h = Some st \<Longrightarrow>
   fs_wait_epoch st < fst (ft_begin_wait g ft)"
  using order_le_less_trans [OF _ word_less_Suc, of "fs_wait_epoch st" "next_wait_epoch ft"]
  by (auto simp: ft_wf_def ft_begin_wait_def counters_left_def Let_def)

end
