(* ===== verification/Timer_Heap.thy ===== *)
theory Timer_Heap
  imports Ready_Queue "HOL-Library.Multiset"
begin

section \<open>The timer heap of the event loop\<close>

text \<open>
  \<open>detail::TimerEntry\<close> and \<open>detail::TimerHeap\<close> of include/coro/event_loop.hpp. The shared
  atomic flags an entry points to (the cancellation token and the outcome that arbitrates between
  cancellation and expiry) live in stores indexed by number, so that entries and awaiters alias
  them as the shared pointers do. \<open>std::priority_queue\<close> is the list of entries in deadline order;
  entries with one deadline leave in the order they came, one of the orders the standard allows.
  The locale \<open>deadline_queue\<close> states what the development uses of it.
\<close>

record timer_entry =
  te_deadline :: time
  te_entry :: ready_entry
  te_token :: "nat option"
  te_outcome :: "nat option"
  te_expire_value :: int

type_synonym token_store = "nat \<Rightarrow> bool"
type_synonym outcome_store = "nat \<Rightarrow> int"

definition te_stale :: "token_store \<Rightarrow> timer_entry \<Rightarrow> bool" where
  "te_stale tok e = (case te_token e of None \<Rightarrow> False | Some t \<Rightarrow> tok t)"

subsection \<open>The priority queue\<close>

fun heap_push :: "timer_entry \<Rightarrow> timer_entry list \<Rightarrow> timer_entry list" where
  "heap_push e [] = [e]"
| "heap_push e (x # xs) =
     (if te_deadline e < te_deadline x then e # x # xs else x # heap_push e xs)"

definition heap_top :: "timer_entry list \<Rightarrow> timer_entry option" where
  "heap_top hp = (case hp of [] \<Rightarrow> None | e # _ \<Rightarrow> Some e)"

definition heap_pop :: "timer_entry list \<Rightarrow> timer_entry list" where
  "heap_pop hp = tl hp"

locale deadline_queue =
  fixes push :: "timer_entry \<Rightarrow> 'q \<Rightarrow> 'q"
    and top :: "'q \<Rightarrow> timer_entry option"
    and pop :: "'q \<Rightarrow> 'q"
    and wf :: "'q \<Rightarrow> bool"
    and entries :: "'q \<Rightarrow> timer_entry multiset"
  assumes wf_push: "wf q \<Longrightarrow> wf (push e q)"
    and entries_push: "wf q \<Longrightarrow> entries (push e q) = add_mset e (entries q)"
    and top_None: "wf q \<Longrightarrow> top q = None \<longleftrightarrow> entries q = {#}"
    and top_Some: "wf q \<Longrightarrow> top q = Some e \<Longrightarrow>
        e \<in># entries q \<and> (\<forall>x\<in>#entries q. te_deadline e \<le> te_deadline x)"
    and wf_pop: "wf q \<Longrightarrow> entries q \<noteq> {#} \<Longrightarrow> wf (pop q)"
    and entries_pop: "wf q \<Longrightarrow> top q = Some e \<Longrightarrow> entries (pop q) = entries q - {#e#}"
begin

fun pop_all :: "nat \<Rightarrow> 'q \<Rightarrow> timer_entry list" where
  "pop_all 0 q = []"
| "pop_all (Suc n) q = (case top q of None \<Rightarrow> [] | Some e \<Rightarrow> e # pop_all n (pop q))"

text \<open>Popping everything lists the entries by deadline and loses none.\<close>

lemma pop_all_sorted:
  "wf q \<Longrightarrow> size (entries q) = n \<Longrightarrow>
   mset (pop_all n q) = entries q \<and> sorted (map te_deadline (pop_all n q))"
proof (induction n arbitrary: q)
  case (Suc n)
  then obtain e where e: "top q = Some e"
    using top_None by fastforce
  from top_Some [OF Suc.prems(1) e] have mem: "e \<in># entries q"
    and least: "\<forall>x\<in>#entries q. te_deadline e \<le> te_deadline x" by auto
  have "size (entries (pop q)) = n" and wf': "wf (pop q)"
    using Suc.prems e mem by (auto simp: entries_pop size_Diff_singleton intro!: wf_pop)
  from Suc.IH [OF wf' this(1)] have *: "mset (pop_all n (pop q)) = entries q - {#e#}"
    "sorted (map te_deadline (pop_all n (pop q)))"
    using Suc.prems(1) e by (auto simp: entries_pop)
  have "\<forall>x\<in>set (pop_all n (pop q)). te_deadline e \<le> te_deadline x"
    using least * by (metis in_diffD set_mset_mset)
  then show ?case
    using e * mem by simp
qed simp

end

definition heap_wf :: "timer_entry list \<Rightarrow> bool" where
  "heap_wf hp \<longleftrightarrow> sorted (map te_deadline hp)"

lemma mset_heap_push [simp]: "mset (heap_push e hp) = add_mset e (mset hp)"
  by (induction hp) auto

lemma set_heap_push [simp]: "set (heap_push e hp) = insert e (set hp)"
  using mset_heap_push [of e hp] by (metis set_mset_add_mset_insert set_mset_mset)

lemma heap_wf_push: "heap_wf hp \<Longrightarrow> heap_wf (heap_push e hp)"
  by (induction hp) (auto simp: heap_wf_def less_imp_le)

interpretation pq: deadline_queue heap_push heap_top heap_pop heap_wf mset
proof unfold_locales
  show "heap_wf q \<Longrightarrow> heap_wf (heap_push e q)" for e q
    by (rule heap_wf_push)
qed (auto simp: heap_top_def heap_pop_def heap_wf_def sorted_tl map_tl split: list.splits)

subsection \<open>Compaction and draining\<close>

record timer_heap =
  th_heap :: "timer_entry list"
  th_compact_tick :: u32

definition th_new :: timer_heap where
  "th_new = \<lparr>th_heap = [], th_compact_tick = 0\<rparr>"

definition th_push :: "timer_entry \<Rightarrow> timer_heap \<Rightarrow> timer_heap" where
  "th_push e th = th\<lparr>th_heap := heap_push e (th_heap th)\<rparr>"

text \<open>Every 64th drain of a heap of more than 128 entries rebuilds it without its stale entries,
  when more than half are stale. The tick counts on while the heap stays small, and wraps.\<close>

definition compact_if_stale :: "token_store \<Rightarrow> timer_heap \<Rightarrow> timer_heap" where
  "compact_if_stale tok th =
     (let tick = th_compact_tick th + 1; th = th\<lparr>th_compact_tick := tick\<rparr>
      in if tick < 64 \<or> length (th_heap th) \<le> 128 then th
         else
           (let th = th\<lparr>th_compact_tick := 0\<rparr>;
                kept = filter (\<lambda>e. \<not> te_stale tok e) (th_heap th);
                stale = length (filter (te_stale tok) (th_heap th))
            in if stale * 2 > length (th_heap th) then th\<lparr>th_heap := fold heap_push kept []\<rparr>
               else th))"

text \<open>The loop over the due entries: a stale one is dropped; one with an outcome is queued only
  if it is the first to decide that outcome.\<close>

fun drain_due ::
  "time \<Rightarrow> token_store \<Rightarrow> outcome_store \<Rightarrow> timer_entry list \<Rightarrow>
   ready_entry list \<times> outcome_store \<times> timer_entry list" where
  "drain_due now tok out [] = ([], out, [])"
| "drain_due now tok out (e # hp) =
     (if \<not> te_deadline e \<le> now then ([], out, e # hp)
      else if te_stale tok e then drain_due now tok out hp
      else (case te_outcome e of
              None \<Rightarrow>
                (case drain_due now tok out hp of (xs, out', hp') \<Rightarrow> (te_entry e # xs, out', hp'))
            | Some k \<Rightarrow>
                if out k \<noteq> 0 then drain_due now tok out hp
                else (case drain_due now tok (out(k := te_expire_value e)) hp of
                        (xs, out', hp') \<Rightarrow> (te_entry e # xs, out', hp'))))"

definition th_drain ::
  "time \<Rightarrow> token_store \<Rightarrow> outcome_store \<Rightarrow> timer_heap \<Rightarrow>
   ready_entry list \<times> outcome_store \<times> timer_heap" where
  "th_drain now tok out th =
     (let th = compact_if_stale tok th
      in case drain_due now tok out (dropWhile (te_stale tok) (th_heap th)) of
           (expired, out', hp') \<Rightarrow> (expired, out', th\<lparr>th_heap := hp'\<rparr>))"

subsection \<open>What draining keeps, drops and delivers\<close>

lemma fold_heap_push: "mset (fold heap_push xs hp) = mset xs + mset hp"
  by (induction xs arbitrary: hp) auto

lemma heap_wf_fold_push: "heap_wf hp \<Longrightarrow> heap_wf (fold heap_push xs hp)"
  by (induction xs arbitrary: hp) (auto simp: heap_wf_push)

lemma heap_wf_compact: "heap_wf (th_heap th) \<Longrightarrow> heap_wf (th_heap (compact_if_stale tok th))"
  using heap_wf_fold_push [of "[]"] by (simp add: compact_if_stale_def Let_def heap_wf_def)

lemma compact_live:
  "filter_mset (\<lambda>e. \<not> te_stale tok e) (mset (th_heap (compact_if_stale tok th))) =
   filter_mset (\<lambda>e. \<not> te_stale tok e) (mset (th_heap th))"
  by (auto simp: compact_if_stale_def Let_def fold_heap_push filter_filter_mset)

lemma compact_set: "set (th_heap (compact_if_stale tok th)) \<subseteq> set (th_heap th)"
  using fold_heap_push [of "filter (\<lambda>e. \<not> te_stale tok e) (th_heap th)" "[]"]
  by (auto simp: compact_if_stale_def Let_def dest!: arg_cong [of _ _ set_mset])

lemma heap_wf_dropWhile: "heap_wf hp \<Longrightarrow> heap_wf (dropWhile P hp)"
  unfolding heap_wf_def by (induction hp) auto

lemma drain_due_heap: "snd (snd (drain_due now tok out hp)) = dropWhile (\<lambda>e. te_deadline e \<le> now) hp"
proof (induction hp arbitrary: out)
  case (Cons e hp)
  have "snd (snd (drain_due now tok o' hp)) = dropWhile (\<lambda>e. te_deadline e \<le> now) hp" for o'
    by (rule Cons.IH)
  then show ?case
    by (auto simp: case_prod_unfold split: option.split)
qed simp

lemma sorted_dropWhile_filter:
  "heap_wf hp \<Longrightarrow> dropWhile (\<lambda>e. te_deadline e \<le> now) hp = filter (\<lambda>e. now < te_deadline e) hp"
  unfolding heap_wf_def
  by (induction hp) (auto simp: filter_id_conv [THEN iffD2] order_less_le_trans)

lemma drain_due_keeps_future:
  "heap_wf hp \<Longrightarrow> drain_due now tok out hp = (xs, out', hp') \<Longrightarrow>
   hp' = filter (\<lambda>e. now < te_deadline e) hp"
  using drain_due_heap [of now tok out hp] by (simp add: sorted_dropWhile_filter)

lemma drain_due_sound:
  "drain_due now tok out hp = (xs, out', hp') \<Longrightarrow> x \<in> set xs \<Longrightarrow>
   \<exists>e\<in>set hp. te_entry e = x \<and> te_deadline e \<le> now \<and> \<not> te_stale tok e \<and>
     (\<forall>k. te_outcome e = Some k \<longrightarrow> out k = 0)"
  by (induction now tok out hp arbitrary: xs out' rule: drain_due.induct)
    (fastforce split: if_splits option.splits prod.splits)+

lemma drain_due_complete:
  "heap_wf hp \<Longrightarrow> drain_due now tok out hp = (xs, out', hp') \<Longrightarrow> e \<in> set hp \<Longrightarrow>
   te_deadline e \<le> now \<Longrightarrow> \<not> te_stale tok e \<Longrightarrow> te_outcome e = None \<Longrightarrow> te_entry e \<in> set xs"
  by (induction now tok out hp arbitrary: xs out' rule: drain_due.induct)
    (fastforce simp: heap_wf_def split: if_splits option.splits prod.splits)+

lemma drain_due_outcome_kept:
  "out k \<noteq> 0 \<Longrightarrow> fst (snd (drain_due now tok out hp)) k = out k"
proof (induction hp arbitrary: out)
  case (Cons e hp)
  have "fst (snd (drain_due now tok (out(j := v)) hp)) k = out k" if "out j = 0" for j v
  proof -
    from that Cons.prems have "k \<noteq> j" by auto
    with Cons show ?thesis by (simp del: fun_upd_apply add: fun_upd_other)
  qed
  with Cons show ?case
    by (auto simp: case_prod_unfold simp del: fun_upd_apply split: option.split)
qed simp

end
