(* ===== verification/Event_Loop.thy ===== *)
theory Event_Loop
  imports Frame_Tracker Timer_Heap
begin

section \<open>The event loop: state and scheduling interface\<close>

text \<open>
  \<open>EventLoop\<close> of include/coro/event_loop.hpp, without the driver \<open>run_impl\<close> (theory Loop_Run).
  Every method holds the queue mutex, or touches only atomics or state of the loop's own thread,
  so a method is one step on the record. \<open>same\<close> says whether the calling thread is bound to this
  loop (\<open>t_current_loop == this\<close>); \<open>wake_count\<close> counts the wake-ups sent to the event source.
  The registry behind CORO_TASK_REGISTRY is off, as in the default build.
\<close>

record event_loop =
  ready_queue :: ready_queue
  batch :: ready_queue
  frames :: frame_tracker
  timer_heap :: timer_heap
  tokens :: token_store
  outcomes :: outcome_store
  fn_queue :: "nat list"
  fn_batch :: "nat list"
  running :: bool
  active_coroutines :: u64
  awake :: bool
  has_pending_fn :: bool
  wake_count :: nat

definition el_new :: event_loop where
  "el_new = \<lparr>ready_queue = rq_new, batch = rq_new, frames = ft_new, timer_heap = th_new,
     tokens = (\<lambda>_. False), outcomes = (\<lambda>_. 0), fn_queue = [], fn_batch = [], running = False,
     active_coroutines = 0, awake = True, has_pending_fn = False, wake_count = 0\<rparr>"

definition el_wake :: "event_loop \<Rightarrow> event_loop" where
  "el_wake l = l\<lparr>wake_count := Suc (wake_count l)\<rparr>"

definition el_stop :: "event_loop \<Rightarrow> event_loop" where
  "el_stop l = el_wake (l\<lparr>running := False\<rparr>)"

definition cross_thread_wake_if_asleep :: "bool \<Rightarrow> event_loop \<Rightarrow> event_loop" where
  "cross_thread_wake_if_asleep same l =
     (if \<not> same \<and> running l
      then (let was_awake = awake l; l = l\<lparr>awake := True\<rparr> in if \<not> was_awake then el_wake l else l)
      else l)"

definition el_dispatch :: "bool \<Rightarrow> nat \<Rightarrow> event_loop \<Rightarrow> event_loop" where
  "el_dispatch same f l =
     cross_thread_wake_if_asleep same
       (l\<lparr>fn_queue := fn_queue l @ [f], has_pending_fn := True\<rparr>)"

definition push_ready :: "ready_entry \<Rightarrow> event_loop \<Rightarrow> event_loop" where
  "push_ready e l = l\<lparr>ready_queue := rq_push e (ready_queue l)\<rparr>"

definition el_schedule :: "bool \<Rightarrow> handle \<Rightarrow> event_loop \<Rightarrow> event_loop" where
  "el_schedule same h l =
     (if h = null_handle then l
      else (case try_reserve h (frames l) of
              (None, _) \<Rightarrow> l
            | (Some e, ft) \<Rightarrow>
                cross_thread_wake_if_asleep same (push_ready e (l\<lparr>frames := ft\<rparr>))))"

definition el_begin_wait :: "handle \<Rightarrow> event_loop \<Rightarrow> u64 \<times> event_loop" where
  "el_begin_wait h l =
     (case ft_begin_wait h (frames l) of (epoch, ft) \<Rightarrow> (epoch, l\<lparr>frames := ft\<rparr>))"

definition el_end_wait :: "handle \<Rightarrow> u64 \<Rightarrow> event_loop \<Rightarrow> event_loop" where
  "el_end_wait h epoch l =
     (if h = null_handle \<or> epoch = 0 then l else l\<lparr>frames := ft_end_wait h epoch (frames l)\<rparr>)"

definition el_schedule_if_current ::
  "bool \<Rightarrow> handle \<Rightarrow> u64 \<Rightarrow> event_loop \<Rightarrow> bool \<times> event_loop" where
  "el_schedule_if_current same h epoch l =
     (if h = null_handle then (False, l)
      else (case try_reserve_if_current h epoch (frames l) of
              (None, _) \<Rightarrow> (False, l)
            | (Some e, ft) \<Rightarrow>
                (True, cross_thread_wake_if_asleep same (push_ready e (l\<lparr>frames := ft\<rparr>)))))"

definition el_is_wait_current :: "handle \<Rightarrow> u64 \<Rightarrow> event_loop \<Rightarrow> bool" where
  "el_is_wait_current h epoch l \<longleftrightarrow>
     (if h = null_handle \<or> epoch = 0 then False else wait_is_current h epoch (frames l))"

definition el_schedule_timer ::
  "handle \<Rightarrow> time \<Rightarrow> nat option \<Rightarrow> nat option \<Rightarrow> int \<Rightarrow> event_loop \<Rightarrow> event_loop" where
  "el_schedule_timer h deadline tok out v l =
     (if h = null_handle then l
      else (case generation_of h (frames l) of
              None \<Rightarrow> l
            | Some gen \<Rightarrow>
                l\<lparr>timer_heap := th_push
                    \<lparr>te_deadline = deadline, te_entry = \<lparr>re_handle = h, re_generation = gen\<rparr>,
                     te_token = tok, te_outcome = out, te_expire_value = v\<rparr> (timer_heap l)\<rparr>))"

text \<open>Due entries go through the same idempotence check as \<open>schedule\<close>.\<close>

definition enqueue_expired :: "ready_entry \<Rightarrow> event_loop \<Rightarrow> event_loop" where
  "enqueue_expired e l =
     (case try_reserve_entry e (frames l) of
        (False, _) \<Rightarrow> l
      | (True, ft) \<Rightarrow> push_ready e (l\<lparr>frames := ft\<rparr>))"

definition process_timers :: "time \<Rightarrow> event_loop \<Rightarrow> event_loop" where
  "process_timers now l =
     (case th_drain now (tokens l) (outcomes l) (timer_heap l) of
        (expired, out', th') \<Rightarrow>
          fold enqueue_expired expired (l\<lparr>timer_heap := th', outcomes := out'\<rparr>))"

definition has_active_coroutines :: "event_loop \<Rightarrow> bool" where
  "has_active_coroutines l \<longleftrightarrow> active_coroutines l > 0"

text \<open>\<open>io\<close> is what the event source answers to \<open>has_pending()\<close>.\<close>

definition has_work :: "bool \<Rightarrow> event_loop \<Rightarrow> bool" where
  "has_work io l \<longleftrightarrow>
     \<not> rq_empty (ready_queue l) \<or> \<not> rq_empty (batch l) \<or> fn_queue l \<noteq> [] \<or> fn_batch l \<noteq> [] \<or>
     th_heap (timer_heap l) \<noteq> [] \<or> io \<or> has_active_coroutines l"

definition on_coroutine_started :: "handle \<Rightarrow> event_loop \<Rightarrow> event_loop" where
  "on_coroutine_started h l =
     l\<lparr>frames := snd (ft_add h (frames l)), active_coroutines := active_coroutines l + 1\<rparr>"

definition on_coroutine_finished :: "handle \<Rightarrow> event_loop \<Rightarrow> event_loop" where
  "on_coroutine_finished h l =
     l\<lparr>frames := ft_remove h (frames l), active_coroutines := active_coroutines l - 1\<rparr>"

definition el_mark_abandoned :: "handle \<Rightarrow> event_loop \<Rightarrow> bool \<times> event_loop" where
  "el_mark_abandoned h l =
     (case ft_mark_abandoned h (frames l) of (b, ft) \<Rightarrow> (b, l\<lparr>frames := ft\<rparr>))"

definition el_mark_io_abandoned :: "handle \<Rightarrow> event_loop \<Rightarrow> event_loop" where
  "el_mark_io_abandoned h l = l\<lparr>frames := ft_mark_io_abandoned h (frames l)\<rparr>"

definition el_is_abandoned :: "handle \<Rightarrow> event_loop \<Rightarrow> bool" where
  "el_is_abandoned h l = ft_is_abandoned h (frames l)"

definition el_set_token :: "nat \<Rightarrow> event_loop \<Rightarrow> event_loop" where
  "el_set_token t l = l\<lparr>tokens := (tokens l)(t := True)\<rparr>"

lemmas el_defs =
  el_wake_def el_stop_def cross_thread_wake_if_asleep_def el_dispatch_def push_ready_def
  el_schedule_def el_begin_wait_def el_end_wait_def el_schedule_if_current_def
  el_schedule_timer_def enqueue_expired_def on_coroutine_started_def on_coroutine_finished_def
  el_mark_abandoned_def el_mark_io_abandoned_def el_set_token_def

subsection \<open>Several loops\<close>

text \<open>One loop per thread. A waiter remembers the loop it suspended on; loop \<open>0\<close> is the null
  pointer. \<open>cur\<close> is the loop of the calling thread, \<open>EventLoop::get()\<close>.\<close>

type_synonym loops = "nat \<Rightarrow> event_loop"

definition schedule_on :: "nat \<Rightarrow> nat \<Rightarrow> handle \<Rightarrow> loops \<Rightarrow> loops" where
  "schedule_on cur k h W = W(k := el_schedule (cur = k) h (W k))"

definition schedule_if_current_on :: "nat \<Rightarrow> nat \<Rightarrow> handle \<Rightarrow> u64 \<Rightarrow> loops \<Rightarrow> loops" where
  "schedule_if_current_on cur k h epoch W =
     W(k := snd (el_schedule_if_current (cur = k) h epoch (W k)))"

definition begin_wait_on :: "nat \<Rightarrow> handle \<Rightarrow> loops \<Rightarrow> u64 \<times> loops" where
  "begin_wait_on k h W = (case el_begin_wait h (W k) of (epoch, l) \<Rightarrow> (epoch, W(k := l)))"

definition end_wait_on :: "nat \<Rightarrow> handle \<Rightarrow> u64 \<Rightarrow> loops \<Rightarrow> loops" where
  "end_wait_on k h epoch W = W(k := el_end_wait h epoch (W k))"

definition is_wait_current_on :: "nat \<Rightarrow> handle \<Rightarrow> u64 \<Rightarrow> loops \<Rightarrow> bool" where
  "is_wait_current_on k h epoch W = el_is_wait_current h epoch (W k)"

subsection \<open>Queued at most once\<close>

text \<open>
  The invariant behind "no double resume": the entries waiting in the batch and in the ready queue
  are distinct, their generations have been handed out, and an entry of the frame now living at its
  address has that frame's \<open>scheduled\<close> flag set.
\<close>

definition queued :: "event_loop \<Rightarrow> ready_entry list" where
  "queued l = rq_list (batch l) @ rq_list (ready_queue l)"

definition current_entry :: "frame_tracker \<Rightarrow> ready_entry \<Rightarrow> bool" where
  "current_entry ft e =
     (case live_frames ft (re_handle e) of None \<Rightarrow> False
      | Some st \<Rightarrow> fs_generation st = re_generation e)"

definition loop_inv :: "event_loop \<Rightarrow> bool" where
  "loop_inv l \<longleftrightarrow>
     rq_wf (ready_queue l) \<and> rq_wf (batch l) \<and> ft_wf (frames l) \<and> distinct (queued l) \<and>
     (\<forall>e\<in>set (queued l). re_generation e \<le> next_generation (frames l)) \<and>
     (\<forall>e\<in>set (queued l). \<forall>st. live_frames (frames l) (re_handle e) = Some st \<longrightarrow>
        fs_generation st = re_generation e \<longrightarrow> fs_scheduled st)"

lemma loop_inv_new: "loop_inv el_new"
  by (simp add: loop_inv_def el_new_def queued_def ft_wf_new)

lemma cross_thread_wake_frame [simp]:
  "ready_queue (cross_thread_wake_if_asleep same l) = ready_queue l"
  "batch (cross_thread_wake_if_asleep same l) = batch l"
  "frames (cross_thread_wake_if_asleep same l) = frames l"
  "timer_heap (cross_thread_wake_if_asleep same l) = timer_heap l"
  "tokens (cross_thread_wake_if_asleep same l) = tokens l"
  "outcomes (cross_thread_wake_if_asleep same l) = outcomes l"
  "fn_queue (cross_thread_wake_if_asleep same l) = fn_queue l"
  "fn_batch (cross_thread_wake_if_asleep same l) = fn_batch l"
  "running (cross_thread_wake_if_asleep same l) = running l"
  "active_coroutines (cross_thread_wake_if_asleep same l) = active_coroutines l"
  by (simp_all add: cross_thread_wake_if_asleep_def el_wake_def Let_def)

text \<open>\<open>loop_inv\<close> looks at four fields only.\<close>

lemma loop_inv_cong:
  "ready_queue l' = ready_queue l \<Longrightarrow> batch l' = batch l \<Longrightarrow> frames l' = frames l \<Longrightarrow>
   loop_inv l' = loop_inv l"
  by (simp add: loop_inv_def queued_def)

lemma loop_inv_other_fields [simp]:
  "loop_inv (l\<lparr>timer_heap := th\<rparr>) = loop_inv l" "loop_inv (l\<lparr>tokens := tk\<rparr>) = loop_inv l"
  "loop_inv (l\<lparr>outcomes := out\<rparr>) = loop_inv l" "loop_inv (l\<lparr>fn_queue := fs\<rparr>) = loop_inv l"
  "loop_inv (l\<lparr>fn_batch := fs\<rparr>) = loop_inv l" "loop_inv (l\<lparr>running := r\<rparr>) = loop_inv l"
  "loop_inv (l\<lparr>active_coroutines := n\<rparr>) = loop_inv l" "loop_inv (l\<lparr>awake := b\<rparr>) = loop_inv l"
  "loop_inv (l\<lparr>has_pending_fn := b\<rparr>) = loop_inv l" "loop_inv (l\<lparr>wake_count := k\<rparr>) = loop_inv l"
  by (rule loop_inv_cong; simp)+

lemma loop_inv_wake [simp]: "loop_inv (cross_thread_wake_if_asleep same l) = loop_inv l"
  by (rule loop_inv_cong) simp_all

text \<open>Reserving a live, unscheduled frame and pushing its entry keeps the invariant: this is the
  step \<open>schedule\<close>, \<open>schedule_if_current\<close> and \<open>process_timers\<close> share.\<close>

lemma loop_inv_reserve:
  assumes inv: "loop_inv l" and live: "live_frames (frames l) h = Some st"
    and free: "\<not> fs_scheduled st"
  shows "loop_inv (push_ready \<lparr>re_handle = h, re_generation = fs_generation st\<rparr>
           (l\<lparr>frames := set_frame h (st\<lparr>fs_scheduled := True\<rparr>) (frames l)\<rparr>))"
proof -
  let ?e = "\<lparr>re_handle = h, re_generation = fs_generation st\<rparr>"
  have "?e \<notin> set (queued l)"
    using inv live free by (fastforce simp: loop_inv_def)
  moreover have "fs_generation st \<le> next_generation (frames l)"
    using inv live by (auto simp: loop_inv_def ft_wf_def)
  ultimately show ?thesis
    using inv live by (auto simp: loop_inv_def queued_def push_ready_def set_frame_def ft_wf_def)
qed

lemma try_reserve_Some:
  "try_reserve h ft = (Some e, ft') \<Longrightarrow>
   \<exists>st. live_frames ft h = Some st \<and> \<not> fs_scheduled st \<and>
     e = \<lparr>re_handle = h, re_generation = fs_generation st\<rparr> \<and>
     ft' = set_frame h (st\<lparr>fs_scheduled := True\<rparr>) ft"
  by (auto simp: try_reserve_def split: option.splits if_splits)

lemma try_reserve_if_current_Some:
  "try_reserve_if_current h ep ft = (Some e, ft') \<Longrightarrow>
   \<exists>st. live_frames ft h = Some st \<and> \<not> fs_scheduled st \<and> fs_wait_epoch st = ep \<and>
     e = \<lparr>re_handle = h, re_generation = fs_generation st\<rparr> \<and>
     ft' = set_frame h (st\<lparr>fs_scheduled := True\<rparr>) ft"
  by (auto simp: try_reserve_if_current_def split: option.splits if_splits)

lemma try_reserve_entry_True:
  "try_reserve_entry e ft = (True, ft') \<Longrightarrow>
   \<exists>st. live_frames ft (re_handle e) = Some st \<and> \<not> fs_scheduled st \<and>
     re_generation e = fs_generation st \<and>
     ft' = set_frame (re_handle e) (st\<lparr>fs_scheduled := True\<rparr>) ft"
  by (auto simp: try_reserve_entry_def split: option.splits if_splits)

lemma loop_inv_schedule: "loop_inv l \<Longrightarrow> loop_inv (el_schedule same h l)"
  by (auto simp: el_schedule_def split: prod.splits option.splits
      dest!: try_reserve_Some intro: loop_inv_reserve)

lemma loop_inv_schedule_if_current:
  "loop_inv l \<Longrightarrow> loop_inv (snd (el_schedule_if_current same h ep l))"
  by (auto simp: el_schedule_if_current_def split: prod.splits option.splits
      dest!: try_reserve_if_current_Some intro: loop_inv_reserve)

lemma loop_inv_enqueue_expired: "loop_inv l \<Longrightarrow> loop_inv (enqueue_expired e l)"
proof (cases "try_reserve_entry e (frames l)")
  case (Pair b ft)
  assume inv: "loop_inv l"
  show ?thesis
  proof (cases b)
    case True
    with Pair obtain st where st: "live_frames (frames l) (re_handle e) = Some st"
      "\<not> fs_scheduled st" "re_generation e = fs_generation st"
      "ft = set_frame (re_handle e) (st\<lparr>fs_scheduled := True\<rparr>) (frames l)"
      using try_reserve_entry_True [of e "frames l" ft] by auto
    have e: "e = \<lparr>re_handle = re_handle e, re_generation = fs_generation st\<rparr>"
      using st(3) by simp
    show ?thesis
      using loop_inv_reserve [OF inv st(1,2)] Pair True st(4)
      by (simp add: enqueue_expired_def flip: e)
  qed (use inv Pair in \<open>simp add: enqueue_expired_def\<close>)
qed

lemma loop_inv_fold_enqueue: "loop_inv l \<Longrightarrow> loop_inv (fold enqueue_expired es l)"
  by (induction es arbitrary: l) (auto simp: loop_inv_enqueue_expired)

lemma loop_inv_process_timers: "loop_inv l \<Longrightarrow> loop_inv (process_timers now l)"
  by (simp add: process_timers_def loop_inv_fold_enqueue split: prod.split)

lemma queued_before_next:
  "loop_inv l \<Longrightarrow> counters_left (frames l) \<Longrightarrow> e \<in> set (queued l) \<Longrightarrow>
   re_generation e < next_generation (frames l) + 1"
  using word_less_Suc [of "next_generation (frames l)"]
  by (fastforce simp: loop_inv_def counters_left_def intro: order_le_less_trans)

lemma loop_inv_started:
  assumes inv: "loop_inv l" and left: "counters_left (frames l)"
  shows "loop_inv (on_coroutine_started h l)"
proof -
  have "loop_inv (l\<lparr>frames := snd (ft_add h (frames l))\<rparr>)"
    using inv ft_wf_add [OF _ left, of h] queued_before_next [OF inv left]
    by (fastforce simp: loop_inv_def queued_def ft_add_def new_frame_state_def Let_def
        split: option.splits intro: order_less_imp_le)
  then show ?thesis by (simp add: on_coroutine_started_def)
qed

lemma loop_inv_frames:
  assumes "loop_inv l" "ft_wf ft" "next_generation ft = next_generation (frames l)"
    and "\<And>h st. live_frames ft h = Some st \<Longrightarrow>
          \<exists>st'. live_frames (frames l) h = Some st' \<and> fs_generation st' = fs_generation st \<and>
            (fs_scheduled st' \<longrightarrow> fs_scheduled st)"
  shows "loop_inv (l\<lparr>frames := ft\<rparr>)"
  using assms by (fastforce simp: loop_inv_def queued_def)

lemma loop_inv_finished: "loop_inv l \<Longrightarrow> loop_inv (on_coroutine_finished h l)"
proof -
  assume inv: "loop_inv l"
  then have "ft_wf (ft_remove h (frames l))"
    by (intro ft_wf_others) (simp add: loop_inv_def)
  with inv have "loop_inv (l\<lparr>frames := ft_remove h (frames l)\<rparr>)"
    by (rule loop_inv_frames) (auto simp: ft_remove_def split: if_splits)
  then show ?thesis by (simp add: on_coroutine_finished_def)
qed

lemma loop_inv_waits:
  assumes "loop_inv l"
  shows "counters_left (frames l) \<Longrightarrow> loop_inv (snd (el_begin_wait h l))"
    and "loop_inv (el_end_wait h ep l)"
proof -
  have wf: "ft_wf (frames l)" using assms by (simp add: loop_inv_def)
  show "counters_left (frames l) \<Longrightarrow> loop_inv (snd (el_begin_wait h l))"
    using ft_wf_begin_wait [OF wf] assms
    by (auto simp: el_begin_wait_def case_prod_unfold intro!: loop_inv_frames)
      (auto simp: ft_begin_wait_def set_frame_def Let_def split: option.splits if_splits)
  show "loop_inv (el_end_wait h ep l)"
    using ft_wf_others(6) [OF wf] assms
    by (auto simp: el_end_wait_def intro!: loop_inv_frames)
      (auto simp: ft_end_wait_def set_frame_def split: option.splits if_splits)
qed

lemma loop_inv_abandon:
  assumes "loop_inv l"
  shows "loop_inv (snd (el_mark_abandoned h l))" "loop_inv (el_mark_io_abandoned h l)"
proof -
  have wf: "ft_wf (frames l)" using assms by (simp add: loop_inv_def)
  show "loop_inv (snd (el_mark_abandoned h l))"
    using ft_wf_others(7) [OF wf] assms
    by (auto simp: el_mark_abandoned_def case_prod_unfold intro!: loop_inv_frames)
      (auto simp: ft_mark_abandoned_def split: option.splits if_splits)
  show "loop_inv (el_mark_io_abandoned h l)"
    using ft_wf_others(8) [OF wf] assms
    by (auto simp: el_mark_io_abandoned_def intro!: loop_inv_frames)
      (auto simp: ft_mark_io_abandoned_def)
qed

lemma loop_inv_misc:
  "loop_inv (el_wake l) = loop_inv l" "loop_inv (el_stop l) = loop_inv l"
  "loop_inv (el_dispatch same f l) = loop_inv l"
  "loop_inv (el_schedule_timer h d tok out v l) = loop_inv l"
  "loop_inv (el_set_token t l) = loop_inv l"
  by (auto simp: el_wake_def el_stop_def el_dispatch_def el_schedule_timer_def el_set_token_def
      split: option.split)

end
