(* ===== verification/Loop_Run.thy ===== *)
theory Loop_Run
  imports Event_Loop
begin

section \<open>Driving the event loop\<close>

text \<open>
  \<open>EventLoop::run_impl\<close> of include/coro/event_loop.hpp. What the loop calls and does not own is a
  parameter: the clock, the event source (\<open>has_pending\<close>, \<open>wait_for\<close>), the dispatched functions and
  the coroutine bodies (\<open>resume\<close>, \<open>done\<close>, \<open>destroy\<close>). Their only documented duty, \<open>env_ok\<close>, is that
  they reach the loop through its public interface, the relation \<open>api_step\<close>. The thread-local
  binding (\<open>t_current_loop\<close>, \<open>t_current_task\<close>) is part of the state. The outer loop may run for
  ever, so it has fuel; the two inner loops take the length of the batch they empty as fuel, which
  \<open>run_fns_total\<close> and \<open>consume_batch_total\<close> show to be enough.
\<close>

record 'w run_state =
  rs_env :: 'w
  rs_loop :: event_loop
  tls_loop :: nat
  tls_task :: handle

record 'w env_ops =
  clock_now :: "'w \<Rightarrow> time \<times> 'w"
  io_has_pending :: "'w \<Rightarrow> bool"
  source_wait :: "time option \<Rightarrow> 'w run_state \<Rightarrow> 'w run_state"
  call_fn :: "nat \<Rightarrow> 'w run_state \<Rightarrow> 'w run_state \<times> coro_error option"
  resume_frame :: "handle \<Rightarrow> 'w run_state \<Rightarrow> 'w run_state \<times> coro_error option"
  frame_done :: "handle \<Rightarrow> 'w \<Rightarrow> bool"
  destroy_frame :: "handle \<Rightarrow> 'w run_state \<Rightarrow> 'w run_state"

definition on_loop :: "(event_loop \<Rightarrow> event_loop) \<Rightarrow> 'w run_state \<Rightarrow> 'w run_state" where
  "on_loop f s = s\<lparr>rs_loop := f (rs_loop s)\<rparr>"

text \<open>Step 0: take the dispatched functions over when none is left over, then call them; one that
  throws has been removed already.\<close>

definition take_fns :: "event_loop \<Rightarrow> event_loop" where
  "take_fns l =
     (if fn_batch l = [] \<and> has_pending_fn l
      then l\<lparr>has_pending_fn := False, fn_batch := fn_queue l, fn_queue := []\<rparr> else l)"

fun run_fns :: "'w env_ops \<Rightarrow> nat \<Rightarrow> 'w run_state \<Rightarrow> ('w run_state \<times> coro_error option) option" where
  "run_fns E n s =
     (case fn_batch (rs_loop s) of
        [] \<Rightarrow> Some (s, None)
      | f # fs \<Rightarrow>
          (case n of
             0 \<Rightarrow> None
           | Suc m \<Rightarrow>
               (case call_fn E f (on_loop (\<lambda>l. l\<lparr>fn_batch := fs\<rparr>) s) of
                  (s', Some err) \<Rightarrow> Some (s', Some err)
                | (s', None) \<Rightarrow> run_fns E m s')))"

text \<open>Step 2: poll the source for fairness when there is ready work, then go to sleep if there is
  none. \<open>None\<close> says that nothing is left to wait for.\<close>

definition ceil_ms :: "time \<Rightarrow> time" where
  "ceil_ms d = - ((- d) div 1000000)"

definition poll_source :: "'w env_ops \<Rightarrow> 'w run_state \<Rightarrow> 'w run_state" where
  "poll_source E s =
     (if (\<not> rq_empty (ready_queue (rs_loop s)) \<or> \<not> rq_empty (batch (rs_loop s)))
         \<and> io_has_pending E (rs_env s)
      then source_wait E (Some 0) s else s)"

definition set_awake :: "bool \<Rightarrow> 'w run_state \<Rightarrow> 'w run_state" where
  "set_awake b = on_loop (\<lambda>l. l\<lparr>awake := b\<rparr>)"

definition sleep_phase :: "'w env_ops \<Rightarrow> bool \<Rightarrow> time \<Rightarrow> 'w run_state \<Rightarrow> bool \<times> 'w run_state" where
  "sleep_phase E stay now s =
     (let s = set_awake False s; l = rs_loop s
      in if \<not> (rq_empty (ready_queue l) \<and> rq_empty (batch l) \<and> fn_queue l = [])
         then (True, set_awake True s)
         else (case heap_top (th_heap (timer_heap l)) of
                 Some e \<Rightarrow>
                   (let s = (if te_deadline e > now
                             then source_wait E (Some (ceil_ms (te_deadline e - now))) s else s)
                    in (True, set_awake True s))
               | None \<Rightarrow>
                   if stay \<or> io_has_pending E (rs_env s) \<or> has_active_coroutines l
                   then (True, set_awake True (source_wait E None s))
                   else (False, set_awake True s)))"

text \<open>Step 3: take the whole ready queue over and resume its entries in order. An entry whose frame
  is gone or replaced is skipped, a frame that is done is left alone, an abandoned one destroyed.\<close>

definition take_batch :: "event_loop \<Rightarrow> event_loop" where
  "take_batch l =
     (if rq_empty (batch l)
      then (case rq_swap (batch l) (ready_queue l) of (b, r) \<Rightarrow> l\<lparr>batch := b, ready_queue := r\<rparr>)
      else l)"

definition pop_batch :: "ready_entry \<Rightarrow> event_loop \<Rightarrow> bool \<times> event_loop" where
  "pop_batch e l =
     (let l = l\<lparr>batch := rq_pop (batch l)\<rparr>
      in case ft_release e (frames l) of
           (False, _) \<Rightarrow> (False, l)
         | (True, ft) \<Rightarrow> (True, l\<lparr>frames := ft\<rparr>))"

definition drop_abandoned :: "handle \<Rightarrow> event_loop \<Rightarrow> event_loop" where
  "drop_abandoned h l =
     (let l = on_coroutine_finished h l
      in l\<lparr>frames := ft_cleanup_abandoned h (frames l)\<rparr>)"

fun consume_batch ::
  "'w env_ops \<Rightarrow> nat \<Rightarrow> 'w run_state \<Rightarrow> ('w run_state \<times> coro_error option) option" where
  "consume_batch E n s =
     (case rq_front (batch (rs_loop s)) of
        None \<Rightarrow> Some (s, None)
      | Some e \<Rightarrow>
          (case n of
             0 \<Rightarrow> None
           | Suc m \<Rightarrow>
               (let h = re_handle e; (ok, l) = pop_batch e (rs_loop s); s = s\<lparr>rs_loop := l\<rparr>
                in if \<not> ok then consume_batch E m s
                   else if h = null_handle \<or> frame_done E h (rs_env s) then consume_batch E m s
                   else if el_is_abandoned h l
                   then consume_batch E m (destroy_frame E h (on_loop (drop_abandoned h) s))
                   else (case resume_frame E h (s\<lparr>tls_task := h\<rparr>) of
                           (s, Some err) \<Rightarrow> Some (s, Some err)
                         | (s, None) \<Rightarrow> consume_batch E m (s\<lparr>tls_task := null_handle\<rparr>)))))"

text \<open>One turn of the outer loop and the loop itself.\<close>

datatype 'w turn = Again "'w run_state" | Leave "'w run_state" | Raise coro_error "'w run_state"

definition run_turn :: "'w env_ops \<Rightarrow> bool \<Rightarrow> 'w run_state \<Rightarrow> 'w turn option" where
  "run_turn E stay s =
     (if \<not> stay \<and> \<not> has_work (io_has_pending E (rs_env s)) (rs_loop s) then Some (Leave s)
      else
        (let s = on_loop take_fns s
         in case run_fns E (length (fn_batch (rs_loop s))) s of
              None \<Rightarrow> None
            | Some (s, Some err) \<Rightarrow> Some (Raise err s)
            | Some (s, None) \<Rightarrow>
                (case clock_now E (rs_env s) of
                   (now, w) \<Rightarrow>
                     (let s = on_loop (process_timers now) (s\<lparr>rs_env := w\<rparr>);
                          s = poll_source E s
                      in case sleep_phase E stay now s of
                           (False, s) \<Rightarrow> Some (Leave s)
                         | (True, s) \<Rightarrow>
                             (let s = on_loop take_batch s
                              in case consume_batch E (length (rq_list (batch (rs_loop s)))) s of
                                   None \<Rightarrow> None
                                 | Some (s, Some err) \<Rightarrow> Some (Raise err s)
                                 | Some (s, None) \<Rightarrow> Some (Again s))))))"

fun run_loop ::
  "'w env_ops \<Rightarrow> bool \<Rightarrow> nat \<Rightarrow> 'w run_state \<Rightarrow> ('w run_state \<times> coro_error option) option" where
  "run_loop E stay n s =
     (if \<not> running (rs_loop s) then Some (s, None)
      else (case n of
              0 \<Rightarrow> None
            | Suc m \<Rightarrow>
                (case run_turn E stay s of
                   None \<Rightarrow> None
                 | Some (Leave s') \<Rightarrow> Some (s', None)
                 | Some (Raise err s') \<Rightarrow> Some (s', Some err)
                 | Some (Again s') \<Rightarrow> run_loop E stay m s')))"

definition run_impl ::
  "'w env_ops \<Rightarrow> bool \<Rightarrow> nat \<Rightarrow> nat \<Rightarrow> 'w run_state \<Rightarrow> ('w run_state \<times> coro_error option) option" where
  "run_impl E stay me n s =
     (if running (rs_loop s) then Some (s, Some RuntimeError)
      else
        (let previous_loop = tls_loop s; previous_task = tls_task s;
             s = on_loop (\<lambda>l. l\<lparr>running := True, awake := True\<rparr>) s;
             s = s\<lparr>tls_loop := me, tls_task := null_handle\<rparr>
         in case run_loop E stay n s of
              None \<Rightarrow> None
            | Some (s, err) \<Rightarrow>
                Some ((on_loop (\<lambda>l. l\<lparr>running := False, awake := True\<rparr>) s)
                        \<lparr>tls_loop := previous_loop, tls_task := previous_task\<rparr>, err)))"

declare run_fns.simps [simp del] consume_batch.simps [simp del] run_loop.simps [simp del]

subsection \<open>The interface coroutines and callbacks use\<close>

inductive api_step :: "event_loop \<Rightarrow> event_loop \<Rightarrow> bool" where
  api_schedule: "api_step l (el_schedule same h l)"
| api_schedule_if_current: "api_step l (snd (el_schedule_if_current same h ep l))"
| api_begin_wait: "counters_left (frames l) \<Longrightarrow> api_step l (snd (el_begin_wait h l))"
| api_end_wait: "api_step l (el_end_wait h ep l)"
| api_schedule_timer: "api_step l (el_schedule_timer h d tok out v l)"
| api_started: "counters_left (frames l) \<Longrightarrow> api_step l (on_coroutine_started h l)"
| api_finished: "api_step l (on_coroutine_finished h l)"
| api_mark_abandoned: "api_step l (snd (el_mark_abandoned h l))"
| api_mark_io_abandoned: "api_step l (el_mark_io_abandoned h l)"
| api_dispatch: "api_step l (el_dispatch same f l)"
| api_set_token: "api_step l (el_set_token t l)"
| api_set_outcome: "api_step l (l\<lparr>outcomes := out\<rparr>)"
| api_stop: "api_step l (el_stop l)"
| api_wake: "api_step l (el_wake l)"

text \<open>The steps of the whole loop: the interface and the moves of the driver.\<close>

inductive loop_step :: "event_loop \<Rightarrow> event_loop \<Rightarrow> bool" where
  loop_api: "api_step l l' \<Longrightarrow> loop_step l l'"
| loop_take_fns: "loop_step l (take_fns l)"
| loop_timers: "loop_step l (process_timers now l)"
| loop_take_batch: "loop_step l (take_batch l)"
| loop_pop: "rq_front (batch l) = Some e \<Longrightarrow> loop_step l (snd (pop_batch e l))"
| loop_drop: "loop_step l (drop_abandoned h l)"
| loop_flags: "loop_step l (l\<lparr>running := r, awake := a\<rparr>)"

lemma api_step_inv: "api_step l l' \<Longrightarrow> loop_inv l \<Longrightarrow> loop_inv l'"
  by (induction rule: api_step.induct)
    (auto simp: loop_inv_misc loop_inv_schedule loop_inv_schedule_if_current loop_inv_waits
      loop_inv_started loop_inv_finished loop_inv_abandon)

lemma api_step_batches: "api_step l l' \<Longrightarrow> batch l' = batch l \<and> fn_batch l' = fn_batch l"
  by (induction rule: api_step.induct) (auto simp: el_defs Let_def split: option.split prod.split)

lemma api_steps_inv: "api_step\<^sup>*\<^sup>* l l' \<Longrightarrow> loop_inv l \<Longrightarrow> loop_inv l'"
  by (induction rule: rtranclp_induct) (auto dest: api_step_inv)

lemma api_steps_batches: "api_step\<^sup>*\<^sup>* l l' \<Longrightarrow> batch l' = batch l \<and> fn_batch l' = fn_batch l"
  by (induction rule: rtranclp_induct) (auto dest: api_step_batches)

lemma loop_inv_take_batch: "loop_inv l \<Longrightarrow> loop_inv (take_batch l)"
  by (auto simp: take_batch_def rq_swap_def loop_inv_def queued_def rq.empty_contents)

lemma loop_inv_pop:
  assumes inv: "loop_inv l" and front: "rq_front (batch l) = Some e"
  shows "loop_inv (snd (pop_batch e l))"
proof -
  have wf: "rq_wf (batch l)" using inv by (simp add: loop_inv_def)
  with front obtain es where es: "rq_list (batch l) = e # es"
    by (auto simp: rq.front_contents split: list.splits)
  let ?l = "l\<lparr>batch := rq_pop (batch l)\<rparr>"
  have q: "queued l = e # queued ?l" and inv': "loop_inv ?l"
    using inv es wf by (auto simp: loop_inv_def queued_def)
  have "e \<notin> set (queued ?l)" using inv q by (simp add: loop_inv_def)
  then have other: "\<forall>x\<in>set (queued ?l). re_handle x = re_handle e \<longrightarrow> re_generation x \<noteq> re_generation e"
    using ready_entry_eqI by blast
  from inv' ft_wf_others(4) [of "frames l" e] other show ?thesis
    by (cases "live_frames (frames l) (re_handle e)")
      (auto simp: pop_batch_def ft_release_def set_frame_def loop_inv_def queued_def Let_def)
qed

lemma loop_inv_drop: "loop_inv l \<Longrightarrow> loop_inv (drop_abandoned h l)"
proof -
  assume "loop_inv l"
  then have inv: "loop_inv (on_coroutine_finished h l)" by (rule loop_inv_finished)
  then have "ft_wf (ft_cleanup_abandoned h (frames (on_coroutine_finished h l)))"
    by (intro ft_wf_others) (simp add: loop_inv_def)
  with inv show ?thesis
    unfolding drop_abandoned_def Let_def
    by (rule loop_inv_frames) (auto simp: ft_cleanup_abandoned_def)
qed

lemma loop_step_inv: "loop_step l l' \<Longrightarrow> loop_inv l \<Longrightarrow> loop_inv l'"
  by (induction rule: loop_step.induct)
    (auto simp: api_step_inv loop_inv_process_timers loop_inv_take_batch loop_inv_pop loop_inv_drop
      take_fns_def)

interpretation loop_sys: inductive_invariant "\<lambda>l. l = el_new" loop_step loop_inv
  by unfold_locales (auto simp: loop_inv_new loop_step_inv)

subsection \<open>The driver keeps the invariant\<close>

text \<open>What the environment is trusted with: it acts on the loop through \<open>api_step\<close> only.\<close>

definition env_ok :: "'w env_ops \<Rightarrow> bool" where
  "env_ok E \<longleftrightarrow>
     (\<forall>d s. api_step\<^sup>*\<^sup>* (rs_loop s) (rs_loop (source_wait E d s))) \<and>
     (\<forall>f s. api_step\<^sup>*\<^sup>* (rs_loop s) (rs_loop (fst (call_fn E f s)))) \<and>
     (\<forall>h s. api_step\<^sup>*\<^sup>* (rs_loop s) (rs_loop (fst (resume_frame E h s)))) \<and>
     (\<forall>h s. api_step\<^sup>*\<^sup>* (rs_loop s) (rs_loop (destroy_frame E h s)))"

lemma env_okD:
  assumes "env_ok E"
  shows "api_step\<^sup>*\<^sup>* (rs_loop s) (rs_loop (source_wait E d s))"
    "call_fn E f s = (s', r) \<Longrightarrow> api_step\<^sup>*\<^sup>* (rs_loop s) (rs_loop s')"
    "resume_frame E h s = (s', r) \<Longrightarrow> api_step\<^sup>*\<^sup>* (rs_loop s) (rs_loop s')"
    "api_step\<^sup>*\<^sup>* (rs_loop s) (rs_loop (destroy_frame E h s))"
  using assms unfolding env_ok_def by (metis fst_conv)+

lemma on_loop_sel [simp]: "rs_loop (on_loop f s) = f (rs_loop s)" "rs_env (on_loop f s) = rs_env s"
  by (simp_all add: on_loop_def)

lemma run_fns_inv:
  assumes ok: "env_ok E"
  shows "loop_inv (rs_loop s) \<Longrightarrow> run_fns E n s = Some (s', r) \<Longrightarrow> loop_inv (rs_loop s')"
proof (induction n arbitrary: s)
  case 0
  then show ?case by (auto simp: run_fns.simps split: list.splits)
next
  case (Suc n)
  show ?case
  proof (cases "fn_batch (rs_loop s)")
    case Nil
    with Suc.prems show ?thesis by (simp add: run_fns.simps)
  next
    case (Cons f fs)
    obtain t e where te: "call_fn E f (on_loop (\<lambda>l. l\<lparr>fn_batch := fs\<rparr>) s) = (t, e)"
      by fastforce
    from api_steps_inv [OF env_okD(2) [OF ok te]] Suc.prems(1) have "loop_inv (rs_loop t)"
      by simp
    with Suc.prems(2) Suc.IH [of t] Cons te show ?thesis
      by (auto simp: run_fns.simps [of E "Suc n"] split: option.splits)
  qed
qed

text \<open>The fuel of the inner loop over the dispatched functions is enough, and they are all called.\<close>

lemma run_fns_total:
  assumes ok: "env_ok E"
  shows "length (fn_batch (rs_loop s)) \<le> n \<Longrightarrow>
    \<exists>s' r. run_fns E n s = Some (s', r) \<and> (r = None \<longrightarrow> fn_batch (rs_loop s') = [])"
proof (induction n arbitrary: s)
  case 0
  then show ?case by (simp add: run_fns.simps)
next
  case (Suc n)
  show ?case
  proof (cases "fn_batch (rs_loop s)")
    case Nil
    then show ?thesis by (simp add: run_fns.simps)
  next
    case (Cons f fs)
    obtain t e where te: "call_fn E f (on_loop (\<lambda>l. l\<lparr>fn_batch := fs\<rparr>) s) = (t, e)"
      by fastforce
    from api_steps_batches [OF env_okD(2) [OF ok te]] have "fn_batch (rs_loop t) = fs" by simp
    with Suc.IH [of t] Suc.prems Cons te show ?thesis
      by (cases e) (auto simp: run_fns.simps [of E "Suc n"])
  qed
qed

text \<open>What one entry of the batch does to the loop, and what the recursion continues with.\<close>

definition batch_step ::
  "'w env_ops \<Rightarrow> ready_entry \<Rightarrow> 'w run_state \<Rightarrow> 'w run_state \<times> coro_error option" where
  "batch_step E e s =
     (let h = re_handle e; (ok, l) = pop_batch e (rs_loop s); s = s\<lparr>rs_loop := l\<rparr>
      in if \<not> ok \<or> h = null_handle \<or> frame_done E h (rs_env s) then (s, None)
         else if el_is_abandoned h l then (destroy_frame E h (on_loop (drop_abandoned h) s), None)
         else (case resume_frame E h (s\<lparr>tls_task := h\<rparr>) of
                 (s, Some err) \<Rightarrow> (s, Some err)
               | (s, None) \<Rightarrow> (s\<lparr>tls_task := null_handle\<rparr>, None)))"

lemma consume_batch_unfold:
  "consume_batch E n s =
     (case rq_front (batch (rs_loop s)) of
        None \<Rightarrow> Some (s, None)
      | Some e \<Rightarrow>
          (case n of
             0 \<Rightarrow> None
           | Suc m \<Rightarrow>
               (case batch_step E e s of
                  (s', Some err) \<Rightarrow> Some (s', Some err)
                | (s', None) \<Rightarrow> consume_batch E m s')))"
  by (subst consume_batch.simps)
    (auto simp: batch_step_def Let_def split: option.split nat.split prod.split)

lemma batch_step_inv:
  assumes ok: "env_ok E" and inv: "loop_inv (rs_loop s)"
    and front: "rq_front (batch (rs_loop s)) = Some e" and st: "batch_step E e s = (s', r)"
  shows "loop_inv (rs_loop s') \<and> batch (rs_loop s') = rq_pop (batch (rs_loop s))"
proof -
  obtain b l where pb: "pop_batch e (rs_loop s) = (b, l)" by fastforce
  have l: "loop_inv l" "batch l = rq_pop (batch (rs_loop s))"
    using loop_inv_pop [OF inv front] pb
    by (auto simp: pop_batch_def Let_def split: prod.splits bool.splits)
  have d: "loop_inv (drop_abandoned h l)" "batch (drop_abandoned h l) = batch l" for h
    using l loop_inv_drop by (auto simp: drop_abandoned_def on_coroutine_finished_def Let_def)
  let ?h = "re_handle e" and ?s = "s\<lparr>rs_loop := l\<rparr>"
  consider (skip) "s' = ?s"
    | (abandoned) "s' = destroy_frame E ?h (on_loop (drop_abandoned ?h) ?s)"
    | (resumed) t q where "resume_frame E ?h (?s\<lparr>tls_task := ?h\<rparr>) = (t, q)" "rs_loop s' = rs_loop t"
    using st pb unfolding batch_step_def Let_def
    by (auto split: if_splits prod.splits option.splits)
  then show ?thesis
  proof cases
    case skip
    with l show ?thesis by simp
  next
    case abandoned
    with env_okD(4) [OF ok, of "on_loop (drop_abandoned ?h) ?s" ?h] d l show ?thesis
      using api_steps_inv api_steps_batches by fastforce
  next
    case resumed
    with env_okD(3) [OF ok resumed(1)] l show ?thesis
      using api_steps_inv api_steps_batches by fastforce
  qed
qed

lemma consume_batch_inv:
  assumes ok: "env_ok E"
  shows "loop_inv (rs_loop s) \<Longrightarrow> consume_batch E n s = Some (s', r) \<Longrightarrow> loop_inv (rs_loop s')"
proof (induction n arbitrary: s)
  case 0
  then show ?case by (auto simp: consume_batch_unfold split: option.splits)
next
  case (Suc n)
  then show ?case
    using batch_step_inv [OF ok Suc.prems(1)]
    by (subst (asm) (2) consume_batch_unfold) (fastforce split: option.splits prod.splits)
qed

lemma consume_batch_total:
  assumes ok: "env_ok E"
  shows "loop_inv (rs_loop s) \<Longrightarrow> length (rq_list (batch (rs_loop s))) \<le> n \<Longrightarrow>
    \<exists>s' r. consume_batch E n s = Some (s', r) \<and> (r = None \<longrightarrow> rq_list (batch (rs_loop s')) = [])"
proof (induction n arbitrary: s)
  case 0
  then show ?case
    by (subst consume_batch_unfold) (auto simp: rq.front_contents loop_inv_def)
next
  case (Suc n)
  have wf: "rq_wf (batch (rs_loop s))" using Suc.prems by (simp add: loop_inv_def)
  show ?case
  proof (cases "rq_list (batch (rs_loop s))")
    case Nil
    with wf show ?thesis by (subst consume_batch_unfold) (simp add: rq.front_contents)
  next
    case (Cons e es)
    with wf have front: "rq_front (batch (rs_loop s)) = Some e" by (simp add: rq.front_contents)
    obtain t r where st: "batch_step E e s = (t, r)" by fastforce
    from batch_step_inv [OF ok Suc.prems(1) front st] Cons wf Suc.prems Suc.IH [of t]
    show ?thesis
      by (subst consume_batch_unfold) (cases r, auto simp: front st)
  qed
qed

lemma poll_source_inv: "env_ok E \<Longrightarrow> loop_inv (rs_loop s) \<Longrightarrow> loop_inv (rs_loop (poll_source E s))"
  using env_okD(1) api_steps_inv by (fastforce simp: poll_source_def)

lemma sleep_phase_inv:
  assumes "env_ok E" "loop_inv (rs_loop s)"
  shows "loop_inv (rs_loop (snd (sleep_phase E stay now s)))"
proof -
  have *: "loop_inv (rs_loop (set_awake True (source_wait E d (set_awake False s))))" for d
    using api_steps_inv [OF env_okD(1) [OF assms(1), of "set_awake False s" d]] assms(2)
    by (simp add: set_awake_def)
  show ?thesis
    using * assms(2) by (simp add: sleep_phase_def set_awake_def Let_def split: option.split)
qed

lemma take_fns_inv: "loop_inv (take_fns l) = loop_inv l"
  by (simp add: take_fns_def)

definition turn_state :: "'w turn \<Rightarrow> 'w run_state" where
  "turn_state t = (case t of Again s \<Rightarrow> s | Leave s \<Rightarrow> s | Raise e s \<Rightarrow> s)"

lemma run_turn_inv:
  assumes ok: "env_ok E" and inv: "loop_inv (rs_loop s)" and t: "run_turn E stay s = Some t"
  shows "loop_inv (rs_loop (turn_state t))"
proof (cases "\<not> stay \<and> \<not> has_work (io_has_pending E (rs_env s)) (rs_loop s)")
  case True
  with t inv show ?thesis by (auto simp: run_turn_def turn_state_def)
next
  case False
  let ?s = "on_loop take_fns s"
  from t False obtain s2 r where f: "run_fns E (length (fn_batch (rs_loop ?s))) ?s = Some (s2, r)"
    by (auto simp: run_turn_def Let_def split: option.splits)
  have i2: "loop_inv (rs_loop s2)"
    using run_fns_inv [OF ok _ f] inv by (simp add: take_fns_inv)
  obtain now w where c: "clock_now E (rs_env s2) = (now, w)" by fastforce
  let ?s4 = "poll_source E (on_loop (process_timers now) (s2\<lparr>rs_env := w\<rparr>))"
  obtain b s5 where p: "sleep_phase E stay now ?s4 = (b, s5)" by fastforce
  have i5: "loop_inv (rs_loop s5)"
    using sleep_phase_inv [OF ok poll_source_inv [OF ok], of _ stay now] p i2
      loop_inv_process_timers by (metis (no_types, lifting) on_loop_sel(1) run_state.select_convs(2)
        run_state.surjective run_state.update_convs(1) snd_conv)
  show ?thesis
  proof (cases "r = None \<and> b")
    case True
    let ?s6 = "on_loop take_batch s5"
    from t False f c p True
    obtain s7 q where b: "consume_batch E (length (rq_list (batch (rs_loop ?s6)))) ?s6 = Some (s7, q)"
      and t7: "turn_state t = s7"
      by (auto simp: run_turn_def Let_def turn_state_def split: option.splits)
    have "loop_inv (rs_loop s7)"
      using consume_batch_inv [OF ok _ b] i5 by (simp add: loop_inv_take_batch)
    with t7 show ?thesis by simp
  next
    case nb: False
    with t False f c p have "turn_state t = s2 \<or> turn_state t = s5"
      by (auto simp: run_turn_def Let_def turn_state_def split: option.splits bool.splits)
    with i2 i5 show ?thesis by auto
  qed
qed

lemma run_loop_inv:
  "env_ok E \<Longrightarrow> loop_inv (rs_loop s) \<Longrightarrow> run_loop E stay n s = Some (s', r) \<Longrightarrow> loop_inv (rs_loop s')"
proof (induction n arbitrary: s)
  case 0
  then show ?case by (auto simp: run_loop.simps split: if_splits)
next
  case (Suc n)
  show ?case
  proof (cases "running (rs_loop s)")
    case True
    with Suc.prems(3) obtain t where t: "run_turn E stay s = Some t"
      by (auto simp: run_loop.simps [of E stay "Suc n"] split: option.splits)
    from run_turn_inv [OF Suc.prems(1,2) t] Suc.prems Suc.IH True t show ?thesis
      by (cases t) (auto simp: run_loop.simps [of E stay "Suc n"] turn_state_def)
  next
    case False
    with Suc.prems show ?thesis by (simp add: run_loop.simps [of E stay "Suc n"])
  qed
qed

end
