(* ===== verification/Loop_Props.thy ===== *)
theory Loop_Props
  imports Loop_Run
begin

section \<open>Properties of the event loop\<close>

text \<open>
  What the scheduling core promises its clients: a live frame is queued at most once, a late
  notification never wakes a later wait, due timers reach the queue, the driver leaves the loop
  reusable and stops only when nothing is left, and the sleep protocol loses no wake-up.
\<close>

subsection \<open>Queued at most once\<close>

text \<open>C1. In every state the loop can reach through its interface and its driver, the frame living
  at an address has at most one entry among the batch and the ready queue, so it is resumed at most
  once per scheduling (no double resume), however often it was scheduled.\<close>

theorem frame_queued_at_most_once:
  assumes "reachable (\<lambda>l. l = el_new) loop_step l"
  shows "length (filter (\<lambda>e. re_handle e = h \<and> current_entry (frames l) e) (queued l)) \<le> 1"
proof -
  let ?xs = "filter (\<lambda>e. re_handle e = h \<and> current_entry (frames l) e) (queued l)"
  have d: "distinct ?xs"
    using loop_sys.invariant_reachable [OF assms] by (simp add: loop_inv_def)
  have "x = y" if "x \<in> set ?xs" "y \<in> set ?xs" for x y
    using that by (intro ready_entry_eqI) (auto simp: current_entry_def split: option.splits)
  then have "card (set ?xs) \<le> 1"
    using card_le_Suc0_iff_eq [of "set ?xs"] by auto
  with distinct_card [OF d] show ?thesis by simp
qed

theorem frame_queued_at_most_once_witness:
  "reachable (\<lambda>l. l = el_new) loop_step
     (el_schedule True 7 (el_schedule True 7 (on_coroutine_started 7 el_new))) \<and>
   length (filter (\<lambda>e. re_handle e = 7 \<and> current_entry
       (frames (el_schedule True 7 (el_schedule True 7 (on_coroutine_started 7 el_new)))) e)
     (queued (el_schedule True 7 (el_schedule True 7 (on_coroutine_started 7 el_new))))) \<le> 1"
proof -
  have "counters_left (frames el_new)"
    by (simp add: counters_left_def el_new_def ft_new_def)
  then have "reachable (\<lambda>l. l = el_new) loop_step (on_coroutine_started 7 el_new)"
    by (rule_tac s = el_new in reachable_step) (auto intro: reachable_init loop_api api_started)
  then have "reachable (\<lambda>l. l = el_new) loop_step (el_schedule True 7 (on_coroutine_started 7 el_new))"
    by (rule reachable_step) (intro loop_api api_schedule)
  then have "reachable (\<lambda>l. l = el_new) loop_step
     (el_schedule True 7 (el_schedule True 7 (on_coroutine_started 7 el_new)))"
    by (rule reachable_step) (intro loop_api api_schedule)
  with frame_queued_at_most_once [OF this, of 7] show ?thesis by simp
qed

subsection \<open>Wait epochs\<close>

text \<open>The contract of a wait registry, as the synchronisation primitives rely on it.\<close>

locale wait_registry =
  fixes begin_wait :: "handle \<Rightarrow> 's \<Rightarrow> u64 \<times> 's"
    and notify :: "handle \<Rightarrow> u64 \<Rightarrow> 's \<Rightarrow> bool \<times> 's"
    and step :: "'s \<Rightarrow> 's \<Rightarrow> bool"
    and ok :: "'s \<Rightarrow> bool"
    and live :: "handle \<Rightarrow> 's \<Rightarrow> bool"
    and issued :: "'s \<Rightarrow> u64"
  assumes begin_issued: "ok s \<Longrightarrow> begin_wait h s = (ep, t) \<Longrightarrow> issued s < ep \<and> issued t = ep"
    and step_issued: "step s t \<Longrightarrow> issued s \<le> issued t"
    and notify_other: "ok s \<Longrightarrow> begin_wait h s = (ep, t) \<Longrightarrow> live h s \<Longrightarrow> ep' \<noteq> ep \<Longrightarrow>
        notify h ep' t = (False, t)"
begin

lemma steps_issued: "step\<^sup>*\<^sup>* s t \<Longrightarrow> issued s \<le> issued t"
  by (induction rule: rtranclp_induct) (auto dest: step_issued)

lemma late_notification:
  assumes "ok s" "begin_wait h s = (ep1, s1)" "step\<^sup>*\<^sup>* s1 s2" "ok s2" "live h s2"
    and "begin_wait h s2 = (ep2, s3)"
  shows "notify h ep1 s3 = (False, s3)"
proof -
  have "ep1 = issued s1" "issued s1 \<le> issued s2" "issued s2 < ep2"
    using assms begin_issued steps_issued by blast+
  then show ?thesis using notify_other [OF assms(4,6,5), of ep1] by auto
qed

end

lemma api_step_epoch: "api_step l l' \<Longrightarrow> next_wait_epoch (frames l) \<le> next_wait_epoch (frames l')"
proof (induction rule: api_step.induct)
  case (api_begin_wait l h)
  then show ?case
    using word_less_Suc [of "next_wait_epoch (frames l)"]
    by (auto simp: el_begin_wait_def ft_begin_wait_def set_frame_def counters_left_def Let_def
        split: option.split)
qed (auto simp: el_defs ft_defs Let_def split: option.split)

interpretation registry: wait_registry el_begin_wait "el_schedule_if_current same" api_step
  "\<lambda>l. counters_left (frames l)" "\<lambda>h l. live_frames (frames l) h \<noteq> None"
  "\<lambda>l. next_wait_epoch (frames l)" for same
proof unfold_locales
  fix s t :: event_loop and h ep ep'
  assume "counters_left (frames s)" and b: "el_begin_wait h s = (ep, t)"
  then show "next_wait_epoch (frames s) < ep \<and> next_wait_epoch (frames t) = ep"
    using word_less_Suc [of "next_wait_epoch (frames s)"]
    by (auto simp: el_begin_wait_def ft_begin_wait_def set_frame_def counters_left_def Let_def
        split: option.splits if_splits)
next
  fix s t :: event_loop and h ep ep'
  assume "el_begin_wait h s = (ep, t)" "live_frames (frames s) h \<noteq> None" "ep' \<noteq> ep"
  then show "el_schedule_if_current same h ep' t = (False, t)"
    by (auto simp: el_begin_wait_def ft_begin_wait_def set_frame_def Let_def
        el_schedule_if_current_def try_reserve_if_current_def split: option.splits if_splits)
qed (rule api_step_epoch)



subsection \<open>Timers\<close>

lemma queued_push_ready: "rq_wf (ready_queue l) \<Longrightarrow> queued (push_ready e l) = queued l @ [e]"
  by (simp add: queued_def push_ready_def)

lemma enqueue_expired_current:
  assumes "loop_inv l"
  shows "current_entry (frames (enqueue_expired x l)) e = current_entry (frames l) e"
    and "set (queued l) \<subseteq> set (queued (enqueue_expired x l))"
    and "set (queued (enqueue_expired x l)) \<subseteq> insert x (set (queued l))"
proof -
  have wf: "rq_wf (ready_queue l)" using assms by (simp add: loop_inv_def)
  obtain b ft where p: "try_reserve_entry x (frames l) = (b, ft)" by fastforce
  show "current_entry (frames (enqueue_expired x l)) e = current_entry (frames l) e"
    using p by (cases b; cases "re_handle e = re_handle x")
      (auto simp: enqueue_expired_def push_ready_def current_entry_def set_frame_def
        dest!: try_reserve_entry_True)
  show "set (queued l) \<subseteq> set (queued (enqueue_expired x l))"
    and "set (queued (enqueue_expired x l)) \<subseteq> insert x (set (queued l))"
    using p wf by (cases b; auto simp: enqueue_expired_def queued_def push_ready_def)+
qed

text \<open>The scheduled flag of a frame with no queued entry is down: the converse half of the
  invariant, for a loop whose flag and queue agree.\<close>

definition flags_agree :: "event_loop \<Rightarrow> bool" where
  "flags_agree l \<longleftrightarrow>
     (\<forall>h st. live_frames (frames l) h = Some st \<longrightarrow> fs_scheduled st \<longrightarrow>
        \<lparr>re_handle = h, re_generation = fs_generation st\<rparr> \<in> set (queued l))"

lemma enqueue_expired_agree:
  assumes "loop_inv l" "flags_agree l"
  shows "flags_agree (enqueue_expired x l)"
    and "current_entry (frames l) x \<Longrightarrow> x \<in> set (queued (enqueue_expired x l))"
proof -
  have wf: "rq_wf (ready_queue l)" using assms by (simp add: loop_inv_def)
  have x: "x = \<lparr>re_handle = re_handle x, re_generation = re_generation x\<rparr>" by simp
  show "flags_agree (enqueue_expired x l)"
    using assms(2) wf
    by (auto simp: flags_agree_def enqueue_expired_def try_reserve_entry_def push_ready_def
        queued_def set_frame_def split: option.splits if_splits)
  show "x \<in> set (queued (enqueue_expired x l))" if "current_entry (frames l) x"
  proof (cases "x \<in> set (queued l)")
    case True
    then show ?thesis using enqueue_expired_current(2) [OF assms(1)] by blast
  next
    case False
    from that obtain st where st: "live_frames (frames l) (re_handle x) = Some st"
      "fs_generation st = re_generation x"
      by (auto simp: current_entry_def split: option.splits)
    with False assms(2) have "\<not> fs_scheduled st"
      unfolding flags_agree_def using x by metis
    with st wf show ?thesis
      by (auto simp: enqueue_expired_def try_reserve_entry_def queued_push_ready)
  qed
qed

lemma fold_enqueue_queued:
  "loop_inv l \<Longrightarrow> flags_agree l \<Longrightarrow>
   set (queued l) \<subseteq> set (queued (fold enqueue_expired xs l)) \<and>
   set (queued (fold enqueue_expired xs l)) \<subseteq> set xs \<union> set (queued l) \<and>
   (\<forall>x\<in>set xs. current_entry (frames l) x \<longrightarrow> x \<in> set (queued (fold enqueue_expired xs l)))"
proof (induction xs arbitrary: l)
  case (Cons x xs)
  note inv = loop_inv_enqueue_expired [OF Cons.prems(1), of x]
  note agree = enqueue_expired_agree [OF Cons.prems, of x]
  note cur = enqueue_expired_current [OF Cons.prems(1), of x]
  from Cons.IH [OF inv agree(1)] agree(2) cur show ?case
    by simp blast
qed simp

lemma th_drain_sound:
  "th_drain now tok out th = (xs, out', th') \<Longrightarrow> x \<in> set xs \<Longrightarrow>
   \<exists>e\<in>set (th_heap th). te_entry e = x \<and> te_deadline e \<le> now \<and> \<not> te_stale tok e"
proof -
  assume d: "th_drain now tok out th = (xs, out', th')" and x: "x \<in> set xs"
  let ?hp = "dropWhile (te_stale tok) (th_heap (compact_if_stale tok th))"
  obtain hp' where "drain_due now tok out ?hp = (xs, out', hp')"
    using d by (auto simp: th_drain_def Let_def split: prod.splits)
  then obtain e where "e \<in> set ?hp" "te_entry e = x" "te_deadline e \<le> now" "\<not> te_stale tok e"
    using drain_due_sound x by blast
  moreover from this(1) have "e \<in> set (th_heap th)"
    using compact_set [of tok th] set_dropWhileD by fastforce
  ultimately show ?thesis by blast
qed

lemma th_drain_complete:
  assumes "heap_wf (th_heap th)" "th_drain now tok out th = (xs, out', th')"
    and "e \<in> set (th_heap th)" "te_deadline e \<le> now" "\<not> te_stale tok e" "te_outcome e = None"
  shows "te_entry e \<in> set xs"
proof -
  let ?hp = "th_heap (compact_if_stale tok th)"
  have "e \<in># filter_mset (\<lambda>e. \<not> te_stale tok e) (mset ?hp)"
    unfolding compact_live using assms by simp
  then have "e \<in> set ?hp" by simp
  moreover have "x \<in> set (dropWhile (te_stale tok) hp)" if "x \<in> set hp" "\<not> te_stale tok x" for x hp
    using that by (induction hp) auto
  ultimately have "e \<in> set (dropWhile (te_stale tok) ?hp)"
    using assms(5) by blast
  moreover have "heap_wf (dropWhile (te_stale tok) ?hp)"
    using assms(1) by (intro heap_wf_dropWhile heap_wf_compact)
  moreover obtain hp' where "drain_due now tok out (dropWhile (te_stale tok) ?hp) = (xs, out', hp')"
    using assms(2) by (auto simp: th_drain_def Let_def split: prod.splits)
  ultimately show ?thesis
    using drain_due_complete assms(4-6) by blast
qed

lemma flags_agree_push:
  assumes "rq_wf (ready_queue l)" "flags_agree l"
  shows "flags_agree (push_ready \<lparr>re_handle = h, re_generation = fs_generation st\<rparr>
           (l\<lparr>frames := set_frame h (st\<lparr>fs_scheduled := True\<rparr>) (frames l)\<rparr>))"
  using assms by (auto simp: flags_agree_def queued_def push_ready_def set_frame_def)

lemma flags_agree_wake [simp]: "flags_agree (cross_thread_wake_if_asleep same l) = flags_agree l"
  by (simp add: flags_agree_def queued_def)

lemma flags_agree_frames:
  assumes "flags_agree l"
    and "\<And>h st. live_frames ft h = Some st \<Longrightarrow> fs_scheduled st \<Longrightarrow>
          \<exists>st'. live_frames (frames l) h = Some st' \<and> fs_generation st' = fs_generation st \<and> fs_scheduled st'"
  shows "flags_agree (l\<lparr>frames := ft\<rparr>)"
  using assms by (fastforce simp: flags_agree_def queued_def)

lemma api_step_agree:
  assumes "api_step l l'" "rq_wf (ready_queue l)" "flags_agree l"
  shows "flags_agree l'"
  using assms
proof (induction rule: api_step.induct)
  case (api_schedule l same h)
  then show ?case
    by (auto simp: el_schedule_def split: prod.splits option.splits
        dest!: try_reserve_Some intro: flags_agree_push)
next
  case (api_schedule_if_current l same h ep)
  then show ?case
    by (auto simp: el_schedule_if_current_def split: prod.splits option.splits
        dest!: try_reserve_if_current_Some intro: flags_agree_push)
next
  case (api_begin_wait l h)
  then show ?case
    by (auto simp: el_begin_wait_def case_prod_unfold intro!: flags_agree_frames)
      (auto simp: ft_begin_wait_def set_frame_def Let_def split: option.splits if_splits)
next
  case (api_end_wait l h ep)
  then show ?case
    by (auto simp: el_end_wait_def intro!: flags_agree_frames)
      (auto simp: ft_end_wait_def set_frame_def split: option.splits if_splits)
next
  case (api_mark_abandoned l h)
  then show ?case
    by (auto simp: el_mark_abandoned_def case_prod_unfold intro!: flags_agree_frames)
      (auto simp: ft_mark_abandoned_def split: option.splits if_splits)
next
  case (api_started l h)
  then show ?case
    by (auto simp: flags_agree_def queued_def on_coroutine_started_def ft_add_def
        new_frame_state_def Let_def split: option.splits if_splits)
next
  case (api_dispatch l same f)
  then show ?case by (simp add: el_dispatch_def flags_agree_def queued_def)
qed (auto simp: el_wake_def el_stop_def el_schedule_timer_def el_set_token_def
    on_coroutine_finished_def el_mark_io_abandoned_def ft_remove_def ft_mark_io_abandoned_def
    flags_agree_def queued_def split: option.splits if_splits)

lemma flags_agree_pop:
  assumes inv: "loop_inv l" and agree: "flags_agree l" and front: "rq_front (batch l) = Some e"
  shows "flags_agree (snd (pop_batch e l))"
proof -
  have wf: "rq_wf (batch l)" using inv by (simp add: loop_inv_def)
  with front obtain es where es: "rq_list (batch l) = e # es"
    by (auto simp: rq.front_contents split: list.splits)
  have q: "queued l = e # queued (l\<lparr>batch := rq_pop (batch l), frames := ft\<rparr>)" for ft
    using es wf by (auto simp: queued_def)
  have other: "\<lparr>re_handle = h, re_generation = g\<rparr> \<in> set (queued l) \<Longrightarrow>
      h \<noteq> re_handle e \<or> g \<noteq> re_generation e \<Longrightarrow>
      \<lparr>re_handle = h, re_generation = g\<rparr> \<in> set (queued (l\<lparr>batch := rq_pop (batch l), frames := ft\<rparr>))"
    for h g ft
    using q [of ft] by auto
  show ?thesis
    using agree other other [of _ _ "frames l", simplified]
    by (cases "live_frames (frames l) (re_handle e)")
      (fastforce simp: flags_agree_def pop_batch_def ft_release_def set_frame_def Let_def
        split: if_splits)+
qed

definition loop_inv_full :: "event_loop \<Rightarrow> bool" where
  "loop_inv_full l \<longleftrightarrow> loop_inv l \<and> flags_agree l \<and> heap_wf (th_heap (timer_heap l))"

lemma flags_agree_fold:
  "loop_inv l \<Longrightarrow> flags_agree l \<Longrightarrow> flags_agree (fold enqueue_expired xs l)"
  by (induction xs arbitrary: l) (auto simp: enqueue_expired_agree loop_inv_enqueue_expired)

lemma enqueue_expired_timers [simp]:
  "timer_heap (enqueue_expired e l) = timer_heap l"
  "timer_heap (fold enqueue_expired xs l) = timer_heap l"
proof -
  show *: "timer_heap (enqueue_expired e l) = timer_heap l" for e l
    by (auto simp: enqueue_expired_def push_ready_def split: prod.split bool.split)
  show "timer_heap (fold enqueue_expired xs l) = timer_heap l"
    by (induction xs arbitrary: l) (auto simp: *)
qed

lemma process_timers_full:
  assumes "loop_inv_full l"
  shows "loop_inv_full (process_timers now l)"
proof -
  obtain xs out' th' where d: "th_drain now (tokens l) (outcomes l) (timer_heap l) = (xs, out', th')"
    using prod_cases3 by blast
  let ?hp = "dropWhile (te_stale (tokens l)) (th_heap (compact_if_stale (tokens l) (timer_heap l)))"
  have "heap_wf ?hp"
    using assms by (intro heap_wf_dropWhile heap_wf_compact) (simp add: loop_inv_full_def)
  moreover have "th_heap th' = dropWhile (\<lambda>e. te_deadline e \<le> now) ?hp"
    using d drain_due_heap [of now "tokens l" "outcomes l" ?hp]
    by (auto simp: th_drain_def Let_def split: prod.splits)
  ultimately have "heap_wf (th_heap th')"
    by (simp add: heap_wf_dropWhile)
  moreover have "flags_agree (l\<lparr>timer_heap := th', outcomes := out'\<rparr>)"
    using assms by (simp add: loop_inv_full_def flags_agree_def queued_def)
  ultimately show ?thesis
    using assms d
    by (auto simp: loop_inv_full_def process_timers_def loop_inv_fold_enqueue flags_agree_fold)
qed

lemma api_step_heap:
  "api_step l l' \<Longrightarrow> heap_wf (th_heap (timer_heap l)) \<Longrightarrow> heap_wf (th_heap (timer_heap l'))"
  by (induction rule: api_step.induct)
    (auto simp: el_defs th_push_def heap_wf_push Let_def split: option.split prod.split)

lemma loop_step_full: "loop_step l l' \<Longrightarrow> loop_inv_full l \<Longrightarrow> loop_inv_full l'"
proof (induction rule: loop_step.induct)
  case (loop_api l l')
  then show ?case
    using api_step_inv api_step_agree api_step_heap
    by (auto simp: loop_inv_full_def loop_inv_def)
next
  case (loop_timers l now)
  then show ?case by (rule process_timers_full)
next
  case (loop_pop l e)
  then show ?case
    using loop_inv_pop flags_agree_pop
    by (auto simp: loop_inv_full_def pop_batch_def Let_def split: prod.splits bool.splits)
next
  case (loop_take_batch l)
  then show ?case
    using loop_inv_take_batch [of l]
    by (auto simp: loop_inv_full_def take_batch_def rq_swap_def flags_agree_def queued_def
        loop_inv_def rq.empty_contents)
next
  case (loop_drop l h)
  then show ?case
    using loop_inv_drop [of l h]
    by (auto simp: loop_inv_full_def drop_abandoned_def on_coroutine_finished_def ft_remove_def
        ft_cleanup_abandoned_def flags_agree_def queued_def Let_def split: if_splits)
qed (auto simp: loop_inv_full_def take_fns_def flags_agree_def queued_def)

interpretation loop_full: inductive_invariant "\<lambda>l. l = el_new" loop_step loop_inv_full
proof unfold_locales
  show "loop_inv_full l" if "l = el_new" for l
    using that loop_inv_new
    by (simp add: loop_inv_full_def flags_agree_def heap_wf_def el_new_def th_new_def ft_new_def)
qed (rule loop_step_full)

text \<open>Processing the timers queues every due timer that is neither cancelled nor up for
  arbitration and whose frame is still the one that registered it, compaction of the heap
  included, and queues nothing else: every new entry comes from a due, uncancelled timer.\<close>

theorem process_timers_delivers:
  assumes "reachable (\<lambda>l. l = el_new) loop_step l"
  shows "(\<forall>e\<in>set (th_heap (timer_heap l)). te_deadline e \<le> now \<and> \<not> te_stale (tokens l) e \<and>
            te_outcome e = None \<and> current_entry (frames l) (te_entry e) \<longrightarrow>
            te_entry e \<in> set (queued (process_timers now l)))
       \<and> (\<forall>x\<in>set (queued (process_timers now l)). x \<notin> set (queued l) \<longrightarrow>
            (\<exists>e\<in>set (th_heap (timer_heap l)). te_entry e = x \<and> te_deadline e \<le> now \<and>
               \<not> te_stale (tokens l) e))"
proof -
  obtain xs out' th' where d: "th_drain now (tokens l) (outcomes l) (timer_heap l) = (xs, out', th')"
    using prod_cases3 by blast
  have inv: "loop_inv l" "flags_agree l" "heap_wf (th_heap (timer_heap l))"
    using loop_full.invariant_reachable [OF assms] by (auto simp: loop_inv_full_def)
  let ?l = "l\<lparr>timer_heap := th', outcomes := out'\<rparr>"
  have q: "queued ?l = queued l" "flags_agree ?l" "loop_inv ?l"
    using inv by (auto simp: queued_def flags_agree_def)
  have p: "process_timers now l = fold enqueue_expired xs ?l"
    by (simp add: process_timers_def d)
  from fold_enqueue_queued [OF q(3,2), of xs] th_drain_sound [OF d] th_drain_complete [OF inv(3) d]
  show ?thesis unfolding p q(1) by fastforce
qed

theorem process_timers_delivers_witness:
  "let l = el_schedule_timer 9 40 None None 0 (on_coroutine_started 9 el_new)
   in reachable (\<lambda>l. l = el_new) loop_step l \<and>
      \<lparr>re_handle = 9, re_generation = 1\<rparr> \<in> set (queued (process_timers 50 l))"
proof -
  let ?l = "el_schedule_timer 9 40 None None 0 (on_coroutine_started 9 el_new)"
  let ?e = "\<lparr>te_deadline = 40, te_entry = \<lparr>re_handle = 9, re_generation = 1\<rparr>, te_token = None,
             te_outcome = None, te_expire_value = 0\<rparr>"
  note ev = el_schedule_timer_def on_coroutine_started_def el_new_def ft_new_def th_new_def
    ft_add_def new_frame_state_def generation_of_def th_push_def Let_def
  have "counters_left (frames el_new)"
    by (simp add: counters_left_def ev)
  then have "reachable (\<lambda>l. l = el_new) loop_step (on_coroutine_started 9 el_new)"
    by (rule_tac s = el_new in reachable_step) (auto intro: reachable_init loop_api api_started)
  then have r: "reachable (\<lambda>l. l = el_new) loop_step ?l"
    by (rule reachable_step) (intro loop_api api_schedule_timer)
  moreover have "?e \<in> set (th_heap (timer_heap ?l)) \<and> te_deadline ?e \<le> 50 \<and>
      \<not> te_stale (tokens ?l) ?e \<and> te_outcome ?e = None \<and> current_entry (frames ?l) (te_entry ?e)"
    by (simp add: ev te_stale_def current_entry_def)
  ultimately show ?thesis
    using process_timers_delivers [OF r, of 50] by (fastforce simp: Let_def)
qed

subsection \<open>Running\<close>

text \<open>A nested run is refused with an error and changes nothing. Every other run that returns,
  normally or because a callback or a coroutine threw, leaves the loop not running and marked awake
  and gives the thread back the loop binding and the current task it had, so the loop can be run
  again.\<close>

theorem run_impl_restores:
  assumes "run_impl E stay me n s = Some (s', err)"
  shows "if running (rs_loop s) then s' = s \<and> err = Some RuntimeError
         else \<not> running (rs_loop s') \<and> awake (rs_loop s') \<and>
              tls_loop s' = tls_loop s \<and> tls_task s' = tls_task s"
  using assms by (auto simp: run_impl_def Let_def split: option.splits)

text \<open>A small environment: every coroutine finishes when it is resumed, nothing else happens.\<close>

definition quiet_env :: "unit env_ops" where
  "quiet_env = \<lparr>clock_now = (\<lambda>w. (0, w)), io_has_pending = (\<lambda>_. False), source_wait = (\<lambda>_ s. s),
     call_fn = (\<lambda>_ s. (s, None)), resume_frame = (\<lambda>h s. (on_loop (on_coroutine_finished h) s, None)),
     frame_done = (\<lambda>_ _. False), destroy_frame = (\<lambda>_ s. s)\<rparr>"

definition one_task :: "unit run_state" where
  "one_task = \<lparr>rs_env = (), rs_loop = el_schedule True 3 (on_coroutine_started 3 el_new),
     tls_loop = 0, tls_task = 0\<rparr>"

lemma env_ok_quiet: "env_ok quiet_env"
  by (simp add: env_ok_def quiet_env_def r_into_rtranclp api_finished)

lemmas run_eval =
  run_loop.simps run_fns.simps consume_batch.simps run_turn_def run_impl_def
  take_fns_def poll_source_def sleep_phase_def set_awake_def take_batch_def pop_batch_def
  drop_abandoned_def on_loop_def has_work_def has_active_coroutines_def process_timers_def
  th_drain_def compact_if_stale_def rq_swap_def rq_pop_def rq_push_def rq_front_def rq_empty_def
  rq_list_def rq_new_def el_new_def ft_new_def th_new_def el_defs ft_defs Let_def heap_top_def
  el_is_abandoned_def

lemma quiet_run:
  "\<exists>s'. run_loop quiet_env False 2 (on_loop (\<lambda>l. l\<lparr>running := True\<rparr>) one_task) = Some (s', None) \<and>
        running (rs_loop s') \<and> live_frames (frames (rs_loop s')) 3 = None"
  by (simp add: quiet_env_def one_task_def run_eval numeral_2_eq_2)

theorem run_impl_restores_witness:
  "\<exists>s' err. run_impl quiet_env False 4 2 one_task = Some (s', err) \<and>
     \<not> running (rs_loop one_task) \<and> \<not> running (rs_loop s') \<and> tls_loop s' = tls_loop one_task"
proof -
  have "\<exists>s' err. run_impl quiet_env False 4 2 one_task = Some (s', err)"
    by (simp add: quiet_env_def one_task_def run_eval numeral_2_eq_2)
  then obtain s' err where r: "run_impl quiet_env False 4 2 one_task = Some (s', err)" by blast
  have "\<not> running (rs_loop one_task)" by (simp add: one_task_def run_eval)
  with run_impl_restores [OF r] r show ?thesis by auto
qed

lemma run_fns_empties: "run_fns E n s = Some (s', None) \<Longrightarrow> fn_batch (rs_loop s') = []"
proof (induction n arbitrary: s)
  case 0
  then show ?case by (auto simp: run_fns.simps split: list.splits)
next
  case (Suc n)
  from Suc.prems show ?case
    by (subst (asm) run_fns.simps)
      (auto split: list.splits prod.splits option.splits intro: Suc.IH)
qed

lemma process_timers_fns [simp]:
  "fn_batch (process_timers now l) = fn_batch l" "fn_queue (process_timers now l) = fn_queue l"
proof -
  have *: "fn_batch (enqueue_expired e l) = fn_batch l \<and> fn_queue (enqueue_expired e l) = fn_queue l"
    for e l
    by (auto simp: enqueue_expired_def push_ready_def split: prod.split bool.split)
  have "fn_batch (fold enqueue_expired xs l) = fn_batch l \<and>
        fn_queue (fold enqueue_expired xs l) = fn_queue l" for xs l
    by (induction xs arbitrary: l) (auto simp: *)
  then show "fn_batch (process_timers now l) = fn_batch l"
    "fn_queue (process_timers now l) = fn_queue l"
    by (simp_all add: process_timers_def split: prod.split)
qed

lemma poll_source_fns:
  "env_ok E \<Longrightarrow> fn_batch (rs_loop (poll_source E s)) = fn_batch (rs_loop s)"
  using env_okD(1) api_steps_batches by (fastforce simp: poll_source_def)

lemma sleep_phase_leaves:
  "sleep_phase E stay now s = (False, s') \<Longrightarrow> fn_batch (rs_loop s) = [] \<Longrightarrow>
   \<not> has_work (io_has_pending E (rs_env s')) (rs_loop s')"
  by (auto simp: sleep_phase_def set_awake_def has_work_def heap_top_def has_active_coroutines_def
      Let_def split: if_splits option.splits list.splits)

lemma run_turn_leaves:
  assumes ok: "env_ok E" and t: "run_turn E False s = Some (Leave s')"
  shows "\<not> has_work (io_has_pending E (rs_env s')) (rs_loop s')"
proof (cases "has_work (io_has_pending E (rs_env s)) (rs_loop s)")
  case True
  let ?s = "on_loop take_fns s"
  from t True obtain s2 where f: "run_fns E (length (fn_batch (rs_loop ?s))) ?s = Some (s2, None)"
    by (auto simp: run_turn_def Let_def split: option.splits)
  obtain now w where c: "clock_now E (rs_env s2) = (now, w)" by fastforce
  let ?s4 = "poll_source E (on_loop (process_timers now) (s2\<lparr>rs_env := w\<rparr>))"
  have "fn_batch (rs_loop ?s4) = []"
    using run_fns_empties [OF f] by (simp add: poll_source_fns [OF ok])
  moreover have "sleep_phase E False now ?s4 = (False, s')"
    using t True f c
    by (auto simp: run_turn_def Let_def split: option.splits prod.splits bool.splits)
  ultimately show ?thesis using sleep_phase_leaves by blast
qed (use t in \<open>simp add: run_turn_def\<close>)

text \<open>A non-resident run that ends normally without \<open>stop\<close> ends only when nothing is left to
  do: no ready coroutine, no dispatched function, no timer, no pending I/O and no active coroutine
  that another thread might still wake.\<close>

theorem run_ends_without_work:
  assumes "env_ok E" and "run_loop E False n s = Some (s', None)" and "running (rs_loop s')"
  shows "\<not> has_work (io_has_pending E (rs_env s')) (rs_loop s')"
  using assms(2,3)
proof (induction n arbitrary: s)
  case 0
  then show ?case by (auto simp: run_loop.simps split: if_splits)
next
  case (Suc n)
  then show ?case
    using run_turn_leaves [OF assms(1)]
    by (subst (asm) (2) run_loop.simps)
      (auto split: if_splits option.splits turn.splits)
qed

theorem run_ends_without_work_witness:
  "\<exists>s'. run_loop quiet_env False 2 (on_loop (\<lambda>l. l\<lparr>running := True\<rparr>) one_task) = Some (s', None) \<and>
        \<not> has_work False (rs_loop s')"
proof -
  obtain s' where r: "run_loop quiet_env False 2 (on_loop (\<lambda>l. l\<lparr>running := True\<rparr>) one_task) = Some (s', None)"
    and run: "running (rs_loop s')"
    using quiet_run by blast
  from run_ends_without_work [OF env_ok_quiet r run] r show ?thesis
    by (auto simp: quiet_env_def)
qed

text \<open>Whatever the coroutines and callbacks do through the interface, a run keeps the queue
  discipline, and each of its turns ends: the fuel of the inner loops is the length of the batch
  they empty, and that is enough.\<close>

theorem run_keeps_invariant:
  assumes "env_ok E" "loop_inv (rs_loop s)"
  shows "(\<forall>s' err. run_impl E stay me n s = Some (s', err) \<longrightarrow> loop_inv (rs_loop s'))
       \<and> (\<exists>t. run_turn E stay s = Some t \<and> loop_inv (rs_loop (turn_state t)))"
proof
  show "\<forall>s' err. run_impl E stay me n s = Some (s', err) \<longrightarrow> loop_inv (rs_loop s')"
  proof (intro allI impI)
    fix s' err
    assume r: "run_impl E stay me n s = Some (s', err)"
    let ?s = "(on_loop (\<lambda>l. l\<lparr>running := True, awake := True\<rparr>) s)\<lparr>tls_loop := me, tls_task := null_handle\<rparr>"
    have "loop_inv (rs_loop ?s)" using assms(2) by simp
    with r show "loop_inv (rs_loop s')"
      using assms(2) run_loop_inv [OF assms(1), of ?s stay n]
      by (auto simp: run_impl_def Let_def split: if_splits option.splits)
  qed
next
  have "\<exists>t. run_turn E stay s = Some t"
  proof (rule ccontr)
    assume none: "\<nexists>t. run_turn E stay s = Some t"
    let ?s = "on_loop take_fns s"
    obtain s2 r where f: "run_fns E (length (fn_batch (rs_loop ?s))) ?s = Some (s2, r)"
      using run_fns_total [OF assms(1)] by blast
    obtain now w where c: "clock_now E (rs_env s2) = (now, w)" by fastforce
    let ?s4 = "poll_source E (on_loop (process_timers now) (s2\<lparr>rs_env := w\<rparr>))"
    obtain b s5 where p: "sleep_phase E stay now ?s4 = (b, s5)" by fastforce
    have "loop_inv (rs_loop ?s4)"
      using run_fns_inv [OF assms(1) _ f] assms(2)
      by (intro poll_source_inv [OF assms(1)]) (simp add: take_fns_inv loop_inv_process_timers)
    then have "loop_inv (rs_loop (on_loop take_batch s5))"
      using sleep_phase_inv [OF assms(1), of ?s4 stay now] p by (simp add: loop_inv_take_batch)
    then obtain s7 q where "consume_batch E (length (rq_list (batch (rs_loop (on_loop take_batch s5)))))
        (on_loop take_batch s5) = Some (s7, q)"
      using consume_batch_total [OF assms(1)] by blast
    with none f c p show False
      by (cases r; cases b; cases q) (auto simp: run_turn_def Let_def split: if_splits)
  qed
  then show "\<exists>t. run_turn E stay s = Some t \<and> loop_inv (rs_loop (turn_state t))"
    using run_turn_inv [OF assms] by blast
qed

theorem run_keeps_invariant_witness:
  "env_ok quiet_env \<and> loop_inv (rs_loop one_task) \<and>
   (\<exists>t. run_turn quiet_env True one_task = Some t \<and> loop_inv (rs_loop (turn_state t)))"
proof -
  have "loop_inv (on_coroutine_started 3 el_new)"
    by (intro loop_inv_started loop_inv_new) (simp add: counters_left_def el_new_def ft_new_def)
  then have inv: "loop_inv (rs_loop one_task)"
    by (simp add: one_task_def loop_inv_schedule)
  with run_keeps_invariant [OF env_ok_quiet inv] env_ok_quiet show ?thesis by blast
qed

subsection \<open>The sleep protocol\<close>

text \<open>
  The race between a loop that goes to sleep and another thread that schedules a frame. The
  producer queues the entry under the mutex (\<open>push_ready\<close>) and then exchanges the awake flag
  (\<open>cross_thread_wake_if_asleep\<close>); the loop clears the flag, looks at its queues under the mutex and
  waits only if they are empty. Each of these is one atomic step; the two threads interleave freely.
\<close>

datatype sleeper = Deciding | Declared | Sleeping | StaysAwake
datatype producer = BeforePush | Pushed | Signalled

record race =
  rc_loop :: event_loop
  rc_sleeper :: sleeper
  rc_producer :: producer

inductive race_step :: "race \<Rightarrow> race \<Rightarrow> bool" where
  declare_sleep: "rc_sleeper r = Deciding \<Longrightarrow>
    race_step r (r\<lparr>rc_loop := (rc_loop r)\<lparr>awake := False\<rparr>, rc_sleeper := Declared\<rparr>)"
| check_queues: "rc_sleeper r = Declared \<Longrightarrow>
    race_step r (if rq_empty (ready_queue (rc_loop r)) \<and> rq_empty (batch (rc_loop r)) \<and>
                    fn_queue (rc_loop r) = []
                 then r\<lparr>rc_sleeper := Sleeping\<rparr>
                 else r\<lparr>rc_loop := (rc_loop r)\<lparr>awake := True\<rparr>, rc_sleeper := StaysAwake\<rparr>)"
| producer_push: "rc_producer r = BeforePush \<Longrightarrow>
    race_step r (r\<lparr>rc_loop := push_ready e (rc_loop r), rc_producer := Pushed\<rparr>)"
| producer_signal: "rc_producer r = Pushed \<Longrightarrow>
    race_step r (r\<lparr>rc_loop := cross_thread_wake_if_asleep False (rc_loop r), rc_producer := Signalled\<rparr>)"

definition race_start :: "race \<Rightarrow> bool" where
  "race_start r \<longleftrightarrow> rc_sleeper r = Deciding \<and> rc_producer r = BeforePush \<and>
     running (rc_loop r) \<and> awake (rc_loop r) \<and> wake_count (rc_loop r) = 0 \<and>
     rq_wf (ready_queue (rc_loop r))"

definition race_inv :: "race \<Rightarrow> bool" where
  "race_inv r \<longleftrightarrow> running (rc_loop r) \<and> rq_wf (ready_queue (rc_loop r)) \<and>
     (rc_sleeper r = Deciding \<longrightarrow> awake (rc_loop r)) \<and>
     (rc_producer r \<noteq> BeforePush \<longrightarrow> rq_list (ready_queue (rc_loop r)) \<noteq> []) \<and>
     (rc_sleeper r \<in> {Declared, Sleeping} \<and> rc_producer r \<noteq> Signalled \<longrightarrow> \<not> awake (rc_loop r)) \<and>
     (rc_sleeper r = Sleeping \<and> rc_producer r = Signalled \<longrightarrow> 0 < wake_count (rc_loop r))"

lemma race_step_inv: "race_step r r' \<Longrightarrow> race_inv r \<Longrightarrow> race_inv r'"
  by (induction rule: race_step.induct)
    (auto simp: race_inv_def push_ready_def cross_thread_wake_if_asleep_def el_wake_def Let_def)

interpretation race: inductive_invariant race_start race_step race_inv
proof unfold_locales
  show "race_start r \<Longrightarrow> race_inv r" for r by (simp add: race_start_def race_inv_def)
  show "race_inv r \<Longrightarrow> race_step r r' \<Longrightarrow> race_inv r'" for r r' by (rule race_step_inv)
qed

text \<open>C8. No wake-up is lost: whichever way the steps of the sleeping loop and of the scheduling
  thread interleave, once the producer is through, the loop either has not gone to sleep or a wake-up
  has been sent to the event source it sleeps on.\<close>

theorem no_lost_wakeup:
  assumes "reachable race_start race_step r" "rc_producer r = Signalled" "rc_sleeper r = Sleeping"
  shows "0 < wake_count (rc_loop r)"
  using race.invariant_reachable [OF assms(1)] assms(2,3) by (simp add: race_inv_def)

lemma check_queues_sleep:
  "rc_sleeper r = Declared \<Longrightarrow> rq_empty (ready_queue (rc_loop r)) \<Longrightarrow> rq_empty (batch (rc_loop r)) \<Longrightarrow>
   fn_queue (rc_loop r) = [] \<Longrightarrow> race_step r (r\<lparr>rc_sleeper := Sleeping\<rparr>)"
  using check_queues [of r] by (simp only: if_True simp_thms)

text \<open>The loop sleeps first, the producer comes second.\<close>

definition race_example :: race where
  "race_example = \<lparr>rc_loop = el_new\<lparr>running := True\<rparr>, rc_sleeper = Deciding, rc_producer = BeforePush\<rparr>"

theorem no_lost_wakeup_witness:
  "\<exists>r. reachable race_start race_step r \<and> rc_producer r = Signalled \<and> rc_sleeper r = Sleeping \<and>
       0 < wake_count (rc_loop r)"
proof -
  let ?r0 = race_example
  let ?r1 = "?r0\<lparr>rc_loop := (rc_loop ?r0)\<lparr>awake := False\<rparr>, rc_sleeper := Declared\<rparr>"
  let ?r2 = "?r1\<lparr>rc_sleeper := Sleeping\<rparr>"
  let ?r3 = "?r2\<lparr>rc_loop := push_ready \<lparr>re_handle = 1, re_generation = 1\<rparr> (rc_loop ?r2), rc_producer := Pushed\<rparr>"
  let ?r4 = "?r3\<lparr>rc_loop := cross_thread_wake_if_asleep False (rc_loop ?r3), rc_producer := Signalled\<rparr>"
  have "reachable race_start race_step ?r0"
    by (rule reachable_init) (simp add: race_start_def race_example_def el_new_def)
  then have "reachable race_start race_step ?r1"
    by (rule reachable_step) (rule declare_sleep, simp add: race_example_def)
  then have "reachable race_start race_step ?r2"
    by (rule reachable_step) (rule check_queues_sleep; simp add: race_example_def el_new_def)
  then have "reachable race_start race_step ?r3"
    by (rule reachable_step) (rule producer_push, simp add: race_example_def)
  then have r: "reachable race_start race_step ?r4"
    by (rule reachable_step) (rule producer_signal, simp)
  have "rc_producer ?r4 = Signalled" "rc_sleeper ?r4 = Sleeping" by simp_all
  with no_lost_wakeup [OF r] r show ?thesis by blast
qed

end
