(* ===== verification/Waiters.thy ===== *)
theory Waiters
  imports Loop_Props
begin

section \<open>Waiters of the synchronisation primitives\<close>

text \<open>
  \<open>detail::sync_waiter\<close>, \<open>schedule_waiter\<close> and \<open>erase_waiter\<close> of include/coro/sync.hpp, and what a
  primitive may rely on when it wakes a waiter on the loop it suspended on. Loops are numbered; loop
  \<open>0\<close> is the null pointer and \<open>cur\<close> the loop of the calling thread. The locale \<open>wake_service\<close> is the
  contract between the primitives and the loops; it is interpreted on the model of the event loop.
\<close>

record sync_waiter =
  sw_handle :: handle
  sw_loop :: nat
  sw_epoch :: u64

definition schedule_waiter :: "nat \<Rightarrow> sync_waiter \<Rightarrow> loops \<Rightarrow> loops" where
  "schedule_waiter cur w W =
     (let target = (if sw_loop w \<noteq> 0 then sw_loop w else cur)
      in if sw_epoch w \<noteq> 0 then schedule_if_current_on cur target (sw_handle w) (sw_epoch w) W
         else schedule_on cur target (sw_handle w) W)"

definition erase_waiter :: "handle \<Rightarrow> sync_waiter list \<Rightarrow> sync_waiter list" where
  "erase_waiter h ws = filter (\<lambda>w. sw_handle w \<noteq> h) ws"

text \<open>A waiter is still waiting when its frame is alive and has not begun or ended another wait; a
  frame is runnable on a loop when an entry for it waits in the loop's queues.\<close>

definition world_ok :: "loops \<Rightarrow> bool" where
  "world_ok W \<longleftrightarrow> (\<forall>k. loop_inv_full (W k))"

definition waiting :: "sync_waiter \<Rightarrow> loops \<Rightarrow> bool" where
  "waiting w W \<longleftrightarrow> sw_loop w \<noteq> 0 \<and> is_wait_current_on (sw_loop w) (sw_handle w) (sw_epoch w) W"

definition runnable :: "nat \<Rightarrow> handle \<Rightarrow> loops \<Rightarrow> bool" where
  "runnable k h W \<longleftrightarrow> (\<exists>e\<in>set (queued (W k)). re_handle e = h \<and> current_entry (frames (W k)) e)"

locale wake_service =
  fixes wake :: "sync_waiter \<Rightarrow> 'w \<Rightarrow> 'w"
    and ok :: "'w \<Rightarrow> bool"
    and current :: "sync_waiter \<Rightarrow> 'w \<Rightarrow> bool"
    and pending :: "nat \<Rightarrow> handle \<Rightarrow> 'w \<Rightarrow> bool"
  assumes wake_ok: "ok W \<Longrightarrow> ok (wake w W)"
    and wake_current: "current v (wake w W) = current v W"
    and wake_pending: "ok W \<Longrightarrow> current w W \<Longrightarrow> pending (sw_loop w) (sw_handle w) (wake w W)"
    and wake_keeps: "ok W \<Longrightarrow> pending k h W \<Longrightarrow> pending k h (wake w W)"
begin

lemma fold_wake_ok: "ok W \<Longrightarrow> ok (fold wake ws W)"
  by (induction ws arbitrary: W) (auto simp: wake_ok)

lemma fold_wake_current: "current v (fold wake ws W) = current v W"
  by (induction ws arbitrary: W) (auto simp: wake_current)

lemma fold_wake_keeps: "ok W \<Longrightarrow> pending k h W \<Longrightarrow> pending k h (fold wake ws W)"
  by (induction ws arbitrary: W) (auto simp: wake_ok wake_keeps)

text \<open>Waking a whole queue reaches every waiter that still waits.\<close>

lemma fold_wake_pending:
  "ok W \<Longrightarrow> w \<in> set ws \<Longrightarrow> current w W \<Longrightarrow> pending (sw_loop w) (sw_handle w) (fold wake ws W)"
  by (induction ws arbitrary: W) (auto simp: wake_ok wake_current wake_pending fold_wake_keeps)

end

subsection \<open>The loops provide the service\<close>

lemma loop_inv_full_api: "api_step l l' \<Longrightarrow> loop_inv_full l \<Longrightarrow> loop_inv_full l'"
  using loop_full.inv_step [of l l'] loop_step.intros by blast

lemma schedule_if_current_frames:
  "current_entry (frames (snd (el_schedule_if_current same h ep l))) e = current_entry (frames l) e"
  "wait_is_current g ep' (frames (snd (el_schedule_if_current same h ep l)))
   = wait_is_current g ep' (frames l)"
  by (auto simp: el_schedule_if_current_def push_ready_def current_entry_def
      wait_is_current_def set_frame_def split: prod.splits option.splits if_splits
      dest!: try_reserve_if_current_Some)

lemma schedule_frames:
  "current_entry (frames (el_schedule same h l)) e = current_entry (frames l) e"
  "wait_is_current g ep' (frames (el_schedule same h l)) = wait_is_current g ep' (frames l)"
  by (auto simp: el_schedule_def push_ready_def current_entry_def
      wait_is_current_def set_frame_def split: prod.splits option.splits if_splits
      dest!: try_reserve_Some)

lemma schedule_queued_mono:
  assumes "rq_wf (ready_queue l)"
  shows "set (queued l) \<subseteq> set (queued (snd (el_schedule_if_current same h ep l)))"
    and "set (queued l) \<subseteq> set (queued (el_schedule same h l))"
  using assms
  by (auto simp: el_schedule_if_current_def el_schedule_def queued_def push_ready_def
      split: prod.splits option.splits if_splits)

text \<open>Scheduling a frame whose wait is current leaves it queued: either it is pushed now or its
  \<open>scheduled\<close> flag says that it is in a queue already.\<close>

lemma schedule_if_current_queues:
  assumes inv: "loop_inv_full l" and cur: "wait_is_current h ep (frames l)" and h: "h \<noteq> 0"
  shows "\<exists>e\<in>set (queued (snd (el_schedule_if_current same h ep l))).
           re_handle e = h \<and> current_entry (frames l) e"
proof -
  obtain st where st: "live_frames (frames l) h = Some st" "fs_wait_epoch st = ep"
    using cur by (auto simp: wait_is_current_def split: option.splits)
  let ?e = "\<lparr>re_handle = h, re_generation = fs_generation st\<rparr>"
  have wf: "rq_wf (ready_queue l)" and agree: "flags_agree l"
    using inv by (auto simp: loop_inv_full_def loop_inv_def)
  have "?e \<in> set (queued (snd (el_schedule_if_current same h ep l)))"
  proof (cases "fs_scheduled st")
    case True
    then have "?e \<in> set (queued l)" using agree st by (auto simp: flags_agree_def)
    then show ?thesis using schedule_queued_mono(1) [OF wf] by blast
  next
    case False
    then show ?thesis
      using st h wf by (simp add: el_schedule_if_current_def try_reserve_if_current_def queued_def push_ready_def)
  qed
  then show ?thesis using st by (intro bexI) (auto simp: current_entry_def)
qed

lemma world_ok_upd: "world_ok W \<Longrightarrow> loop_inv_full l \<Longrightarrow> world_ok (W(k := l))"
  by (simp add: world_ok_def)

lemma world_ok_schedule_waiter: "world_ok W \<Longrightarrow> world_ok (schedule_waiter cur w W)"
  by (auto simp: schedule_waiter_def schedule_if_current_on_def schedule_on_def Let_def world_ok_def
      intro!: loop_inv_full_api [OF api_schedule_if_current] loop_inv_full_api [OF api_schedule])

lemma waiting_schedule_waiter [simp]: "waiting v (schedule_waiter cur w W) = waiting v W"
  by (simp add: waiting_def is_wait_current_on_def el_is_wait_current_def schedule_waiter_def Let_def
      schedule_if_current_on_def schedule_on_def schedule_if_current_frames schedule_frames)

lemma runnable_schedule_waiter:
  assumes "world_ok W" "runnable k h W"
  shows "runnable k h (schedule_waiter cur w W)"
proof -
  have "rq_wf (ready_queue (W k))" for k
    using assms(1) by (simp add: world_ok_def loop_inv_full_def loop_inv_def)
  note mono = schedule_queued_mono [OF this]
  show ?thesis
    using assms(2) mono
    by (fastforce simp: runnable_def schedule_waiter_def Let_def schedule_if_current_on_def
        schedule_on_def schedule_if_current_frames schedule_frames)
qed

interpretation wakes: wake_service "schedule_waiter cur" world_ok waiting runnable for cur
proof unfold_locales
  fix W :: loops and w
  assume ok: "world_ok W" and wt: "waiting w W"
  then have "wait_is_current (sw_handle w) (sw_epoch w) (frames (W (sw_loop w)))"
    "sw_loop w \<noteq> 0" "sw_epoch w \<noteq> 0" "sw_handle w \<noteq> 0"
    by (auto simp: waiting_def is_wait_current_on_def el_is_wait_current_def split: if_splits)
  with schedule_if_current_queues [of "W (sw_loop w)" "sw_handle w" "sw_epoch w" "cur = sw_loop w"] ok
  show "runnable (sw_loop w) (sw_handle w) (schedule_waiter cur w W)"
    by (simp add: runnable_def schedule_waiter_def schedule_if_current_on_def world_ok_def
        schedule_if_current_frames Let_def)
qed (auto simp: world_ok_schedule_waiter runnable_schedule_waiter)

subsection \<open>Beginning and ending a wait\<close>

text \<open>\<open>begin_wait\<close> on a live frame makes the new registration current; ending a wait makes it stale.\<close>

definition frame_alive :: "nat \<Rightarrow> handle \<Rightarrow> loops \<Rightarrow> bool" where
  "frame_alive k h W \<longleftrightarrow> live_frames (frames (W k)) h \<noteq> None"

lemma begin_wait_waiting:
  assumes "begin_wait_on k h W = (ep, W')" "frame_alive k h W" "counters_left (frames (W k))"
    "h \<noteq> 0" "k \<noteq> 0"
  shows "waiting \<lparr>sw_handle = h, sw_loop = k, sw_epoch = ep\<rparr> W'"
  using assms word_Suc_not_zero [of "next_wait_epoch (frames (W k))"]
  by (auto simp: waiting_def is_wait_current_on_def el_is_wait_current_def begin_wait_on_def
      el_begin_wait_def ft_begin_wait_def wait_is_current_def set_frame_def frame_alive_def Let_def
      counters_left_def split: prod.splits)

lemma end_wait_not_waiting:
  "\<not> waiting \<lparr>sw_handle = h, sw_loop = k, sw_epoch = ep\<rparr> (end_wait_on k h ep W)"
  by (auto simp: waiting_def is_wait_current_on_def el_is_wait_current_def end_wait_on_def
      el_end_wait_def ft_end_wait_def wait_is_current_def set_frame_def split: option.splits)

lemma world_ok_end_wait: "world_ok W \<Longrightarrow> world_ok (end_wait_on k h ep W)"
  by (auto simp: end_wait_on_def world_ok_def intro: loop_inv_full_api [OF api_end_wait])

lemma erase_waiter_handles [simp]:
  "map sw_handle (erase_waiter h ws) = filter (\<lambda>x. x \<noteq> h) (map sw_handle ws)"
  by (induction ws) (auto simp: erase_waiter_def)

lemma set_erase_waiter [simp]: "set (erase_waiter h ws) = {w \<in> set ws. sw_handle w \<noteq> h}"
  by (auto simp: erase_waiter_def)

lemma erase_waiter_Nil [simp]: "erase_waiter h [] = []"
  by (simp add: erase_waiter_def)

lemma waiting_nonzero: "waiting w W \<Longrightarrow> sw_handle w \<noteq> 0 \<and> sw_loop w \<noteq> 0 \<and> sw_epoch w \<noteq> 0"
  by (auto simp: waiting_def is_wait_current_on_def el_is_wait_current_def split: if_splits)

end
