(* ===== verification/Sync_Lock.thy ===== *)
theory Sync_Lock
  imports Waiters
begin

section \<open>The recursive lock\<close>

text \<open>
  \<open>Lock\<close> of include/coro/sync.hpp. Every method runs under the lock's mutex and wakes at most one
  waiter afterwards, so it is one step on the pair of the lock and the loops. \<open>recursion_count\<close> is a
  C++ \<open>int\<close> whose overflow is undefined; it is unbounded here. The lock is shown to implement a
  waiting line: the head holds the lock, arrivals join at the end, and a coroutine that is cancelled
  leaves the line wherever it stands.
\<close>

record lock =
  locked :: bool
  owner :: handle
  recursion_count :: int
  lk_waiters :: "sync_waiter list"

type_synonym lock_sys = "lock \<times> loops"

definition lock_new :: lock where
  "lock_new = \<lparr>locked = False, owner = null_handle, recursion_count = 0, lk_waiters = []\<rparr>"

text \<open>The result of \<open>await_suspend\<close>: the epoch of the wait when the coroutine is suspended.\<close>

definition acquire_suspend :: "nat \<Rightarrow> handle \<Rightarrow> lock_sys \<Rightarrow> u64 option \<times> lock_sys" where
  "acquire_suspend cur h = (\<lambda>(L, W).
     if owner L = h then (None, L\<lparr>recursion_count := recursion_count L + 1\<rparr>, W)
     else if \<not> locked L then (None, L\<lparr>locked := True, owner := h\<rparr>, W)
     else (case begin_wait_on cur h W of
             (epoch, W') \<Rightarrow>
               (Some epoch,
                L\<lparr>lk_waiters := lk_waiters L @ [\<lparr>sw_handle = h, sw_loop = cur, sw_epoch = epoch\<rparr>]\<rparr>, W')))"

text \<open>\<open>guard_awaiter\<close> repeats the code of \<open>acquire_awaiter\<close>; it differs in what it returns.\<close>

definition guard_suspend :: "nat \<Rightarrow> handle \<Rightarrow> lock_sys \<Rightarrow> u64 option \<times> lock_sys" where
  "guard_suspend cur h S = acquire_suspend cur h S"

definition acquire_resume :: "nat \<Rightarrow> handle \<Rightarrow> u64 \<Rightarrow> lock_sys \<Rightarrow> lock_sys" where
  "acquire_resume lp h epoch = (\<lambda>(L, W).
     if lp \<noteq> 0 \<and> epoch \<noteq> 0 then (L, end_wait_on lp h epoch W) else (L, W))"

definition unlock_locked :: "lock \<Rightarrow> sync_waiter option \<times> lock" where
  "unlock_locked L =
     (case lk_waiters L of
        next # rest \<Rightarrow> (Some next, L\<lparr>owner := sw_handle next, lk_waiters := rest\<rparr>)
      | [] \<Rightarrow> (None, L\<lparr>owner := null_handle, locked := False\<rparr>))"

text \<open>The call of \<open>schedule_waiter\<close> after the mutex is released; a null handle is not scheduled.\<close>

definition wake_next :: "nat \<Rightarrow> sync_waiter option \<times> lock \<Rightarrow> loops \<Rightarrow> lock_sys" where
  "wake_next cur = (\<lambda>(next, L) W.
     case next of
       None \<Rightarrow> (L, W)
     | Some w \<Rightarrow> if sw_handle w \<noteq> null_handle then (L, schedule_waiter cur w W) else (L, W))"

definition lock_release :: "nat \<Rightarrow> lock_sys \<Rightarrow> lock_sys" where
  "lock_release cur = (\<lambda>(L, W).
     if recursion_count L > 0 then (L\<lparr>recursion_count := recursion_count L - 1\<rparr>, W)
     else if \<not> locked L then (L, W)
     else wake_next cur (unlock_locked L) W)"

definition lock_on_waiter_destroyed :: "nat \<Rightarrow> handle \<Rightarrow> lock_sys \<Rightarrow> lock_sys" where
  "lock_on_waiter_destroyed cur h = (\<lambda>(L, W).
     (let L = L\<lparr>lk_waiters := erase_waiter h (lk_waiters L)\<rparr>
      in if owner L \<noteq> h then (L, W) else lock_release cur (L, W)))"

definition acquire_on_waiter_destroyed :: "nat \<Rightarrow> nat \<Rightarrow> u64 \<Rightarrow> handle \<Rightarrow> lock_sys \<Rightarrow> lock_sys" where
  "acquire_on_waiter_destroyed cur lp epoch h = (\<lambda>(L, W).
     lock_on_waiter_destroyed cur h
       (if lp \<noteq> 0 \<and> epoch \<noteq> 0 then (L, end_wait_on lp h epoch W) else (L, W)))"

definition hand_off :: "nat \<Rightarrow> sync_waiter \<Rightarrow> lock_sys \<Rightarrow> lock_sys" where
  "hand_off cur w = (\<lambda>(L, W).
     if sw_loop w = 0 \<or> \<not> is_wait_current_on (sw_loop w) (sw_handle w) (sw_epoch w) W then (L, W)
     else if \<not> locked L
     then (L\<lparr>locked := True, owner := sw_handle w\<rparr>, schedule_waiter cur w W)
     else (L\<lparr>lk_waiters := lk_waiters L @ [w]\<rparr>, W))"

definition is_owned_by :: "handle \<Rightarrow> lock \<Rightarrow> bool" where
  "is_owned_by h L \<longleftrightarrow> owner L = h"

fun has_waiter_in :: "handle \<Rightarrow> sync_waiter list \<Rightarrow> bool" where
  "has_waiter_in h [] = False"
| "has_waiter_in h (w # ws) = (if sw_handle w = h then True else has_waiter_in h ws)"

definition has_waiter :: "handle \<Rightarrow> lock \<Rightarrow> bool" where
  "has_waiter h L = has_waiter_in h (lk_waiters L)"

definition release_if_owner :: "nat \<Rightarrow> handle \<Rightarrow> lock_sys \<Rightarrow> lock_sys" where
  "release_if_owner cur who = (\<lambda>(L, W).
     if owner L \<noteq> who then (L, W)
     else if recursion_count L > 0 then (L\<lparr>recursion_count := recursion_count L - 1\<rparr>, W)
     else if \<not> locked L then (L, W)
     else wake_next cur (unlock_locked L) W)"

lemmas lock_defs =
  acquire_suspend_def guard_suspend_def acquire_resume_def unlock_locked_def wake_next_def
  lock_release_def lock_on_waiter_destroyed_def acquire_on_waiter_destroyed_def hand_off_def
  is_owned_by_def has_waiter_def release_if_owner_def

subsection \<open>The waiting line\<close>

definition handles :: "sync_waiter list \<Rightarrow> handle list" where
  "handles ws = map sw_handle ws"

lemma handles_simps [simp]:
  "handles [] = []" "handles (w # ws) = sw_handle w # handles ws" "handles (ws @ vs) = handles ws @ handles vs"
  "handles (erase_waiter h ws) = filter (\<lambda>x. x \<noteq> h) (handles ws)" "handles ws = [] \<longleftrightarrow> ws = []"
  by (simp_all add: handles_def)

lemma has_waiter_in_iff: "has_waiter_in h ws \<longleftrightarrow> h \<in> set (handles ws)"
  by (induction ws) auto

definition line :: "lock \<Rightarrow> handle list" where
  "line L = (if locked L then owner L # handles (lk_waiters L) else [])"

definition lock_wf :: "lock \<Rightarrow> bool" where
  "lock_wf L \<longleftrightarrow>
     (locked L \<longleftrightarrow> owner L \<noteq> null_handle) \<and> (lk_waiters L \<noteq> [] \<longrightarrow> locked L) \<and>
     null_handle \<notin> set (handles (lk_waiters L)) \<and> distinct (line L) \<and>
     0 \<le> recursion_count L \<and> (\<not> locked L \<longrightarrow> recursion_count L = 0)"

text \<open>What the users of the lock do. A suspended coroutine does not run, so it does not acquire
  again while it waits; one that is destroyed while it waits, or between being named as the next
  holder and running, has not entered recursively. The loops change freely in between.\<close>

inductive lock_step :: "lock_sys \<Rightarrow> lock_sys \<Rightarrow> bool" where
  lock_acquire: "h \<noteq> null_handle \<Longrightarrow> h \<notin> set (handles (lk_waiters L)) \<Longrightarrow>
    lock_step (L, W) (snd (acquire_suspend cur h (L, W)))"
| lock_resume: "lock_step (L, W) (acquire_resume lp h ep (L, W))"
| lock_rel: "lock_step (L, W) (lock_release cur (L, W))"
| lock_guard: "lock_step (L, W) (release_if_owner cur h (L, W))"
| lock_destroy: "h \<noteq> null_handle \<Longrightarrow> owner L = h \<longrightarrow> recursion_count L = 0 \<Longrightarrow>
    lock_step (L, W) (acquire_on_waiter_destroyed cur lp ep h (L, W))"
| lock_hand_off: "sw_handle w \<noteq> null_handle \<Longrightarrow> sw_handle w \<notin> set (line L) \<Longrightarrow>
    lock_step (L, W) (hand_off cur w (L, W))"
| lock_loops: "lock_step (L, W) (L, W')"

text \<open>The abstract line: its members and how often the head has entered again.\<close>

inductive line_step :: "handle list \<times> int \<Rightarrow> handle list \<times> int \<Rightarrow> bool" where
  join: "h \<notin> set xs \<Longrightarrow> line_step (xs, d) (xs @ [h], d)"
| enter_again: "line_step (h # xs, d) (h # xs, d + 1)"
| leave_inner: "0 < d \<Longrightarrow> line_step (xs, d) (xs, d - 1)"
| leave: "line_step (x # xs, 0) (xs, 0)"
| give_up: "xs \<noteq> [] \<longrightarrow> hd xs = h \<longrightarrow> d = 0 \<Longrightarrow> line_step (xs, d) (filter (\<lambda>x. x \<noteq> h) xs, d)"
| idle: "line_step s s"

definition lock_abs :: "lock_sys \<Rightarrow> handle list \<times> int" where
  "lock_abs = (\<lambda>(L, W). (line L, recursion_count L))"

lemma lock_release_wf: "lock_wf L \<Longrightarrow> lock_wf (fst (lock_release cur (L, W)))"
  by (auto simp: lock_release_def unlock_locked_def wake_next_def lock_wf_def line_def split: list.split)

lemma erase_absent: "h \<notin> set (handles ws) \<Longrightarrow> erase_waiter h ws = ws"
  by (induction ws) (auto simp: erase_waiter_def)

lemma filter_absent: "h \<notin> set xs \<Longrightarrow> filter (\<lambda>x. x \<noteq> h) xs = xs"
  by (induction xs) auto

text \<open>A coroutine that is destroyed leaves the line, from the middle or from its head.\<close>

lemma destroyed_line:
  assumes "lock_wf L" "h \<noteq> null_handle" "owner L = h \<longrightarrow> recursion_count L = 0"
  shows "lock_abs (lock_on_waiter_destroyed cur h (L, W))
       = (filter (\<lambda>x. x \<noteq> h) (line L), recursion_count L)"
proof (cases "owner L = h")
  case True
  with assms have "locked L" "h \<notin> set (handles (lk_waiters L))" "recursion_count L = 0"
    by (auto simp: lock_wf_def line_def)
  with True show ?thesis
    by (auto simp: lock_on_waiter_destroyed_def lock_release_def unlock_locked_def wake_next_def
        lock_abs_def line_def erase_absent filter_absent split: list.split)
qed (auto simp: lock_on_waiter_destroyed_def lock_abs_def line_def)

lemma lock_step_wf:
  assumes "lock_step S T" "lock_wf (fst S)"
  shows "lock_wf (fst T)"
  using assms
proof (induction rule: lock_step.induct)
  case (lock_acquire h L W cur)
  then show ?case
    by (auto simp: acquire_suspend_def lock_wf_def line_def split: prod.split if_splits)
next
  case (lock_resume L W lp h ep)
  then show ?case by (simp add: acquire_resume_def)
next
  case (lock_rel L W cur)
  then show ?case by (simp add: lock_release_wf)
next
  case (lock_guard L W cur h)
  then show ?case
    by (auto simp: release_if_owner_def unlock_locked_def wake_next_def lock_wf_def line_def
        split: list.split)
next
  case (lock_destroy h L W cur lp ep)
  have "lock_wf (L\<lparr>lk_waiters := erase_waiter h (lk_waiters L)\<rparr>)"
    using lock_destroy by (auto simp: lock_wf_def line_def)
  then show ?case
    by (simp add: acquire_on_waiter_destroyed_def lock_on_waiter_destroyed_def Let_def lock_release_wf)
next
  case (lock_hand_off w L W cur)
  then show ?case by (auto simp: hand_off_def lock_wf_def line_def)
qed simp

lemma lock_step_line:
  assumes "lock_step S T" "lock_wf (fst S)"
  shows "line_step (lock_abs S) (lock_abs T)"
  using assms
proof (induction rule: lock_step.induct)
  case (lock_acquire h L W cur)
  consider "owner L = h" | "owner L \<noteq> h" "\<not> locked L" | "owner L \<noteq> h" "locked L" by blast
  then show ?case
  proof cases
    case 1
    with lock_acquire show ?thesis
      by (simp add: acquire_suspend_def lock_abs_def lock_wf_def line_def enter_again)
  next
    case 2
    with lock_acquire join [of h "[]" 0] show ?thesis
      by (simp add: acquire_suspend_def lock_abs_def lock_wf_def line_def)
  next
    case 3
    with lock_acquire join [of h "line L" "recursion_count L"] show ?thesis
      by (simp add: acquire_suspend_def lock_abs_def line_def case_prod_unfold)
  qed
next
  case (lock_resume L W lp h ep)
  then show ?case by (simp add: acquire_resume_def lock_abs_def idle)
next
  case (lock_rel L W cur)
  then show ?case
    by (auto simp: lock_release_def unlock_locked_def wake_next_def lock_abs_def line_def lock_wf_def
        intro: leave leave_inner idle split: list.split)
next
  case (lock_guard L W cur h)
  then show ?case
    by (auto simp: release_if_owner_def unlock_locked_def wake_next_def lock_abs_def line_def lock_wf_def
        intro: leave leave_inner idle split: list.split)
next
  case (lock_destroy h L W cur lp ep)
  then have "lock_abs (acquire_on_waiter_destroyed cur lp ep h (L, W))
      = (filter (\<lambda>x. x \<noteq> h) (line L), recursion_count L)"
    by (simp add: acquire_on_waiter_destroyed_def destroyed_line)
  moreover have "lock_abs (L, W) = (line L, recursion_count L)" by (simp add: lock_abs_def)
  moreover have "line L \<noteq> [] \<longrightarrow> hd (line L) = h \<longrightarrow> recursion_count L = 0"
    using lock_destroy by (simp add: line_def)
  ultimately show ?case by (simp add: give_up)
next
  case (lock_hand_off w L W cur)
  then show ?case
    using join [of "sw_handle w" "line L" "recursion_count L"]
    by (auto simp: hand_off_def lock_abs_def line_def lock_wf_def intro: idle)
next
  case (lock_loops L W W')
  then show ?case by (simp add: lock_abs_def idle)
qed

interpretation lock_line: refinement "\<lambda>S. fst S = lock_new" lock_step "\<lambda>S. lock_wf (fst S)"
  lock_abs "\<lambda>s. s = ([], 0)" line_step
proof unfold_locales
  show "lock_wf (fst S)" if "fst S = lock_new" for S :: lock_sys
    using that by (simp add: lock_wf_def lock_new_def line_def)
  show "lock_abs S = ([], 0)" if "fst S = lock_new" for S :: lock_sys
    using that by (cases S) (simp add: lock_abs_def lock_new_def line_def)
qed (auto intro: lock_step_wf lock_step_line)

subsection \<open>No overtaking\<close>

definition before :: "'a \<Rightarrow> 'a \<Rightarrow> 'a list \<Rightarrow> bool" where
  "before a b xs \<longleftrightarrow> (\<exists>us vs. xs = us @ a # vs \<and> b \<in> set vs)"

lemma before_Cons: "before a b (x # xs) \<longleftrightarrow> (x = a \<and> b \<in> set xs) \<or> before a b xs"
proof
  assume "before a b (x # xs)"
  then obtain us vs where *: "x # xs = us @ a # vs" "b \<in> set vs" by (auto simp: before_def)
  then show "(x = a \<and> b \<in> set xs) \<or> before a b xs"
    by (cases us) (auto simp: before_def)
next
  assume "(x = a \<and> b \<in> set xs) \<or> before a b xs"
  then show "before a b (x # xs)"
    unfolding before_def by (metis append_Cons append_Nil)
qed

lemma before_Nil [simp]: "\<not> before a b []"
  by (simp add: before_def)

lemma before_append: "before a b xs \<Longrightarrow> before a b (xs @ ys)"
  by (induction xs) (auto simp: before_Cons)

lemma before_filter: "before a b xs \<Longrightarrow> P a \<Longrightarrow> P b \<Longrightarrow> before a b (filter P xs)"
  by (induction xs) (auto simp: before_Cons)

lemma line_step_order:
  assumes "line_step (xs, d) (ys, e)" "distinct xs" "before a b xs" "a \<in> set ys" "b \<in> set ys"
  shows "before a b ys"
  using assms
  by (cases rule: line_step.cases) (auto simp: before_Cons before_append before_filter)



text \<open>A release hands the lock over to the first waiter: if that waiter has not been cancelled, it
  owns the lock at once and its frame is queued on the loop it suspended on, whichever thread
  released, while the others move up. The same holds when the holder is destroyed before it could run.\<close>

theorem lock_handed_over:
  assumes "world_ok W" "lk_waiters L = w # ws" "waiting w W" "locked L" "recursion_count L = 0"
    and "(L', W') = lock_release cur (L, W) \<or>
         (L', W') = lock_on_waiter_destroyed cur (owner L) (L, W) \<and> owner L \<notin> set (handles (w # ws))"
  shows "owner L' = sw_handle w \<and> lk_waiters L' = ws \<and> locked L' \<and> world_ok W' \<and>
         runnable (sw_loop w) (sw_handle w) W'"
proof -
  have nz: "sw_handle w \<noteq> 0" using waiting_nonzero [OF assms(3)] by simp
  have "erase_waiter (owner L) (w # ws) = w # ws" if "owner L \<notin> set (handles (w # ws))"
    using that by (rule erase_absent)
  with assms nz have "(L', W') = (L\<lparr>owner := sw_handle w, lk_waiters := ws\<rparr>, schedule_waiter cur w W)"
    by (auto simp: lock_release_def lock_on_waiter_destroyed_def unlock_locked_def wake_next_def)
  with wakes.wake_pending [OF assms(1,3)] wakes.wake_ok [OF assms(1)] assms(4) show ?thesis by simp
qed

text \<open>Coroutine 3 holds the lock, coroutine 4 waits on loop 1.\<close>

definition contended :: lock_sys where
  "contended =
     (let W = (\<lambda>_. el_new)(1 := on_coroutine_started 4 el_new)
      in snd (acquire_suspend 1 4 (snd (acquire_suspend 1 3 (lock_new, W)))))"

lemma world_ok_new: "world_ok (\<lambda>_. el_new)"
  using loop_full.inv_init by (simp add: world_ok_def)

lemma world_ok_started:
  "world_ok W \<Longrightarrow> counters_left (frames (W k)) \<Longrightarrow> world_ok (W(k := on_coroutine_started h (W k)))"
  by (intro world_ok_upd loop_inv_full_api [OF api_started]) (auto simp: world_ok_def)

lemma world_ok_begin_wait:
  "world_ok W \<Longrightarrow> counters_left (frames (W k)) \<Longrightarrow> begin_wait_on k h W = (ep, W') \<Longrightarrow> world_ok W'"
  using loop_inv_full_api [OF api_begin_wait, of "W k" h]
  by (auto simp: begin_wait_on_def world_ok_def split: prod.splits)

lemma contended_waits:
  "\<exists>ep. fst contended = \<lparr>locked = True, owner = 3, recursion_count = 0,
            lk_waiters = [\<lparr>sw_handle = 4, sw_loop = 1, sw_epoch = ep\<rparr>]\<rparr> \<and>
        world_ok (snd contended) \<and> waiting \<lparr>sw_handle = 4, sw_loop = 1, sw_epoch = ep\<rparr> (snd contended)"
proof -
  let ?W = "(\<lambda>_. el_new)(1 := on_coroutine_started 4 el_new)"
  obtain ep W where b: "begin_wait_on 1 4 ?W = (ep, W)" by fastforce
  let ?w = "\<lparr>sw_handle = 4, sw_loop = 1, sw_epoch = ep\<rparr>"
  have c: "contended = (\<lparr>locked = True, owner = 3, recursion_count = 0, lk_waiters = [?w]\<rparr>, W)"
    using b by (simp add: contended_def Let_def acquire_suspend_def lock_new_def)
  have left: "counters_left (frames el_new)" "counters_left (frames (?W 1))"
    by (simp_all add: counters_left_def el_new_def ft_new_def on_coroutine_started_def ft_add_def)
  have "world_ok ?W" using world_ok_started [OF world_ok_new left(1), of 1 4] by simp
  then have "world_ok W" using left(2) b by (rule world_ok_begin_wait)
  moreover have "waiting ?w W"
    by (rule begin_wait_waiting [OF b _ left(2)])
      (simp_all add: frame_alive_def on_coroutine_started_def ft_add_def el_new_def ft_new_def)
  ultimately show ?thesis unfolding c fst_conv snd_conv by blast
qed

theorem lock_handed_over_witness:
  "case contended of (L, W) \<Rightarrow>
     owner L = 3 \<and> (case lock_release 2 (L, W) of (L', W') \<Rightarrow> owner L' = 4 \<and> runnable 1 4 W')"
proof -
  obtain L W where c: "contended = (L, W)" by fastforce
  obtain ep where L: "L = \<lparr>locked = True, owner = 3, recursion_count = 0,
      lk_waiters = [\<lparr>sw_handle = 4, sw_loop = 1, sw_epoch = ep\<rparr>]\<rparr>"
    and ok: "world_ok W" and wt: "waiting \<lparr>sw_handle = 4, sw_loop = 1, sw_epoch = ep\<rparr> W"
    using contended_waits c by (metis prod.sel)
  obtain L' W' where r: "lock_release 2 (L, W) = (L', W')" by fastforce
  from lock_handed_over [OF ok _ wt, of L "[]" L' W' 2] r show ?thesis by (simp add: c L)
qed

end
