(* ===== verification/Sync_Semaphore.thy ===== *)
theory Sync_Semaphore
  imports Sync_Lock
begin

section \<open>The semaphore\<close>

text \<open>
  \<open>Semaphore\<close> of include/coro/sync.hpp. The awaiters live in the frames of the waiting coroutines;
  the queue holds pointers to them. \<open>nodes\<close> is the store of awaiters by address, so that marking a
  queued awaiter as reserved is visible to the awaiter itself. \<open>permits\<close> is a C++ \<open>int\<close>.
\<close>

record sem_waiter =
  sm_handle :: handle
  sm_loop :: nat
  sm_reserved :: bool
  sm_epoch :: u64

record semaphore =
  permits :: int
  sm_waiters :: "nat list"

type_synonym sem_nodes = "nat \<Rightarrow> sem_waiter option"
type_synonym sem_sys = "semaphore \<times> sem_nodes \<times> loops"

definition sem_new :: "int \<Rightarrow> semaphore" where
  "sem_new n = \<lparr>permits = n, sm_waiters = []\<rparr>"

definition sem_acquire_ready :: "semaphore \<Rightarrow> bool \<times> semaphore" where
  "sem_acquire_ready S =
     (if permits S > 0 then (True, S\<lparr>permits := permits S - 1\<rparr>) else (False, S))"

text \<open>\<open>await_suspend\<close> looks at the permits again: one may have come back since \<open>await_ready\<close>.\<close>

definition sem_acquire_suspend :: "nat \<Rightarrow> nat \<Rightarrow> handle \<Rightarrow> sem_sys \<Rightarrow> bool \<times> sem_sys" where
  "sem_acquire_suspend cur n h = (\<lambda>(S, N, W).
     if permits S > 0 then (False, S\<lparr>permits := permits S - 1\<rparr>, N, W)
     else (case begin_wait_on cur h W of
             (epoch, W') \<Rightarrow>
               (True, S\<lparr>sm_waiters := sm_waiters S @ [n]\<rparr>,
                N(n \<mapsto> \<lparr>sm_handle = h, sm_loop = cur, sm_reserved = False, sm_epoch = epoch\<rparr>), W')))"

definition sem_end_wait :: "sem_waiter \<Rightarrow> loops \<Rightarrow> loops" where
  "sem_end_wait w W =
     (if sm_loop w \<noteq> 0 \<and> sm_epoch w \<noteq> 0 then end_wait_on (sm_loop w) (sm_handle w) (sm_epoch w) W else W)"

definition sem_resume :: "nat \<Rightarrow> sem_sys \<Rightarrow> sem_sys" where
  "sem_resume n = (\<lambda>(S, N, W).
     case N n of None \<Rightarrow> (S, N, W) | Some w \<Rightarrow> (S, N, sem_end_wait w W))"

definition sem_release :: "nat \<Rightarrow> sem_sys \<Rightarrow> sem_sys" where
  "sem_release cur = (\<lambda>(S, N, W).
     case sm_waiters S of
       [] \<Rightarrow> (S\<lparr>permits := permits S + 1\<rparr>, N, W)
     | n # rest \<Rightarrow>
         (case N n of
            None \<Rightarrow> (S\<lparr>sm_waiters := rest\<rparr>, N, W)
          | Some w \<Rightarrow>
              (S\<lparr>sm_waiters := rest\<rparr>, N(n \<mapsto> w\<lparr>sm_reserved := True\<rparr>),
               if sm_handle w \<noteq> null_handle \<and> sm_loop w \<noteq> 0
               then schedule_if_current_on cur (sm_loop w) (sm_handle w) (sm_epoch w) W else W)))"

definition sem_remove_waiter :: "nat \<Rightarrow> nat \<Rightarrow> sem_sys \<Rightarrow> sem_sys" where
  "sem_remove_waiter cur n = (\<lambda>(S, N, W).
     case N n of
       None \<Rightarrow> (S, N, W)
     | Some w \<Rightarrow>
         (if sm_reserved w then sem_release cur (S, N(n \<mapsto> w\<lparr>sm_reserved := False\<rparr>), W)
          else (S\<lparr>sm_waiters := erase_first (\<lambda>m. m = n) (sm_waiters S)\<rparr>, N, W)))"

definition sem_on_waiter_destroyed :: "nat \<Rightarrow> nat \<Rightarrow> sem_sys \<Rightarrow> sem_sys" where
  "sem_on_waiter_destroyed cur n = (\<lambda>(S, N, W).
     case N n of
       None \<Rightarrow> (S, N, W)
     | Some w \<Rightarrow> sem_remove_waiter cur n (S, N, sem_end_wait w W))"

subsection \<open>Permits are conserved\<close>

text \<open>
  A run of the semaphore: \<open>held\<close> counts the coroutines that have acquired and not yet released. An
  awaiter enters the store when its coroutine suspends and leaves it when the coroutine resumes, which
  happens once a permit is reserved for it, or is cancelled.
\<close>

record sem_run =
  sr_sem :: semaphore
  sr_nodes :: sem_nodes
  sr_loops :: loops
  held :: nat

definition sem_put :: "sem_run \<Rightarrow> sem_sys \<Rightarrow> sem_run" where
  "sem_put R = (\<lambda>(S, N, W). R\<lparr>sr_sem := S, sr_nodes := N, sr_loops := W\<rparr>)"

definition sem_get :: "sem_run \<Rightarrow> sem_sys" where
  "sem_get R = (sr_sem R, sr_nodes R, sr_loops R)"

definition drop_node :: "nat \<Rightarrow> sem_run \<Rightarrow> sem_run" where
  "drop_node n R = R\<lparr>sr_nodes := (sr_nodes R)(n := None)\<rparr>"

inductive sem_step :: "sem_run \<Rightarrow> sem_run \<Rightarrow> bool" where
  sem_ready: "sem_acquire_ready (sr_sem R) = (True, S) \<Longrightarrow>
    sem_step R (R\<lparr>sr_sem := S, held := Suc (held R)\<rparr>)"
| sem_suspend_taken: "sem_acquire_suspend cur n h (sem_get R) = (False, s) \<Longrightarrow>
    sem_step R ((sem_put R s)\<lparr>held := Suc (held R)\<rparr>)"
| sem_suspend: "sr_nodes R n = None \<Longrightarrow> sem_acquire_suspend cur n h (sem_get R) = (True, s) \<Longrightarrow>
    sem_step R (sem_put R s)"
| sem_resumed: "sr_nodes R n = Some w \<Longrightarrow> sm_reserved w \<Longrightarrow>
    sem_step R (drop_node n ((sem_put R (sem_resume n (sem_get R)))\<lparr>held := Suc (held R)\<rparr>))"
| sem_cancelled: "sr_nodes R n = Some w \<Longrightarrow>
    sem_step R (drop_node n (sem_put R (sem_on_waiter_destroyed cur n (sem_get R))))"
| sem_released: "held R = Suc k \<Longrightarrow>
    sem_step R ((sem_put R (sem_release cur (sem_get R)))\<lparr>held := k\<rparr>)"
| sem_loops: "sem_step R (R\<lparr>sr_loops := W\<rparr>)"

definition reserved_nodes :: "sem_nodes \<Rightarrow> nat set" where
  "reserved_nodes N = {n. \<exists>w. N n = Some w \<and> sm_reserved w}"

definition queued_nodes :: "sem_nodes \<Rightarrow> nat set" where
  "queued_nodes N = {n. \<exists>w. N n = Some w \<and> \<not> sm_reserved w}"

definition sem_wf :: "semaphore \<Rightarrow> sem_nodes \<Rightarrow> bool" where
  "sem_wf S N \<longleftrightarrow>
     finite (reserved_nodes N) \<and> distinct (sm_waiters S) \<and> set (sm_waiters S) = queued_nodes N \<and>
     (permits S > 0 \<longrightarrow> sm_waiters S = [])"

definition permit_count :: "semaphore \<Rightarrow> sem_nodes \<Rightarrow> int" where
  "permit_count S N = permits S + int (card (reserved_nodes N))"

definition sem_inv :: "int \<Rightarrow> sem_run \<Rightarrow> bool" where
  "sem_inv capacity R \<longleftrightarrow>
     sem_wf (sr_sem R) (sr_nodes R) \<and> permit_count (sr_sem R) (sr_nodes R) + int (held R) = capacity \<and>
     min 0 capacity \<le> permits (sr_sem R)"

lemma reserved_upd:
  "reserved_nodes (N(n \<mapsto> w)) = (if sm_reserved w then insert n (reserved_nodes N) else reserved_nodes N - {n})"
  "queued_nodes (N(n \<mapsto> w)) = (if sm_reserved w then queued_nodes N - {n} else insert n (queued_nodes N))"
  "reserved_nodes (N(n := None)) = reserved_nodes N - {n}"
  "queued_nodes (N(n := None)) = queued_nodes N - {n}"
  by (auto simp: reserved_nodes_def queued_nodes_def)

lemma reserved_memb:
  "N n = Some w \<Longrightarrow> n \<in> reserved_nodes N \<longleftrightarrow> sm_reserved w"
  "N n = Some w \<Longrightarrow> n \<in> queued_nodes N \<longleftrightarrow> \<not> sm_reserved w"
  "N n = None \<Longrightarrow> n \<notin> reserved_nodes N" "N n = None \<Longrightarrow> n \<notin> queued_nodes N"
  by (auto simp: reserved_nodes_def queued_nodes_def)

text \<open>What a release adds: one more permit in the count or in a waiter's name.\<close>

lemma sem_release_counts:
  assumes wf: "sem_wf S N" and r: "sem_release cur (S, N, W) = (S', N', W')"
  shows "sem_wf S' N'" "permit_count S' N' = permit_count S N + 1" "permits S \<le> permits S'"
proof -
  have "sem_wf S' N' \<and> permit_count S' N' = permit_count S N + 1 \<and> permits S \<le> permits S'"
  proof (cases "sm_waiters S")
    case Nil
    with wf r show ?thesis by (auto simp: sem_release_def sem_wf_def permit_count_def)
  next
    case (Cons n rest)
    then have "n \<in> queued_nodes N" using wf by (auto simp: sem_wf_def)
    then obtain w where w: "N n = Some w" "\<not> sm_reserved w" by (auto simp: queued_nodes_def)
    then have "n \<notin> reserved_nodes N" by (simp add: reserved_memb)
    moreover have "S' = S\<lparr>sm_waiters := rest\<rparr>" "N' = N(n \<mapsto> w\<lparr>sm_reserved := True\<rparr>)"
      using w Cons r by (auto simp: sem_release_def)
    ultimately show ?thesis using wf Cons by (auto simp: sem_wf_def permit_count_def reserved_upd)
  qed
  then show "sem_wf S' N'" "permit_count S' N' = permit_count S N + 1" "permits S \<le> permits S'" by auto
qed

text \<open>The node of the cancelled coroutine is not in the queue any more, so it does not matter for the
  release that passes its permit on.\<close>

lemma sem_release_other:
  assumes "n \<notin> set (sm_waiters S)" "sem_release cur (S, N(n := v), W) = (S', N', W')"
  shows "sem_release cur (S, N(n := None), W) = (S', N'(n := None), W')"
  using assms by (auto simp: sem_release_def split: list.splits option.splits)

lemma sem_cancel_counts:
  assumes wf: "sem_wf S N" and n: "N n = Some w"
    and r: "sem_on_waiter_destroyed cur n (S, N, W) = (S', N', W')"
  shows "sem_wf S' (N'(n := None)) \<and> permit_count S' (N'(n := None)) = permit_count S N \<and>
         permits S \<le> permits S'"
proof (cases "sm_reserved w")
  case True
  then have "n \<notin> set (sm_waiters S)" using wf n by (auto simp: sem_wf_def reserved_memb)
  moreover have "sem_release cur (S, N(n := Some (w\<lparr>sm_reserved := False\<rparr>)), sem_end_wait w W) = (S', N', W')"
    using r n True by (simp add: sem_on_waiter_destroyed_def sem_remove_waiter_def)
  ultimately have "sem_release cur (S, N(n := None), sem_end_wait w W) = (S', N'(n := None), W')"
    by (rule sem_release_other)
  moreover have "sem_wf S (N(n := None))"
    using wf n True by (auto simp: sem_wf_def reserved_upd reserved_memb)
  moreover have "permit_count S (N(n := None)) + 1 = permit_count S N"
  proof -
    have "n \<in> reserved_nodes N" "finite (reserved_nodes N)"
      using n True wf by (auto simp: reserved_memb sem_wf_def)
    then show ?thesis using card_Suc_Diff1 [of "reserved_nodes N" n]
      by (simp add: permit_count_def reserved_upd)
  qed
  ultimately show ?thesis using sem_release_counts by fastforce
next
  case False
  with r n have "S' = S\<lparr>sm_waiters := remove1 n (sm_waiters S)\<rparr>" "N' = N"
    by (auto simp: sem_on_waiter_destroyed_def sem_remove_waiter_def erase_first_eq_remove1)
  moreover have "n \<notin> reserved_nodes N" using n False by (simp add: reserved_memb)
  ultimately show ?thesis
    using wf by (auto simp: sem_wf_def permit_count_def reserved_upd)
qed

lemma sem_step_inv:
  assumes "sem_step R R'" "sem_inv capacity R"
  shows "sem_inv capacity R'"
  using assms
proof (induction rule: sem_step.induct)
  case (sem_ready R S)
  then show ?case
    by (auto simp: sem_acquire_ready_def sem_inv_def sem_wf_def permit_count_def split: if_splits)
next
  case (sem_suspend_taken cur n h R s)
  then show ?case
    by (auto simp: sem_acquire_suspend_def sem_get_def sem_put_def sem_inv_def sem_wf_def permit_count_def
        split: if_splits prod.splits)
next
  case (sem_suspend R n cur h s)
  then show ?case
    by (auto simp: sem_acquire_suspend_def sem_get_def sem_put_def sem_inv_def sem_wf_def permit_count_def
        reserved_upd reserved_memb split: if_splits prod.splits)
next
  case (sem_resumed R n w)
  have "n \<in> reserved_nodes (sr_nodes R)" "finite (reserved_nodes (sr_nodes R))"
    "n \<notin> queued_nodes (sr_nodes R)"
    using sem_resumed by (auto simp: reserved_memb sem_inv_def sem_wf_def)
  moreover note card_Suc_Diff1 [OF this(2,1)]
  ultimately show ?case
    using sem_resumed
    by (auto simp: sem_resume_def sem_get_def sem_put_def drop_node_def sem_inv_def sem_wf_def
        permit_count_def reserved_upd)
next
  case (sem_cancelled R n w cur)
  obtain S' N' W' where d: "sem_on_waiter_destroyed cur n (sr_sem R, sr_nodes R, sr_loops R) = (S', N', W')"
    using prod_cases3 by blast
  from sem_cancelled have wf: "sem_wf (sr_sem R) (sr_nodes R)" by (simp add: sem_inv_def)
  from sem_cancel_counts [OF wf sem_cancelled(1) d] sem_cancelled(2) d show ?case
    by (auto simp: sem_get_def sem_put_def drop_node_def sem_inv_def)
next
  case (sem_released R k cur)
  obtain S' N' W' where d: "sem_release cur (sr_sem R, sr_nodes R, sr_loops R) = (S', N', W')"
    using prod_cases3 by blast
  from sem_released have wf: "sem_wf (sr_sem R) (sr_nodes R)" by (simp add: sem_inv_def)
  from sem_release_counts [OF wf d] sem_released d show ?case
    by (auto simp: sem_get_def sem_put_def sem_inv_def)
qed (simp add: sem_inv_def)

definition sem_start :: "int \<Rightarrow> sem_run \<Rightarrow> bool" where
  "sem_start capacity R \<longleftrightarrow> sr_sem R = sem_new capacity \<and> sr_nodes R = Map.empty \<and> held R = 0"

interpretation sem: inductive_invariant "sem_start capacity" sem_step "sem_inv capacity" for capacity
proof unfold_locales
  show "sem_start capacity R \<Longrightarrow> sem_inv capacity R" for R
    by (simp add: sem_start_def sem_inv_def sem_wf_def permit_count_def sem_new_def
        reserved_nodes_def queued_nodes_def)
  show "sem_inv capacity R \<Longrightarrow> sem_step R R' \<Longrightarrow> sem_inv capacity R'" for R R' by (rule sem_step_inv)
qed

text \<open>C10. The semaphore never loses or invents a permit, however acquisitions, releases and
  cancellations interleave: the free permits, the holders and the permits already reserved for a
  waiter that has not run yet add up to the initial number. So at most that many coroutines are
  inside, and nobody waits while a permit is free.\<close>

theorem semaphore_conserves_permits:
  assumes "reachable (sem_start capacity) sem_step R"
  shows "permits (sr_sem R) + int (held R) + int (card (reserved_nodes (sr_nodes R))) = capacity
       \<and> int (held R) \<le> max 0 capacity
       \<and> (permits (sr_sem R) > 0 \<longrightarrow> sm_waiters (sr_sem R) = [])"
  using sem.invariant_reachable [OF assms] by (auto simp: sem_inv_def sem_wf_def permit_count_def)

text \<open>One permit, one holder, one waiter, and the holder releases.\<close>

definition sem_example :: sem_run where
  "sem_example = \<lparr>sr_sem = sem_new 1, sr_nodes = Map.empty, sr_loops = (\<lambda>_. el_new), held = 0\<rparr>"

definition sem_example1 :: sem_run where
  "sem_example1 = sem_example\<lparr>sr_sem := snd (sem_acquire_ready (sem_new 1)), held := 1\<rparr>"

definition sem_example2 :: sem_run where
  "sem_example2 = sem_put sem_example1 (snd (sem_acquire_suspend 1 7 5 (sem_get sem_example1)))"

definition sem_example3 :: sem_run where
  "sem_example3 = (sem_put sem_example2 (sem_release 1 (sem_get sem_example2)))\<lparr>held := 0\<rparr>"

theorem semaphore_conserves_permits_witness:
  "reachable (sem_start 1) sem_step sem_example3 \<and> permits (sr_sem sem_example3) = 0 \<and>
   int (card (reserved_nodes (sr_nodes sem_example3))) = 1"
proof -
  have "sem_step sem_example sem_example1"
    using sem_ready [of sem_example "(sem_new 1)\<lparr>permits := 0\<rparr>"]
    by (simp add: sem_example_def sem_example1_def sem_acquire_ready_def sem_new_def)
  moreover have "sem_step sem_example1 sem_example2"
    unfolding sem_example2_def
    by (rule sem_suspend [where n = 7 and cur = 1 and h = 5])
      (auto simp: sem_example1_def sem_example_def sem_acquire_suspend_def sem_get_def
        sem_acquire_ready_def sem_new_def split: prod.split)
  moreover have "sem_step sem_example2 sem_example3"
    unfolding sem_example3_def
    by (rule sem_released) (simp add: sem_example2_def sem_example1_def sem_put_def split: prod.split)
  moreover have "reachable (sem_start 1) sem_step sem_example"
    by (rule reachable_init) (simp add: sem_start_def sem_example_def)
  ultimately have r: "reachable (sem_start 1) sem_step sem_example3"
    by (blast intro: reachable_step)
  moreover have "permits (sr_sem sem_example3) = 0" "held sem_example3 = 0"
    by (simp_all add: sem_example3_def sem_example2_def sem_example1_def sem_example_def sem_put_def
        sem_get_def sem_release_def sem_acquire_suspend_def sem_acquire_ready_def sem_new_def
        split: prod.split)
  ultimately show ?thesis using semaphore_conserves_permits [OF r] by simp
qed

text \<open>A permit is handed over, not dropped: whether its holder releases it or the coroutine it was
  reserved for is cancelled before it could run, the first waiter that still waits gets the permit in
  its name and its frame is queued on its own loop.\<close>

theorem semaphore_hands_over:
  assumes "world_ok W" "sm_waiters S = m # ws" "N m = Some v" "m \<noteq> n"
    and "waiting \<lparr>sw_handle = sm_handle v, sw_loop = sm_loop v, sw_epoch = sm_epoch v\<rparr> W"
    and "(S', N', W') = sem_release cur (S, N, W) \<or>
         (\<exists>w. N n = Some w \<and> sm_reserved w \<and> (S', N', W') = sem_remove_waiter cur n (S, N, W))"
  shows "N' m = Some (v\<lparr>sm_reserved := True\<rparr>) \<and> sm_waiters S' = ws \<and> permits S' = permits S \<and>
         runnable (sm_loop v) (sm_handle v) W'"
proof -
  let ?w = "\<lparr>sw_handle = sm_handle v, sw_loop = sm_loop v, sw_epoch = sm_epoch v\<rparr>"
  note nz = waiting_nonzero [OF assms(5)]
  have "schedule_if_current_on cur (sm_loop v) (sm_handle v) (sm_epoch v) W = schedule_waiter cur ?w W"
    using nz by (simp add: schedule_waiter_def Let_def)
  with assms(2-4,6) nz have "N' m = Some (v\<lparr>sm_reserved := True\<rparr>) \<and> sm_waiters S' = ws \<and>
      permits S' = permits S \<and> W' = schedule_waiter cur ?w W"
    by (auto simp: sem_release_def sem_remove_waiter_def)
  with wakes.wake_pending [OF assms(1,5), of cur] show ?thesis by simp
qed

theorem semaphore_hands_over_witness:
  "\<exists>ep W N. let v = \<lparr>sm_handle = 4, sm_loop = 1, sm_reserved = False, sm_epoch = ep\<rparr>;
       (S', N', W') = sem_remove_waiter 1 8 (\<lparr>permits = 0, sm_waiters = [7]\<rparr>, N, W)
     in N 7 = Some v \<and> N' 7 = Some (v\<lparr>sm_reserved := True\<rparr>) \<and> runnable 1 4 W'"
proof -
  obtain L W where c: "contended = (L, W)" by fastforce
  obtain ep where wt: "waiting \<lparr>sw_handle = 4, sw_loop = 1, sw_epoch = ep\<rparr> W" and ok: "world_ok W"
    using contended_waits c by (metis prod.sel(2))
  let ?v = "\<lparr>sm_handle = 4, sm_loop = 1, sm_reserved = False, sm_epoch = ep\<rparr>"
  let ?u = "\<lparr>sm_handle = 5, sm_loop = 1, sm_reserved = True, sm_epoch = 9\<rparr>"
  let ?S = "\<lparr>permits = 0, sm_waiters = [7]\<rparr>"
  let ?N = "[7 \<mapsto> ?v, 8 \<mapsto> ?u] :: sem_nodes"
  obtain S' N' W' where r: "sem_remove_waiter 1 8 (?S, ?N, W) = (S', N', W')" using prod_cases3 by blast
  have "N' 7 = Some (?v\<lparr>sm_reserved := True\<rparr>) \<and> sm_waiters S' = [] \<and> permits S' = permits ?S \<and> runnable 1 4 W'"
    using semaphore_hands_over [OF ok, of ?S 7 "[]" ?N ?v 8 S' N' W' 1] wt r by simp
  then show ?thesis using r by (intro exI [of _ ep] exI [of _ W] exI [of _ ?N]) simp
qed

end
