(* ===== verification/Sync_Event.thy ===== *)
theory Sync_Event
  imports Sync_Semaphore
begin

section \<open>The event and the condition variable\<close>

text \<open>
  \<open>Event\<close> and \<open>Condition\<close> of include/coro/sync.hpp. The flag of an event is atomic and not covered by
  the mutex of its queue, so \<open>set\<close> is two steps: raise the flag, then take the queue over and wake it.
  A condition moves its waiters into the queue of its lock instead of waking them.
\<close>

subsection \<open>Event\<close>

record event =
  ev_set :: bool
  ev_waiters :: "sync_waiter list"

definition event_new :: event where
  "event_new = \<lparr>ev_set = False, ev_waiters = []\<rparr>"

definition event_ready :: "event \<Rightarrow> bool" where
  "event_ready E = ev_set E"

text \<open>\<open>await_suspend\<close> registers the wait first and then looks at the flag again, under the mutex.\<close>

definition event_suspend :: "nat \<Rightarrow> handle \<Rightarrow> event \<times> loops \<Rightarrow> bool \<times> u64 \<times> event \<times> loops" where
  "event_suspend cur h = (\<lambda>(E, W).
     case begin_wait_on cur h W of
       (epoch, W') \<Rightarrow>
         if ev_set E then (False, epoch, E, W')
         else (True, epoch, E\<lparr>ev_waiters := ev_waiters E @ [\<lparr>sw_handle = h, sw_loop = cur, sw_epoch = epoch\<rparr>]\<rparr>, W'))"

definition event_resume :: "nat \<Rightarrow> handle \<Rightarrow> u64 \<Rightarrow> loops \<Rightarrow> loops" where
  "event_resume lp h epoch W = (if lp \<noteq> 0 \<and> epoch \<noteq> 0 then end_wait_on lp h epoch W else W)"

definition event_on_waiter_destroyed :: "nat \<Rightarrow> u64 \<Rightarrow> handle \<Rightarrow> event \<times> loops \<Rightarrow> event \<times> loops" where
  "event_on_waiter_destroyed lp epoch h = (\<lambda>(E, W).
     (E\<lparr>ev_waiters := erase_waiter h (ev_waiters E)\<rparr>, event_resume lp h epoch W))"

definition event_raise :: "event \<Rightarrow> event" where
  "event_raise E = E\<lparr>ev_set := True\<rparr>"

definition event_wake_one :: "nat \<Rightarrow> sync_waiter \<Rightarrow> loops \<Rightarrow> loops" where
  "event_wake_one cur w W =
     (if sw_loop w \<noteq> 0 then schedule_if_current_on cur (sw_loop w) (sw_handle w) (sw_epoch w) W else W)"

definition event_flush :: "nat \<Rightarrow> event \<times> loops \<Rightarrow> event \<times> loops" where
  "event_flush cur = (\<lambda>(E, W). (E\<lparr>ev_waiters := []\<rparr>, fold (event_wake_one cur) (ev_waiters E) W))"

definition event_set :: "nat \<Rightarrow> event \<times> loops \<Rightarrow> event \<times> loops" where
  "event_set cur = (\<lambda>(E, W). event_flush cur (event_raise E, W))"

definition event_clear :: "event \<Rightarrow> event" where
  "event_clear E = E\<lparr>ev_set := False\<rparr>"

text \<open>Waking with a zero epoch is the one difference to \<open>schedule_waiter\<close>: a waiter of an event always
  has an epoch, and where the wait is current the two agree.\<close>

interpretation event_wakes: wake_service "event_wake_one cur" world_ok waiting runnable for cur
proof unfold_locales
  fix W :: loops and w v k h
  show "world_ok W \<Longrightarrow> world_ok (event_wake_one cur w W)"
    by (auto simp: event_wake_one_def schedule_if_current_on_def world_ok_def
        intro: loop_inv_full_api [OF api_schedule_if_current])
  show "waiting v (event_wake_one cur w W) = waiting v W"
    by (simp add: waiting_def is_wait_current_on_def el_is_wait_current_def event_wake_one_def
        schedule_if_current_on_def schedule_if_current_frames)
  show "runnable (sw_loop w) (sw_handle w) (event_wake_one cur w W)" if "world_ok W" "waiting w W"
    using wakes.wake_pending [OF that, of cur] waiting_nonzero [OF that(2)]
    by (simp add: event_wake_one_def schedule_waiter_def Let_def)
  show "runnable k h (event_wake_one cur w W)" if "world_ok W" "runnable k h W"
  proof -
    have "rq_wf (ready_queue (W j))" for j
      using that(1) by (simp add: world_ok_def loop_inv_full_def loop_inv_def)
    from schedule_queued_mono(1) [OF this] that(2) show ?thesis
      by (fastforce simp: runnable_def event_wake_one_def schedule_if_current_on_def
          schedule_if_current_frames)
  qed
qed

text \<open>Threads that set the event: \<open>raising\<close> of them have raised the flag and not yet taken the queue.\<close>

record event_run =
  er_event :: event
  er_loops :: loops
  raising :: nat

inductive event_step :: "event_run \<Rightarrow> event_run \<Rightarrow> bool" where
  ev_suspend: "event_suspend cur h (er_event R, er_loops R) = (b, ep, E, W) \<Longrightarrow>
    event_step R (R\<lparr>er_event := E, er_loops := W\<rparr>)"
| ev_destroyed: "event_on_waiter_destroyed lp ep h (er_event R, er_loops R) = (E, W) \<Longrightarrow>
    event_step R (R\<lparr>er_event := E, er_loops := W\<rparr>)"
| ev_raise: "event_step R (R\<lparr>er_event := event_raise (er_event R), raising := Suc (raising R)\<rparr>)"
| ev_flush: "raising R = Suc k \<Longrightarrow> event_flush cur (er_event R, er_loops R) = (E, W) \<Longrightarrow>
    event_step R (R\<lparr>er_event := E, er_loops := W, raising := k\<rparr>)"
| ev_clear: "event_step R (R\<lparr>er_event := event_clear (er_event R)\<rparr>)"
| ev_loops: "event_step R (R\<lparr>er_loops := W\<rparr>)"

definition event_start :: "event_run \<Rightarrow> bool" where
  "event_start R \<longleftrightarrow> er_event R = event_new \<and> raising R = 0"

definition event_inv :: "event_run \<Rightarrow> bool" where
  "event_inv R \<longleftrightarrow> (ev_set (er_event R) \<and> raising R = 0 \<longrightarrow> ev_waiters (er_event R) = [])"

lemma event_step_inv: "event_step R R' \<Longrightarrow> event_inv R \<Longrightarrow> event_inv R'"
  by (induction rule: event_step.induct)
    (auto simp: event_inv_def event_suspend_def event_on_waiter_destroyed_def event_raise_def
      event_flush_def event_clear_def split: prod.splits if_splits)

interpretation event: inductive_invariant event_start event_step event_inv
proof unfold_locales
  show "event_start R \<Longrightarrow> event_inv R" for R
    by (simp add: event_start_def event_inv_def event_new_def)
  show "event_inv R \<Longrightarrow> event_step R R' \<Longrightarrow> event_inv R'" for R R' by (rule event_step_inv)
qed

text \<open>C11. No waiter misses an event: whichever way waiting, setting and clearing interleave between
  threads, an event that is set and has no \<open>set\<close> in progress has no waiter left in its queue, and when
  \<open>set\<close> takes the queue over, every waiter that still waits is queued on its own loop.\<close>

theorem event_no_missed_set:
  assumes "reachable event_start event_step R" "world_ok (er_loops R)"
    and "event_flush cur (er_event R, er_loops R) = (E, W)"
  shows "(ev_set (er_event R) \<and> raising R = 0 \<longrightarrow> ev_waiters (er_event R) = [])
       \<and> ev_waiters E = []
       \<and> (\<forall>w\<in>set (ev_waiters (er_event R)). waiting w (er_loops R) \<longrightarrow> runnable (sw_loop w) (sw_handle w) W)"
  using event.invariant_reachable [OF assms(1)] event_wakes.fold_wake_pending [OF assms(2)] assms(3)
  by (auto simp: event_inv_def event_flush_def)

text \<open>A coroutine suspends on loop 1; the event is set from loop 2.\<close>

theorem event_no_missed_set_witness:
  "\<exists>R E W w. reachable event_start event_step R \<and> ev_waiters (er_event R) = [w] \<and>
     event_flush 2 (er_event R, er_loops R) = (E, W) \<and> ev_waiters E = [] \<and>
     runnable (sw_loop w) (sw_handle w) W"
proof -
  let ?W = "(\<lambda>_. el_new)(1 := on_coroutine_started 4 el_new)"
  let ?R0 = "\<lparr>er_event = event_new, er_loops = ?W, raising = 0\<rparr>"
  obtain ep W1 where b: "begin_wait_on 1 4 ?W = (ep, W1)" by fastforce
  let ?w = "\<lparr>sw_handle = 4, sw_loop = 1, sw_epoch = ep\<rparr>"
  let ?E1 = "\<lparr>ev_set = False, ev_waiters = [?w]\<rparr>"
  let ?R1 = "?R0\<lparr>er_event := ?E1, er_loops := W1\<rparr>"
  let ?R2 = "?R1\<lparr>er_event := event_raise (er_event ?R1), raising := Suc (raising ?R1)\<rparr>"
  have "event_suspend 1 4 (er_event ?R0, er_loops ?R0) = (True, ep, ?E1, W1)"
    using b by (simp add: event_suspend_def event_new_def)
  then have "event_step ?R0 ?R1" by (rule ev_suspend)
  moreover have "event_step ?R1 ?R2" by (rule ev_raise)
  moreover have "reachable event_start event_step ?R0"
    by (rule reachable_init) (simp add: event_start_def)
  ultimately have r: "reachable event_start event_step ?R2" by (blast intro: reachable_step)
  have left: "counters_left (frames el_new)" "counters_left (frames (?W 1))"
    by (simp_all add: counters_left_def el_new_def ft_new_def on_coroutine_started_def ft_add_def)
  have "world_ok ?W" using world_ok_started [OF world_ok_new left(1), of 1 4] by simp
  then have ok: "world_ok (er_loops ?R2)" using world_ok_begin_wait [OF _ left(2) b] by simp
  have wt: "waiting ?w (er_loops ?R2)"
    using begin_wait_waiting [OF b _ left(2)]
    by (simp add: frame_alive_def on_coroutine_started_def ft_add_def el_new_def ft_new_def)
  have ws: "ev_waiters (er_event ?R2) = [?w]" by (simp add: event_raise_def)
  obtain E W where f: "event_flush 2 (er_event ?R2, er_loops ?R2) = (E, W)" by fastforce
  from event_no_missed_set [OF r ok f] wt ws
  have "ev_waiters E = [] \<and> runnable (sw_loop ?w) (sw_handle ?w) W" by (metis list.set_intros(1))
  with r f ws show ?thesis by blast
qed

subsection \<open>Condition\<close>

record condition =
  cd_lock :: lock
  cd_waiters :: "sync_waiter list"

type_synonym cond_sys = "condition \<times> loops"

text \<open>An operation of the lock, applied to the lock of a condition.\<close>

definition on_lock :: "(lock_sys \<Rightarrow> lock_sys) \<Rightarrow> cond_sys \<Rightarrow> cond_sys" where
  "on_lock f = (\<lambda>(C, W). case f (cd_lock C, W) of (L, W') \<Rightarrow> (C\<lparr>cd_lock := L\<rparr>, W'))"

definition cond_suspend :: "nat \<Rightarrow> handle \<Rightarrow> cond_sys \<Rightarrow> u64 \<times> cond_sys" where
  "cond_suspend cur h = (\<lambda>(C, W).
     case begin_wait_on cur h W of
       (epoch, W') \<Rightarrow>
         (epoch, on_lock (lock_release cur)
            (C\<lparr>cd_waiters := cd_waiters C @ [\<lparr>sw_handle = h, sw_loop = cur, sw_epoch = epoch\<rparr>]\<rparr>, W')))"

definition cond_resume :: "nat \<Rightarrow> handle \<Rightarrow> u64 \<Rightarrow> cond_sys \<Rightarrow> cond_sys" where
  "cond_resume lp h epoch = (\<lambda>(C, W).
     if lp \<noteq> 0 \<and> epoch \<noteq> 0 then (C, end_wait_on lp h epoch W) else (C, W))"

definition on_cancel_requested :: "nat \<Rightarrow> nat \<Rightarrow> handle \<Rightarrow> u64 \<Rightarrow> cond_sys \<Rightarrow> bool \<times> cond_sys" where
  "on_cancel_requested cur lp h epoch = (\<lambda>(C, W).
     let C = C\<lparr>cd_waiters := erase_waiter h (cd_waiters C)\<rparr>
     in if is_owned_by h (cd_lock C)
        then (True, C, if lp \<noteq> 0 then schedule_if_current_on cur lp h epoch W else W)
        else if \<not> has_waiter h (cd_lock C)
        then (True, on_lock (hand_off cur \<lparr>sw_handle = h, sw_loop = lp, sw_epoch = epoch\<rparr>) (C, W))
        else (True, C, W))"

definition cond_on_waiter_destroyed :: "nat \<Rightarrow> nat \<Rightarrow> u64 \<Rightarrow> handle \<Rightarrow> cond_sys \<Rightarrow> cond_sys" where
  "cond_on_waiter_destroyed cur lp epoch h = (\<lambda>(C, W).
     on_lock (lock_on_waiter_destroyed cur h)
       (C\<lparr>cd_waiters := erase_waiter h (cd_waiters C)\<rparr>,
        if lp \<noteq> 0 \<and> epoch \<noteq> 0 then end_wait_on lp h epoch W else W))"

fun notify :: "nat \<Rightarrow> nat \<Rightarrow> cond_sys \<Rightarrow> cond_sys" where
  "notify cur 0 (C, W) = (C, W)"
| "notify cur (Suc n) (C, W) =
     (case cd_waiters C of
        [] \<Rightarrow> (C, W)
      | w # ws \<Rightarrow> notify cur n (on_lock (hand_off cur w) (C\<lparr>cd_waiters := ws\<rparr>, W)))"

text \<open>The loop of \<open>notify_all\<close> ends when the queue is empty.\<close>

lemma on_lock_waiters [simp]: "cd_waiters (fst (on_lock f (C, W))) = cd_waiters C"
  by (simp add: on_lock_def split: prod.split)

function notify_all :: "nat \<Rightarrow> cond_sys \<Rightarrow> cond_sys" where
  "notify_all cur (C, W) =
     (case cd_waiters C of
        [] \<Rightarrow> (C, W)
      | w # ws \<Rightarrow> notify_all cur (on_lock (hand_off cur w) (C\<lparr>cd_waiters := ws\<rparr>, W)))"
  by pat_completeness auto
termination
  by (relation "measure (\<lambda>(cur, C, W). length (cd_waiters C))")
    (auto simp: on_lock_def split: prod.splits)

declare notify_all.simps [simp del]

text \<open>A hand-over to a waiter that still waits puts it at the end of the lock's line.\<close>

lemma hand_off_line:
  assumes "hand_off cur w (L, W) = (L', W')" "lock_wf L"
  shows "line L' = line L @ (if waiting w W then [sw_handle w] else [])"
    and "waiting v W' = waiting v W"
    and "world_ok W \<Longrightarrow> world_ok W'"
  using assms by (auto simp: hand_off_def waiting_def [of w] line_def lock_wf_def world_ok_schedule_waiter
      split: if_splits)

lemma hand_off_wf:
  assumes "lock_wf L" "sw_handle w \<notin> set (line L)"
  shows "lock_wf (fst (hand_off cur w (L, W)))"
proof (cases "waiting w W")
  case True
  then have "sw_handle w \<noteq> 0" using waiting_nonzero by blast
  then show ?thesis
    using lock_step_wf [OF lock_hand_off [of w L W cur]] assms by simp
qed (use assms in \<open>auto simp: hand_off_def waiting_def\<close>)

lemma notify_line:
  assumes "lock_wf (cd_lock C)" "distinct (line (cd_lock C) @ handles (cd_waiters C))"
    and "notify cur n (C, W) = (C', W')"
  shows "line (cd_lock C') = line (cd_lock C) @ handles (filter (\<lambda>w. waiting w W) (take n (cd_waiters C)))
       \<and> cd_waiters C' = drop n (cd_waiters C) \<and> lock_wf (cd_lock C') \<and> (world_ok W \<longrightarrow> world_ok W')"
  using assms
proof (induction n arbitrary: C W)
  case 0
  then show ?case by simp
next
  case (Suc n)
  show ?case
  proof (cases "cd_waiters C")
    case Nil
    with Suc.prems show ?thesis by simp
  next
    case (Cons w ws)
    obtain L1 W1 where h: "hand_off cur w (cd_lock C, W) = (L1, W1)" by fastforce
    let ?C = "C\<lparr>cd_waiters := ws, cd_lock := L1\<rparr>"
    note l = hand_off_line [OF h Suc.prems(1)]
    have n: "notify cur n (?C, W1) = (C', W')"
      using Suc.prems(3) Cons h by (simp add: on_lock_def)
    have wf: "lock_wf L1"
      using hand_off_wf [OF Suc.prems(1), of w cur W] Suc.prems(2) Cons h by simp
    have d: "distinct (line L1 @ handles ws)"
      using Suc.prems(2) Cons l(1) by auto
    have "line (cd_lock C') = line L1 @ handles (filter (\<lambda>w. waiting w W1) (take n ws)) \<and>
          cd_waiters C' = drop n ws \<and> lock_wf (cd_lock C') \<and> (world_ok W1 \<longrightarrow> world_ok W')"
      using Suc.IH [OF _ _ n] wf d by simp
    with l Cons show ?thesis by auto
  qed
qed

lemma notify_all_eq: "notify_all cur (C, W) = notify cur (length (cd_waiters C)) (C, W)"
proof (induction "length (cd_waiters C)" arbitrary: C W)
  case 0
  then show ?case by (simp add: notify_all.simps)
next
  case (Suc n)
  then obtain w ws where w: "cd_waiters C = w # ws" by (cases "cd_waiters C") auto
  obtain C1 W1 where c: "on_lock (hand_off cur w) (C\<lparr>cd_waiters := ws\<rparr>, W) = (C1, W1)" by fastforce
  then have "cd_waiters C1 = ws"
    using on_lock_waiters [of "hand_off cur w" "C\<lparr>cd_waiters := ws\<rparr>" W] by simp
  with Suc(1) [of C1 W1] Suc(2) w c show ?case by (simp add: notify_all.simps [of cur C])
qed

text \<open>Notifying a condition moves its first waiters, in order, to the end of the lock's line
  instead of letting them run: those whose wait is still current become waiters of the lock (or its
  holder when it is free), the cancelled ones are dropped, and nobody else is touched. \<open>notify_all\<close> ends
  and does this for all waiters.\<close>

theorem notify_moves_to_lock:
  assumes "lock_wf (cd_lock C)" "distinct (line (cd_lock C) @ handles (cd_waiters C))"
  shows "(\<forall>C' W'. notify cur n (C, W) = (C', W') \<longrightarrow>
            line (cd_lock C') = line (cd_lock C) @ handles (filter (\<lambda>w. waiting w W) (take n (cd_waiters C)))
            \<and> cd_waiters C' = drop n (cd_waiters C))
       \<and> (\<forall>C' W'. notify_all cur (C, W) = (C', W') \<longrightarrow>
            line (cd_lock C') = line (cd_lock C) @ handles (filter (\<lambda>w. waiting w W) (cd_waiters C))
            \<and> cd_waiters C' = [])"
  using notify_line [OF assms] notify_line [OF assms, of cur "length (cd_waiters C)"]
  by (simp add: notify_all_eq)

theorem notify_moves_to_lock_witness:
  "\<exists>ep W. case notify 1 1 (\<lparr>cd_lock = \<lparr>locked = True, owner = 3, recursion_count = 0, lk_waiters = []\<rparr>,
      cd_waiters = [\<lparr>sw_handle = 4, sw_loop = 1, sw_epoch = ep\<rparr>]\<rparr>, W)
     of (C', W') \<Rightarrow> line (cd_lock C') = [3, 4] \<and> cd_waiters C' = []"
proof -
  obtain ep where wt: "waiting \<lparr>sw_handle = 4, sw_loop = 1, sw_epoch = ep\<rparr> (snd contended)"
    using contended_waits by blast
  let ?L = "\<lparr>locked = True, owner = 3, recursion_count = 0, lk_waiters = []\<rparr>"
  let ?C = "\<lparr>cd_lock = ?L, cd_waiters = [\<lparr>sw_handle = 4, sw_loop = 1, sw_epoch = ep\<rparr>]\<rparr>"
  have pre: "lock_wf (cd_lock ?C)" "distinct (line (cd_lock ?C) @ handles (cd_waiters ?C))"
    by (simp_all add: lock_wf_def line_def)
  obtain C' W' where n: "notify 1 1 (?C, snd contended) = (C', W')" by fastforce
  from notify_moves_to_lock [OF pre, of 1 1 "snd contended"] n wt
  have "line (cd_lock C') = [3, 4] \<and> cd_waiters C' = []" by (simp add: line_def)
  with n show ?thesis by (intro exI [of _ ep] exI [of _ "snd contended"]) simp
qed

text \<open>A cancelled \<open>wait\<close> comes back with the lock: when cancellation is requested while the wait is
  current, the coroutine leaves the condition's queue and stands in the lock's line, at its old place if
  it was notified already and at the end otherwise; if it is the head it is queued to run. So it never
  runs, not even to unwind, without holding the lock.\<close>

theorem cancelled_wait_reacquires:
  assumes "lock_wf (cd_lock C)" "world_ok W"
    and "waiting \<lparr>sw_handle = h, sw_loop = lp, sw_epoch = ep\<rparr> W"
    and "on_cancel_requested cur lp h ep (C, W) = (b, C', W')"
  shows "b \<and> h \<notin> set (handles (cd_waiters C'))
       \<and> line (cd_lock C') = line (cd_lock C) @ (if h \<in> set (line (cd_lock C)) then [] else [h])
       \<and> (hd (line (cd_lock C')) = h \<longrightarrow> runnable lp h W')"
proof -
  let ?w = "\<lparr>sw_handle = h, sw_loop = lp, sw_epoch = ep\<rparr>"
  have nz: "h \<noteq> 0" "lp \<noteq> 0" "ep \<noteq> 0" using waiting_nonzero [OF assms(3)] by auto
  have run: "runnable lp h (schedule_waiter cur ?w W)" using wakes.wake_pending [OF assms(2,3), of cur] by simp
  have sw: "schedule_waiter cur ?w W = schedule_if_current_on cur lp h ep W"
    using nz by (simp add: schedule_waiter_def Let_def)
  note d = on_cancel_requested_def is_owned_by_def has_waiter_def has_waiter_in_iff line_def lock_wf_def
  consider "owner (cd_lock C) = h" | "owner (cd_lock C) \<noteq> h" "h \<in> set (handles (lk_waiters (cd_lock C)))"
    | "owner (cd_lock C) \<noteq> h" "h \<notin> set (handles (lk_waiters (cd_lock C)))" by blast
  then show ?thesis
  proof cases
    case 1
    with assms(1,4) nz run sw show ?thesis by (auto simp: d)
  next
    case 2
    with assms(1,4) nz show ?thesis by (auto simp: d)
  next
    case 3
    obtain L1 W1 where ho: "hand_off cur ?w (cd_lock C, W) = (L1, W1)" by fastforce
    have "b \<and> C' = C\<lparr>cd_waiters := erase_waiter h (cd_waiters C), cd_lock := L1\<rparr> \<and> W' = W1"
      using 3 assms(4) ho by (auto simp: on_cancel_requested_def is_owned_by_def has_waiter_def
          has_waiter_in_iff on_lock_def)
    moreover have "line L1 = line (cd_lock C) @ [h]" using hand_off_line(1) [OF ho assms(1)] assms(3) by simp
    moreover have "hd (line L1) = h \<longrightarrow> runnable lp h W1"
      using ho assms(1,3) 3(1) run by (auto simp: hand_off_def waiting_def line_def split: if_splits)
    moreover have "h \<notin> set (line (cd_lock C))" using 3 by (simp add: line_def)
    ultimately show ?thesis by auto
  qed
qed

theorem cancelled_wait_reacquires_witness:
  "\<exists>ep W. case on_cancel_requested 1 1 4 ep (\<lparr>cd_lock = lock_new,
      cd_waiters = [\<lparr>sw_handle = 4, sw_loop = 1, sw_epoch = ep\<rparr>]\<rparr>, W)
     of (b, C', W') \<Rightarrow> b \<and> line (cd_lock C') = [4] \<and> runnable 1 4 W'"
proof -
  obtain ep where wt: "waiting \<lparr>sw_handle = 4, sw_loop = 1, sw_epoch = ep\<rparr> (snd contended)"
    and ok: "world_ok (snd contended)"
    using contended_waits by blast
  let ?C = "\<lparr>cd_lock = lock_new, cd_waiters = [\<lparr>sw_handle = 4, sw_loop = 1, sw_epoch = ep\<rparr>]\<rparr>"
  have wf: "lock_wf (cd_lock ?C)" by (simp add: lock_wf_def lock_new_def line_def)
  obtain b C' W' where n: "on_cancel_requested 1 1 4 ep (?C, snd contended) = (b, C', W')"
    using prod_cases3 by blast
  from cancelled_wait_reacquires [OF wf ok wt n] n
  have "b \<and> line (cd_lock C') = [4] \<and> runnable 1 4 W'" by (simp add: lock_new_def line_def)
  with n show ?thesis by (intro exI [of _ ep] exI [of _ "snd contended"]) simp
qed

end
