(* ===== verification/Async_Queue.thy ===== *)
theory Async_Queue
  imports Waiters
begin

section \<open>The asynchronous queue\<close>

text \<open>
  \<open>Queue<T>\<close> of include/coro/queue.hpp. The class is used from the thread of one loop only; a step is
  one call between two suspensions. The awaiters of \<open>get\<close> and of \<open>put\<close> are kept the same way, twice:
  a FIFO of pointers, a counter of the awaiters that were woken and hold a reservation, and the
  awaiters themselves. A \<open>side\<close> is one such half; an awaiter of \<open>put\<close> carries its item.
\<close>

record 'b awaiter =
  aw_handle :: handle
  aw_reserved :: bool
  aw_item :: 'b

record 'b side =
  sd_waiters :: "nat list"
  sd_reserved :: nat
  sd_nodes :: "nat \<Rightarrow> 'b awaiter option"

record 'a aqueue =
  maxsize :: nat
  items :: "'a list"
  gets :: "unit side"
  puts :: "'a side"
  join_waiters :: "handle list"
  unfinished_tasks :: nat
  shut_down :: bool
  q_loop :: event_loop

definition side_new :: "'b side" where
  "side_new = \<lparr>sd_waiters = [], sd_reserved = 0, sd_nodes = Map.empty\<rparr>"

definition queue_new :: "nat \<Rightarrow> event_loop \<Rightarrow> 'a aqueue" where
  "queue_new m l = \<lparr>maxsize = m, items = [], gets = side_new, puts = side_new, join_waiters = [],
     unfinished_tasks = 0, shut_down = False, q_loop = l\<rparr>"

text \<open>Constructing an awaiter, and the end of its life with the \<open>co_await\<close> expression.\<close>

definition side_add :: "nat \<Rightarrow> 'b \<Rightarrow> 'b side \<Rightarrow> 'b side" where
  "side_add n x s = s\<lparr>sd_nodes := (sd_nodes s)(n \<mapsto> \<lparr>aw_handle = null_handle, aw_reserved = False, aw_item = x\<rparr>)\<rparr>"

definition side_drop :: "nat \<Rightarrow> 'b side \<Rightarrow> 'b side" where
  "side_drop n s = s\<lparr>sd_nodes := (sd_nodes s)(n := None)\<rparr>"

text \<open>Storing the handle and joining the FIFO.\<close>

definition side_enqueue :: "nat \<Rightarrow> handle \<Rightarrow> 'b side \<Rightarrow> 'b side" where
  "side_enqueue n h s =
     s\<lparr>sd_nodes := (sd_nodes s)(n := map_option (\<lambda>a. a\<lparr>aw_handle := h\<rparr>) (sd_nodes s n)),
       sd_waiters := sd_waiters s @ [n]\<rparr>"

text \<open>One turn of \<open>notify_getters\<close> or \<open>notify_putters\<close>: the first waiter gets a reservation.\<close>

definition side_reserve :: "'b side \<Rightarrow> handle \<times> 'b side" where
  "side_reserve s =
     (case sd_waiters s of
        [] \<Rightarrow> (null_handle, s)
      | n # rest \<Rightarrow>
          (case sd_nodes s n of
             None \<Rightarrow> (null_handle, s\<lparr>sd_waiters := rest\<rparr>)
           | Some a \<Rightarrow>
               (aw_handle a, s\<lparr>sd_waiters := rest, sd_reserved := sd_reserved s + 1,
                  sd_nodes := (sd_nodes s)(n \<mapsto> a\<lparr>aw_reserved := True\<rparr>)\<rparr>)))"

text \<open>One turn of the loops of \<open>shutdown\<close>: the first waiter is woken without a reservation.\<close>

definition side_dismiss :: "'b side \<Rightarrow> handle \<times> 'b side" where
  "side_dismiss s =
     (case sd_waiters s of
        [] \<Rightarrow> (null_handle, s)
      | n # rest \<Rightarrow>
          (case sd_nodes s n of
             None \<Rightarrow> (null_handle, s\<lparr>sd_waiters := rest\<rparr>)
           | Some a \<Rightarrow>
               (aw_handle a, s\<lparr>sd_waiters := rest,
                  sd_reserved := (if aw_reserved a \<and> sd_reserved s > 0 then sd_reserved s - 1 else sd_reserved s),
                  sd_nodes := (sd_nodes s)(n \<mapsto> a\<lparr>aw_reserved := False\<rparr>)\<rparr>)))"

text \<open>\<open>remove_get_waiter\<close> and \<open>remove_put_waiter\<close>.\<close>

definition side_remove :: "nat \<Rightarrow> 'b side \<Rightarrow> 'b side" where
  "side_remove n s =
     (case sd_nodes s n of
        None \<Rightarrow> s
      | Some a \<Rightarrow>
          (let s' = (if aw_reserved a then s\<lparr>sd_reserved := sd_reserved s - 1\<rparr>
                     else if aw_handle a \<noteq> null_handle
                     then s\<lparr>sd_waiters := erase_first (\<lambda>m. m = n) (sd_waiters s)\<rparr> else s)
           in s'\<lparr>sd_nodes := (sd_nodes s)(n \<mapsto> a\<lparr>aw_reserved := False, aw_handle := null_handle\<rparr>)\<rparr>))"

definition q_schedule :: "handle \<Rightarrow> 'a aqueue \<Rightarrow> 'a aqueue" where
  "q_schedule h Q = Q\<lparr>q_loop := el_schedule True h (q_loop Q)\<rparr>"

definition full :: "'a aqueue \<Rightarrow> bool" where
  "full Q \<longleftrightarrow> maxsize Q > 0 \<and> length (items Q) + sd_reserved (puts Q) \<ge> maxsize Q"

function notify_putters :: "'a aqueue \<Rightarrow> 'a aqueue" where
  "notify_putters Q =
     (if sd_waiters (puts Q) \<noteq> [] \<and> \<not> full Q
      then (case side_reserve (puts Q) of (h, s) \<Rightarrow> notify_putters (q_schedule h (Q\<lparr>puts := s\<rparr>)))
      else Q)"
  by pat_completeness auto
termination
  by (relation "measure (\<lambda>Q. length (sd_waiters (puts Q)))")
    (auto simp: side_reserve_def q_schedule_def split: list.splits option.splits)

function notify_getters :: "'a aqueue \<Rightarrow> 'a aqueue" where
  "notify_getters Q =
     (if sd_waiters (gets Q) \<noteq> [] \<and> sd_reserved (gets Q) < length (items Q)
      then (case side_reserve (gets Q) of (h, s) \<Rightarrow> notify_getters (q_schedule h (Q\<lparr>gets := s\<rparr>)))
      else Q)"
  by pat_completeness auto
termination
  by (relation "measure (\<lambda>Q. length (sd_waiters (gets Q)))")
    (auto simp: side_reserve_def q_schedule_def split: list.splits option.splits)

declare notify_putters.simps [simp del] notify_getters.simps [simp del]

subsection \<open>get\<close>

definition get_ready :: "'a aqueue \<Rightarrow> bool" where
  "get_ready Q \<longleftrightarrow> sd_reserved (gets Q) = 0 \<and> sd_waiters (gets Q) = [] \<and> (items Q \<noteq> [] \<or> shut_down Q)"

definition get_suspend :: "nat \<Rightarrow> handle \<Rightarrow> 'a aqueue \<Rightarrow> coro_error option \<times> 'a aqueue" where
  "get_suspend n h Q =
     (if shut_down Q \<and> items Q = []
      then (Some QueueShutDown, Q)
      else (None, notify_getters (Q\<lparr>gets := side_enqueue n h (gets Q)\<rparr>)))"

definition get_resume :: "nat \<Rightarrow> 'a aqueue \<Rightarrow> 'a result \<times> 'a aqueue" where
  "get_resume n Q =
     (let Q = Q\<lparr>gets := side_remove n (gets Q)\<rparr>
      in case items Q of
           [] \<Rightarrow> if shut_down Q then (Inl QueueShutDown, Q) else (Inl QueueShutDown, notify_getters Q)
         | x # xs \<Rightarrow> (Inr x, notify_putters (Q\<lparr>items := xs\<rparr>)))"

definition get_on_waiter_destroyed :: "nat \<Rightarrow> 'a aqueue \<Rightarrow> 'a aqueue" where
  "get_on_waiter_destroyed n Q = notify_getters (Q\<lparr>gets := side_remove n (gets Q)\<rparr>)"

definition get_nowait :: "'a aqueue \<Rightarrow> 'a option result \<times> 'a aqueue" where
  "get_nowait Q =
     (if items Q = [] \<or> sd_reserved (gets Q) \<noteq> 0 \<or> sd_waiters (gets Q) \<noteq> []
      then (if items Q = [] \<and> shut_down Q then Inl QueueShutDown else Inr None, Q)
      else (Inr (Some (hd (items Q))), notify_putters (Q\<lparr>items := tl (items Q)\<rparr>)))"

subsection \<open>put\<close>

definition put_ready :: "'a aqueue \<Rightarrow> bool" where
  "put_ready Q \<longleftrightarrow> \<not> shut_down Q \<and> \<not> full Q"

definition put_suspend :: "nat \<Rightarrow> handle \<Rightarrow> 'a aqueue \<Rightarrow> coro_error option \<times> 'a aqueue" where
  "put_suspend n h Q =
     (if shut_down Q then (Some QueueShutDown, Q)
      else (None, notify_putters (Q\<lparr>puts := side_enqueue n h (puts Q)\<rparr>)))"

definition put_resume :: "nat \<Rightarrow> 'a aqueue \<Rightarrow> unit result \<times> 'a aqueue" where
  "put_resume n Q =
     (case sd_nodes (puts Q) n of
        None \<Rightarrow> (Inl LogicError, Q)
      | Some a \<Rightarrow>
          (let Q = Q\<lparr>puts := side_remove n (puts Q)\<rparr>
           in if shut_down Q then (Inl QueueShutDown, Q)
              else (Inr (), notify_getters (Q\<lparr>items := items Q @ [aw_item a],
                              unfinished_tasks := unfinished_tasks Q + 1\<rparr>))))"

definition put_on_waiter_destroyed :: "nat \<Rightarrow> 'a aqueue \<Rightarrow> 'a aqueue" where
  "put_on_waiter_destroyed n Q = notify_putters (Q\<lparr>puts := side_remove n (puts Q)\<rparr>)"

definition put_nowait :: "'a \<Rightarrow> 'a aqueue \<Rightarrow> bool \<times> 'a aqueue" where
  "put_nowait x Q =
     (if shut_down Q \<or> full Q then (False, Q)
      else (True, notify_getters (Q\<lparr>items := items Q @ [x], unfinished_tasks := unfinished_tasks Q + 1\<rparr>)))"

subsection \<open>task_done, join and shutdown\<close>

definition wake_joiners :: "'a aqueue \<Rightarrow> 'a aqueue" where
  "wake_joiners Q = (fold q_schedule (join_waiters Q) Q)\<lparr>join_waiters := []\<rparr>"

definition task_done :: "'a aqueue \<Rightarrow> unit result \<times> 'a aqueue" where
  "task_done Q =
     (if unfinished_tasks Q = 0 then (Inl LogicError, Q)
      else (let Q = Q\<lparr>unfinished_tasks := unfinished_tasks Q - 1\<rparr>
            in (Inr (), if unfinished_tasks Q = 0 then wake_joiners Q else Q)))"

definition join_ready :: "'a aqueue \<Rightarrow> bool" where
  "join_ready Q \<longleftrightarrow> unfinished_tasks Q = 0"

definition join_suspend :: "handle \<Rightarrow> 'a aqueue \<Rightarrow> 'a aqueue" where
  "join_suspend h Q = Q\<lparr>join_waiters := join_waiters Q @ [h]\<rparr>"

definition join_on_waiter_destroyed :: "handle \<Rightarrow> 'a aqueue \<Rightarrow> 'a aqueue" where
  "join_on_waiter_destroyed h Q = Q\<lparr>join_waiters := filter (\<lambda>g. g \<noteq> h) (join_waiters Q)\<rparr>"

function dismiss_putters :: "'a aqueue \<Rightarrow> 'a aqueue" where
  "dismiss_putters Q =
     (if sd_waiters (puts Q) \<noteq> []
      then (case side_dismiss (puts Q) of (h, s) \<Rightarrow> dismiss_putters (q_schedule h (Q\<lparr>puts := s\<rparr>)))
      else Q)"
  by pat_completeness auto
termination
  by (relation "measure (\<lambda>Q. length (sd_waiters (puts Q)))")
    (auto simp: side_dismiss_def q_schedule_def split: list.splits option.splits)

function dismiss_getters :: "'a aqueue \<Rightarrow> 'a aqueue" where
  "dismiss_getters Q =
     (if sd_waiters (gets Q) \<noteq> []
      then (case side_dismiss (gets Q) of (h, s) \<Rightarrow> dismiss_getters (q_schedule h (Q\<lparr>gets := s\<rparr>)))
      else Q)"
  by pat_completeness auto
termination
  by (relation "measure (\<lambda>Q. length (sd_waiters (gets Q)))")
    (auto simp: side_dismiss_def q_schedule_def split: list.splits option.splits)

declare dismiss_putters.simps [simp del] dismiss_getters.simps [simp del]

definition drop_items :: "'a aqueue \<Rightarrow> 'a aqueue" where
  "drop_items Q =
     (let dropped = length (items Q)
      in Q\<lparr>items := [],
           unfinished_tasks := (if dropped \<ge> unfinished_tasks Q then 0 else unfinished_tasks Q - dropped)\<rparr>)"

definition shutdown :: "bool \<Rightarrow> 'a aqueue \<Rightarrow> 'a aqueue" where
  "shutdown immediate Q =
     (let was_shut = shut_down Q;
          Q = Q\<lparr>shut_down := True\<rparr>;
          Q = (if immediate then drop_items Q else Q);
          Q = dismiss_getters (dismiss_putters Q)
      in if \<not> was_shut \<and> unfinished_tasks Q = 0 then wake_joiners Q else Q)"

subsection \<open>One side of the queue\<close>

definition side_wf :: "'b side \<Rightarrow> bool" where
  "side_wf s \<longleftrightarrow>
     finite (marked aw_reserved (sd_nodes s)) \<and> sd_reserved s = card (marked aw_reserved (sd_nodes s)) \<and>
     distinct (sd_waiters s) \<and>
     set (sd_waiters s) \<subseteq> marked (\<lambda>a. \<not> aw_reserved a \<and> aw_handle a \<noteq> null_handle) (sd_nodes s)"

text \<open>Outside \<open>X\<close>, every awaiter waits in the FIFO or holds a reservation.\<close>

definition side_live :: "nat set \<Rightarrow> 'b side \<Rightarrow> bool" where
  "side_live X s \<longleftrightarrow>
     (\<forall>n a. sd_nodes s n = Some a \<longrightarrow> n \<in> X \<or> aw_reserved a \<or> n \<in> set (sd_waiters s))"

lemma side_new_wf: "side_wf side_new" "side_live X side_new"
  by (simp_all add: side_wf_def side_new_def marked_upd side_live_def)

lemma side_add_wf: "side_wf s \<Longrightarrow> sd_nodes s n = None \<Longrightarrow> side_wf (side_add n x s)"
  by (auto simp: side_wf_def side_add_def marked_upd marked_iff)

lemma side_enqueue_wf:
  assumes "side_wf s" "sd_nodes s n = None" "h \<noteq> null_handle"
  shows "side_wf (side_enqueue n h (side_add n x s))"
  using assms by (auto simp: side_wf_def side_add_def side_enqueue_def marked_upd marked_iff)

lemma side_enqueue_live: "side_live X s \<Longrightarrow> side_live X (side_enqueue n h (side_add n x s))"
  by (auto simp: side_live_def side_enqueue_def side_add_def split: if_splits)

lemma side_reserve_wf:
  assumes "side_wf s" "sd_waiters s \<noteq> []" "side_reserve s = (h, s')"
  shows "side_wf s'" "sd_waiters s' = tl (sd_waiters s)" "sd_reserved s' = sd_reserved s + 1"
    "side_live X s \<Longrightarrow> side_live X s'" "m \<notin> set (sd_waiters s) \<Longrightarrow> sd_nodes s' m = sd_nodes s m"
proof -
  obtain n rest where n: "sd_waiters s = n # rest" using assms(2) by (cases "sd_waiters s") auto
  then obtain a where a: "sd_nodes s n = Some a" "\<not> aw_reserved a"
    using assms(1) by (auto simp: side_wf_def marked_iff)
  have s': "s' = s\<lparr>sd_waiters := rest, sd_reserved := sd_reserved s + 1,
      sd_nodes := (sd_nodes s)(n \<mapsto> a\<lparr>aw_reserved := True\<rparr>)\<rparr>"
    using assms(3) n a by (simp add: side_reserve_def)
  have "n \<notin> marked aw_reserved (sd_nodes s)" using a by (auto simp: marked_iff)
  then show "side_wf s'"
    using assms(1) n by (auto simp: side_wf_def s' marked_upd)
  show "sd_waiters s' = tl (sd_waiters s)" "sd_reserved s' = sd_reserved s + 1"
    using n by (simp_all add: s')
  show "side_live X s \<Longrightarrow> side_live X s'"
    using n by (auto simp: side_live_def s' split: if_splits)
  show "m \<notin> set (sd_waiters s) \<Longrightarrow> sd_nodes s' m = sd_nodes s m" using n by (simp add: s')
qed

lemma side_dismiss_wf:
  assumes "side_wf s" "sd_waiters s \<noteq> []" "side_dismiss s = (h, s')"
  shows "side_wf s'" "sd_waiters s' = tl (sd_waiters s)" "sd_reserved s' = sd_reserved s"
proof -
  obtain n rest where n: "sd_waiters s = n # rest" using assms(2) by (cases "sd_waiters s") auto
  then obtain a where a: "sd_nodes s n = Some a" "\<not> aw_reserved a"
    using assms(1) by (auto simp: side_wf_def marked_iff)
  have s': "s' = s\<lparr>sd_waiters := rest, sd_nodes := (sd_nodes s)(n \<mapsto> a\<lparr>aw_reserved := False\<rparr>)\<rparr>"
    using assms(3) n a by (simp add: side_dismiss_def)
  have "n \<notin> marked aw_reserved (sd_nodes s)" using a by (auto simp: marked_iff)
  then show "side_wf s'"
    using assms(1) n a by (auto simp: side_wf_def s' marked_upd marked_iff)
  show "sd_waiters s' = tl (sd_waiters s)" "sd_reserved s' = sd_reserved s"
    using n by (simp_all add: s')
qed

lemma side_remove_wf:
  assumes "side_wf s" "sd_nodes s n = Some a"
  shows "side_wf (side_remove n s)"
    and "sd_reserved s = sd_reserved (side_remove n s) + (if aw_reserved a then 1 else 0)"
    and "n \<notin> set (sd_waiters (side_remove n s))"
    and "set (sd_waiters (side_remove n s)) = set (sd_waiters s) - {n}"
    and "side_live X s \<Longrightarrow> side_live (insert n X) (side_remove n s)"
    and "\<exists>b. sd_nodes (side_remove n s) n = Some b \<and> \<not> aw_reserved b"
proof -
  have w: "n \<in> set (sd_waiters s) \<Longrightarrow> \<not> aw_reserved a \<and> aw_handle a \<noteq> null_handle"
    using assms by (auto simp: side_wf_def marked_iff)
  have r: "aw_reserved a \<Longrightarrow> 0 < sd_reserved s"
    using assms marked_iff [of n aw_reserved "sd_nodes s"] by (auto simp: side_wf_def card_gt_0_iff)
  have c: "aw_reserved a \<Longrightarrow> card (marked aw_reserved (sd_nodes s) - {n}) = sd_reserved s - 1"
    using assms by (auto simp: side_wf_def marked_iff)
  have nc: "\<not> aw_reserved a \<Longrightarrow> n \<notin> marked aw_reserved (sd_nodes s)"
    using assms by (auto simp: marked_iff)
  show "side_wf (side_remove n s)"
    using assms w c nc
    by (auto simp: side_remove_def side_wf_def Let_def marked_upd erase_first_eq_remove1)
  show "sd_reserved s = sd_reserved (side_remove n s) + (if aw_reserved a then 1 else 0)"
    using assms r by (simp add: side_remove_def Let_def)
  show "n \<notin> set (sd_waiters (side_remove n s))"
    and "set (sd_waiters (side_remove n s)) = set (sd_waiters s) - {n}"
    using assms w by (auto simp: side_remove_def Let_def erase_first_eq_remove1 side_wf_def)
  show "side_live X s \<Longrightarrow> side_live (insert n X) (side_remove n s)"
    using assms(2) by (auto simp: side_live_def side_remove_def Let_def erase_first_eq_remove1
        split: if_splits)
  show "\<exists>b. sd_nodes (side_remove n s) n = Some b \<and> \<not> aw_reserved b"
    using assms by (simp add: side_remove_def Let_def)
qed

lemma side_drop_wf:
  assumes "side_wf s" "n \<notin> set (sd_waiters s)" "\<forall>a. sd_nodes s n = Some a \<longrightarrow> \<not> aw_reserved a"
  shows "side_wf (side_drop n s)" "side_live (insert n X) s \<Longrightarrow> side_live X (side_drop n s)"
proof -
  have "n \<notin> marked aw_reserved (sd_nodes s)" using assms(3) by (auto simp: marked_iff)
  then show "side_wf (side_drop n s)"
    using assms(1,2) by (auto simp: side_wf_def side_drop_def marked_upd)
  show "side_live (insert n X) s \<Longrightarrow> side_live X (side_drop n s)"
    by (auto simp: side_live_def side_drop_def split: if_splits)
qed

lemma side_drop_simps [simp]:
  "sd_waiters (side_drop n s) = sd_waiters s" "sd_reserved (side_drop n s) = sd_reserved s"
  "sd_waiters (side_add n x s) = sd_waiters s" "sd_reserved (side_add n x s) = sd_reserved s"
  "sd_reserved (side_enqueue n h s) = sd_reserved s" "sd_waiters (side_enqueue n h s) = sd_waiters s @ [n]"
  by (simp_all add: side_drop_def side_add_def side_enqueue_def)

subsection \<open>The notification loops\<close>

lemma q_schedule_simps [simp]:
  "maxsize (q_schedule h Q) = maxsize Q" "items (q_schedule h Q) = items Q"
  "gets (q_schedule h Q) = gets Q" "puts (q_schedule h Q) = puts Q"
  "join_waiters (q_schedule h Q) = join_waiters Q" "unfinished_tasks (q_schedule h Q) = unfinished_tasks Q"
  "shut_down (q_schedule h Q) = shut_down Q"
  by (simp_all add: q_schedule_def)

lemma notify_getters_frame [simp]:
  "maxsize (notify_getters Q) = maxsize Q" "items (notify_getters Q) = items Q"
  "puts (notify_getters Q) = puts Q" "join_waiters (notify_getters Q) = join_waiters Q"
  "unfinished_tasks (notify_getters Q) = unfinished_tasks Q" "shut_down (notify_getters Q) = shut_down Q"
proof (atomize (full), induction Q rule: notify_getters.induct)
  case (1 Q)
  then show ?case by (subst (1 2 3 4 5 6) notify_getters.simps) (simp split: prod.splits)
qed

lemma notify_putters_frame [simp]:
  "maxsize (notify_putters Q) = maxsize Q" "items (notify_putters Q) = items Q"
  "gets (notify_putters Q) = gets Q" "join_waiters (notify_putters Q) = join_waiters Q"
  "unfinished_tasks (notify_putters Q) = unfinished_tasks Q" "shut_down (notify_putters Q) = shut_down Q"
proof (atomize (full), induction Q rule: notify_putters.induct)
  case (1 Q)
  then show ?case by (subst (1 2 3 4 5 6) notify_putters.simps) (simp split: prod.splits)
qed

lemma notify_getters_side:
  assumes "side_wf (gets Q)"
  shows "side_wf (gets (notify_getters Q)) \<and>
    (sd_waiters (gets (notify_getters Q)) \<noteq> [] \<longrightarrow> length (items Q) \<le> sd_reserved (gets (notify_getters Q))) \<and>
    (sd_reserved (gets Q) \<le> length (items Q) \<longrightarrow> sd_reserved (gets (notify_getters Q)) \<le> length (items Q)) \<and>
    (side_live X (gets Q) \<longrightarrow> side_live X (gets (notify_getters Q))) \<and>
    set (sd_waiters (gets (notify_getters Q))) \<subseteq> set (sd_waiters (gets Q)) \<and>
    (\<forall>m. m \<notin> set (sd_waiters (gets Q)) \<longrightarrow> sd_nodes (gets (notify_getters Q)) m = sd_nodes (gets Q) m)"
  using assms
proof (induction Q rule: notify_getters.induct)
  case (1 Q)
  show ?case
  proof (cases "sd_waiters (gets Q) \<noteq> [] \<and> sd_reserved (gets Q) < length (items Q)")
    case True
    obtain h s where r: "side_reserve (gets Q) = (h, s)" by fastforce
    have step: "notify_getters Q = notify_getters (q_schedule h (Q\<lparr>gets := s\<rparr>))"
      using True r by (subst notify_getters.simps) simp
    note w = side_reserve_wf [OF 1(2) _ r]
    have sub: "set (sd_waiters s) \<subseteq> set (sd_waiters (gets Q))"
      using w(2) True by (metis list.set_sel(2) subsetI)
    from "1.IH" [OF True r [symmetric]] w True sub show ?thesis unfolding step by auto
  next
    case False
    then have "notify_getters Q = Q" by (subst notify_getters.simps) auto
    with False 1(2) show ?thesis by auto
  qed
qed

lemma notify_putters_side:
  assumes "side_wf (puts Q)"
  shows "side_wf (puts (notify_putters Q)) \<and>
    (sd_waiters (puts (notify_putters Q)) \<noteq> [] \<longrightarrow> full (notify_putters Q)) \<and>
    ((maxsize Q > 0 \<longrightarrow> length (items Q) + sd_reserved (puts Q) \<le> maxsize Q) \<longrightarrow>
     maxsize Q > 0 \<longrightarrow> length (items Q) + sd_reserved (puts (notify_putters Q)) \<le> maxsize Q) \<and>
    (side_live X (puts Q) \<longrightarrow> side_live X (puts (notify_putters Q))) \<and>
    set (sd_waiters (puts (notify_putters Q))) \<subseteq> set (sd_waiters (puts Q)) \<and>
    (\<forall>m. m \<notin> set (sd_waiters (puts Q)) \<longrightarrow> sd_nodes (puts (notify_putters Q)) m = sd_nodes (puts Q) m)"
  using assms
proof (induction Q rule: notify_putters.induct)
  case (1 Q)
  show ?case
  proof (cases "sd_waiters (puts Q) \<noteq> [] \<and> \<not> full Q")
    case True
    obtain h s where r: "side_reserve (puts Q) = (h, s)" by fastforce
    have step: "notify_putters Q = notify_putters (q_schedule h (Q\<lparr>puts := s\<rparr>))"
      using True r by (subst notify_putters.simps) simp
    note w = side_reserve_wf [OF 1(2) _ r]
    have sub: "set (sd_waiters s) \<subseteq> set (sd_waiters (puts Q))"
      using w(2) True by (metis list.set_sel(2) subsetI)
    have cap: "maxsize Q > 0 \<longrightarrow> length (items Q) + sd_reserved s \<le> maxsize Q"
      using w(3) True by (auto simp: full_def)
    from "1.IH" [OF True r [symmetric]] w True sub cap show ?thesis unfolding step by auto
  next
    case False
    then have "notify_putters Q = Q" by (subst notify_putters.simps) auto
    with False 1(2) show ?thesis by auto
  qed
qed

lemma dismiss_frame [simp]:
  "maxsize (dismiss_getters Q) = maxsize Q" "items (dismiss_getters Q) = items Q"
  "puts (dismiss_getters Q) = puts Q" "join_waiters (dismiss_getters Q) = join_waiters Q"
  "unfinished_tasks (dismiss_getters Q) = unfinished_tasks Q" "shut_down (dismiss_getters Q) = shut_down Q"
proof (atomize (full), induction Q rule: dismiss_getters.induct)
  case (1 Q)
  then show ?case by (subst (1 2 3 4 5 6) dismiss_getters.simps) (simp split: prod.splits)
qed

lemma dismiss_putters_frame [simp]:
  "maxsize (dismiss_putters Q) = maxsize Q" "items (dismiss_putters Q) = items Q"
  "gets (dismiss_putters Q) = gets Q" "join_waiters (dismiss_putters Q) = join_waiters Q"
  "unfinished_tasks (dismiss_putters Q) = unfinished_tasks Q" "shut_down (dismiss_putters Q) = shut_down Q"
proof (atomize (full), induction Q rule: dismiss_putters.induct)
  case (1 Q)
  then show ?case by (subst (1 2 3 4 5 6) dismiss_putters.simps) (simp split: prod.splits)
qed

lemma dismiss_getters_side:
  "side_wf (gets Q) \<Longrightarrow> side_wf (gets (dismiss_getters Q)) \<and> sd_waiters (gets (dismiss_getters Q)) = [] \<and>
   sd_reserved (gets (dismiss_getters Q)) = sd_reserved (gets Q)"
proof (induction Q rule: dismiss_getters.induct)
  case (1 Q)
  show ?case
  proof (cases "sd_waiters (gets Q) \<noteq> []")
    case True
    obtain h s where r: "side_dismiss (gets Q) = (h, s)" by fastforce
    have step: "dismiss_getters Q = dismiss_getters (q_schedule h (Q\<lparr>gets := s\<rparr>))"
      using True r by (subst dismiss_getters.simps) simp
    from "1.IH" [OF True r [symmetric]] side_dismiss_wf [OF 1(2) True r] show ?thesis
      unfolding step by simp
  next
    case False
    then have "dismiss_getters Q = Q" by (subst dismiss_getters.simps) simp
    with False 1(2) show ?thesis by simp
  qed
qed

lemma dismiss_putters_side:
  "side_wf (puts Q) \<Longrightarrow> side_wf (puts (dismiss_putters Q)) \<and> sd_waiters (puts (dismiss_putters Q)) = [] \<and>
   sd_reserved (puts (dismiss_putters Q)) = sd_reserved (puts Q)"
proof (induction Q rule: dismiss_putters.induct)
  case (1 Q)
  show ?case
  proof (cases "sd_waiters (puts Q) \<noteq> []")
    case True
    obtain h s where r: "side_dismiss (puts Q) = (h, s)" by fastforce
    have step: "dismiss_putters Q = dismiss_putters (q_schedule h (Q\<lparr>puts := s\<rparr>))"
      using True r by (subst dismiss_putters.simps) simp
    from "1.IH" [OF True r [symmetric]] side_dismiss_wf [OF 1(2) True r] show ?thesis
      unfolding step by simp
  next
    case False
    then have "dismiss_putters Q = Q" by (subst dismiss_putters.simps) simp
    with False 1(2) show ?thesis by simp
  qed
qed

subsection \<open>Runs of a queue\<close>

text \<open>The history of a queue: the items put, taken and dropped by an immediate shutdown, and whether a
  queue already shut down was shut down again at once.\<close>

record 'a queue_run =
  qr_queue :: "'a aqueue"
  put_log :: "'a list"
  got_log :: "'a list"
  drop_log :: "'a list"
  upgraded :: bool

definition got :: "'a result \<Rightarrow> 'a list" where
  "got r = (case r of Inr x \<Rightarrow> [x] | Inl _ \<Rightarrow> [])"

abbreviation add_get :: "nat \<Rightarrow> 'a aqueue \<Rightarrow> 'a aqueue" where
  "add_get n Q \<equiv> Q\<lparr>gets := side_add n () (gets Q)\<rparr>"

abbreviation drop_get :: "nat \<Rightarrow> 'a aqueue \<Rightarrow> 'a aqueue" where
  "drop_get n Q \<equiv> Q\<lparr>gets := side_drop n (gets Q)\<rparr>"

abbreviation add_put :: "nat \<Rightarrow> 'a \<Rightarrow> 'a aqueue \<Rightarrow> 'a aqueue" where
  "add_put n x Q \<equiv> Q\<lparr>puts := side_add n x (puts Q)\<rparr>"

abbreviation drop_put :: "nat \<Rightarrow> 'a aqueue \<Rightarrow> 'a aqueue" where
  "drop_put n Q \<equiv> Q\<lparr>puts := side_drop n (puts Q)\<rparr>"

inductive queue_step :: "'a queue_run \<Rightarrow> 'a queue_run \<Rightarrow> bool" where
  q_get_now: "get_ready (qr_queue R) \<Longrightarrow> sd_nodes (gets (qr_queue R)) n = None \<Longrightarrow>
    get_resume n (add_get n (qr_queue R)) = (r, Q) \<Longrightarrow>
    queue_step R (R\<lparr>qr_queue := drop_get n Q, got_log := got_log R @ got r\<rparr>)"
| q_get_wait: "\<not> get_ready (qr_queue R) \<Longrightarrow> sd_nodes (gets (qr_queue R)) n = None \<Longrightarrow> h \<noteq> null_handle \<Longrightarrow>
    get_suspend n h (add_get n (qr_queue R)) = (None, Q) \<Longrightarrow> queue_step R (R\<lparr>qr_queue := Q\<rparr>)"
| q_get_woken: "sd_nodes (gets (qr_queue R)) n = Some a \<Longrightarrow> n \<notin> set (sd_waiters (gets (qr_queue R))) \<Longrightarrow>
    get_resume n (qr_queue R) = (r, Q) \<Longrightarrow>
    queue_step R (R\<lparr>qr_queue := drop_get n Q, got_log := got_log R @ got r\<rparr>)"
| q_get_cancel: "sd_nodes (gets (qr_queue R)) n = Some a \<Longrightarrow>
    queue_step R (R\<lparr>qr_queue := drop_get n (get_on_waiter_destroyed n (qr_queue R))\<rparr>)"
| q_get_nowait: "get_nowait (qr_queue R) = (r, Q) \<Longrightarrow>
    queue_step R (R\<lparr>qr_queue := Q, got_log := got_log R @ (case r of Inr (Some x) \<Rightarrow> [x] | _ \<Rightarrow> [])\<rparr>)"
| q_put_now: "put_ready (qr_queue R) \<Longrightarrow> sd_nodes (puts (qr_queue R)) n = None \<Longrightarrow>
    put_resume n (add_put n x (qr_queue R)) = (r, Q) \<Longrightarrow>
    queue_step R (R\<lparr>qr_queue := drop_put n Q, put_log := put_log R @ (case r of Inr _ \<Rightarrow> [x] | Inl _ \<Rightarrow> [])\<rparr>)"
| q_put_wait: "\<not> put_ready (qr_queue R) \<Longrightarrow> sd_nodes (puts (qr_queue R)) n = None \<Longrightarrow> h \<noteq> null_handle \<Longrightarrow>
    put_suspend n h (add_put n x (qr_queue R)) = (None, Q) \<Longrightarrow> queue_step R (R\<lparr>qr_queue := Q\<rparr>)"
| q_put_woken: "sd_nodes (puts (qr_queue R)) n = Some a \<Longrightarrow> n \<notin> set (sd_waiters (puts (qr_queue R))) \<Longrightarrow>
    put_resume n (qr_queue R) = (r, Q) \<Longrightarrow>
    queue_step R (R\<lparr>qr_queue := drop_put n Q,
      put_log := put_log R @ (case r of Inr _ \<Rightarrow> [aw_item a] | Inl _ \<Rightarrow> [])\<rparr>)"
| q_put_cancel: "sd_nodes (puts (qr_queue R)) n = Some a \<Longrightarrow>
    queue_step R (R\<lparr>qr_queue := drop_put n (put_on_waiter_destroyed n (qr_queue R))\<rparr>)"
| q_put_nowait: "put_nowait x (qr_queue R) = (b, Q) \<Longrightarrow>
    queue_step R (R\<lparr>qr_queue := Q, put_log := put_log R @ (if b then [x] else [])\<rparr>)"
| q_task_done: "task_done (qr_queue R) = (r, Q) \<Longrightarrow> queue_step R (R\<lparr>qr_queue := Q\<rparr>)"
| q_join: "\<not> join_ready (qr_queue R) \<Longrightarrow> queue_step R (R\<lparr>qr_queue := join_suspend h (qr_queue R)\<rparr>)"
| q_join_cancel: "queue_step R (R\<lparr>qr_queue := join_on_waiter_destroyed h (qr_queue R)\<rparr>)"
| q_shutdown: "queue_step R (R\<lparr>qr_queue := shutdown b (qr_queue R),
    drop_log := drop_log R @ (if b then items (qr_queue R) else []),
    upgraded := upgraded R \<or> (b \<and> shut_down (qr_queue R))\<rparr>)"
| q_loop: "queue_step R (R\<lparr>qr_queue := (qr_queue R)\<lparr>q_loop := l\<rparr>\<rparr>)"

subsection \<open>The invariant\<close>

definition q_inv :: "nat set \<Rightarrow> nat set \<Rightarrow> 'a aqueue \<Rightarrow> bool" where
  "q_inv X Y Q \<longleftrightarrow>
     side_wf (gets Q) \<and> side_wf (puts Q) \<and>
     (maxsize Q > 0 \<longrightarrow> length (items Q) + sd_reserved (puts Q) \<le> maxsize Q) \<and>
     (sd_waiters (puts Q) \<noteq> [] \<longrightarrow> full Q \<and> \<not> shut_down Q) \<and>
     (\<not> shut_down Q \<longrightarrow>
        side_live Y (puts Q) \<and> side_live X (gets Q) \<and> sd_reserved (gets Q) \<le> length (items Q) \<and>
        (sd_waiters (gets Q) \<noteq> [] \<longrightarrow> length (items Q) \<le> sd_reserved (gets Q)))"

definition join_inv :: "'a queue_run \<Rightarrow> bool" where
  "join_inv R \<longleftrightarrow> (unfinished_tasks (qr_queue R) = 0 \<and> \<not> upgraded R \<longrightarrow> join_waiters (qr_queue R) = [])"

definition log_inv :: "'a queue_run \<Rightarrow> bool" where
  "log_inv R \<longleftrightarrow>
     put_log R = got_log R @ drop_log R @ items (qr_queue R) \<and>
     (drop_log R \<noteq> [] \<longrightarrow> items (qr_queue R) = [] \<and> shut_down (qr_queue R))"

text \<open>The two loops restore the invariant when only their own clause is broken. \<open>X\<close> and \<open>Y\<close> are the
  awaiters that have been removed and are about to be destroyed.\<close>

lemma notify_getters_inv:
  assumes "side_wf (gets Q)" "side_wf (puts Q)"
    and "maxsize Q > 0 \<longrightarrow> length (items Q) + sd_reserved (puts Q) \<le> maxsize Q"
    and "sd_waiters (puts Q) \<noteq> [] \<longrightarrow> full Q \<and> \<not> shut_down Q"
    and "\<not> shut_down Q \<longrightarrow> side_live Y (puts Q) \<and> side_live X (gets Q) \<and> sd_reserved (gets Q) \<le> length (items Q)"
  shows "q_inv X Y (notify_getters Q)"
  using assms notify_getters_side [OF assms(1), of X] by (auto simp: q_inv_def full_def)

lemma notify_putters_inv:
  assumes "side_wf (gets Q)" "side_wf (puts Q)"
    and "maxsize Q > 0 \<longrightarrow> length (items Q) + sd_reserved (puts Q) \<le> maxsize Q"
    and "sd_waiters (puts Q) \<noteq> [] \<longrightarrow> \<not> shut_down Q"
    and "\<not> shut_down Q \<longrightarrow> side_live Y (puts Q) \<and> side_live X (gets Q) \<and> sd_reserved (gets Q) \<le> length (items Q)
         \<and> (sd_waiters (gets Q) \<noteq> [] \<longrightarrow> length (items Q) \<le> sd_reserved (gets Q))"
  shows "q_inv X Y (notify_putters Q)"
  using assms notify_putters_side [OF assms(2), of Y] by (auto simp: q_inv_def)

lemma q_inv_drop_get:
  assumes "q_inv {n} {} Q" "n \<notin> set (sd_waiters (gets Q))"
    "\<forall>a. sd_nodes (gets Q) n = Some a \<longrightarrow> \<not> aw_reserved a"
  shows "q_inv {} {} (drop_get n Q)"
  using assms side_drop_wf(1) [OF _ assms(2,3)] side_drop_wf(2) [OF _ assms(2,3), where X = "{}"]
  by (auto simp: q_inv_def full_def)

lemma q_inv_drop_put:
  assumes "q_inv {} {n} Q" "n \<notin> set (sd_waiters (puts Q))"
    "\<forall>a. sd_nodes (puts Q) n = Some a \<longrightarrow> \<not> aw_reserved a"
  shows "q_inv {} {} (drop_put n Q)"
  using assms side_drop_wf(1) [OF _ assms(2,3)] side_drop_wf(2) [OF _ assms(2,3), where X = "{}"]
  by (auto simp: q_inv_def full_def)

lemma side_live_mono: "side_live X s \<Longrightarrow> X \<subseteq> Y \<Longrightarrow> side_live Y s"
  by (auto simp: side_live_def)

text \<open>A \<open>get\<close> that resumes: the awaiter is in no FIFO, so it holds a reservation, or the queue is shut
  down, or it never suspended and no reservation is outstanding.\<close>

lemma get_resume_inv:
  assumes inv: "q_inv {n} {} Q" and a: "sd_nodes (gets Q) n = Some a" "n \<notin> set (sd_waiters (gets Q))"
    and ok: "\<not> shut_down Q \<longrightarrow> aw_reserved a \<or> sd_reserved (gets Q) < length (items Q) \<and> sd_waiters (gets Q) = []"
    and r: "get_resume n Q = (r, Q')"
  shows "q_inv {} {} (drop_get n Q')"
proof -
  let ?s = "side_remove n (gets Q)"
  have wf: "side_wf (gets Q)" using inv by (simp add: q_inv_def)
  note rm = side_remove_wf [OF wf a(1)]
  have g: "gets Q' = ?s" if "items Q \<noteq> []" using r that by (auto simp: get_resume_def Let_def split: list.splits)
  have live: "side_live {n} (gets Q) \<longrightarrow> side_live {n} ?s" using rm(5) [of "{n}"] by simp
  have empty: "shut_down Q" if "items Q = []"
    using ok inv that rm(2) by (auto simp: q_inv_def split: if_splits)
  have "q_inv {n} {} Q'"
  proof (cases "items Q")
    case Nil
    with r empty inv rm(1) show ?thesis
      by (auto simp: get_resume_def q_inv_def full_def)
  next
    case (Cons x xs)
    have "Q' = notify_putters (Q\<lparr>gets := ?s, items := xs\<rparr>)" using r Cons by (auto simp: get_resume_def)
    moreover have "q_inv {n} {} (notify_putters (Q\<lparr>gets := ?s, items := xs\<rparr>))"
    proof (rule notify_putters_inv)
      have "sd_waiters ?s = sd_waiters (gets Q)" using a rm(4)
        by (simp add: side_remove_def Let_def erase_first_eq_remove1 remove1_idem split: if_splits)
      with inv ok Cons rm(2) live show "\<not> shut_down (Q\<lparr>gets := ?s, items := xs\<rparr>) \<longrightarrow>
          side_live {} (puts (Q\<lparr>gets := ?s, items := xs\<rparr>)) \<and> side_live {n} (gets (Q\<lparr>gets := ?s, items := xs\<rparr>)) \<and>
          sd_reserved (gets (Q\<lparr>gets := ?s, items := xs\<rparr>)) \<le> length (items (Q\<lparr>gets := ?s, items := xs\<rparr>)) \<and>
          (sd_waiters (gets (Q\<lparr>gets := ?s, items := xs\<rparr>)) \<noteq> [] \<longrightarrow>
           length (items (Q\<lparr>gets := ?s, items := xs\<rparr>)) \<le> sd_reserved (gets (Q\<lparr>gets := ?s, items := xs\<rparr>)))"
        by (auto simp: q_inv_def split: if_splits)
    qed (use inv rm(1) Cons in \<open>auto simp: q_inv_def\<close>)
    ultimately show ?thesis by simp
  qed
  moreover have "gets Q' = ?s" using r g empty by (auto simp: get_resume_def Let_def split: list.splits)
  ultimately show ?thesis using rm(3,6) by (intro q_inv_drop_get) auto
qed

lemma put_resume_inv:
  assumes inv: "q_inv {} {n} Q" and a: "sd_nodes (puts Q) n = Some a" "n \<notin> set (sd_waiters (puts Q))"
    and ok: "\<not> shut_down Q \<longrightarrow> aw_reserved a \<or> \<not> full Q"
    and r: "put_resume n Q = (r, Q')"
  shows "q_inv {} {} (drop_put n Q')"
proof -
  let ?s = "side_remove n (puts Q)"
  have wf: "side_wf (puts Q)" using inv by (simp add: q_inv_def)
  note rm = side_remove_wf [OF wf a(1)]
  have live: "side_live {n} (puts Q) \<longrightarrow> side_live {n} ?s" using rm(5) [of "{n}"] by simp
  have w: "sd_waiters ?s = sd_waiters (puts Q)" using a
    by (simp add: side_remove_def Let_def erase_first_eq_remove1 remove1_idem)
  have p: "puts Q' = ?s" using r a by (auto simp: put_resume_def Let_def split: if_splits)
  have "q_inv {} {n} Q'"
  proof (cases "shut_down Q")
    case True
    with r a inv rm(1,2) w show ?thesis
      by (auto simp: put_resume_def q_inv_def full_def split: if_splits)
  next
    case False
    let ?Q = "Q\<lparr>puts := ?s, items := items Q @ [aw_item a], unfinished_tasks := unfinished_tasks Q + 1\<rparr>"
    have "Q' = notify_getters ?Q" using r a False by (auto simp: put_resume_def Let_def)
    moreover have "q_inv {} {n} (notify_getters ?Q)"
    proof (rule notify_getters_inv)
      show "maxsize ?Q > 0 \<longrightarrow> length (items ?Q) + sd_reserved (puts ?Q) \<le> maxsize ?Q"
        using inv ok False rm(2) by (auto simp: q_inv_def full_def split: if_splits)
      show "sd_waiters (puts ?Q) \<noteq> [] \<longrightarrow> full ?Q \<and> \<not> shut_down ?Q"
        using inv False rm(2) w by (auto simp: q_inv_def full_def split: if_splits)
    qed (use inv rm(1) live in \<open>auto simp: q_inv_def\<close>)
    ultimately show ?thesis by simp
  qed
  then show ?thesis using rm(3,6) p by (intro q_inv_drop_put) auto
qed

lemma get_cancel_inv:
  assumes inv: "q_inv {} {} Q" and a: "sd_nodes (gets Q) n = Some a"
  shows "q_inv {} {} (drop_get n (get_on_waiter_destroyed n Q))"
proof -
  let ?Q = "Q\<lparr>gets := side_remove n (gets Q)\<rparr>"
  have wf: "side_wf (gets Q)" using inv by (simp add: q_inv_def)
  note rm = side_remove_wf [OF wf a]
  note ng = notify_getters_side [of ?Q "{n}"]
  have "q_inv {n} {} (notify_getters ?Q)"
    by (rule notify_getters_inv)
      (use inv rm(1,2) rm(5) [of "{}"] in \<open>auto simp: q_inv_def full_def split: if_splits\<close>)
  then show ?thesis
    unfolding get_on_waiter_destroyed_def using ng rm(1,3,6) by (intro q_inv_drop_get) auto
qed

lemma put_cancel_inv:
  assumes inv: "q_inv {} {} Q" and a: "sd_nodes (puts Q) n = Some a"
  shows "q_inv {} {} (drop_put n (put_on_waiter_destroyed n Q))"
proof -
  let ?Q = "Q\<lparr>puts := side_remove n (puts Q)\<rparr>"
  have wf: "side_wf (puts Q)" using inv by (simp add: q_inv_def)
  note rm = side_remove_wf [OF wf a]
  note np = notify_putters_side [of ?Q "{n}"]
  have "sd_waiters (side_remove n (puts Q)) \<noteq> [] \<Longrightarrow> sd_waiters (puts Q) \<noteq> []"
    using rm(4) by force
  then have "q_inv {} {n} (notify_putters ?Q)"
    using inv rm(1,2) rm(5) [of "{}"]
    by (intro notify_putters_inv) (auto simp: q_inv_def split: if_splits)
  then show ?thesis
    unfolding put_on_waiter_destroyed_def using np rm(1,3,6) by (intro q_inv_drop_put) auto
qed

lemma wake_joiners_simps [simp]:
  "items (wake_joiners Q) = items Q" "gets (wake_joiners Q) = gets Q" "puts (wake_joiners Q) = puts Q"
  "maxsize (wake_joiners Q) = maxsize Q" "shut_down (wake_joiners Q) = shut_down Q"
  "unfinished_tasks (wake_joiners Q) = unfinished_tasks Q" "join_waiters (wake_joiners Q) = []"
proof -
  have "items (fold q_schedule hs Q) = items Q \<and> gets (fold q_schedule hs Q) = gets Q \<and>
    puts (fold q_schedule hs Q) = puts Q \<and> maxsize (fold q_schedule hs Q) = maxsize Q \<and>
    shut_down (fold q_schedule hs Q) = shut_down Q \<and>
    unfinished_tasks (fold q_schedule hs Q) = unfinished_tasks Q" for hs
    by (induction hs arbitrary: Q) auto
  then show "items (wake_joiners Q) = items Q" "gets (wake_joiners Q) = gets Q"
    "puts (wake_joiners Q) = puts Q" "maxsize (wake_joiners Q) = maxsize Q"
    "shut_down (wake_joiners Q) = shut_down Q" "unfinished_tasks (wake_joiners Q) = unfinished_tasks Q"
    "join_waiters (wake_joiners Q) = []"
    by (simp_all add: wake_joiners_def)
qed

lemma shutdown_fields:
  "items (shutdown b Q) = (if b then [] else items Q)" "shut_down (shutdown b Q)"
  "maxsize (shutdown b Q) = maxsize Q"
  "unfinished_tasks (shutdown b Q) = (if b then unfinished_tasks Q - length (items Q) else unfinished_tasks Q)"
  "join_waiters (shutdown b Q) =
     (if \<not> shut_down Q \<and> unfinished_tasks (shutdown b Q) = 0 then [] else join_waiters Q)"
  by (auto simp: shutdown_def Let_def drop_items_def)

lemma shutdown_inv: "q_inv {} {} Q \<Longrightarrow> q_inv {} {} (shutdown b Q)"
proof -
  assume inv: "q_inv {} {} Q"
  let ?Q = "let Q = Q\<lparr>shut_down := True\<rparr> in if b then drop_items Q else Q"
  have g: "gets (shutdown b Q) = gets (dismiss_getters (dismiss_putters ?Q))"
    and p: "puts (shutdown b Q) = puts (dismiss_getters (dismiss_putters ?Q))"
    by (simp_all add: shutdown_def Let_def)
  have wf: "side_wf (gets ?Q)" "side_wf (puts ?Q)" "puts ?Q = puts Q"
    using inv by (auto simp: q_inv_def drop_items_def Let_def)
  from dismiss_getters_side [of "dismiss_putters ?Q"] dismiss_putters_side [of ?Q] wf inv g p
  show ?thesis by (auto simp: q_inv_def shutdown_fields)
qed

lemma q_inv_cong:
  "gets Q' = gets Q \<Longrightarrow> puts Q' = puts Q \<Longrightarrow> items Q' = items Q \<Longrightarrow> maxsize Q' = maxsize Q \<Longrightarrow>
   shut_down Q' = shut_down Q \<Longrightarrow> q_inv X Y Q' = q_inv X Y Q"
  by (simp add: q_inv_def full_def)

lemma q_inv_other_fields [simp]:
  "q_inv X Y (Q\<lparr>q_loop := l\<rparr>) = q_inv X Y Q" "q_inv X Y (Q\<lparr>join_waiters := js\<rparr>) = q_inv X Y Q"
  "q_inv X Y (Q\<lparr>unfinished_tasks := k\<rparr>) = q_inv X Y Q" "q_inv X Y (wake_joiners Q) = q_inv X Y Q"
  by (rule q_inv_cong; simp)+

lemma queue_step_inv:
  assumes "queue_step R R'" "q_inv {} {} (qr_queue R)"
  shows "q_inv {} {} (qr_queue R')"
  using assms
proof (induction rule: queue_step.induct)
  case (q_get_now R n r Q)
  let ?Q = "add_get n (qr_queue R)"
  have "q_inv {n} {} ?Q"
    using q_get_now(4,2) side_add_wf [of "gets (qr_queue R)" n "()"]
    by (auto simp: q_inv_def full_def side_live_def side_add_def)
  moreover have "n \<notin> set (sd_waiters (gets ?Q))" using q_get_now(1) by (simp add: get_ready_def)
  ultimately show ?case
    using get_resume_inv [of n ?Q _ r Q] q_get_now(1,3) by (auto simp: get_ready_def side_add_def)
next
  case (q_get_wait R n h Q)
  let ?Q = "(qr_queue R)\<lparr>gets := side_enqueue n h (side_add n () (gets (qr_queue R)))\<rparr>"
  have "q_inv {} {} (notify_getters ?Q)"
    by (rule notify_getters_inv)
      (use q_get_wait(2,3,5) in \<open>auto simp: q_inv_def full_def side_enqueue_wf side_enqueue_live\<close>)
  with q_get_wait(4) show ?case by (auto simp: get_suspend_def split: if_splits)
next
  case (q_get_woken R n a r Q)
  have "q_inv {n} {} (qr_queue R)"
    using q_get_woken(4) by (auto simp: q_inv_def intro: side_live_mono)
  then have "q_inv {} {} (drop_get n Q)"
    by (rule get_resume_inv [OF _ q_get_woken(1,2) _ q_get_woken(3)])
      (use q_get_woken(1,2,4) in \<open>auto simp: q_inv_def side_live_def\<close>)
  then show ?case by simp
next
  case (q_get_nowait R r Q)
  have "q_inv {} {} (notify_putters ((qr_queue R)\<lparr>items := tl (items (qr_queue R))\<rparr>))"
    if "items (qr_queue R) \<noteq> []" "sd_reserved (gets (qr_queue R)) = 0" "sd_waiters (gets (qr_queue R)) = []"
    by (rule notify_putters_inv) (use q_get_nowait(2) that in \<open>auto simp: q_inv_def\<close>)
  with q_get_nowait show ?case by (auto simp: get_nowait_def split: if_splits)
next
  case (q_put_now R n x r Q)
  let ?Q = "add_put n x (qr_queue R)"
  have "q_inv {} {n} ?Q"
    using q_put_now(4,2) side_add_wf [of "puts (qr_queue R)" n x]
    by (auto simp: q_inv_def full_def side_live_def side_add_def)
  moreover have "n \<notin> set (sd_waiters (puts ?Q))"
    using q_put_now(2,4) by (auto simp: q_inv_def side_wf_def marked_iff)
  ultimately show ?case
    using put_resume_inv [of n ?Q _ r Q] q_put_now(1,3)
    by (auto simp: put_ready_def side_add_def full_def)
next
  case (q_put_wait R n h x Q)
  let ?Q = "(qr_queue R)\<lparr>puts := side_enqueue n h (side_add n x (puts (qr_queue R)))\<rparr>"
  have "q_inv {} {} (notify_putters ?Q)" if "\<not> shut_down (qr_queue R)"
    by (rule notify_putters_inv)
      (use q_put_wait(2,3,5) that in \<open>auto simp: q_inv_def side_enqueue_wf side_enqueue_live\<close>)
  with q_put_wait(4) show ?case by (auto simp: put_suspend_def split: if_splits)
next
  case (q_put_woken R n a r Q)
  have "q_inv {} {n} (qr_queue R)"
    using q_put_woken(4) by (auto simp: q_inv_def intro: side_live_mono)
  then have "q_inv {} {} (drop_put n Q)"
    by (rule put_resume_inv [OF _ q_put_woken(1,2) _ q_put_woken(3)])
      (use q_put_woken(1,2,4) in \<open>auto simp: q_inv_def side_live_def\<close>)
  then show ?case by simp
next
  case (q_put_nowait x R b Q)
  let ?Q = "(qr_queue R)\<lparr>items := items (qr_queue R) @ [x], unfinished_tasks := unfinished_tasks (qr_queue R) + 1\<rparr>"
  have "q_inv {} {} (notify_getters ?Q)" if "\<not> shut_down (qr_queue R)" "\<not> full (qr_queue R)"
    by (rule notify_getters_inv) (use q_put_nowait(2) that in \<open>auto simp: q_inv_def full_def\<close>)
  with q_put_nowait show ?case by (auto simp: put_nowait_def split: if_splits)
next
  case (q_task_done R r Q)
  then show ?case by (auto simp: task_done_def Let_def split: if_splits)
next
  case (q_shutdown R b)
  then show ?case using shutdown_inv by simp
qed (simp_all add: get_cancel_inv put_cancel_inv join_suspend_def join_on_waiter_destroyed_def)

lemmas queue_op_defs =
  get_resume_def get_suspend_def get_on_waiter_destroyed_def get_nowait_def put_resume_def put_suspend_def
  put_on_waiter_destroyed_def put_nowait_def task_done_def join_suspend_def join_on_waiter_destroyed_def

lemma queue_step_join: "queue_step R R' \<Longrightarrow> join_inv R \<Longrightarrow> join_inv R'"
  by (induction rule: queue_step.induct)
    (auto simp: join_inv_def queue_op_defs join_ready_def shutdown_fields Let_def
      split: list.splits if_splits option.splits)

lemma queue_step_log: "queue_step R R' \<Longrightarrow> log_inv R \<Longrightarrow> log_inv R'"
  by (induction rule: queue_step.induct)
    (auto simp: log_inv_def queue_op_defs got_def shutdown_fields Let_def side_add_def put_ready_def
      split: list.splits if_splits option.splits)

definition queue_start :: "nat \<Rightarrow> 'a queue_run \<Rightarrow> bool" where
  "queue_start m R \<longleftrightarrow>
     (\<exists>l. R = \<lparr>qr_queue = queue_new m l, put_log = [], got_log = [], drop_log = [], upgraded = False\<rparr>)"

interpretation queue: inductive_invariant "queue_start m" queue_step
  "\<lambda>R. q_inv {} {} (qr_queue R) \<and> log_inv R \<and> join_inv R" for m
proof unfold_locales
  show "q_inv {} {} (qr_queue R) \<and> log_inv R \<and> join_inv R" if "queue_start m R" for R :: "'a queue_run"
    using that by (auto simp: queue_start_def q_inv_def log_inv_def join_inv_def queue_new_def side_new_wf
        full_def) (simp_all add: side_new_def)
qed (auto dest: queue_step_inv queue_step_log queue_step_join)

lemma queue_step_maxsize: "queue_step R R' \<Longrightarrow> maxsize (qr_queue R') = maxsize (qr_queue R)"
  by (induction rule: queue_step.induct)
    (auto simp: queue_op_defs shutdown_fields Let_def split: list.splits if_splits option.splits)

lemma queue_maxsize: "reachable (queue_start m) queue_step R \<Longrightarrow> maxsize (qr_queue R) = m"
  by (induction rule: reachable.induct) (auto simp: queue_start_def queue_new_def queue_step_maxsize)

text \<open>C22. The queue is a bounded FIFO: in every reachable state the items taken, those dropped by an
  immediate shutdown and those still inside are, in this order, the items put, and with a positive
  capacity the items and the places promised to woken producers never exceed it.\<close>

theorem queue_fifo_and_bounded:
  assumes "reachable (queue_start m) queue_step R"
  shows "put_log R = got_log R @ drop_log R @ items (qr_queue R)
       \<and> (0 < m \<longrightarrow> length (items (qr_queue R)) + sd_reserved (puts (qr_queue R)) \<le> m)"
  using queue.invariant_reachable [OF assms] queue_maxsize [OF assms] by (auto simp: q_inv_def log_inv_def)

text \<open>No waiter is forgotten while the queue is open: a suspended \<open>get\<close> waits only when every item
  is promised to another getter, a suspended \<open>put\<close> only when the queue is full, and an awaiter that is
  in no waiting list holds a reservation. Nobody waits in \<open>join\<close> once every task is done, unless a queue
  that was shut down already is shut down again at once.\<close>

theorem queue_no_lost_wakeup:
  assumes "reachable (queue_start m) queue_step R"
  shows "(\<not> shut_down (qr_queue R) \<longrightarrow>
            (sd_waiters (gets (qr_queue R)) \<noteq> [] \<longrightarrow>
               length (items (qr_queue R)) = card (marked aw_reserved (sd_nodes (gets (qr_queue R))))) \<and>
            (sd_waiters (puts (qr_queue R)) \<noteq> [] \<longrightarrow> full (qr_queue R)) \<and>
            (\<forall>n a. sd_nodes (gets (qr_queue R)) n = Some a \<longrightarrow>
               aw_reserved a \<or> n \<in> set (sd_waiters (gets (qr_queue R)))))
       \<and> (unfinished_tasks (qr_queue R) = 0 \<and> \<not> upgraded R \<longrightarrow> join_waiters (qr_queue R) = [])"
  using queue.invariant_reachable [OF assms]
  by (auto simp: q_inv_def side_wf_def side_live_def join_inv_def)

subsection \<open>Concrete runs\<close>

text \<open>Coroutine 11 waits in \<open>get\<close>, an item is put (and promised to it), the queue is shut down, and
  coroutine 12 calls \<open>get\<close> before coroutine 11 has run.\<close>

definition strand0 :: "nat aqueue" where "strand0 = queue_new 0 el_new"
definition strand1 :: "nat aqueue" where "strand1 = snd (get_suspend 1 11 (add_get 1 strand0))"
definition strand2 :: "nat aqueue" where "strand2 = snd (put_nowait 5 strand1)"
definition strand3 :: "nat aqueue" where "strand3 = shutdown False strand2"
definition strand4 :: "nat aqueue" where "strand4 = snd (get_suspend 2 12 (add_get 2 strand3))"
definition strand5 :: "nat aqueue" where "strand5 = drop_get 1 (snd (get_resume 1 strand4))"

lemmas strand_defs = strand5_def strand4_def strand3_def strand2_def strand1_def strand0_def

definition strand_run :: "nat aqueue \<Rightarrow> nat list \<Rightarrow> nat list \<Rightarrow> nat queue_run" where
  "strand_run Q ps gs = \<lparr>qr_queue = Q, put_log = ps, got_log = gs, drop_log = [], upgraded = False\<rparr>"

lemma strand_reachable:
  "reachable (queue_start 0) queue_step (strand_run strand2 [5] [])"
  "reachable (queue_start 0) queue_step (strand_run strand5 [5] [5])"
proof -
  have s1: "queue_step (strand_run strand0 [] []) (strand_run strand1 [] [])"
  proof -
    have "\<not> get_ready strand0" "sd_nodes (gets strand0) 1 = None" by code_simp+
    moreover have "get_suspend 1 11 (add_get 1 strand0) = (None, strand1)"
      unfolding strand1_def by (rule prod_eqI) (code_simp, simp)
    ultimately show ?thesis using q_get_wait [of "strand_run strand0 [] []" 1 11 strand1]
      by (simp add: strand_run_def)
  qed
  have s2: "queue_step (strand_run strand1 [] []) (strand_run strand2 [5] [])"
  proof -
    have "put_nowait 5 strand1 = (True, strand2)"
      unfolding strand2_def by (rule prod_eqI) (code_simp, simp)
    then show ?thesis using q_put_nowait [of 5 "strand_run strand1 [] []" True strand2]
      by (simp add: strand_run_def)
  qed
  have s3: "queue_step (strand_run strand2 [5] []) (strand_run strand3 [5] [])"
    using q_shutdown [of "strand_run strand2 [5] []" False] by (simp add: strand_run_def strand3_def)
  have s4: "queue_step (strand_run strand3 [5] []) (strand_run strand4 [5] [])"
  proof -
    have "\<not> get_ready strand3" "sd_nodes (gets strand3) 2 = None" by code_simp+
    moreover have "get_suspend 2 12 (add_get 2 strand3) = (None, strand4)"
      unfolding strand4_def by (rule prod_eqI) (code_simp, simp)
    ultimately show ?thesis using q_get_wait [of "strand_run strand3 [5] []" 2 12 strand4]
      by (simp add: strand_run_def)
  qed
  have s5: "queue_step (strand_run strand4 [5] []) (strand_run strand5 [5] [5])"
  proof -
    have "sd_nodes (gets strand4) 1 \<noteq> None" "1 \<notin> set (sd_waiters (gets strand4))" by code_simp+
    moreover have "get_resume 1 strand4 = (Inr 5, snd (get_resume 1 strand4))"
      by (rule prod_eqI) (code_simp, simp)
    ultimately show ?thesis
      using q_get_woken [of "strand_run strand4 [5] []" 1 _ "Inr 5" "snd (get_resume 1 strand4)"]
      by (auto simp: strand_run_def strand5_def got_def)
  qed
  have s0: "reachable (queue_start 0) queue_step (strand_run strand0 [] [])"
    by (rule reachable_init) (auto simp: queue_start_def strand_run_def strand0_def)
  then show r2: "reachable (queue_start 0) queue_step (strand_run strand2 [5] [])"
    using s1 s2 by (blast intro: reachable_step)
  then show "reachable (queue_start 0) queue_step (strand_run strand5 [5] [5])"
    using s3 s4 s5 by (blast intro: reachable_step)
qed

theorem queue_fifo_and_bounded_witness:
  "reachable (queue_start 0) queue_step (strand_run strand2 [5] []) \<and> items strand2 = [5]"
  using queue_fifo_and_bounded [OF strand_reachable(1)] strand_reachable(1) by (simp add: strand_run_def)

theorem queue_no_lost_wakeup_witness:
  "reachable (queue_start 0) queue_step (strand_run strand2 [5] []) \<and>
   (\<exists>a. sd_nodes (gets strand2) 1 = Some a \<and> aw_reserved a)"
proof -
  have "\<not> shut_down strand2" "sd_waiters (gets strand2) = []" "sd_nodes (gets strand2) 1 \<noteq> None"
    by code_simp+
  then show ?thesis
    using queue_no_lost_wakeup [OF strand_reachable(1)] strand_reachable(1) by (auto simp: strand_run_def)
qed

text \<open>A graceful shutdown can strand a consumer. There is a run that ends with the queue shut down
  and empty, no reservation outstanding, and a \<open>get\<close> still in the waiting list: no \<open>put\<close> is accepted any
  more and the notification loop leaves the waiter where it is, although a drained queue should answer
  with \<open>QueueShutDown\<close>.\<close>

theorem shutdown_strands_getter:
  "\<exists>R :: nat queue_run. reachable (queue_start 0) queue_step R \<and> shut_down (qr_queue R) \<and>
     items (qr_queue R) = [] \<and> sd_reserved (gets (qr_queue R)) = 0 \<and> sd_waiters (gets (qr_queue R)) = [2] \<and>
     notify_getters (qr_queue R) = qr_queue R \<and>
     (\<forall>x. put_nowait x (qr_queue R) = (False, qr_queue R)) \<and> \<not> put_ready (qr_queue R)"
proof -
  have *: "shut_down strand5" "items strand5 = []" "sd_reserved (gets strand5) = 0"
    "sd_waiters (gets strand5) = [2]"
    by code_simp+
  then have "notify_getters strand5 = strand5" by (subst notify_getters.simps) simp
  with * strand_reachable(2) show ?thesis
    by (intro exI [of _ "strand_run strand5 [5] [5]"])
      (simp add: strand_run_def put_nowait_def put_ready_def)
qed

definition upgrade0 :: "nat aqueue" where "upgrade0 = snd (put_nowait 5 strand0)"
definition upgrade1 :: "nat aqueue" where "upgrade1 = shutdown False (join_suspend 21 upgrade0)"

text \<open>Upgrading a graceful shutdown to an immediate one can strand \<open>join\<close>: there is a run after
  which no task is unfinished, so \<open>task_done\<close> is an error, while a coroutine still waits in \<open>join\<close>.\<close>

theorem shutdown_upgrade_strands_join:
  "\<exists>R :: nat queue_run. reachable (queue_start 0) queue_step R \<and> shut_down (qr_queue R) \<and>
     unfinished_tasks (qr_queue R) = 0 \<and> join_waiters (qr_queue R) = [21] \<and>
     task_done (qr_queue R) = (Inl LogicError, qr_queue R)"
proof -
  let ?R0 = "strand_run strand0 [] []"
  let ?R1 = "strand_run upgrade0 [5] []"
  let ?R2 = "strand_run (join_suspend 21 upgrade0) [5] []"
  let ?R3 = "strand_run upgrade1 [5] []"
  let ?R4 = "?R3\<lparr>qr_queue := shutdown True upgrade1, drop_log := items upgrade1, upgraded := True\<rparr>"
  have "queue_step ?R0 ?R1"
  proof -
    have "put_nowait 5 strand0 = (True, upgrade0)"
      unfolding upgrade0_def by (rule prod_eqI) (code_simp, simp)
    then show ?thesis using q_put_nowait [of 5 ?R0 True upgrade0] by (simp add: strand_run_def)
  qed
  moreover have "queue_step ?R1 ?R2"
  proof -
    have "\<not> join_ready upgrade0" by code_simp
    then show ?thesis using q_join [of ?R1 21] by (simp add: strand_run_def)
  qed
  moreover have "queue_step ?R2 ?R3"
    using q_shutdown [of ?R2 False] by (simp add: strand_run_def upgrade1_def)
  moreover have "queue_step ?R3 ?R4"
  proof -
    have "shut_down upgrade1" by code_simp
    then show ?thesis using q_shutdown [of ?R3 True] by (simp add: strand_run_def)
  qed
  moreover have "reachable (queue_start 0) queue_step ?R0"
    by (rule reachable_init) (auto simp: queue_start_def strand_run_def strand0_def)
  ultimately have r: "reachable (queue_start 0) queue_step ?R4" by (blast intro: reachable_step)
  have "shut_down (shutdown True upgrade1)" "unfinished_tasks (shutdown True upgrade1) = 0"
    "join_waiters (shutdown True upgrade1) = [21]"
    by code_simp+
  with r show ?thesis by (intro exI [of _ ?R4]) (simp add: task_done_def)
qed

end
