(* ===== verification/Channel.thy ===== *)
theory Channel
  imports Waiters "HOL-Library.Multiset"
begin

section \<open>Channels\<close>

text \<open>
  include/coro/channel.hpp. A channel is used from the thread of one loop, so a call is one step. The
  waiting nodes are shared heap objects; they are kept in two stores, by address, because a select
  registers nodes in several channels and looks at them afterwards. A node may belong to a select: then
  its gate is the address of the select's state, whose \<open>winner\<close> is \<open>- 1\<close> until a branch is chosen. The
  capacity \<open>SIZE_MAX\<close> means unbounded.
\<close>

record 'a sender_waiter =
  sn_value :: 'a
  sn_handle :: handle
  sn_taken :: bool
  sn_gate :: "nat option"
  sn_tag :: int

record 'a receiver_waiter =
  rn_value :: "'a option"
  rn_handle :: handle
  rn_delivered :: bool
  rn_gate :: "nat option"
  rn_tag :: int

record 'a channel_state =
  buffer :: "'a list"
  senders :: "nat list"
  receivers :: "nat list"
  capacity :: nat
  send_closed :: bool
  all_receivers_gone :: bool
  live_senders :: nat
  live_receivers :: nat

record 'a cworld =
  chans :: "nat \<Rightarrow> 'a channel_state"
  snodes :: "nat \<Rightarrow> 'a sender_waiter option"
  rnodes :: "nat \<Rightarrow> 'a receiver_waiter option"
  winners :: "nat \<Rightarrow> int"
  c_loop :: event_loop

definition SIZE_MAX :: nat where "SIZE_MAX = 2 ^ 64 - 1"

definition channel_new :: "nat \<Rightarrow> 'a channel_state" where
  "channel_new cap = \<lparr>buffer = [], senders = [], receivers = [], capacity = cap, send_closed = False,
     all_receivers_gone = False, live_senders = 0, live_receivers = 0\<rparr>"

definition set_chan :: "nat \<Rightarrow> 'a channel_state \<Rightarrow> 'a cworld \<Rightarrow> 'a cworld" where
  "set_chan c st w = w\<lparr>chans := (chans w)(c := st)\<rparr>"

subsection \<open>The gate\<close>

definition can_admit :: "nat \<Rightarrow> 'a cworld \<Rightarrow> bool" where
  "can_admit s w \<longleftrightarrow> winners w s = - 1"

definition claim :: "nat \<Rightarrow> int \<Rightarrow> 'a cworld \<Rightarrow> bool \<times> 'a cworld" where
  "claim s tag w =
     (if winners w s = - 1 then (True, w\<lparr>winners := (winners w)(s := tag)\<rparr>) else (False, w))"

definition gate_open :: "nat option \<Rightarrow> 'a cworld \<Rightarrow> bool" where
  "gate_open g w = (case g of None \<Rightarrow> True | Some s \<Rightarrow> can_admit s w)"

definition gate_claim :: "nat option \<Rightarrow> int \<Rightarrow> 'a cworld \<Rightarrow> bool \<times> 'a cworld" where
  "gate_claim g tag w = (case g of None \<Rightarrow> (True, w) | Some s \<Rightarrow> claim s tag w)"

subsection \<open>Operations on the state\<close>

definition channel_has_room :: "'a channel_state \<Rightarrow> bool" where
  "channel_has_room st \<longleftrightarrow> capacity st = SIZE_MAX \<or> length (buffer st) < capacity st"

definition channel_wake :: "handle \<Rightarrow> 'a cworld \<Rightarrow> 'a cworld" where
  "channel_wake h w = (if h \<noteq> null_handle then w\<lparr>c_loop := el_schedule True h (c_loop w)\<rparr> else w)"

text \<open>The search of \<open>channel_deliver\<close>: the first receiver whose gate is open and can be claimed, with
  the other receivers in their order.\<close>

fun pick_receiver :: "nat list \<Rightarrow> 'a cworld \<Rightarrow> (nat \<times> nat list \<times> 'a cworld) option" where
  "pick_receiver [] w = None"
| "pick_receiver (n # ns) w =
     (case rnodes w n of
        None \<Rightarrow> None
      | Some r \<Rightarrow>
          if gate_open (rn_gate r) w
          then (case gate_claim (rn_gate r) (rn_tag r) w of
                  (True, w') \<Rightarrow> Some (n, ns, w')
                | (False, w') \<Rightarrow> map_option (\<lambda>(m, ms, w''). (m, n # ms, w'')) (pick_receiver ns w'))
          else map_option (\<lambda>(m, ms, w'). (m, n # ms, w')) (pick_receiver ns w))"

definition land :: "nat \<Rightarrow> 'a option \<Rightarrow> 'a cworld \<Rightarrow> 'a cworld" where
  "land n v w =
     w\<lparr>rnodes := (rnodes w)(n := map_option (\<lambda>r. r\<lparr>rn_value := v, rn_delivered := True\<rparr>) (rnodes w n))\<rparr>"

definition channel_deliver :: "nat \<Rightarrow> 'a \<Rightarrow> 'a cworld \<Rightarrow> bool \<times> 'a cworld" where
  "channel_deliver c v w =
     (case pick_receiver (receivers (chans w c)) w of
        None \<Rightarrow> (False, w)
      | Some (n, rest, w') \<Rightarrow>
          (let w = land n (Some v) (set_chan c ((chans w' c)\<lparr>receivers := rest\<rparr>) w')
           in (True, channel_wake (case rnodes w n of None \<Rightarrow> null_handle | Some r \<Rightarrow> rn_handle r) w)))"

definition take_node :: "nat \<Rightarrow> 'a cworld \<Rightarrow> 'a cworld" where
  "take_node n w = w\<lparr>snodes := (snodes w)(n := map_option (\<lambda>s. s\<lparr>sn_taken := True\<rparr>) (snodes w n))\<rparr>"

definition channel_take_pending_sender :: "nat \<Rightarrow> 'a cworld \<Rightarrow> 'a option \<times> 'a cworld" where
  "channel_take_pending_sender c w =
     (case senders (chans w c) of
        [] \<Rightarrow> (None, w)
      | n # rest \<Rightarrow>
          (case snodes w n of
             None \<Rightarrow> (None, w)
           | Some s \<Rightarrow>
               if \<not> gate_open (sn_gate s) w then (None, w)
               else (case gate_claim (sn_gate s) (sn_tag s) w of
                       (False, w') \<Rightarrow> (None, w')
                     | (True, w') \<Rightarrow>
                         (Some (sn_value s),
                          channel_wake (sn_handle s)
                            (take_node n (set_chan c ((chans w' c)\<lparr>senders := rest\<rparr>) w'))))))"

definition channel_return_value :: "nat \<Rightarrow> 'a \<Rightarrow> 'a cworld \<Rightarrow> bool \<times> 'a cworld" where
  "channel_return_value c v w =
     (case channel_deliver c v w of
        (True, w') \<Rightarrow> (True, w')
      | (False, w') \<Rightarrow>
          if \<not> channel_has_room (chans w' c) then (False, w')
          else (True, set_chan c ((chans w' c)\<lparr>buffer := v # buffer (chans w' c)\<rparr>) w'))"

text \<open>One turn of the loop of \<open>channel_promote_senders\<close>; \<open>None\<close> ends it.\<close>

definition promote_one :: "nat \<Rightarrow> 'a cworld \<Rightarrow> 'a cworld option \<times> 'a cworld" where
  "promote_one c w =
     (case senders (chans w c) of
        [] \<Rightarrow> (None, w)
      | n # rest \<Rightarrow>
          if \<not> channel_has_room (chans w c) then (None, w)
          else (case snodes w n of
                  None \<Rightarrow> (None, w)
                | Some s \<Rightarrow>
                    if \<not> gate_open (sn_gate s) w then (None, w)
                    else (case gate_claim (sn_gate s) (sn_tag s) w of
                            (False, w') \<Rightarrow> (None, w')
                          | (True, w') \<Rightarrow>
                              (let st = chans w' c;
                                   w'' = channel_wake (sn_handle s)
                                     (take_node n (set_chan c
                                        (st\<lparr>senders := rest, buffer := buffer st @ [sn_value s]\<rparr>) w'))
                               in (Some w'', w'')))))"

lemma winners_claim [simp]: "chans (snd (gate_claim g t w)) = chans w"
  by (auto simp: gate_claim_def claim_def split: option.split)

lemma gate_claim_chans: "gate_claim g t w = (b, w') \<Longrightarrow> chans w' = chans w"
  by (auto simp: gate_claim_def claim_def split: option.splits if_splits)

lemma set_chan_simps [simp]:
  "chans (set_chan c st w) = (chans w)(c := st)" "snodes (set_chan c st w) = snodes w"
  "rnodes (set_chan c st w) = rnodes w" "winners (set_chan c st w) = winners w"
  by (simp_all add: set_chan_def)

lemma channel_wake_simps [simp]:
  "chans (channel_wake h w) = chans w" "snodes (channel_wake h w) = snodes w"
  "rnodes (channel_wake h w) = rnodes w" "winners (channel_wake h w) = winners w"
  by (simp_all add: channel_wake_def)

lemma take_node_simps [simp]:
  "chans (take_node n w) = chans w" "rnodes (take_node n w) = rnodes w" "winners (take_node n w) = winners w"
  by (simp_all add: take_node_def)

lemma land_simps [simp]:
  "chans (land n v w) = chans w" "snodes (land n v w) = snodes w" "winners (land n v w) = winners w"
  by (simp_all add: land_def)

lemma promote_one_less:
  "promote_one c w = (Some w', w'') \<Longrightarrow>
   w'' = w' \<and> length (senders (chans w' c)) < length (senders (chans w c))"
  by (auto simp: promote_one_def Let_def split: list.splits option.splits if_splits prod.splits bool.splits
      dest: gate_claim_chans)

function channel_promote_senders :: "nat \<Rightarrow> 'a cworld \<Rightarrow> 'a cworld" where
  "channel_promote_senders c w =
     (case promote_one c w of (None, w') \<Rightarrow> w' | (Some w', _) \<Rightarrow> channel_promote_senders c w')"
  by pat_completeness auto
termination
  by (relation "measure (\<lambda>(c, w). length (senders (chans w c)))") (auto dest: promote_one_less [OF sym])

declare channel_promote_senders.simps [simp del]

definition wake_senders :: "nat list \<Rightarrow> 'a cworld \<Rightarrow> 'a cworld" where
  "wake_senders ns w =
     fold (\<lambda>n w. case snodes w n of None \<Rightarrow> w | Some s \<Rightarrow> channel_wake (sn_handle s) w) ns w"

definition wake_receivers :: "nat list \<Rightarrow> 'a cworld \<Rightarrow> 'a cworld" where
  "wake_receivers ns w =
     fold (\<lambda>n w. case rnodes w n of None \<Rightarrow> w | Some r \<Rightarrow> channel_wake (rn_handle r) w) ns w"

definition channel_close :: "nat \<Rightarrow> 'a cworld \<Rightarrow> 'a cworld" where
  "channel_close c w =
     (let st = chans w c;
          w = wake_senders (senders st) (set_chan c (st\<lparr>send_closed := True, senders := []\<rparr>) w);
          st = chans w c
      in if buffer st = [] then wake_receivers (receivers st) (set_chan c (st\<lparr>receivers := []\<rparr>) w) else w)"

definition channel_note_no_receivers :: "nat \<Rightarrow> 'a cworld \<Rightarrow> 'a cworld" where
  "channel_note_no_receivers c w = channel_close c (set_chan c ((chans w c)\<lparr>all_receivers_gone := True\<rparr>) w)"

definition channel_drop_sender :: "nat \<Rightarrow> nat \<Rightarrow> 'a cworld \<Rightarrow> 'a cworld" where
  "channel_drop_sender c n w =
     channel_promote_senders c
       (set_chan c ((chans w c)\<lparr>senders := erase_first (\<lambda>m. m = n) (senders (chans w c))\<rparr>) w)"

definition channel_drop_receiver :: "nat \<Rightarrow> nat \<Rightarrow> 'a cworld \<Rightarrow> 'a cworld" where
  "channel_drop_receiver c n w =
     set_chan c ((chans w c)\<lparr>receivers := erase_first (\<lambda>m. m = n) (receivers (chans w c))\<rparr>) w"

subsection \<open>The endpoints\<close>

text \<open>An endpoint is a channel or nothing (default-constructed or moved from).\<close>

definition try_send :: "nat option \<Rightarrow> 'a \<Rightarrow> 'a cworld \<Rightarrow> bool result \<times> 'a cworld" where
  "try_send e v w =
     (case e of
        None \<Rightarrow> (Inl StructuredConcurrencyError, w)
      | Some c \<Rightarrow>
          if send_closed (chans w c) \<or> all_receivers_gone (chans w c) then (Inl ClosedChannelError, w)
          else (case channel_deliver c v w of
                  (True, w') \<Rightarrow> (Inr True, w')
                | (False, w') \<Rightarrow>
                    if channel_has_room (chans w' c)
                    then (Inr True, set_chan c ((chans w' c)\<lparr>buffer := buffer (chans w' c) @ [v]\<rparr>) w')
                    else (Inr False, w')))"

definition sender_bump :: "nat option \<Rightarrow> 'a cworld \<Rightarrow> 'a cworld" where
  "sender_bump e w =
     (case e of None \<Rightarrow> w
      | Some c \<Rightarrow> set_chan c ((chans w c)\<lparr>live_senders := live_senders (chans w c) + 1\<rparr>) w)"

definition sender_release :: "nat option \<Rightarrow> 'a cworld \<Rightarrow> nat option \<times> 'a cworld" where
  "sender_release e w =
     (case e of None \<Rightarrow> (None, w)
      | Some c \<Rightarrow>
          (let w = set_chan c ((chans w c)\<lparr>live_senders := live_senders (chans w c) - 1\<rparr>) w
           in (None, if live_senders (chans w c) = 0 then channel_close c w else w)))"

definition sender_close :: "nat option \<Rightarrow> 'a cworld \<Rightarrow> unit result \<times> 'a cworld" where
  "sender_close e w =
     (case e of None \<Rightarrow> (Inl StructuredConcurrencyError, w) | Some c \<Rightarrow> (Inr (), channel_close c w))"

definition receiver_bump :: "nat option \<Rightarrow> 'a cworld \<Rightarrow> 'a cworld" where
  "receiver_bump e w =
     (case e of None \<Rightarrow> w
      | Some c \<Rightarrow> set_chan c ((chans w c)\<lparr>live_receivers := live_receivers (chans w c) + 1\<rparr>) w)"

definition receiver_release :: "nat option \<Rightarrow> 'a cworld \<Rightarrow> nat option \<times> 'a cworld" where
  "receiver_release e w =
     (case e of None \<Rightarrow> (None, w)
      | Some c \<Rightarrow>
          (let w = set_chan c ((chans w c)\<lparr>live_receivers := live_receivers (chans w c) - 1\<rparr>) w
           in (None, if live_receivers (chans w c) = 0 then channel_note_no_receivers c w else w)))"

text \<open>Taking the front of the buffer and letting the waiting senders move up.\<close>

definition take_front :: "nat \<Rightarrow> 'a cworld \<Rightarrow> 'a cworld" where
  "take_front c w = channel_promote_senders c (set_chan c ((chans w c)\<lparr>buffer := tl (buffer (chans w c))\<rparr>) w)"

definition try_recv :: "nat option \<Rightarrow> 'a cworld \<Rightarrow> 'a option result \<times> 'a cworld" where
  "try_recv e w =
     (case e of
        None \<Rightarrow> (Inl StructuredConcurrencyError, w)
      | Some c \<Rightarrow>
          (case buffer (chans w c) of
             [] \<Rightarrow> (case channel_take_pending_sender c w of (v, w') \<Rightarrow> (Inr v, w'))
           | v # _ \<Rightarrow> (Inr (Some v), take_front c w)))"

definition receiver_closed :: "nat option \<Rightarrow> 'a cworld \<Rightarrow> bool" where
  "receiver_closed e w =
     (case e of None \<Rightarrow> True | Some c \<Rightarrow> send_closed (chans w c) \<and> buffer (chans w c) = [])"

subsection \<open>The interface for select\<close>

fun any_open :: "nat list \<Rightarrow> 'a cworld \<Rightarrow> bool" where
  "any_open [] w = False"
| "any_open (n # ns) w =
     (case rnodes w n of None \<Rightarrow> any_open ns w
      | Some r \<Rightarrow> if gate_open (rn_gate r) w then True else any_open ns w)"

definition probe_can_accept :: "nat \<Rightarrow> 'a cworld \<Rightarrow> bool" where
  "probe_can_accept c w =
     (if send_closed (chans w c) \<or> all_receivers_gone (chans w c) then False
      else if any_open (receivers (chans w c)) w then True
      else channel_has_room (chans w c))"

definition commit_accept :: "nat \<Rightarrow> 'a \<Rightarrow> 'a cworld \<Rightarrow> bool \<times> 'a cworld" where
  "commit_accept c v w =
     (case channel_deliver c v w of
        (True, w') \<Rightarrow> (True, w')
      | (False, w') \<Rightarrow>
          if channel_has_room (chans w' c)
          then (True, set_chan c ((chans w' c)\<lparr>buffer := buffer (chans w' c) @ [v]\<rparr>) w')
          else (False, w'))"

definition arm_sender :: "nat \<Rightarrow> nat \<Rightarrow> 'a \<Rightarrow> nat \<Rightarrow> int \<Rightarrow> handle \<Rightarrow> 'a cworld \<Rightarrow> 'a cworld" where
  "arm_sender c n v g tag h w =
     set_chan c ((chans w c)\<lparr>senders := senders (chans w c) @ [n]\<rparr>)
       (w\<lparr>snodes := (snodes w)(n \<mapsto> \<lparr>sn_value = v, sn_handle = h, sn_taken = False, sn_gate = Some g, sn_tag = tag\<rparr>)\<rparr>)"

definition probe_has_message :: "nat \<Rightarrow> 'a cworld \<Rightarrow> bool" where
  "probe_has_message c w =
     (if buffer (chans w c) \<noteq> [] then True
      else if (case senders (chans w c) of [] \<Rightarrow> False
               | n # _ \<Rightarrow> (case snodes w n of None \<Rightarrow> False | Some s \<Rightarrow> gate_open (sn_gate s) w)) then True
      else send_closed (chans w c))"

text \<open>\<open>Some None\<close> is the end of the channel.\<close>

definition commit_take :: "nat \<Rightarrow> 'a cworld \<Rightarrow> 'a option option \<times> 'a cworld" where
  "commit_take c w =
     (case buffer (chans w c) of
        v # _ \<Rightarrow> (Some (Some v), take_front c w)
      | [] \<Rightarrow>
          (case channel_take_pending_sender c w of
             (Some v, w') \<Rightarrow> (Some (Some v), w')
           | (None, w') \<Rightarrow> if send_closed (chans w' c) then (Some None, w') else (None, w')))"

definition arm_receiver :: "nat \<Rightarrow> nat \<Rightarrow> nat \<Rightarrow> int \<Rightarrow> handle \<Rightarrow> 'a cworld \<Rightarrow> 'a cworld" where
  "arm_receiver c n g tag h w =
     set_chan c ((chans w c)\<lparr>receivers := receivers (chans w c) @ [n]\<rparr>)
       (w\<lparr>rnodes := (rnodes w)(n \<mapsto> \<lparr>rn_value = None, rn_handle = h, rn_delivered = False, rn_gate = Some g, rn_tag = tag\<rparr>)\<rparr>)"

subsection \<open>send and recv\<close>

text \<open>\<open>await_ready\<close> of a send answers whether the value is taken, and then the coroutine goes on.\<close>

definition send_ready :: "nat \<Rightarrow> 'a \<Rightarrow> 'a cworld \<Rightarrow> bool \<times> 'a cworld" where
  "send_ready c v w =
     (if send_closed (chans w c) \<or> all_receivers_gone (chans w c) then (False, w)
      else (case channel_deliver c v w of
              (True, w') \<Rightarrow> (True, w')
            | (False, w') \<Rightarrow>
                if channel_has_room (chans w' c)
                then (True, set_chan c ((chans w' c)\<lparr>buffer := buffer (chans w' c) @ [v]\<rparr>) w')
                else (False, w')))"

definition send_suspend :: "nat \<Rightarrow> nat \<Rightarrow> 'a \<Rightarrow> handle \<Rightarrow> 'a cworld \<Rightarrow> 'a cworld" where
  "send_suspend c n v h w =
     (let w = w\<lparr>snodes := (snodes w)(n \<mapsto> \<lparr>sn_value = v, sn_handle = h, sn_taken = False, sn_gate = None, sn_tag = - 1\<rparr>)\<rparr>;
          w = set_chan c ((chans w c)\<lparr>senders := senders (chans w c) @ [n]\<rparr>) w
      in if send_closed (chans w c) \<or> all_receivers_gone (chans w c)
         then channel_wake h (channel_drop_sender c n w) else w)"

definition send_resume :: "nat \<Rightarrow> nat option \<Rightarrow> bool \<Rightarrow> 'a cworld \<Rightarrow> unit result \<times> 'a cworld" where
  "send_resume c node taken w =
     (case node of
        None \<Rightarrow> (if taken then Inr () else Inl ClosedChannelError, w)
      | Some n \<Rightarrow>
          (case snodes w n of
             None \<Rightarrow> (Inl ClosedChannelError, w)
           | Some s \<Rightarrow> if sn_taken s then (Inr (), w)
                       else (Inl ClosedChannelError, channel_drop_sender c n w)))"

definition send_destroy :: "nat \<Rightarrow> nat \<Rightarrow> 'a cworld \<Rightarrow> 'a cworld" where
  "send_destroy c n w =
     (case snodes w n of None \<Rightarrow> w
      | Some s \<Rightarrow> if \<not> sn_taken s then channel_drop_sender c n w else w)"

text \<open>\<open>await_ready\<close> of a receive: \<open>None\<close> when it has to suspend, else the value or the end.\<close>

definition recv_ready :: "nat \<Rightarrow> 'a cworld \<Rightarrow> 'a option option \<times> 'a cworld" where
  "recv_ready c w =
     (case buffer (chans w c) of
        v # _ \<Rightarrow> (Some (Some v), take_front c w)
      | [] \<Rightarrow>
          (case channel_take_pending_sender c w of
             (Some v, w') \<Rightarrow> (Some (Some v), w')
           | (None, w') \<Rightarrow> (if send_closed (chans w' c) then Some None else None, w')))"

definition recv_suspend :: "nat \<Rightarrow> nat \<Rightarrow> handle \<Rightarrow> 'a cworld \<Rightarrow> 'a cworld" where
  "recv_suspend c n h w =
     (let w = w\<lparr>rnodes := (rnodes w)(n \<mapsto> \<lparr>rn_value = None, rn_handle = h, rn_delivered = False, rn_gate = None, rn_tag = - 1\<rparr>)\<rparr>;
          w = set_chan c ((chans w c)\<lparr>receivers := receivers (chans w c) @ [n]\<rparr>) w
      in if send_closed (chans w c) \<and> buffer (chans w c) = []
         then channel_wake h (channel_drop_receiver c n w)
         else (case buffer (chans w c) of
                 v # _ \<Rightarrow>
                   (let w = channel_drop_receiver c n w;
                        w = set_chan c ((chans w c)\<lparr>buffer := tl (buffer (chans w c))\<rparr>) w
                    in channel_wake h (channel_promote_senders c (land n (Some v) w)))
               | [] \<Rightarrow>
                   (case channel_take_pending_sender c w of
                      (Some v, w') \<Rightarrow> channel_wake h (land n (Some v) w')
                    | (None, w') \<Rightarrow> w')))"

definition recv_resume :: "nat \<Rightarrow> 'a cworld \<Rightarrow> 'a option \<times> 'a cworld" where
  "recv_resume n w =
     (case rnodes w n of
        None \<Rightarrow> (None, w)
      | Some r \<Rightarrow> if \<not> rn_delivered r then (None, w)
                  else (rn_value r, w\<lparr>rnodes := (rnodes w)(n \<mapsto> r\<lparr>rn_value := None\<rparr>)\<rparr>))"

definition recv_destroy :: "nat \<Rightarrow> nat \<Rightarrow> 'a cworld \<Rightarrow> bool \<times> 'a cworld" where
  "recv_destroy c n w =
     (case rnodes w n of
        None \<Rightarrow> (True, w)
      | Some r \<Rightarrow>
          if \<not> rn_delivered r then (True, channel_drop_receiver c n w)
          else (case rn_value r of None \<Rightarrow> (True, w) | Some v \<Rightarrow> channel_return_value c v w))"

subsection \<open>The gate as an interface\<close>

text \<open>What the channel relies on: a gate that looks open can be claimed, and claiming one gate leaves
  every other as it was.\<close>

locale commit_gate =
  fixes opened :: "'g \<Rightarrow> 'w \<Rightarrow> bool"
    and acquire :: "'g \<Rightarrow> int \<Rightarrow> 'w \<Rightarrow> bool \<times> 'w"
  assumes claim_open: "opened g w \<Longrightarrow> fst (acquire g t w)"
    and claim_closed: "\<not> opened g w \<Longrightarrow> acquire g t w = (False, w)"
begin

lemma claim_iff: "fst (acquire g t w) = opened g w"
  using claim_open claim_closed by (cases "opened g w") auto

lemma claim_fails_id: "acquire g t w = (False, w') \<Longrightarrow> w' = w"
  using claim_open [of g w t] claim_closed [of g w t] by (cases "opened g w") auto

end

interpretation sel_gate: commit_gate can_admit claim
  by unfold_locales (auto simp: can_admit_def claim_def)

interpretation any_gate: commit_gate gate_open gate_claim
  by unfold_locales (auto simp: gate_open_def gate_claim_def can_admit_def claim_def split: option.splits)

lemma gate_None [simp]: "gate_open None w" "gate_claim None t w = (True, w)"
  by (simp_all add: gate_open_def gate_claim_def)

lemma pick_receiver_None: "pick_receiver ns w = None \<Longrightarrow> \<forall>n\<in>set ns. rnodes w n \<noteq> None \<Longrightarrow> \<not> any_open ns w"
proof (induction ns)
  case (Cons n ns)
  then obtain r where r: "rnodes w n = Some r" by auto
  obtain b w' where g: "gate_claim (rn_gate r) (rn_tag r) w = (b, w')" by fastforce
  have "b = gate_open (rn_gate r) w" using any_gate.claim_iff [of "rn_gate r" "rn_tag r" w] g by simp
  with Cons r g show ?case by (auto split: if_splits)
qed simp

subsection \<open>Values at rest\<close>

definition taken_vals :: "'a cworld \<Rightarrow> 'a multiset" where
  "taken_vals w = node_vals sn_taken sn_value (snodes w)"

definition held_vals :: "'a cworld \<Rightarrow> 'a multiset" where
  "held_vals w = node_vals (\<lambda>r. rn_value r \<noteq> None) (\<lambda>r. the (rn_value r)) (rnodes w)"

definition stock :: "nat \<Rightarrow> 'a cworld \<Rightarrow> 'a multiset" where
  "stock c w = mset (buffer (chans w c)) + held_vals w"

text \<open>A channel without select: no node has a gate. \<open>chan_pre\<close> leaves out that waiting senders find no
  room, which \<open>channel_promote_senders\<close> restores.\<close>

definition chan_pre :: "nat \<Rightarrow> 'a cworld \<Rightarrow> bool" where
  "chan_pre c w \<longleftrightarrow>
     (let st = chans w c in
       finite (marked sn_taken (snodes w)) \<and> finite (marked (\<lambda>r. rn_value r \<noteq> None) (rnodes w)) \<and>
       distinct (senders st) \<and> distinct (receivers st) \<and>
       set (senders st) \<subseteq> marked (\<lambda>s. \<not> sn_taken s \<and> sn_gate s = None) (snodes w) \<and>
       set (receivers st) \<subseteq> marked (\<lambda>r. \<not> rn_delivered r \<and> rn_value r = None \<and> rn_gate r = None) (rnodes w) \<and>
       (receivers st \<noteq> [] \<longrightarrow> senders st = [] \<and> buffer st = []) \<and>
       (capacity st \<noteq> SIZE_MAX \<longrightarrow> length (buffer st) \<le> capacity st) \<and>
       (send_closed st \<longrightarrow> senders st = [] \<and> receivers st = []) \<and>
       (all_receivers_gone st \<longrightarrow> send_closed st) \<and>
       (\<forall>n r. rnodes w n = Some r \<longrightarrow> rn_value r \<noteq> None \<longrightarrow> rn_delivered r))"

definition chan_inv :: "nat \<Rightarrow> 'a cworld \<Rightarrow> bool" where
  "chan_inv c w \<longleftrightarrow> chan_pre c w \<and> (senders (chans w c) \<noteq> [] \<longrightarrow> \<not> channel_has_room (chans w c))"

lemma vals_simps [simp]:
  "taken_vals (set_chan c st w) = taken_vals w" "held_vals (set_chan c st w) = held_vals w"
  "taken_vals (channel_wake h w) = taken_vals w" "held_vals (channel_wake h w) = held_vals w"
  "taken_vals (land n v w) = taken_vals w" "held_vals (take_node n w) = held_vals w"
  "stock c (channel_wake h w) = stock c w" "chan_pre c (channel_wake h w) = chan_pre c w"
  "chan_inv c (channel_wake h w) = chan_inv c w"
  by (simp_all add: taken_vals_def held_vals_def stock_def chan_pre_def chan_inv_def)

lemma deliver_spec:
  assumes inv: "chan_inv c w" and d: "channel_deliver c v w = (b, w')"
  shows "b = (receivers (chans w c) \<noteq> []) \<and> (\<not> b \<longrightarrow> w' = w) \<and>
    (b \<longrightarrow> chan_inv c w' \<and> stock c w' = add_mset v (stock c w) \<and> taken_vals w' = taken_vals w \<and>
       capacity (chans w' c) = capacity (chans w c)) \<and>
    (\<forall>k. k \<notin> set (receivers (chans w c)) \<longrightarrow> rnodes w' k = rnodes w k \<and> k \<notin> set (receivers (chans w' c)))"
proof (cases "receivers (chans w c)")
  case Nil
  with d show ?thesis by (auto simp: channel_deliver_def)
next
  case (Cons n rest)
  then obtain r where r: "rnodes w n = Some r" "\<not> rn_delivered r" "rn_value r = None" "rn_gate r = None"
    using inv by (auto simp: chan_inv_def chan_pre_def Let_def marked_iff)
  let ?w = "land n (Some v) (set_chan c ((chans w c)\<lparr>receivers := rest\<rparr>) w)"
  have e: "b" "w' = channel_wake (rn_handle r) ?w"
    using d Cons r by (auto simp: channel_deliver_def land_def)
  have fin: "finite (marked (\<lambda>r. rn_value r \<noteq> None) (rnodes w))"
    using inv by (simp add: chan_inv_def chan_pre_def Let_def)
  have "held_vals ?w = add_mset v (held_vals w)"
    using node_vals_upd [OF fin, of "\<lambda>r. the (rn_value r)" n "r\<lparr>rn_value := Some v, rn_delivered := True\<rparr>"]
      node_vals_split [OF fin r(1), of "\<lambda>r. the (rn_value r)"] r
    by (simp add: held_vals_def land_def)
  moreover have "chan_inv c ?w"
    using inv Cons r by (auto simp: chan_inv_def chan_pre_def Let_def land_def marked_upd channel_has_room_def)
  moreover have "k \<notin> set (n # rest) \<Longrightarrow> rnodes ?w k = rnodes w k" for k by (simp add: land_def)
  ultimately show ?thesis using e Cons by (simp add: stock_def)
qed

text \<open>Taking the first waiting sender, whatever its value is then used for.\<close>

lemma take_sender_spec:
  assumes pre: "chan_pre c w" and n: "senders (chans w c) = n # rest"
  obtains s where "snodes w n = Some s" "sn_gate s = None"
    "taken_vals (take_node n w) = add_mset (sn_value s) (taken_vals w)"
    "finite (marked sn_taken (snodes (take_node n w)))"
    "set rest \<subseteq> marked (\<lambda>s. \<not> sn_taken s \<and> sn_gate s = None) (snodes (take_node n w))"
proof -
  obtain s where s: "snodes w n = Some s" "\<not> sn_taken s" "sn_gate s = None"
    using pre n by (auto simp: chan_pre_def Let_def marked_iff)
  have fin: "finite (marked sn_taken (snodes w))" using pre by (simp add: chan_pre_def Let_def)
  have "taken_vals (take_node n w) = add_mset (sn_value s) (taken_vals w)"
    using node_vals_upd [OF fin, of sn_value n "s\<lparr>sn_taken := True\<rparr>"] node_vals_split [OF fin s(1), of sn_value] s
    by (simp add: taken_vals_def take_node_def)
  moreover have "finite (marked sn_taken (snodes (take_node n w)))"
    using fin s by (simp add: take_node_def marked_upd)
  moreover have "set rest \<subseteq> marked (\<lambda>s. \<not> sn_taken s \<and> sn_gate s = None) (snodes (take_node n w))"
    using pre n s by (auto simp: chan_pre_def Let_def take_node_def marked_upd)
  ultimately show thesis using s that by blast
qed

lemma take_pending_spec:
  assumes inv: "chan_inv c w" and d: "channel_take_pending_sender c w = (v, w')"
  shows "(v = None \<longrightarrow> senders (chans w c) = [] \<and> w' = w) \<and>
    (\<forall>x. v = Some x \<longrightarrow> chan_inv c w' \<and> stock c w' = stock c w \<and> taken_vals w' = add_mset x (taken_vals w))"
proof (cases "senders (chans w c)")
  case Nil
  with d show ?thesis by (auto simp: channel_take_pending_sender_def)
next
  case (Cons n rest)
  have pre: "chan_pre c w" using inv by (simp add: chan_inv_def)
  obtain s where s: "snodes w n = Some s" "sn_gate s = None"
    "taken_vals (take_node n w) = add_mset (sn_value s) (taken_vals w)"
    "finite (marked sn_taken (snodes (take_node n w)))"
    "set rest \<subseteq> marked (\<lambda>s. \<not> sn_taken s \<and> sn_gate s = None) (snodes (take_node n w))"
    using take_sender_spec [OF pre Cons] by blast
  let ?w = "take_node n (set_chan c ((chans w c)\<lparr>senders := rest\<rparr>) w)"
  have e: "v = Some (sn_value s)" "w' = channel_wake (sn_handle s) ?w"
    using d Cons s by (auto simp: channel_take_pending_sender_def)
  have sn: "snodes ?w = snodes (take_node n w)" by (simp add: take_node_def)
  have "chan_inv c ?w"
    using inv Cons s(4,5) sn by (auto simp: chan_inv_def chan_pre_def Let_def channel_has_room_def)
  moreover have "taken_vals ?w = add_mset (sn_value s) (taken_vals w)"
    using s(3) sn by (simp add: taken_vals_def)
  ultimately show ?thesis using e by (auto simp: stock_def)
qed

lemma promote_spec:
  "chan_pre c w \<Longrightarrow> chan_inv c (channel_promote_senders c w) \<and>
   capacity (chans (channel_promote_senders c w) c) = capacity (chans w c) \<and>
   rnodes (channel_promote_senders c w) = rnodes w \<and>
   (\<forall>k. k \<notin> set (senders (chans w c)) \<longrightarrow> snodes (channel_promote_senders c w) k = snodes w k \<and>
        k \<notin> set (senders (chans (channel_promote_senders c w) c))) \<and>
   (\<exists>m. stock c (channel_promote_senders c w) = stock c w + m \<and>
        taken_vals (channel_promote_senders c w) = taken_vals w + m)"
proof (induction c w rule: channel_promote_senders.induct)
  case (1 c w)
  show ?case
  proof (cases "senders (chans w c) \<noteq> [] \<and> channel_has_room (chans w c)")
    case False
    then have "promote_one c w = (None, w)" by (auto simp: promote_one_def split: list.split)
    then have "channel_promote_senders c w = w" by (subst channel_promote_senders.simps) simp
    with False 1(2) show ?thesis by (auto simp: chan_inv_def)
  next
    case True
    then obtain n rest where n: "senders (chans w c) = n # rest" by (cases "senders (chans w c)") auto
    obtain s where s: "snodes w n = Some s" "sn_gate s = None"
      "taken_vals (take_node n w) = add_mset (sn_value s) (taken_vals w)"
      "finite (marked sn_taken (snodes (take_node n w)))"
      "set rest \<subseteq> marked (\<lambda>s. \<not> sn_taken s \<and> sn_gate s = None) (snodes (take_node n w))"
      using take_sender_spec [OF 1(2) n] by blast
    let ?st = "(chans w c)\<lparr>senders := rest, buffer := buffer (chans w c) @ [sn_value s]\<rparr>"
    let ?w = "channel_wake (sn_handle s) (take_node n (set_chan c ?st w))"
    have sn: "snodes ?w = snodes (take_node n w)" by (simp add: take_node_def)
    have p: "promote_one c w = (Some ?w, ?w)" using n s True by (simp add: promote_one_def Let_def)
    then have step: "channel_promote_senders c w = channel_promote_senders c ?w"
      by (subst channel_promote_senders.simps) simp
    have "chan_pre c ?w"
      using 1(2) n s(4,5) sn True by (auto simp: chan_pre_def Let_def channel_has_room_def)
    moreover have "stock c ?w = add_mset (sn_value s) (stock c w)" by (simp add: stock_def)
    moreover have "taken_vals ?w = add_mset (sn_value s) (taken_vals w)"
      using s(3) sn by (simp add: taken_vals_def)
    moreover have "k \<notin> set (senders (chans w c)) \<Longrightarrow> snodes ?w k = snodes w k \<and> k \<notin> set (senders (chans ?w c))" for k
      using n by (auto simp: take_node_def)
    moreover note "1.IH" [OF p [symmetric] refl]
    ultimately show ?thesis unfolding step by (auto intro: exI [of _ "add_mset (sn_value s) _"])
  qed
qed

lemma wake_lists [simp]:
  "chans (wake_senders ns w) = chans w" "snodes (wake_senders ns w) = snodes w"
  "rnodes (wake_senders ns w) = rnodes w" "winners (wake_senders ns w) = winners w"
  "chans (wake_receivers ns w) = chans w" "snodes (wake_receivers ns w) = snodes w"
  "rnodes (wake_receivers ns w) = rnodes w" "winners (wake_receivers ns w) = winners w"
proof -
  have "chans (wake_senders ns w) = chans w \<and> snodes (wake_senders ns w) = snodes w \<and>
    rnodes (wake_senders ns w) = rnodes w \<and> winners (wake_senders ns w) = winners w"
    unfolding wake_senders_def by (induction ns arbitrary: w) (auto split: option.split)
  moreover have "chans (wake_receivers ns w) = chans w \<and> snodes (wake_receivers ns w) = snodes w \<and>
    rnodes (wake_receivers ns w) = rnodes w \<and> winners (wake_receivers ns w) = winners w"
    unfolding wake_receivers_def by (induction ns arbitrary: w) (auto split: option.split)
  ultimately show
    "chans (wake_senders ns w) = chans w" "snodes (wake_senders ns w) = snodes w"
    "rnodes (wake_senders ns w) = rnodes w" "winners (wake_senders ns w) = winners w"
    "chans (wake_receivers ns w) = chans w" "snodes (wake_receivers ns w) = snodes w"
    "rnodes (wake_receivers ns w) = rnodes w" "winners (wake_receivers ns w) = winners w" by auto
qed

lemma close_fields:
  "chans (channel_close c w) = (chans w)(c := (chans w c)\<lparr>send_closed := True, senders := [],
     receivers := (if buffer (chans w c) = [] then [] else receivers (chans w c))\<rparr>)"
  "snodes (channel_close c w) = snodes w" "rnodes (channel_close c w) = rnodes w"
  "winners (channel_close c w) = winners w"
  by (auto simp: channel_close_def Let_def)

lemma close_inv:
  "chan_inv c w \<Longrightarrow> chan_inv c (channel_close c w)"
  "stock c (channel_close c w) = stock c w" "taken_vals (channel_close c w) = taken_vals w"
  by (auto simp: chan_inv_def chan_pre_def Let_def close_fields stock_def held_vals_def taken_vals_def)

lemma chan_inv_flags:
  assumes "chan_inv c w" "g \<longrightarrow> send_closed (chans w c)"
  shows "chan_inv c (set_chan c ((chans w c)\<lparr>all_receivers_gone := g, live_senders := i, live_receivers := j\<rparr>) w)"
  using assms by (auto simp: chan_inv_def chan_pre_def Let_def channel_has_room_def)

lemma no_receivers_inv:
  assumes "chan_inv c w"
  shows "chan_inv c (channel_note_no_receivers c w)"
  using assms
  by (auto simp: channel_note_no_receivers_def chan_inv_def chan_pre_def Let_def close_fields
      channel_has_room_def)

lemma no_receivers_vals:
  "stock c (channel_note_no_receivers c w) = stock c w"
  "taken_vals (channel_note_no_receivers c w) = taken_vals w"
  by (simp_all add: channel_note_no_receivers_def close_inv) (simp add: stock_def)

subsection \<open>Runs of a channel\<close>

record 'a chan_run =
  cr_world :: "'a cworld"
  accepted :: "'a multiset"
  received :: "'a multiset"
  lost :: "'a multiset"

definition omset :: "'a option \<Rightarrow> 'a multiset" where
  "omset v = (case v of None \<Rightarrow> {#} | Some x \<Rightarrow> {#x#})"

definition drop_snode :: "nat \<Rightarrow> 'a cworld \<Rightarrow> 'a cworld" where
  "drop_snode n w = w\<lparr>snodes := (snodes w)(n := None)\<rparr>"

definition drop_rnode :: "nat \<Rightarrow> 'a cworld \<Rightarrow> 'a cworld" where
  "drop_rnode n w = w\<lparr>rnodes := (rnodes w)(n := None)\<rparr>"

lemma drop_snode_inv:
  assumes "chan_inv c w" "snodes w n = Some s" "n \<notin> set (senders (chans w c))"
  shows "chan_inv c (drop_snode n w)" "stock c (drop_snode n w) = stock c w"
    "taken_vals w = taken_vals (drop_snode n w) + (if sn_taken s then {#sn_value s#} else {#})"
proof -
  have fin: "finite (marked sn_taken (snodes w))" using assms by (simp add: chan_inv_def chan_pre_def Let_def)
  show "chan_inv c (drop_snode n w)"
    using assms by (auto simp: chan_inv_def chan_pre_def Let_def drop_snode_def marked_upd)
  show "stock c (drop_snode n w) = stock c w" by (simp add: stock_def held_vals_def drop_snode_def)
  show "taken_vals w = taken_vals (drop_snode n w) + (if sn_taken s then {#sn_value s#} else {#})"
    using node_vals_split [OF fin assms(2), of sn_value] by (simp add: taken_vals_def drop_snode_def)
qed

lemma drop_rnode_inv:
  assumes "chan_inv c w" "rnodes w n = Some r" "n \<notin> set (receivers (chans w c))"
  shows "chan_inv c (drop_rnode n w)" "taken_vals (drop_rnode n w) = taken_vals w"
    "stock c w = stock c (drop_rnode n w) + omset (rn_value r)"
proof -
  have fin: "finite (marked (\<lambda>r. rn_value r \<noteq> None) (rnodes w))"
    using assms by (simp add: chan_inv_def chan_pre_def Let_def)
  show "chan_inv c (drop_rnode n w)"
    using assms by (auto simp: chan_inv_def chan_pre_def Let_def drop_rnode_def marked_upd)
  show "taken_vals (drop_rnode n w) = taken_vals w" by (simp add: taken_vals_def drop_rnode_def)
  show "stock c w = stock c (drop_rnode n w) + omset (rn_value r)"
    using node_vals_split [OF fin assms(2), of "\<lambda>r. the (rn_value r)"]
    by (auto simp: stock_def held_vals_def drop_rnode_def omset_def split: option.splits)
qed

lemma chan_pre_erase_sender:
  "chan_inv c w \<Longrightarrow> chan_pre c (set_chan c ((chans w c)\<lparr>senders := remove1 n (senders (chans w c))\<rparr>) w)"
  by (auto simp: chan_inv_def chan_pre_def Let_def dest: notin_set_remove1)

lemma drop_sender_spec:
  assumes "chan_inv c w"
  shows "chan_inv c (channel_drop_sender c n w)" "snodes (channel_drop_sender c n w) n = snodes w n"
    "n \<notin> set (senders (chans (channel_drop_sender c n w) c))"
    "\<exists>m. stock c (channel_drop_sender c n w) = stock c w + m \<and>
         taken_vals (channel_drop_sender c n w) = taken_vals w + m"
proof -
  let ?w = "set_chan c ((chans w c)\<lparr>senders := remove1 n (senders (chans w c))\<rparr>) w"
  have d: "channel_drop_sender c n w = channel_promote_senders c ?w"
    by (simp add: channel_drop_sender_def erase_first_eq_remove1)
  have n: "n \<notin> set (senders (chans ?w c))"
    using assms by (simp add: chan_inv_def chan_pre_def Let_def)
  have "stock c ?w = stock c w" by (simp add: stock_def)
  with promote_spec [OF chan_pre_erase_sender [OF assms, of n]] n
  show "chan_inv c (channel_drop_sender c n w)" "snodes (channel_drop_sender c n w) n = snodes w n"
    "n \<notin> set (senders (chans (channel_drop_sender c n w) c))"
    "\<exists>m. stock c (channel_drop_sender c n w) = stock c w + m \<and>
         taken_vals (channel_drop_sender c n w) = taken_vals w + m"
    unfolding d by auto
qed

lemma take_front_spec:
  assumes "chan_inv c w" "buffer (chans w c) = v # vs"
  shows "chan_inv c (take_front c w)"
    "\<exists>m. add_mset v (stock c (take_front c w)) = stock c w + m \<and> taken_vals (take_front c w) = taken_vals w + m"
proof -
  let ?w = "set_chan c ((chans w c)\<lparr>buffer := vs\<rparr>) w"
  have "chan_pre c ?w"
    using assms by (auto simp: chan_inv_def chan_pre_def Let_def)
  moreover have "stock c w = add_mset v (stock c ?w)" using assms(2) by (simp add: stock_def)
  ultimately show "chan_inv c (take_front c w)"
    "\<exists>m. add_mset v (stock c (take_front c w)) = stock c w + m \<and> taken_vals (take_front c w) = taken_vals w + m"
    using promote_spec [of c ?w] assms(2) by (auto simp: take_front_def)
qed

text \<open>Putting a value into a channel that has room and no waiting receiver.\<close>

lemma push_inv:
  assumes "chan_inv c w" "receivers (chans w c) = []" "channel_has_room (chans w c)"
    and "b = v # buffer (chans w c) \<or> b = buffer (chans w c) @ [v]"
  shows "chan_inv c (set_chan c ((chans w c)\<lparr>buffer := b\<rparr>) w)"
    "stock c (set_chan c ((chans w c)\<lparr>buffer := b\<rparr>) w) = add_mset v (stock c w)"
  using assms by (auto simp: chan_inv_def chan_pre_def Let_def channel_has_room_def stock_def)

lemma send_ready_spec:
  assumes inv: "chan_inv c w" and r: "send_ready c v w = (b, w')"
  shows "b \<Longrightarrow> chan_inv c w' \<and> stock c w' = add_mset v (stock c w) \<and> taken_vals w' = taken_vals w"
    "\<not> b \<Longrightarrow> w' = w \<and> (send_closed (chans w c) \<or> receivers (chans w c) = [] \<and> \<not> channel_has_room (chans w c))"
proof -
  obtain b1 w1 where d: "channel_deliver c v w = (b1, w1)" by fastforce
  note ds = deliver_spec [OF inv d]
  have gone: "all_receivers_gone (chans w c) \<Longrightarrow> send_closed (chans w c)"
    using inv by (simp add: chan_inv_def chan_pre_def Let_def)
  show "b \<Longrightarrow> chan_inv c w' \<and> stock c w' = add_mset v (stock c w) \<and> taken_vals w' = taken_vals w"
    using r d ds push_inv [OF inv, of "buffer (chans w c) @ [v]" v]
    by (cases b1) (auto simp: send_ready_def split: if_splits)
  show "\<not> b \<Longrightarrow> w' = w \<and> (send_closed (chans w c) \<or> receivers (chans w c) = [] \<and> \<not> channel_has_room (chans w c))"
    using r d ds gone by (cases b1) (auto simp: send_ready_def split: if_splits)
qed

lemma send_suspend_spec:
  assumes inv: "chan_inv c w" and n: "snodes w n = None"
    and full: "send_closed (chans w c) \<or> receivers (chans w c) = [] \<and> \<not> channel_has_room (chans w c)"
  shows "chan_inv c (send_suspend c n v h w) \<and> stock c (send_suspend c n v h w) = stock c w \<and>
         taken_vals (send_suspend c n v h w) = taken_vals w"
proof -
  let ?s = "\<lparr>sn_value = v, sn_handle = h, sn_taken = False, sn_gate = None, sn_tag = - 1\<rparr>"
  let ?w = "w\<lparr>snodes := (snodes w)(n \<mapsto> ?s)\<rparr>"
  have fin: "finite (marked sn_taken (snodes w))" using inv by (simp add: chan_inv_def chan_pre_def Let_def)
  have notin: "n \<notin> set (senders (chans w c))"
    using inv n by (auto simp: chan_inv_def chan_pre_def Let_def marked_iff)
  have tk: "taken_vals ?w = taken_vals w"
    using node_vals_upd [OF fin, of sn_value n ?s] n by (simp add: taken_vals_def node_vals_None)
  have inv1: "chan_inv c ?w"
    using inv n by (auto simp: chan_inv_def chan_pre_def Let_def marked_upd marked_iff)
  show ?thesis
  proof (cases "send_closed (chans w c)")
    case True
    then have emp: "senders (chans w c) = []" using inv by (simp add: chan_inv_def chan_pre_def Let_def)
    have e: "(chans w)(c := (chans w c)\<lparr>senders := []\<rparr>) = chans w" using emp by (auto intro!: ext)
    have "send_suspend c n v h w = channel_wake h (channel_promote_senders c ?w)"
      using True emp e by (simp add: send_suspend_def channel_drop_sender_def set_chan_def)
    moreover have "channel_promote_senders c ?w = ?w"
      using emp by (subst channel_promote_senders.simps) (simp add: promote_one_def)
    ultimately show ?thesis using inv1 tk by (simp add: stock_def held_vals_def)
  next
    case False
    have gone: "\<not> all_receivers_gone (chans w c)"
      using inv False by (auto simp: chan_inv_def chan_pre_def Let_def)
    let ?w2 = "set_chan c ((chans w c)\<lparr>senders := senders (chans w c) @ [n]\<rparr>) ?w"
    have "send_suspend c n v h w = ?w2"
      using False gone by (simp add: send_suspend_def Let_def)
    moreover have "chan_inv c ?w2"
      using inv1 full False notin by (auto simp: chan_inv_def chan_pre_def Let_def marked_upd channel_has_room_def)
    ultimately show ?thesis using tk by (simp add: stock_def held_vals_def)
  qed
qed

lemma recv_ready_spec:
  assumes inv: "chan_inv c w" and r: "recv_ready c w = (v, w')"
  shows "(\<forall>x. v = Some x \<longrightarrow> chan_inv c w' \<and>
            (\<exists>m. stock c w' + omset x = stock c w + m \<and> taken_vals w' = taken_vals w + m)) \<and>
         (v = None \<longrightarrow> w' = w \<and> buffer (chans w c) = [] \<and> senders (chans w c) = [] \<and> \<not> send_closed (chans w c))"
proof (cases "buffer (chans w c)")
  case (Cons x xs)
  with r take_front_spec [OF inv Cons] show ?thesis by (auto simp: recv_ready_def omset_def)
next
  case Nil
  obtain x w1 where p: "channel_take_pending_sender c w = (x, w1)" by fastforce
  note ps = take_pending_spec [OF inv p]
  show ?thesis
  proof (cases x)
    case None
    then have w1: "w1 = w" "senders (chans w c) = []" using ps by auto
    with r p None Nil inv show ?thesis by (auto simp: recv_ready_def omset_def split: if_splits)
  next
    case (Some y)
    then have "v = Some (Some y)" "w' = w1" using r p Nil by (auto simp: recv_ready_def)
    with ps Some show ?thesis by (auto simp: omset_def intro!: exI [of _ "{#y#}"])
  qed
qed

lemma recv_suspend_spec:
  assumes inv: "chan_inv c w" and n: "rnodes w n = None"
    and empty: "buffer (chans w c) = []" "senders (chans w c) = []" "\<not> send_closed (chans w c)"
  shows "chan_inv c (recv_suspend c n h w) \<and> stock c (recv_suspend c n h w) = stock c w \<and>
         taken_vals (recv_suspend c n h w) = taken_vals w"
proof -
  let ?r = "\<lparr>rn_value = None, rn_handle = h, rn_delivered = False, rn_gate = None, rn_tag = - 1\<rparr>"
  let ?w = "set_chan c ((chans w c)\<lparr>receivers := receivers (chans w c) @ [n]\<rparr>) (w\<lparr>rnodes := (rnodes w)(n \<mapsto> ?r)\<rparr>)"
  have fin: "finite (marked (\<lambda>r. rn_value r \<noteq> None) (rnodes w))"
    using inv by (simp add: chan_inv_def chan_pre_def Let_def)
  have "recv_suspend c n h w = ?w"
    using empty by (simp add: recv_suspend_def Let_def channel_take_pending_sender_def)
  moreover have "held_vals ?w = held_vals w"
    using node_vals_upd [OF fin, of "\<lambda>r. the (rn_value r)" n ?r] n by (simp add: held_vals_def node_vals_None)
  moreover have "n \<notin> set (receivers (chans w c))"
    using inv n by (auto simp: chan_inv_def chan_pre_def Let_def marked_iff)
  then have "chan_inv c ?w"
    using inv n empty by (auto simp: chan_inv_def chan_pre_def Let_def marked_upd marked_iff channel_has_room_def)
  ultimately show ?thesis by (simp add: stock_def taken_vals_def)
qed

lemma return_value_spec:
  assumes inv: "chan_inv c w" and r: "channel_return_value c v w = (b, w')"
    and k: "rnodes w k = Some x" "k \<notin> set (receivers (chans w c))"
  shows "chan_inv c w' \<and> stock c w' = stock c w + (if b then {#v#} else {#}) \<and> taken_vals w' = taken_vals w \<and>
         rnodes w' k = Some x \<and> k \<notin> set (receivers (chans w' c))"
proof -
  obtain b1 w1 where d: "channel_deliver c v w = (b1, w1)" by fastforce
  from deliver_spec [OF inv d] r d k push_inv [OF inv, of "v # buffer (chans w c)" v] inv show ?thesis
    by (cases b1) (auto simp: channel_return_value_def split: if_splits)
qed

text \<open>Channel 0 used by coroutines that send, receive, close and are cancelled, without select. A
  coroutine that suspended runs again only after it has left the queue it waits in.\<close>

inductive chan_step :: "'a chan_run \<Rightarrow> 'a chan_run \<Rightarrow> bool" where
  ch_send_now: "send_ready 0 v (cr_world R) = (True, w) \<Longrightarrow>
    chan_step R (R\<lparr>cr_world := w, accepted := add_mset v (accepted R)\<rparr>)"
| ch_send_wait: "send_ready 0 v (cr_world R) = (False, w) \<Longrightarrow> snodes w n = None \<Longrightarrow>
    chan_step R (R\<lparr>cr_world := send_suspend 0 n v h w\<rparr>)"
| ch_send_end: "snodes (cr_world R) n = Some s \<Longrightarrow> n \<notin> set (senders (chans (cr_world R) 0)) \<Longrightarrow>
    send_resume 0 (Some n) False (cr_world R) = (r, w) \<Longrightarrow>
    chan_step R (R\<lparr>cr_world := drop_snode n (send_destroy 0 n w),
      accepted := accepted R + (if r = Inr () then {#sn_value s#} else {#})\<rparr>)"
| ch_send_cancel: "snodes (cr_world R) n = Some s \<Longrightarrow>
    chan_step R (R\<lparr>cr_world := drop_snode n (send_destroy 0 n (cr_world R)),
      accepted := accepted R + (if sn_taken s then {#sn_value s#} else {#})\<rparr>)"
| ch_recv_now: "recv_ready 0 (cr_world R) = (Some x, w) \<Longrightarrow>
    chan_step R (R\<lparr>cr_world := w, received := received R + omset x\<rparr>)"
| ch_recv_wait: "recv_ready 0 (cr_world R) = (None, w) \<Longrightarrow> rnodes w n = None \<Longrightarrow>
    chan_step R (R\<lparr>cr_world := recv_suspend 0 n h w\<rparr>)"
| ch_recv_end: "rnodes (cr_world R) n = Some r \<Longrightarrow> n \<notin> set (receivers (chans (cr_world R) 0)) \<Longrightarrow>
    recv_resume n (cr_world R) = (x, w) \<Longrightarrow> recv_destroy 0 n w = (b, w') \<Longrightarrow>
    chan_step R (R\<lparr>cr_world := drop_rnode n w', received := received R + omset x\<rparr>)"
| ch_recv_cancel: "rnodes (cr_world R) n = Some r \<Longrightarrow> recv_destroy 0 n (cr_world R) = (b, w) \<Longrightarrow>
    chan_step R (R\<lparr>cr_world := drop_rnode n w, lost := lost R + (if b then {#} else omset (rn_value r))\<rparr>)"
| ch_close: "chan_step R (R\<lparr>cr_world := channel_close 0 (cr_world R)\<rparr>)"
| ch_no_receivers: "chan_step R (R\<lparr>cr_world := channel_note_no_receivers 0 (cr_world R)\<rparr>)"

definition books_balance :: "'a chan_run \<Rightarrow> bool" where
  "books_balance R \<longleftrightarrow>
     accepted R + taken_vals (cr_world R) = received R + lost R + stock 0 (cr_world R)"

lemma send_destroy_spec:
  assumes inv: "chan_inv c w" and s: "snodes w n = Some s"
  shows "chan_inv c (drop_snode n (send_destroy c n w)) \<and>
    (\<exists>m. stock c (drop_snode n (send_destroy c n w)) = stock c w + m \<and>
         taken_vals (drop_snode n (send_destroy c n w)) + (if sn_taken s then {#sn_value s#} else {#})
         = taken_vals w + m)"
proof (cases "sn_taken s")
  case True
  then have "n \<notin> set (senders (chans w c))"
    using inv s by (auto simp: chan_inv_def chan_pre_def Let_def marked_iff)
  with True s drop_snode_inv [OF inv s] show ?thesis by (simp add: send_destroy_def)
next
  case False
  note d = drop_sender_spec [OF inv, of n]
  have s': "snodes (channel_drop_sender c n w) n = Some s" using d(2) s by simp
  from drop_snode_inv [OF d(1) s' d(3)] d(4) False s show ?thesis by (auto simp: send_destroy_def)
qed

lemma send_end_spec:
  assumes inv: "chan_inv c w" and s: "snodes w n = Some s" and r: "send_resume c (Some n) False w = (r, w')"
  shows "chan_inv c (drop_snode n (send_destroy c n w')) \<and>
    (\<exists>m. stock c (drop_snode n (send_destroy c n w')) = stock c w + m \<and>
         taken_vals (drop_snode n (send_destroy c n w')) + (if r = Inr () then {#sn_value s#} else {#})
         = taken_vals w + m)"
proof (cases "sn_taken s")
  case True
  then have "r = Inr ()" "w' = w" using s r by (auto simp: send_resume_def)
  with send_destroy_spec [OF inv s] True show ?thesis by simp
next
  case False
  then have e: "r = Inl ClosedChannelError" "w' = channel_drop_sender c n w"
    using s r by (auto simp: send_resume_def)
  note d = drop_sender_spec [OF inv, of n]
  obtain m1 where m1: "stock c w' = stock c w + m1" "taken_vals w' = taken_vals w + m1"
    using d(4) e by blast
  have "chan_inv c w'" "snodes w' n = Some s" using d(1,2) e s by auto
  from send_destroy_spec [OF this] False obtain m2 where
    "chan_inv c (drop_snode n (send_destroy c n w'))"
    "stock c (drop_snode n (send_destroy c n w')) = stock c w' + m2"
    "taken_vals (drop_snode n (send_destroy c n w')) = taken_vals w' + m2"
    by auto
  with m1 e(1) show ?thesis by (auto simp: add.assoc)
qed

lemma balance_step:
  assumes "books_balance R" "stock 0 (cr_world R') + x = stock 0 (cr_world R) + m"
    and "taken_vals (cr_world R') + y = taken_vals (cr_world R) + m"
    and "accepted R' = accepted R + y" "received R' + lost R' = received R + lost R + x"
  shows "books_balance R'"
proof -
  have "accepted R' + taken_vals (cr_world R') = accepted R + taken_vals (cr_world R) + m"
    using assms(3,4) by (simp add: ac_simps)
  also have "\<dots> = received R + lost R + (stock 0 (cr_world R) + m)"
    using assms(1) by (simp add: books_balance_def ac_simps)
  also have "\<dots> = received R' + lost R' + stock 0 (cr_world R')"
    unfolding assms(2) [symmetric] using assms(5) by (simp add: ac_simps)
  finally show ?thesis by (simp add: books_balance_def)
qed

lemma undelivered_empty: "chan_inv c w \<Longrightarrow> rnodes w n = Some r \<Longrightarrow> \<not> rn_delivered r \<Longrightarrow> rn_value r = None"
  unfolding chan_inv_def chan_pre_def Let_def by blast

lemma recv_end_drop:
  assumes inv: "chan_inv c w" and r: "rnodes w n = Some r" "n \<notin> set (receivers (chans w c))"
    and e: "recv_resume n w = (x, w1)" "recv_destroy c n w1 = (b, w2)"
  shows "drop_rnode n w2 = drop_rnode n w \<and> x = rn_value r"
proof (cases "rn_delivered r")
  case True
  with r e show ?thesis by (auto simp: recv_resume_def recv_destroy_def drop_rnode_def)
next
  case False
  have "remove1 n (receivers (chans w c)) = receivers (chans w c)" using r(2) by (rule remove1_idem)
  then have "channel_drop_receiver c n w = w"
    by (simp add: channel_drop_receiver_def erase_first_eq_remove1 set_chan_def)
  moreover have "rn_value r = None" using undelivered_empty [OF inv _ False] r by simp
  ultimately show ?thesis using False r e by (auto simp: recv_resume_def recv_destroy_def)
qed

lemma recv_cancel_spec:
  assumes inv: "chan_inv c w" and r: "rnodes w n = Some r" and d: "recv_destroy c n w = (b, w')"
  shows "chan_inv c (drop_rnode n w') \<and> taken_vals (drop_rnode n w') = taken_vals w \<and>
         stock c (drop_rnode n w') + (if b then {#} else omset (rn_value r)) = stock c w"
proof (cases "rn_delivered r")
  case False
  let ?w = "set_chan c ((chans w c)\<lparr>receivers := remove1 n (receivers (chans w c))\<rparr>) w"
  have w': "b" "w' = ?w"
    using d r False by (auto simp: recv_destroy_def channel_drop_receiver_def erase_first_eq_remove1)
  have "n \<notin> set (receivers (chans ?w c))" using inv by (simp add: chan_inv_def chan_pre_def Let_def)
  moreover have "chan_inv c ?w"
    using inv by (auto simp: chan_inv_def chan_pre_def Let_def channel_has_room_def dest: notin_set_remove1)
  moreover have "rn_value r = None" using undelivered_empty [OF inv _ False] r by simp
  ultimately show ?thesis
    using drop_rnode_inv [of c ?w n r] r w' by (simp add: stock_def omset_def)
next
  case True
  then have n: "n \<notin> set (receivers (chans w c))"
    using inv r by (auto simp: chan_inv_def chan_pre_def Let_def marked_iff)
  show ?thesis
  proof (cases "rn_value r")
    case None
    with True d r drop_rnode_inv [OF inv r n] show ?thesis by (auto simp: recv_destroy_def omset_def)
  next
    case (Some v)
    then have "channel_return_value c v w = (b, w')" using True d r by (simp add: recv_destroy_def)
    from return_value_spec [OF inv this r n] drop_rnode_inv [of c w' n r] Some show ?thesis
      by (auto simp: omset_def split: if_splits)
  qed
qed

lemma chan_step_inv:
  assumes "chan_step R R'" "chan_inv 0 (cr_world R) \<and> books_balance R"
  shows "chan_inv 0 (cr_world R') \<and> books_balance R'"
  using assms
proof (induction rule: chan_step.induct)
  case (ch_send_now v R w)
  then show ?case using send_ready_spec(1) [of 0 "cr_world R" v True w] by (simp add: books_balance_def)
next
  case (ch_send_wait v R w n h)
  then show ?case
    using send_ready_spec(2) [of 0 "cr_world R" v False w] send_suspend_spec [of 0 w n v h]
    by (auto simp: books_balance_def)
next
  case (ch_send_end R n s r w)
  have inv: "chan_inv 0 (cr_world R)" using ch_send_end by simp
  obtain m where m: "chan_inv 0 (drop_snode n (send_destroy 0 n w))"
    "stock 0 (drop_snode n (send_destroy 0 n w)) = stock 0 (cr_world R) + m"
    "taken_vals (drop_snode n (send_destroy 0 n w)) + (if r = Inr () then {#sn_value s#} else {#})
     = taken_vals (cr_world R) + m"
    using send_end_spec [OF inv ch_send_end(1,3)] by blast
  have "books_balance (R\<lparr>cr_world := drop_snode n (send_destroy 0 n w),
      accepted := accepted R + (if r = Inr () then {#sn_value s#} else {#})\<rparr>)"
    by (rule balance_step [where R = R and m = m and x = "{#}" and y = "if r = Inr () then {#sn_value s#} else {#}"])
      (use m(2,3) ch_send_end(4) in auto)
  with m(1) show ?case by simp
next
  case (ch_send_cancel R n s)
  have inv: "chan_inv 0 (cr_world R)" using ch_send_cancel by simp
  obtain m where m: "chan_inv 0 (drop_snode n (send_destroy 0 n (cr_world R)))"
    "stock 0 (drop_snode n (send_destroy 0 n (cr_world R))) = stock 0 (cr_world R) + m"
    "taken_vals (drop_snode n (send_destroy 0 n (cr_world R))) + (if sn_taken s then {#sn_value s#} else {#})
     = taken_vals (cr_world R) + m"
    using send_destroy_spec [OF inv ch_send_cancel(1)] by blast
  have "books_balance (R\<lparr>cr_world := drop_snode n (send_destroy 0 n (cr_world R)),
      accepted := accepted R + (if sn_taken s then {#sn_value s#} else {#})\<rparr>)"
    by (rule balance_step [where R = R and m = m and x = "{#}" and y = "if sn_taken s then {#sn_value s#} else {#}"])
      (use m(2,3) ch_send_cancel(2) in auto)
  with m(1) show ?case by simp
next
  case (ch_recv_now R x w)
  then obtain m where m: "chan_inv 0 w" "stock 0 w + omset x = stock 0 (cr_world R) + m"
    "taken_vals w = taken_vals (cr_world R) + m"
    using recv_ready_spec [of 0 "cr_world R" "Some x" w] by blast
  have "books_balance (R\<lparr>cr_world := w, received := received R + omset x\<rparr>)"
    by (rule balance_step [where R = R and m = m and x = "omset x" and y = "{#}"])
      (use m(2,3) ch_recv_now(2) in \<open>auto simp: ac_simps\<close>)
  with m(1) show ?case by simp
next
  case (ch_recv_wait R w n h)
  then show ?case
    using recv_ready_spec [of 0 "cr_world R" None w] recv_suspend_spec [of 0 w n h]
    by (auto simp: books_balance_def)
next
  case (ch_recv_end R n r x w b w')
  have inv: "chan_inv 0 (cr_world R)" using ch_recv_end by simp
  have e: "drop_rnode n w' = drop_rnode n (cr_world R)" "x = rn_value r"
    using recv_end_drop [OF inv ch_recv_end(1-4)] by auto
  note d = drop_rnode_inv [OF inv ch_recv_end(1,2)]
  have "books_balance (R\<lparr>cr_world := drop_rnode n w', received := received R + omset x\<rparr>)"
    by (rule balance_step [where R = R and m = "{#}" and x = "omset x" and y = "{#}"])
      (use d e ch_recv_end(5) in \<open>auto simp: ac_simps\<close>)
  with d(1) e show ?case by simp
next
  case (ch_recv_cancel R n r b w)
  have inv: "chan_inv 0 (cr_world R)" using ch_recv_cancel by simp
  note c = recv_cancel_spec [OF inv ch_recv_cancel(1,2)]
  have "books_balance (R\<lparr>cr_world := drop_rnode n w, lost := lost R + (if b then {#} else omset (rn_value r))\<rparr>)"
    by (rule balance_step [where R = R and m = "{#}" and x = "if b then {#} else omset (rn_value r)" and y = "{#}"])
      (use c ch_recv_cancel(3) in \<open>auto simp: ac_simps\<close>)
  with c show ?case by simp
next
  case (ch_close R)
  then show ?case by (simp add: close_inv books_balance_def)
next
  case (ch_no_receivers R)
  then show ?case by (simp add: no_receivers_inv no_receivers_vals books_balance_def)
qed

definition chan_start :: "nat \<Rightarrow> 'a chan_run \<Rightarrow> bool" where
  "chan_start cap R \<longleftrightarrow>
     chans (cr_world R) 0 = channel_new cap \<and> snodes (cr_world R) = Map.empty \<and>
     rnodes (cr_world R) = Map.empty \<and> accepted R = {#} \<and> received R = {#} \<and> lost R = {#}"

interpretation chan: inductive_invariant "chan_start cap" chan_step
  "\<lambda>R. chan_inv 0 (cr_world R) \<and> books_balance R" for cap
proof unfold_locales
  show "chan_inv 0 (cr_world R) \<and> books_balance R" if "chan_start cap R" for R :: "'a chan_run"
    using that
    by (auto simp: chan_start_def chan_inv_def chan_pre_def channel_new_def marked_upd books_balance_def
        taken_vals_def stock_def held_vals_def node_vals_def)
qed (rule chan_step_inv)


text \<open>C24. Nobody waits in vain on a channel without select: receivers wait only while there is neither
  a buffered value nor a waiting sender, senders wait only while the buffer is full, a closed channel has
  no waiters left, and a bounded buffer never exceeds the capacity.\<close>

theorem channel_no_stall:
  assumes "reachable (chan_start cap) chan_step R"
  shows "let st = chans (cr_world R) 0 in
    (receivers st \<noteq> [] \<longrightarrow> senders st = [] \<and> buffer st = []) \<and>
    (senders st \<noteq> [] \<longrightarrow> \<not> channel_has_room st) \<and>
    (send_closed st \<longrightarrow> senders st = [] \<and> receivers st = []) \<and>
    (capacity st \<noteq> SIZE_MAX \<longrightarrow> length (buffer st) \<le> capacity st)"
  using chan.invariant_reachable [OF assms] by (auto simp: chan_inv_def chan_pre_def Let_def)

text \<open>On a rendezvous channel, coroutine 5 waits in \<open>recv\<close>, then the value 9 is sent.\<close>

definition cex0 :: "nat cworld" where
  "cex0 = \<lparr>chans = (\<lambda>_. channel_new 0), snodes = Map.empty, rnodes = Map.empty,
           winners = (\<lambda>_. - 1), c_loop = el_new\<rparr>"

definition cex1 :: "nat cworld" where "cex1 = recv_suspend 0 1 5 cex0"
definition cex2 :: "nat cworld" where "cex2 = snd (send_ready 0 9 cex1)"

definition cex_run :: "nat cworld \<Rightarrow> nat multiset \<Rightarrow> nat chan_run" where
  "cex_run w a = \<lparr>cr_world = w, accepted = a, received = {#}, lost = {#}\<rparr>"

lemma cex_reachable:
  "reachable (chan_start 0) chan_step (cex_run cex1 {#})" "reachable (chan_start 0) chan_step (cex_run cex2 {#9#})"
proof -
  have r0: "recv_ready 0 cex0 = (None, cex0)"
    by (simp add: recv_ready_def cex0_def channel_new_def channel_take_pending_sender_def)
  have "rnodes cex0 1 = None" by (simp add: cex0_def)
  with r0 have "chan_step (cex_run cex0 {#}) (cex_run cex1 {#})"
    using ch_recv_wait [of "cex_run cex0 {#}" cex0 1 5] by (simp add: cex_run_def cex1_def)
  moreover have "reachable (chan_start 0) chan_step (cex_run cex0 {#})"
    by (rule reachable_init) (simp add: chan_start_def cex_run_def cex0_def)
  ultimately show r1: "reachable (chan_start 0) chan_step (cex_run cex1 {#})"
    by (blast intro: reachable_step)
  have "send_ready 0 9 cex1 = (True, cex2)"
    unfolding cex2_def by (rule prod_eqI) (code_simp, simp)
  then have "chan_step (cex_run cex1 {#}) (cex_run cex2 {#9#})"
    using ch_send_now [of 9 "cex_run cex1 {#}" cex2] by (simp add: cex_run_def)
  with r1 show "reachable (chan_start 0) chan_step (cex_run cex2 {#9#})" by (rule reachable_step)
qed


theorem channel_no_stall_witness:
  "receivers (chans cex1 0) = [1] \<and> senders (chans cex1 0) = [] \<and> buffer (chans cex1 0) = []"
proof -
  have "receivers (chans cex1 0) = [1]" by code_simp
  with channel_no_stall [OF cex_reachable(1)] show ?thesis by (simp add: cex_run_def Let_def)
qed

end
