(* ===== verification/Select.thy ===== *)
theory Select
  imports Channel
begin

section \<open>Select\<close>

text \<open>
  include/coro/select.hpp. A select probes its branches in turn and commits the first one that is ready;
  otherwise it registers a node in every channel, each with the select's state as its gate, and suspends.
  The function \<open>run_select\<close> is a coroutine: \<open>select_fast\<close> is its part before the suspension,
  \<open>select_suspend\<close> the registration, \<open>select_finish\<close> the part after the resumption and \<open>settle\<close> the
  destructor of its guard. Node addresses are chosen by the caller; \<open>now\<close> is the clock.
\<close>

record 'a select_branch =
  is_send :: bool
  b_index :: int
  b_rx :: "nat option"
  b_tx :: "nat option"
  outbound :: "'a option"
  rnode :: "nat option"
  snode :: "nat option"
  inbound :: "'a option"

record 'a select_body =
  sel :: nat
  sel_handle :: handle
  branches :: "'a select_branch list"
  has_timer :: bool
  timer_index :: int
  deadline :: time
  timer_token :: "nat option"
  has_default :: bool
  default_index :: int
  rotation :: nat

record 'a select_result =
  sr_index :: int
  sr_value :: "'a option"
  timed_out :: bool
  defaulted :: bool

definition no_result :: "'a select_result" where
  "no_result = \<lparr>sr_index = - 1, sr_value = None, timed_out = False, defaulted = False\<rparr>"

subsection \<open>The branches of a select\<close>

datatype 'a spec = Recv_of "nat option" | Send_of "nat option" 'a | After time | Default_nowait

definition recv_branch :: "nat option \<Rightarrow> int \<Rightarrow> 'a select_branch" where
  "recv_branch e i = \<lparr>is_send = False, b_index = i, b_rx = e, b_tx = None, outbound = None,
     rnode = None, snode = None, inbound = None\<rparr>"

definition send_branch :: "nat option \<Rightarrow> 'a \<Rightarrow> int \<Rightarrow> 'a select_branch" where
  "send_branch e v i = \<lparr>is_send = True, b_index = i, b_rx = None, b_tx = e, outbound = Some v,
     rnode = None, snode = None, inbound = None\<rparr>"

fun add_spec :: "'a spec \<Rightarrow> int \<times> 'a select_body \<Rightarrow> int \<times> 'a select_body" where
  "add_spec (Recv_of e) (i, B) = (i + 1, B\<lparr>branches := branches B @ [recv_branch e i]\<rparr>)"
| "add_spec (Send_of e v) (i, B) = (i + 1, B\<lparr>branches := branches B @ [send_branch e v i]\<rparr>)"
| "add_spec (After d) (i, B) = (i + 1, B\<lparr>has_timer := True, timer_index := i, deadline := d\<rparr>)"
| "add_spec Default_nowait (i, B) = (i + 1, B\<lparr>has_default := True, default_index := i\<rparr>)"

definition select_new :: "nat \<Rightarrow> 'a spec list \<Rightarrow> 'a select_body" where
  "select_new s specs =
     snd (fold add_spec specs (0, \<lparr>sel = s, sel_handle = null_handle, branches = [], has_timer = False,
       timer_index = - 1, deadline = 0, timer_token = None, has_default = False, default_index = - 1,
       rotation = 0\<rparr>))"

definition timer_expired :: "time \<Rightarrow> 'a select_body \<Rightarrow> bool" where
  "timer_expired now B \<longleftrightarrow> has_timer B \<and> now \<ge> deadline B"

text \<open>Probe, claim, commit; a commit that fails gives the claim back. \<open>null\<close> endpoints raise.\<close>

definition try_now :: "nat \<Rightarrow> 'a select_branch \<Rightarrow> 'a cworld \<Rightarrow> bool result \<times> 'a select_branch \<times> 'a cworld" where
  "try_now s b w =
     (if is_send b
      then (case b_tx b of
              None \<Rightarrow> (Inl StructuredConcurrencyError, b, w)
            | Some c \<Rightarrow>
                if \<not> probe_can_accept c w then (Inr False, b, w)
                else (case claim s (b_index b) w of
                        (False, w1) \<Rightarrow> (Inr False, b, w1)
                      | (True, w1) \<Rightarrow>
                          (case outbound b of
                             None \<Rightarrow> (Inl LogicError, b, w1)
                           | Some v \<Rightarrow>
                               (case commit_accept c v w1 of
                                  (True, w2) \<Rightarrow> (Inr True, b, w2)
                                | (False, w2) \<Rightarrow> (Inr False, b, w2\<lparr>winners := (winners w2)(s := - 1)\<rparr>)))))
      else (case b_rx b of
              None \<Rightarrow> (Inl StructuredConcurrencyError, b, w)
            | Some c \<Rightarrow>
                if \<not> probe_has_message c w then (Inr False, b, w)
                else (case claim s (b_index b) w of
                        (False, w1) \<Rightarrow> (Inr False, b, w1)
                      | (True, w1) \<Rightarrow>
                          (case commit_take c w1 of
                             (Some got, w2) \<Rightarrow> (Inr True, b\<lparr>inbound := got\<rparr>, w2)
                           | (None, w2) \<Rightarrow> (Inr False, b, w2\<lparr>winners := (winners w2)(s := - 1)\<rparr>)))))"

definition arm :: "nat \<Rightarrow> handle \<Rightarrow> nat \<Rightarrow> 'a select_branch \<Rightarrow> 'a cworld \<Rightarrow> 'a select_branch \<times> 'a cworld" where
  "arm s h n b w =
     (if is_send b
      then (case (b_tx b, outbound b) of
              (Some c, Some v) \<Rightarrow> (b\<lparr>snode := Some n, outbound := None\<rparr>, arm_sender c n v s (b_index b) h w)
            | _ \<Rightarrow> (b, w))
      else (case b_rx b of
              Some c \<Rightarrow> (b\<lparr>rnode := Some n\<rparr>, arm_receiver c n s (b_index b) h w)
            | None \<Rightarrow> (b, w)))"

definition disarm :: "'a select_branch \<Rightarrow> 'a cworld \<Rightarrow> 'a select_branch \<times> 'a cworld" where
  "disarm b w =
     (if is_send b
      then (case (b_tx b, snode b) of
              (Some c, Some n) \<Rightarrow>
                (case snodes w n of
                   Some s \<Rightarrow> (if \<not> sn_taken s then b\<lparr>outbound := Some (sn_value s)\<rparr> else b, channel_drop_sender c n w)
                 | None \<Rightarrow> (b, channel_drop_sender c n w))
            | _ \<Rightarrow> (b, w))
      else (case (b_rx b, rnode b) of
              (Some c, Some n) \<Rightarrow> (b, channel_drop_receiver c n w)
            | _ \<Rightarrow> (b, w)))"

definition settled_now :: "'a select_branch \<Rightarrow> 'a cworld \<Rightarrow> bool" where
  "settled_now b w =
     (if is_send b
      then (case snode b of None \<Rightarrow> False | Some n \<Rightarrow> (case snodes w n of None \<Rightarrow> False | Some s \<Rightarrow> sn_taken s))
      else (case rnode b of None \<Rightarrow> False | Some n \<Rightarrow> (case rnodes w n of None \<Rightarrow> False | Some r \<Rightarrow> rn_delivered r)))"

subsection \<open>The scan\<close>

text \<open>\<open>k\<close> turns of the loop from the current rotation; the branch that was tried is stored back.\<close>

fun scan :: "nat \<Rightarrow> 'a select_body \<Rightarrow> 'a cworld \<Rightarrow>
  'a select_branch option result \<times> 'a select_body \<times> 'a cworld" where
  "scan 0 B w = (Inr None, B, w)"
| "scan (Suc k) B w =
     (let n = length (branches B); i = rotation B mod n; B = B\<lparr>rotation := (rotation B + 1) mod n\<rparr>
      in case try_now (sel B) (branches B ! i) w of
           (Inl err, b, w') \<Rightarrow> (Inl err, B\<lparr>branches := (branches B)[i := b]\<rparr>, w')
         | (Inr True, b, w') \<Rightarrow> (Inr (Some b), B\<lparr>branches := (branches B)[i := b]\<rparr>, w')
         | (Inr False, b, w') \<Rightarrow> scan k (B\<lparr>branches := (branches B)[i := b]\<rparr>) w')"

definition branch_result :: "'a select_branch \<Rightarrow> 'a select_result" where
  "branch_result b = no_result\<lparr>sr_index := b_index b, sr_value := (if is_send b then None else inbound b)\<rparr>"

definition timer_result :: "'a select_body \<Rightarrow> 'a select_result" where
  "timer_result B = no_result\<lparr>sr_index := timer_index B, timed_out := True\<rparr>"

definition default_result :: "'a select_body \<Rightarrow> 'a select_result" where
  "default_result B = no_result\<lparr>sr_index := default_index B, defaulted := True\<rparr>"

text \<open>Up to the suspension: \<open>Inr None\<close> goes on to register the branches.\<close>

definition select_fast :: "time \<Rightarrow> 'a select_body \<Rightarrow> 'a cworld \<Rightarrow>
  'a select_result option result \<times> 'a select_body \<times> 'a cworld" where
  "select_fast now B w =
     (case scan (length (branches B)) B w of
        (Inl err, B, w) \<Rightarrow> (Inl err, B, w)
      | (Inr (Some b), B, w) \<Rightarrow> (Inr (Some (branch_result b)), B, w)
      | (Inr None, B, w) \<Rightarrow>
          if timer_expired now B then (Inr (Some (timer_result B)), B, w)
          else if has_default B then (Inr (Some (default_result B)), B, w)
          else (Inr None, B, w))"

fun arm_all :: "nat \<Rightarrow> handle \<Rightarrow> nat \<Rightarrow> 'a select_branch list \<Rightarrow> 'a cworld \<Rightarrow> 'a select_branch list \<times> 'a cworld" where
  "arm_all s h n [] w = ([], w)"
| "arm_all s h n (b # bs) w =
     (case arm s h n b w of (b', w') \<Rightarrow>
        (case arm_all s h (Suc n) bs w' of (bs', w'') \<Rightarrow> (b' # bs', w'')))"

text \<open>Registration with node addresses from \<open>a\<close> on; the answer is whether the coroutine suspends.\<close>

definition select_suspend :: "time \<Rightarrow> handle \<Rightarrow> nat \<Rightarrow> nat \<Rightarrow> 'a select_body \<Rightarrow> 'a cworld \<Rightarrow>
  bool \<times> 'a select_body \<times> 'a cworld" where
  "select_suspend now h a tok B w =
     (case arm_all (sel B) h a (branches B) w of
        (bs, w) \<Rightarrow>
          (let B = B\<lparr>sel_handle := h, branches := bs\<rparr>;
               (B, w) = (if has_timer B
                         then (B\<lparr>timer_token := Some tok\<rparr>,
                               w\<lparr>c_loop := el_schedule_timer h (deadline B) (Some tok) None 0 (c_loop w)\<rparr>)
                         else (B, w))
           in if winners w (sel B) \<ge> 0 \<or> timer_expired now B then (False, B, w)
              else (\<not> list_ex (\<lambda>b. settled_now b w) (branches B), B, w)))"

fun find_winner :: "int \<Rightarrow> 'a select_branch list \<Rightarrow> 'a cworld \<Rightarrow> 'a select_result option" where
  "find_winner i [] w = None"
| "find_winner i (b # bs) w =
     (if b_index b = i
      then Some (no_result\<lparr>sr_index := i,
                   sr_value := (if is_send b then None
                                else case rnode b of
                                       Some n \<Rightarrow> (case rnodes w n of
                                                    Some r \<Rightarrow> if rn_delivered r then rn_value r else inbound b
                                                  | None \<Rightarrow> inbound b)
                                     | None \<Rightarrow> inbound b)\<rparr>)
      else find_winner i bs w)"

fun find_closed :: "'a select_branch list \<Rightarrow> 'a cworld \<Rightarrow> 'a select_result option" where
  "find_closed [] w = None"
| "find_closed (b # bs) w =
     (if \<not> is_send b \<and> receiver_closed (b_rx b) w then Some (no_result\<lparr>sr_index := b_index b\<rparr>)
      else find_closed bs w)"

definition select_finish :: "time \<Rightarrow> 'a select_body \<Rightarrow> 'a cworld \<Rightarrow> 'a select_result" where
  "select_finish now B w =
     (let winner = winners w (sel B);
          r1 = (if winner \<ge> 0
                then (case find_winner winner (branches B) w of
                        Some r \<Rightarrow> Some r
                      | None \<Rightarrow> if has_timer B \<and> winner = timer_index B then Some (timer_result B) else None)
                else None)
      in case r1 of
           Some r \<Rightarrow> r
         | None \<Rightarrow>
             if timer_expired now B then timer_result B
             else (case find_closed (branches B) w of Some r \<Rightarrow> r | None \<Rightarrow> no_result))"

fun disarm_all :: "'a select_branch list \<Rightarrow> 'a cworld \<Rightarrow> 'a select_branch list \<times> 'a cworld" where
  "disarm_all [] w = ([], w)"
| "disarm_all (b # bs) w =
     (case disarm b w of (b', w') \<Rightarrow> (case disarm_all bs w' of (bs', w'') \<Rightarrow> (b' # bs', w'')))"

definition settle :: "'a select_body \<Rightarrow> 'a cworld \<Rightarrow> 'a select_body \<times> 'a cworld" where
  "settle B w =
     (case disarm_all (branches B) w of
        (bs, w) \<Rightarrow>
          (B\<lparr>branches := bs\<rparr>,
           case timer_token B of None \<Rightarrow> w | Some t \<Rightarrow> w\<lparr>c_loop := el_set_token t (c_loop w)\<rparr>))"

subsection \<open>What a probe promises\<close>

definition branch_chan :: "'a select_branch \<Rightarrow> nat option" where
  "branch_chan b = (if is_send b then b_tx b else b_rx b)"

definition branch_ready :: "'a select_branch \<Rightarrow> 'a cworld \<Rightarrow> bool" where
  "branch_ready b w =
     (case branch_chan b of None \<Rightarrow> False
      | Some c \<Rightarrow> if is_send b then probe_can_accept c w else probe_has_message c w)"

text \<open>The nodes a channel queues exist, and none of them belongs to the select \<open>s\<close> (it has not
  registered yet).\<close>

definition foreign :: "nat \<Rightarrow> nat \<Rightarrow> 'a cworld \<Rightarrow> bool" where
  "foreign s c w \<longleftrightarrow>
     (\<forall>n\<in>set (receivers (chans w c)). \<exists>r. rnodes w n = Some r \<and> rn_gate r \<noteq> Some s) \<and>
     (\<forall>n\<in>set (senders (chans w c)). \<exists>x. snodes w n = Some x \<and> sn_gate x \<noteq> Some s)"

lemma gate_claim_frame:
  "gate_claim g t w = (b, w') \<Longrightarrow>
   chans w' = chans w \<and> snodes w' = snodes w \<and> rnodes w' = rnodes w \<and>
   (g \<noteq> Some s \<longrightarrow> winners w' s = winners w s)"
  by (auto simp: gate_claim_def claim_def split: option.splits if_splits)

lemma pick_receiver_frame:
  "pick_receiver ns w = Some (n, rest, w') \<Longrightarrow> \<forall>n\<in>set ns. \<exists>r. rnodes w n = Some r \<and> rn_gate r \<noteq> Some s \<Longrightarrow>
   chans w' = chans w \<and> snodes w' = snodes w \<and> rnodes w' = rnodes w \<and> winners w' s = winners w s \<and>
   set rest \<subseteq> set ns"
proof (induction ns arbitrary: w n rest w')
  case (Cons m ns)
  then obtain r where r: "rnodes w m = Some r" "rn_gate r \<noteq> Some s" by auto
  obtain b w1 where g: "gate_claim (rn_gate r) (rn_tag r) w = (b, w1)" by fastforce
  have f: "chans w1 = chans w \<and> snodes w1 = snodes w \<and> rnodes w1 = rnodes w \<and> winners w1 s = winners w s"
    using gate_claim_frame [OF g, of s] r(2) by blast
  have fails: "\<not> b \<Longrightarrow> w1 = w" using any_gate.claim_fails_id [of "rn_gate r" "rn_tag r" w w1] g by auto
  show ?case
  proof (cases "gate_open (rn_gate r) w \<and> b")
    case True
    with Cons.prems(1) r g f show ?thesis by auto
  next
    case False
    then obtain rest' where p: "pick_receiver ns w = Some (n, rest', w')" "rest = m # rest'"
      using Cons.prems(1) r g fails by (cases b) (auto split: if_splits)
    from Cons.IH [OF p(1)] Cons.prems(2) p(2) show ?thesis by auto
  qed
qed simp

lemma deliver_frame:
  assumes "channel_deliver c v w = (b, w')" "foreign s c w"
  shows "winners w' s = winners w s" "\<not> b \<Longrightarrow> w' = w" "any_open (receivers (chans w c)) w \<Longrightarrow> b"
proof -
  have ex: "\<forall>n\<in>set (receivers (chans w c)). rnodes w n \<noteq> None" using assms(2) by (fastforce simp: foreign_def)
  show "winners w' s = winners w s"
    using assms pick_receiver_frame [of "receivers (chans w c)" w _ _ _ s]
    by (fastforce simp: channel_deliver_def foreign_def Let_def split: option.splits)
  show "\<not> b \<Longrightarrow> w' = w" using assms(1) by (auto simp: channel_deliver_def Let_def split: option.splits)
  show "any_open (receivers (chans w c)) w \<Longrightarrow> b"
    using assms(1) pick_receiver_None [OF _ ex] by (auto simp: channel_deliver_def Let_def split: option.splits)
qed

lemma promote_frame:
  "foreign s c w \<Longrightarrow> winners (channel_promote_senders c w) s = winners w s"
proof (induction c w rule: channel_promote_senders.induct)
  case (1 c w)
  obtain res w' where p: "promote_one c w = (res, w')" by fastforce
  show ?case
  proof (cases res)
    case None
    then have "winners w' s = winners w s"
      using p 1(2) by (fastforce simp: promote_one_def foreign_def Let_def split: list.splits if_splits
          option.splits prod.splits bool.splits dest: gate_claim_frame)
    then show ?thesis using p None by (subst channel_promote_senders.simps) simp
  next
    case (Some w1)
    then have "foreign s c w1 \<and> winners w1 s = winners w s"
      using p 1(2) by (fastforce simp: promote_one_def foreign_def Let_def take_node_def split: list.splits if_splits
          option.splits prod.splits bool.splits dest: gate_claim_frame)
    moreover have "w' = w1" using promote_one_less p Some by blast
    ultimately show ?thesis using p Some "1.IH" [of _ w1] by (subst channel_promote_senders.simps) simp
  qed
qed

text \<open>Claiming the own gate changes nothing a foreign node sees.\<close>

lemma claim_foreign:
  fixes i :: int
  assumes "winners w s = - 1" "foreign s c w"
  defines "w1 \<equiv> w\<lparr>winners := (winners w)(s := i)\<rparr>"
  shows "foreign s c w1" "any_open (receivers (chans w c)) w1 = any_open (receivers (chans w c)) w"
    "n \<in> set (senders (chans w c)) \<Longrightarrow> snodes w n = Some x \<Longrightarrow> gate_open (sn_gate x) w1 = gate_open (sn_gate x) w"
proof -
  show "foreign s c w1" using assms by (simp add: foreign_def)
  have "any_open ns w1 = any_open ns w" if "\<forall>n\<in>set ns. \<exists>r. rnodes w n = Some r \<and> rn_gate r \<noteq> Some s" for ns
    using that by (induction ns) (auto simp: w1_def gate_open_def can_admit_def split: option.splits)
  then show "any_open (receivers (chans w c)) w1 = any_open (receivers (chans w c)) w"
    using assms(2) by (simp add: foreign_def)
  show "n \<in> set (senders (chans w c)) \<Longrightarrow> snodes w n = Some x \<Longrightarrow> gate_open (sn_gate x) w1 = gate_open (sn_gate x) w"
    using assms(2) by (auto simp: foreign_def w1_def gate_open_def can_admit_def split: option.splits)
qed

lemma commit_accept_ok:
  assumes "foreign s c w" "any_open (receivers (chans w c)) w \<or> channel_has_room (chans w c)"
  shows "\<exists>w'. commit_accept c v w = (True, w') \<and> winners w' s = winners w s"
proof -
  obtain b w1 where d: "channel_deliver c v w = (b, w1)" by fastforce
  show ?thesis
    using d deliver_frame [OF d assms(1)] assms(2) by (cases b) (auto simp: commit_accept_def)
qed

lemma take_pending_open:
  assumes f: "foreign s c w" and n: "senders (chans w c) = n # ns" "snodes w n = Some x" "gate_open (sn_gate x) w"
  shows "\<exists>w'. channel_take_pending_sender c w = (Some (sn_value x), w') \<and> winners w' s = winners w s"
proof -
  obtain b w1 where g: "gate_claim (sn_gate x) (sn_tag x) w = (b, w1)" by fastforce
  have "b" using any_gate.claim_open [OF n(3), of "sn_tag x"] g by simp
  moreover have "sn_gate x \<noteq> Some s" using f n by (auto simp: foreign_def)
  ultimately show ?thesis
    using n g gate_claim_frame [OF g, of s] by (auto simp: channel_take_pending_sender_def)
qed

lemma commit_take_ok:
  assumes "foreign s c w" and "probe_has_message c w"
  shows "\<exists>got w'. commit_take c w = (Some got, w') \<and> winners w' s = winners w s"
proof (cases "buffer (chans w c)")
  case (Cons v vs)
  have "foreign s c (set_chan c ((chans w c)\<lparr>buffer := vs\<rparr>) w)" using assms(1) by (simp add: foreign_def)
  from promote_frame [OF this] Cons show ?thesis by (simp add: commit_take_def take_front_def)
next
  case Nil
  show ?thesis
  proof (cases "\<exists>n ns x. senders (chans w c) = n # ns \<and> snodes w n = Some x \<and> gate_open (sn_gate x) w")
    case True
    then show ?thesis using take_pending_open [OF assms(1)] Nil by (fastforce simp: commit_take_def)
  next
    case False
    then have "channel_take_pending_sender c w = (None, w)"
      by (auto simp: channel_take_pending_sender_def split: list.split option.split)
    moreover have "send_closed (chans w c)"
      using assms(2) Nil False by (auto simp: probe_has_message_def split: list.splits option.splits if_splits)
    ultimately show ?thesis using Nil by (simp add: commit_take_def)
  qed
qed

lemma try_now_spec:
  assumes "winners w s = - 1" "branch_chan b = Some c" "foreign s c w" "is_send b \<longrightarrow> outbound b \<noteq> None"
  shows "if branch_ready b w
         then (\<exists>b' w'. try_now s b w = (Inr True, b', w') \<and> winners w' s = b_index b \<and> b_index b' = b_index b)
         else try_now s b w = (Inr False, b, w)"
proof -
  let ?w = "w\<lparr>winners := (winners w)(s := b_index b)\<rparr>"
  have cl: "claim s (b_index b) w = (True, ?w)" using assms(1) by (simp add: claim_def)
  note cf = claim_foreign [OF assms(1,3), where i = "b_index b"]
  have ch: "chans ?w = chans w" "winners ?w s = b_index b" by simp_all
  show ?thesis
  proof (cases "is_send b")
    case True
    then obtain v where v: "outbound b = Some v" "b_tx b = Some c" using assms(2,4) by (auto simp: branch_chan_def)
    show ?thesis
    proof (cases "probe_can_accept c w")
      case True
      then have "any_open (receivers (chans ?w c)) ?w \<or> channel_has_room (chans ?w c)"
        using cf(2) by (auto simp: probe_can_accept_def split: if_splits)
      from commit_accept_ok [OF cf(1) this, of v] True \<open>is_send b\<close> v cl assms(2) show ?thesis
        by (auto simp: try_now_def branch_ready_def)
    qed (use True v assms(2) in \<open>simp add: try_now_def branch_ready_def\<close>)
  next
    case False
    then have rx: "b_rx b = Some c" using assms(2) by (simp add: branch_chan_def)
    show ?thesis
    proof (cases "probe_has_message c w")
      case True
      then have "probe_has_message c ?w"
        using cf(3) by (auto simp: probe_has_message_def split: list.splits option.splits if_splits)
      from commit_take_ok [OF cf(1) this] True False rx cl assms(2) show ?thesis
        by (auto simp: try_now_def branch_ready_def)
    qed (use False rx assms(2) in \<open>simp add: try_now_def branch_ready_def\<close>)
  qed
qed

text \<open>The order probe, claim, commit is safe: for a select that has not registered yet, a branch
  commits exactly when its probe says so. A successful probe is never rolled back, the branch becomes
  the winner, and a branch that is not ready leaves the world untouched.\<close>

theorem probe_then_commit:
  assumes "winners w s = - 1" "branch_chan b = Some c" "foreign s c w" "is_send b \<longrightarrow> outbound b \<noteq> None"
  shows "if branch_ready b w
         then (\<exists>b' w'. try_now s b w = (Inr True, b', w') \<and> winners w' s = b_index b \<and> b_index b' = b_index b)
         else try_now s b w = (Inr False, b, w)"
  using try_now_spec [OF assms] .

theorem probe_then_commit_witness:
  "\<exists>b' w'. try_now 0 (send_branch (Some 0) 9 2) cex1 = (Inr True, b', w') \<and> winners w' 0 = 2"
proof -
  have w: "winners cex1 0 = - 1" "branch_ready (send_branch (Some 0) 9 2) cex1" by code_simp+
  have "receivers (chans cex1 0) = [1]" "senders (chans cex1 0) = []" "map_option rn_gate (rnodes cex1 1) = Some None"
    by code_simp+
  then have f: "foreign 0 0 cex1" by (auto simp: foreign_def)
  have b: "branch_chan (send_branch (Some 0) (9 :: nat) 2) = Some 0"
    "is_send (send_branch (Some 0) (9 :: nat) 2) \<longrightarrow> outbound (send_branch (Some 0) (9 :: nat) 2) \<noteq> None"
    by (simp_all add: branch_chan_def send_branch_def)
  from probe_then_commit [OF w(1) b(1) f b(2)] w(2) show ?thesis by (auto simp: send_branch_def)
qed

subsection \<open>The first ready branch wins\<close>

definition branch_ok :: "nat \<Rightarrow> 'a cworld \<Rightarrow> 'a select_branch \<Rightarrow> bool" where
  "branch_ok s w b \<longleftrightarrow>
     (\<exists>c. branch_chan b = Some c \<and> foreign s c w) \<and> (is_send b \<longrightarrow> outbound b \<noteq> None)"

lemma scan_first:
  assumes "winners w (sel B) = - 1" "\<forall>b\<in>set (branches B). branch_ok (sel B) w b"
    and "rotation B + k = length (branches B)"
  shows "case find (\<lambda>b. branch_ready b w) (drop (rotation B) (branches B)) of
           None \<Rightarrow> \<exists>B'. scan k B w = (Inr None, B', w) \<and> branches B' = branches B \<and> has_timer B' = has_timer B \<and>
             deadline B' = deadline B \<and> has_default B' = has_default B \<and> timer_index B' = timer_index B \<and>
             default_index B' = default_index B
         | Some b \<Rightarrow> \<exists>b' B' w'. scan k B w = (Inr (Some b'), B', w') \<and> b_index b' = b_index b \<and>
             winners w' (sel B) = b_index b"
  using assms
proof (induction k arbitrary: B)
  case 0
  then show ?case by simp
next
  case (Suc k)
  let ?i = "rotation B" let ?n = "length (branches B)" let ?b = "branches B ! ?i"
  let ?B = "B\<lparr>rotation := (?i + 1) mod ?n\<rparr>"
  have i: "?i < ?n" "?i mod ?n = ?i" using Suc.prems(3) by auto
  have d: "drop ?i (branches B) = ?b # drop (Suc ?i) (branches B)" using i by (simp add: Cons_nth_drop_Suc)
  obtain c where c: "branch_chan ?b = Some c" "foreign (sel B) c w" "is_send ?b \<longrightarrow> outbound ?b \<noteq> None"
    using Suc.prems(2) nth_mem [OF i(1)] by (meson branch_ok_def)
  note t = try_now_spec [OF Suc.prems(1) c]
  show ?case
  proof (cases "branch_ready ?b w")
    case True
    with t obtain b' w' where "try_now (sel B) ?b w = (Inr True, b', w')" "winners w' (sel B) = b_index ?b"
      "b_index b' = b_index ?b" by auto
    with True d i show ?thesis by (auto simp: Let_def)
  next
    case False
    with t have tn: "try_now (sel B) ?b w = (Inr False, ?b, w)" by simp
    have st: "scan (Suc k) B w = scan k ?B w"
      using tn i by (simp add: Let_def)
    show ?thesis
    proof (cases k)
      case 0
      with Suc.prems(3) d False st show ?thesis by auto
    next
      case (Suc j)
      then have r: "rotation ?B = Suc ?i" using Suc.prems(3) by simp
      from Suc.IH [of ?B] Suc.prems r d False st show ?thesis by (simp split: option.splits)
    qed
  qed
qed

text \<open>A select without a registration takes the first branch, in argument order, that is ready;
  only when none is ready does a timer that has expired win, and after it the default. The scan always
  starts at the first branch, so branches ready at the same time are not served in turn.\<close>

theorem select_takes_first_ready:
  assumes "winners w (sel B) = - 1" "rotation B = 0" "\<forall>b\<in>set (branches B). branch_ok (sel B) w b"
  shows "\<exists>r B' w'. select_fast now B w = (Inr r, B', w') \<and>
    (case find (\<lambda>b. branch_ready b w) (branches B) of
       Some b \<Rightarrow> (\<exists>x. r = Some x \<and> sr_index x = b_index b \<and> \<not> timed_out x \<and> \<not> defaulted x) \<and>
                winners w' (sel B) = b_index b
     | None \<Rightarrow> w' = w \<and>
         r = (if timer_expired now B then Some (timer_result B)
              else if has_default B then Some (default_result B) else None))"
proof -
  note sf = scan_first [OF assms(1,3), of "length (branches B)"]
  show ?thesis
  proof (cases "find (\<lambda>b. branch_ready b w) (branches B)")
    case None
    then obtain B' where "scan (length (branches B)) B w = (Inr None, B', w)" "has_timer B' = has_timer B"
      "deadline B' = deadline B" "has_default B' = has_default B" "timer_index B' = timer_index B"
      "default_index B' = default_index B"
      using sf assms(2) by auto
    with None show ?thesis
      by (auto simp: select_fast_def timer_expired_def timer_result_def default_result_def)
  next
    case (Some b)
    then obtain b' B' w' where "scan (length (branches B)) B w = (Inr (Some b'), B', w')" "b_index b' = b_index b"
      "winners w' (sel B) = b_index b"
      using sf assms(2) by auto
    with Some show ?thesis by (auto simp: select_fast_def branch_result_def no_result_def)
  qed
qed

text \<open>Two channels with one buffered value each: the first argument wins, every time.\<close>

definition two_ready :: "nat cworld" where
  "two_ready = \<lparr>chans = (\<lambda>c. (channel_new 1)\<lparr>buffer := [c + 10]\<rparr>), snodes = Map.empty, rnodes = Map.empty,
     winners = (\<lambda>_. - 1), c_loop = el_new\<rparr>"

theorem select_takes_first_ready_witness:
  "\<exists>x B' w'. select_fast 0 (select_new 0 [Recv_of (Some 0), Recv_of (Some 1)]) two_ready = (Inr (Some x), B', w') \<and>
     sr_index x = 0"
proof -
  let ?B = "select_new 0 [Recv_of (Some 0), Recv_of (Some 1)] :: nat select_body"
  have B: "branches ?B = [recv_branch (Some 0) 0, recv_branch (Some 1) 1]" "sel ?B = 0" "rotation ?B = 0"
    by (simp_all add: select_new_def)
  have w: "winners two_ready (sel ?B) = - 1" by (simp add: two_ready_def)
  have ok: "\<forall>b\<in>set (branches ?B). branch_ok (sel ?B) two_ready b"
    unfolding B by (simp add: B branch_ok_def branch_chan_def recv_branch_def foreign_def two_ready_def channel_new_def)
  have f: "find (\<lambda>b. branch_ready b two_ready) (branches ?B) = Some (recv_branch (Some 0) 0)"
    unfolding B by (simp add: branch_ready_def branch_chan_def recv_branch_def probe_has_message_def two_ready_def)
  from select_takes_first_ready [OF w B(3) ok, of 0] f show ?thesis by (auto simp: recv_branch_def)
qed

subsection \<open>One winner\<close>

text \<open>A node that has been served belongs to the branch the select has chosen.\<close>

definition served_ok :: "'a cworld \<Rightarrow> bool" where
  "served_ok w \<longleftrightarrow>
     (\<forall>n r s. rnodes w n = Some r \<longrightarrow> rn_gate r = Some s \<longrightarrow> rn_delivered r \<longrightarrow>
        winners w s = rn_tag r \<and> rn_tag r \<noteq> - 1) \<and>
     (\<forall>n x s. snodes w n = Some x \<longrightarrow> sn_gate x = Some s \<longrightarrow> sn_taken x \<longrightarrow>
        winners w s = sn_tag x \<and> sn_tag x \<noteq> - 1) \<and>
     (\<forall>n r s. rnodes w n = Some r \<longrightarrow> rn_gate r = Some s \<longrightarrow> rn_tag r \<noteq> - 1) \<and>
     (\<forall>n x s. snodes w n = Some x \<longrightarrow> sn_gate x = Some s \<longrightarrow> sn_tag x \<noteq> - 1)"

lemma served_ok_cong:
  "snodes w' = snodes w \<Longrightarrow> rnodes w' = rnodes w \<Longrightarrow> winners w' = winners w \<Longrightarrow> served_ok w' = served_ok w"
  by (simp add: served_ok_def)

lemma served_ok_simps [simp]:
  "served_ok (set_chan c st w) = served_ok w" "served_ok (channel_wake h w) = served_ok w"
  "served_ok (channel_close c w) = served_ok w" "served_ok (channel_note_no_receivers c w) = served_ok w"
  "served_ok (channel_drop_receiver c n w) = served_ok w" "served_ok (w\<lparr>c_loop := l\<rparr>) = served_ok w"
  by (rule served_ok_cong; simp add: close_fields channel_note_no_receivers_def channel_drop_receiver_def)+

lemma served_claim:
  assumes "served_ok w" "gate_claim g t w = (True, w')"
  shows "served_ok w'" "g = Some s \<Longrightarrow> winners w' s = t" "rnodes w' = rnodes w" "snodes w' = snodes w"
proof -
  show "g = Some s \<Longrightarrow> winners w' s = t" "rnodes w' = rnodes w" "snodes w' = snodes w"
    using assms(2) by (auto simp: gate_claim_def claim_def split: option.splits if_splits)
  show "served_ok w'"
  proof (cases g)
    case None
    with assms show ?thesis by simp
  next
    case (Some s)
    then have "winners w s = - 1" "w' = w\<lparr>winners := (winners w)(s := t)\<rparr>"
      using assms(2) by (auto simp: gate_claim_def claim_def split: if_splits)
    with assms(1) show ?thesis unfolding served_ok_def by (auto 0 3)
  qed
qed

lemma served_land:
  assumes "served_ok w" "rnodes w n = Some r" "\<And>s. rn_gate r = Some s \<Longrightarrow> winners w s = rn_tag r"
  shows "served_ok (land n v w)"
  using assms unfolding served_ok_def land_def by (auto split: if_splits)

lemma served_take:
  assumes "served_ok w" "snodes w n = Some x" "\<And>s. sn_gate x = Some s \<Longrightarrow> winners w s = sn_tag x"
  shows "served_ok (take_node n w)"
  using assms unfolding served_ok_def take_node_def by (auto split: if_splits)

lemma served_claim_take:
  assumes "served_ok w" "snodes w n = Some x" "gate_claim (sn_gate x) (sn_tag x) w = (True, w')"
  shows "served_ok (take_node n (set_chan c st w'))"
  using served_claim [OF assms(1,3)] assms(2) by (auto intro!: served_take)

lemma pick_receiver_served:
  "pick_receiver ns w = Some (n, rest, w') \<Longrightarrow> served_ok w \<Longrightarrow>
   served_ok w' \<and> rnodes w' = rnodes w \<and>
   (\<exists>r. rnodes w n = Some r \<and> (\<forall>s. rn_gate r = Some s \<longrightarrow> winners w' s = rn_tag r))"
proof (induction ns arbitrary: w n rest w')
  case (Cons m ns)
  then obtain r where r: "rnodes w m = Some r" by (auto split: option.splits)
  obtain b w1 where g: "gate_claim (rn_gate r) (rn_tag r) w = (b, w1)" by fastforce
  have fails: "\<not> b \<Longrightarrow> w1 = w" using any_gate.claim_fails_id [of "rn_gate r" "rn_tag r" w w1] g by auto
  show ?case
  proof (cases "gate_open (rn_gate r) w \<and> b")
    case True
    then have "n = m" "w' = w1" using Cons.prems(1) r g by auto
    with served_claim [OF Cons.prems(2)] g True r show ?thesis by auto
  next
    case False
    then obtain rest' where "pick_receiver ns w = Some (n, rest', w')"
      using Cons.prems(1) r g fails by (cases b) (auto split: if_splits)
    with Cons show ?thesis by blast
  qed
qed simp

lemma served_deliver: "served_ok w \<Longrightarrow> channel_deliver c v w = (b, w') \<Longrightarrow> served_ok w'"
  by (auto simp: channel_deliver_def Let_def split: option.splits dest!: pick_receiver_served
      intro!: served_land)

lemma served_take_pending: "served_ok w \<Longrightarrow> channel_take_pending_sender c w = (v, w') \<Longrightarrow> served_ok w'"
  by (auto simp: channel_take_pending_sender_def split: list.splits option.splits if_splits prod.splits bool.splits
      dest: any_gate.claim_fails_id intro: served_claim_take)

lemma served_promote: "served_ok w \<Longrightarrow> served_ok (channel_promote_senders c w)"
proof (induction c w rule: channel_promote_senders.induct)
  case (1 c w)
  obtain res w' where p: "promote_one c w = (res, w')" by fastforce
  have "served_ok w'"
    using p 1(2) by (auto simp: promote_one_def Let_def split: list.splits option.splits if_splits prod.splits
        bool.splits dest: any_gate.claim_fails_id intro: served_claim_take)
  moreover have "res = Some w1 \<Longrightarrow> w' = w1" for w1 using promote_one_less p by blast
  ultimately show ?case using p 1(1) [OF p [symmetric]]
    by (cases res; subst channel_promote_senders.simps) auto
qed

lemma served_return: "served_ok w \<Longrightarrow> channel_return_value c v w = (b, w') \<Longrightarrow> served_ok w'"
  by (auto simp: channel_return_value_def split: prod.splits bool.splits if_splits dest: served_deliver)

lemma served_send_ready: "served_ok w \<Longrightarrow> send_ready c v w = (b, w') \<Longrightarrow> served_ok w'"
  by (auto simp: send_ready_def split: prod.splits bool.splits if_splits dest: served_deliver)

lemma served_recv_ready: "served_ok w \<Longrightarrow> recv_ready c w = (v, w') \<Longrightarrow> served_ok w'"
  by (auto simp: recv_ready_def take_front_def served_promote
      split: list.splits prod.splits option.splits dest: served_take_pending)

lemma served_new_nodes:
  assumes "served_ok w"
  shows "\<not> sn_taken x \<Longrightarrow> (sn_gate x \<noteq> None \<longrightarrow> sn_tag x \<noteq> - 1) \<Longrightarrow> served_ok (w\<lparr>snodes := (snodes w)(n \<mapsto> x)\<rparr>)"
    and "\<not> rn_delivered r \<Longrightarrow> (rn_gate r \<noteq> None \<longrightarrow> rn_tag r \<noteq> - 1) \<Longrightarrow> served_ok (w\<lparr>rnodes := (rnodes w)(n \<mapsto> r)\<rparr>)"
    and "served_ok (w\<lparr>snodes := (snodes w)(n := None)\<rparr>)" "served_ok (w\<lparr>rnodes := (rnodes w)(n := None)\<rparr>)"
  using assms unfolding served_ok_def by (auto split: if_splits)

lemma served_send_suspend: "served_ok w \<Longrightarrow> served_ok (send_suspend c n v h w)"
  by (auto simp: send_suspend_def Let_def channel_drop_sender_def served_promote served_new_nodes)

lemma served_recv_suspend:
  assumes "served_ok w"
  shows "served_ok (recv_suspend c n h w)"
proof -
  let ?r = "\<lparr>rn_value = None, rn_handle = h, rn_delivered = False, rn_gate = None, rn_tag = - 1\<rparr>"
  let ?w = "set_chan c ((chans w c)\<lparr>receivers := receivers (chans w c) @ [n]\<rparr>) (w\<lparr>rnodes := (rnodes w)(n \<mapsto> ?r)\<rparr>)"
  have ok0: "served_ok (w\<lparr>rnodes := (rnodes w)(n \<mapsto> ?r)\<rparr>)"
    by (rule served_new_nodes(2) [OF assms]) simp_all
  then have ok: "served_ok ?w" by simp
  have land_ok: "served_ok (land n v w1)" if "served_ok w1" "rnodes w1 n = Some ?r" for v w1
    using served_land [OF that] by simp
  have tp: "served_ok (land n v w1)" if "channel_take_pending_sender c ?w = (x, w1)" for v x w1
  proof (rule land_ok)
    show "served_ok w1" using served_take_pending [OF ok that] .
    show "rnodes w1 n = Some ?r"
      using that by (auto simp: channel_take_pending_sender_def split: list.splits option.splits if_splits
          prod.splits bool.splits dest: gate_claim_frame)
  qed
  have "served_ok (land n v (set_chan c st (channel_drop_receiver c n ?w)))" for v st
    by (rule land_ok) (simp_all add: ok0 channel_drop_receiver_def)
  with ok tp served_take_pending [OF ok] show ?thesis
    by (auto simp: recv_suspend_def Let_def served_promote split: list.split prod.split option.split)
qed

lemma served_recv_resume: "served_ok w \<Longrightarrow> recv_resume n w = (v, w') \<Longrightarrow> served_ok w'"
  unfolding served_ok_def by (auto simp: recv_resume_def split: option.splits if_splits)

lemma served_destroy:
  "served_ok w \<Longrightarrow> served_ok (send_destroy c n w)"
  "served_ok w \<Longrightarrow> recv_destroy c n w = (b, w') \<Longrightarrow> served_ok w'"
  by (auto simp: send_destroy_def recv_destroy_def channel_drop_sender_def served_promote
      split: option.splits if_splits dest: served_return)

lemma served_arm: "served_ok w \<Longrightarrow> 0 \<le> b_index b \<Longrightarrow> served_ok (snd (arm s h n b w))"
  by (auto simp: arm_def arm_sender_def arm_receiver_def intro!: served_new_nodes split: option.split)

lemma served_disarm: "served_ok w \<Longrightarrow> served_ok (snd (disarm b w))"
  by (auto simp: disarm_def channel_drop_sender_def served_promote split: option.split)

text \<open>A select that probes has no node yet, so giving a claim back harms nobody.\<close>

definition unregistered :: "nat \<Rightarrow> 'a cworld \<Rightarrow> bool" where
  "unregistered s w \<longleftrightarrow>
     (\<forall>n r. rnodes w n = Some r \<longrightarrow> rn_gate r \<noteq> Some s) \<and> (\<forall>n x. snodes w n = Some x \<longrightarrow> sn_gate x \<noteq> Some s)"

lemma served_set_winner: "served_ok w \<Longrightarrow> unregistered s w \<Longrightarrow> served_ok (w\<lparr>winners := (winners w)(s := i)\<rparr>)"
  unfolding served_ok_def unregistered_def by (auto split: if_splits)

lemma served_commit:
  "served_ok w \<Longrightarrow> commit_accept c v w = (b, w') \<Longrightarrow> served_ok w'"
  "served_ok w \<Longrightarrow> commit_take c w = (x, w') \<Longrightarrow> served_ok w'"
  by (auto simp: commit_accept_def commit_take_def take_front_def served_promote
      split: list.splits prod.splits bool.splits option.splits if_splits dest: served_deliver served_take_pending)

lemma commit_fails_id:
  "commit_accept c v w = (False, w') \<Longrightarrow> w' = w" "commit_take c w = (None, w') \<Longrightarrow> w' = w"
  by (auto simp: commit_accept_def commit_take_def channel_deliver_def channel_take_pending_sender_def Let_def
      split: list.splits prod.splits bool.splits option.splits if_splits dest: any_gate.claim_fails_id)

lemma served_try_now:
  assumes "served_ok w" "unregistered s w" "try_now s b w = (r, b', w')"
  shows "served_ok w'"
proof -
  let ?w = "w\<lparr>winners := (winners w)(s := b_index b)\<rparr>"
  have ok: "served_ok ?w" "served_ok (?w\<lparr>winners := (winners ?w)(s := - 1)\<rparr>)"
    using served_set_winner [OF assms(1,2)] by simp_all
  have undo: "served_ok (w2\<lparr>winners := (winners w2)(s := - 1)\<rparr>)"
    if "commit_accept c v ?w = (False, w2) \<or> commit_take c ?w = (None, w2)" for c v w2
    using that commit_fails_id(1) [of c v ?w w2] commit_fails_id(2) [of c ?w w2] ok(2) by blast
  have cl: "claim s (b_index b) w = (True, ?w) \<or> claim s (b_index b) w = (False, w)" by (simp add: claim_def)
  show ?thesis
    using assms(1,3) cl ok(1) served_commit(1) [OF ok(1)] served_commit(2) [OF ok(1)] undo
    by (fastforce simp: try_now_def split: if_splits option.splits prod.splits bool.splits)
qed

text \<open>Any number of channels and selects: plain sends and receives, selects that probe, register and
  settle, closing and cancellation, in any order.\<close>

inductive sel_step :: "'a cworld \<Rightarrow> 'a cworld \<Rightarrow> bool" where
  ss_send: "send_ready c v w = (b, w') \<Longrightarrow> sel_step w w'"
| ss_send_wait: "sel_step w (send_suspend c n v h w)"
| ss_send_end: "sel_step w (drop_snode n (send_destroy c n w))"
| ss_recv: "recv_ready c w = (v, w') \<Longrightarrow> sel_step w w'"
| ss_recv_wait: "sel_step w (recv_suspend c n h w)"
| ss_recv_resume: "recv_resume n w = (v, w') \<Longrightarrow> sel_step w w'"
| ss_recv_end: "recv_destroy c n w = (b, w') \<Longrightarrow> sel_step w (drop_rnode n w')"
| ss_close: "sel_step w (channel_close c w)"
| ss_no_receivers: "sel_step w (channel_note_no_receivers c w)"
| ss_try: "unregistered s w \<Longrightarrow> try_now s b w = (r, b', w') \<Longrightarrow> sel_step w w'"
| ss_arm: "0 \<le> b_index b \<Longrightarrow> sel_step w (snd (arm s h n b w))"
| ss_disarm: "sel_step w (snd (disarm b w))"
| ss_loop: "sel_step w (w\<lparr>c_loop := l\<rparr>)"

lemma sel_step_served: "sel_step w w' \<Longrightarrow> served_ok w \<Longrightarrow> served_ok w'"
proof (induction rule: sel_step.induct)
  case (ss_send c v w b w')
  then show ?case by (rule served_send_ready [rotated])
next
  case (ss_send_wait w c n v h)
  then show ?case by (rule served_send_suspend)
next
  case (ss_send_end w n c)
  then show ?case by (simp add: drop_snode_def served_new_nodes(3) served_destroy(1))
next
  case (ss_recv c w v w')
  then show ?case by (rule served_recv_ready [rotated])
next
  case (ss_recv_wait w c n h)
  then show ?case by (rule served_recv_suspend)
next
  case (ss_recv_resume n w v w')
  then show ?case by (rule served_recv_resume [rotated])
next
  case (ss_recv_end c n w b w')
  then show ?case using served_destroy(2) [of w c n b w'] by (simp add: drop_rnode_def served_new_nodes(4))
next
  case (ss_close w c)
  then show ?case by simp
next
  case (ss_no_receivers w c)
  then show ?case by simp
next
  case (ss_try s w b r b' w')
  then show ?case by (simp add: served_try_now [of w s b r b' w'])
next
  case (ss_arm b w s h n)
  then show ?case by (simp add: served_arm)
next
  case (ss_disarm w b)
  then show ?case by (rule served_disarm)
next
  case (ss_loop w l)
  then show ?case by simp
qed

definition sel_start :: "'a cworld \<Rightarrow> bool" where
  "sel_start w \<longleftrightarrow> snodes w = Map.empty \<and> rnodes w = Map.empty"

interpretation selects: inductive_invariant sel_start sel_step served_ok
proof unfold_locales
  show "sel_start w \<Longrightarrow> served_ok w" for w :: "'a cworld" by (simp add: sel_start_def served_ok_def)
  show "served_ok w \<Longrightarrow> sel_step w w' \<Longrightarrow> served_ok w'" for w w' :: "'a cworld" by (rule sel_step_served)
qed

text \<open>C26. A select has one winner. Whatever coroutines do with any number of channels and selects, all
  nodes of one select that have been served, a value delivered to a receive node or taken from a send
  node, carry the tag of the one branch the select's state names as its winner. So no two branches of a
  select both take effect.\<close>

theorem select_single_winner:
  assumes "reachable sel_start sel_step w"
  shows "(\<forall>n r s. rnodes w n = Some r \<and> rn_gate r = Some s \<and> rn_delivered r \<longrightarrow>
            winners w s = rn_tag r \<and> rn_tag r \<noteq> - 1)
       \<and> (\<forall>n x s. snodes w n = Some x \<and> sn_gate x = Some s \<and> sn_taken x \<longrightarrow>
            winners w s = sn_tag x \<and> sn_tag x \<noteq> - 1)"
  using selects.invariant_reachable [OF assms] unfolding served_ok_def by blast

definition sex1 :: "nat cworld" where "sex1 = snd (arm 0 3 11 (recv_branch (Some 1) 1) cex0)"
definition sex2 :: "nat cworld" where "sex2 = snd (send_ready 1 5 sex1)"

theorem select_single_winner_witness:
  "reachable sel_start sel_step sex2 \<and> winners sex2 0 = 1 \<and> rnodes sex2 11 \<noteq> None"
proof -
  have "reachable sel_start sel_step cex0"
    by (rule reachable_init) (simp add: sel_start_def cex0_def)
  then have "reachable sel_start sel_step sex1"
    by (rule reachable_step) (simp add: sex1_def recv_branch_def ss_arm)
  moreover have "send_ready 1 5 sex1 = (True, sex2)"
    unfolding sex2_def by (rule prod_eqI) (code_simp, simp)
  ultimately have r: "reachable sel_start sel_step sex2"
    by (blast intro: reachable_step ss_send)
  have "map_option (\<lambda>r. (rn_gate r, rn_delivered r, rn_tag r)) (rnodes sex2 11) = Some (Some 0, True, 1)"
    by code_simp
  with select_single_winner [OF r] r show ?thesis by fastforce
qed

subsection \<open>Two runs that go wrong\<close>

text \<open>A select waits to send 7 on channel 0 or to receive on channel 1; coroutine 4 waits to send 8 on
  channel 0. A value arrives on channel 1, and before the select runs, coroutine 6 receives on channel 0.\<close>

definition stall_body :: "nat select_body" where
  "stall_body = select_new 0 [Send_of (Some 0) 7, Recv_of (Some 1)]"

definition stall1 :: "bool \<times> nat select_body \<times> nat cworld" where
  "stall1 = (case select_fast 0 stall_body cex0 of (r, B, w) \<Rightarrow> select_suspend 0 3 10 0 B w)"

definition stall2 :: "nat cworld" where
  "stall2 = send_suspend 0 20 8 4 (snd (send_ready 0 8 (snd (snd stall1))))"

definition stall3 :: "nat cworld" where "stall3 = snd (send_ready 1 5 stall2)"

definition stall4 :: "nat cworld" where "stall4 = recv_suspend 0 30 6 (snd (recv_ready 0 stall3))"

definition stall5 :: "nat cworld" where "stall5 = snd (settle (fst (snd stall1)) stall4)"

lemma rendezvous_no_room [simp]: "\<not> channel_has_room ((channel_new 0)\<lparr>senders := ss, receivers := rs\<rparr>)"
  "\<not> channel_has_room (channel_new 0)" "\<not> channel_has_room ((channel_new 0)\<lparr>senders := ss\<rparr>)"
  "\<not> channel_has_room ((channel_new 0)\<lparr>receivers := rs\<rparr>)"
  "\<not> channel_has_room ((channel_new 0)\<lparr>receivers := rs, senders := ss\<rparr>)"
  by (simp_all add: channel_has_room_def channel_new_def SIZE_MAX_def)

lemma channel_new_simps [simp]:
  "buffer (channel_new m) = []" "senders (channel_new m) = []" "receivers (channel_new m) = []"
  "\<not> send_closed (channel_new m)" "\<not> all_receivers_gone (channel_new m)"
  by (simp_all add: channel_new_def)

lemma stall1_fields:
  "fst stall1" "branches (fst (snd stall1)) =
     [(send_branch (Some 0) 7 0)\<lparr>snode := Some 10, outbound := None\<rparr>, (recv_branch (Some 1) 1)\<lparr>rnode := Some 11\<rparr>]"
  "sel (fst (snd stall1)) = 0" "\<not> has_timer (fst (snd stall1))" "timer_token (fst (snd stall1)) = None"
  "chans (snd (snd stall1)) = (\<lambda>_. channel_new 0)
     (0 := (channel_new 0)\<lparr>senders := [10]\<rparr>, 1 := (channel_new 0)\<lparr>receivers := [11]\<rparr>)"
  "snodes (snd (snd stall1)) = [10 \<mapsto> \<lparr>sn_value = 7, sn_handle = 3, sn_taken = False, sn_gate = Some 0, sn_tag = 0\<rparr>]"
  "rnodes (snd (snd stall1)) = [11 \<mapsto> \<lparr>rn_value = None, rn_handle = 3, rn_delivered = False, rn_gate = Some 0, rn_tag = 1\<rparr>]"
  "winners (snd (snd stall1)) = (\<lambda>_. - 1)"
proof -
  let ?b0 = "send_branch (Some 0) 7 0 :: nat select_branch" and ?b1 = "recv_branch (Some 1) 1 :: nat select_branch"
  have f: "select_fast 0 stall_body cex0 = (Inr None, stall_body\<lparr>rotation := 0\<rparr>, cex0)"
    by (simp add: select_fast_def stall_body_def select_new_def try_now_def send_branch_def recv_branch_def
        probe_can_accept_def probe_has_message_def timer_expired_def cex0_def numeral_2_eq_2)
  have B: "branches stall_body = [?b0, ?b1]" "sel stall_body = 0" "\<not> has_timer stall_body" "timer_token stall_body = None"
    by (simp_all add: stall_body_def select_new_def)
  have st: "stall1 = select_suspend 0 3 10 0 (stall_body\<lparr>rotation := 0\<rparr>) cex0" by (simp add: stall1_def f)
  show "fst stall1" "branches (fst (snd stall1)) =
     [(send_branch (Some 0) 7 0)\<lparr>snode := Some 10, outbound := None\<rparr>, (recv_branch (Some 1) 1)\<lparr>rnode := Some 11\<rparr>]"
  "sel (fst (snd stall1)) = 0" "\<not> has_timer (fst (snd stall1))" "timer_token (fst (snd stall1)) = None"
  "chans (snd (snd stall1)) = (\<lambda>_. channel_new 0)
     (0 := (channel_new 0)\<lparr>senders := [10]\<rparr>, 1 := (channel_new 0)\<lparr>receivers := [11]\<rparr>)"
  "snodes (snd (snd stall1)) = [10 \<mapsto> \<lparr>sn_value = 7, sn_handle = 3, sn_taken = False, sn_gate = Some 0, sn_tag = 0\<rparr>]"
  "rnodes (snd (snd stall1)) = [11 \<mapsto> \<lparr>rn_value = None, rn_handle = 3, rn_delivered = False, rn_gate = Some 0, rn_tag = 1\<rparr>]"
  "winners (snd (snd stall1)) = (\<lambda>_. - 1)"
    by (simp_all add: st select_suspend_def B arm_def arm_sender_def arm_receiver_def send_branch_def
        recv_branch_def timer_expired_def settled_now_def cex0_def)
qed

lemma stall2_fields:
  "chans stall2 = (\<lambda>_. channel_new 0)
     (0 := (channel_new 0)\<lparr>senders := [10, 20]\<rparr>, 1 := (channel_new 0)\<lparr>receivers := [11]\<rparr>)"
  "snodes stall2 = (snodes (snd (snd stall1)))
     (20 \<mapsto> \<lparr>sn_value = 8, sn_handle = 4, sn_taken = False, sn_gate = None, sn_tag = - 1\<rparr>)"
  "rnodes stall2 = rnodes (snd (snd stall1))" "winners stall2 = (\<lambda>_. - 1)"
  by (simp_all add: stall2_def send_ready_def send_suspend_def channel_deliver_def stall1_fields fun_upd_twist)

lemma stall3_fields:
  "chans stall3 = (\<lambda>_. channel_new 0) (0 := (channel_new 0)\<lparr>senders := [10, 20]\<rparr>, 1 := (channel_new 0)\<lparr>receivers := []\<rparr>)"
  "snodes stall3 = snodes stall2" "winners stall3 = (\<lambda>_. - 1)(0 := 1)"
  "rnodes stall3 = [11 \<mapsto> \<lparr>rn_value = Some 5, rn_handle = 3, rn_delivered = True, rn_gate = Some 0, rn_tag = 1\<rparr>]"
  by (simp_all add: stall3_def send_ready_def channel_deliver_def stall2_fields stall1_fields gate_open_def
      gate_claim_def claim_def can_admit_def land_def Let_def)

lemma stall4_fields:
  "chans stall4 = (\<lambda>_. channel_new 0)
     (0 := (channel_new 0)\<lparr>senders := [10, 20], receivers := [30]\<rparr>, 1 := (channel_new 0)\<lparr>receivers := []\<rparr>)"
  "snodes stall4 = snodes stall2" "winners stall4 = (\<lambda>_. - 1)(0 := 1)"
  "rnodes stall4 = (rnodes stall3)
     (30 \<mapsto> \<lparr>rn_value = None, rn_handle = 6, rn_delivered = False, rn_gate = None, rn_tag = - 1\<rparr>)"
  by (simp_all add: stall4_def recv_ready_def recv_suspend_def channel_take_pending_sender_def stall3_fields
      stall2_fields stall1_fields gate_open_def can_admit_def Let_def fun_upd_twist)

lemma stall5_fields:
  "senders (chans stall5 0) = [20]" "receivers (chans stall5 0) = [30]" "snodes stall5 = snodes stall2"
  "rnodes stall5 = rnodes stall4"
proof -
  have p: "promote_one 0 w = (None, w)" if "\<not> channel_has_room (chans w 0)" for w :: "nat cworld"
    using that by (auto simp: promote_one_def split: list.split)
  have pr: "channel_promote_senders 0 w = w" if "\<not> channel_has_room (chans w 0)" for w :: "nat cworld"
    using p [OF that] by (subst channel_promote_senders.simps) simp
  show "senders (chans stall5 0) = [20]" "receivers (chans stall5 0) = [30]" "snodes stall5 = snodes stall2"
    "rnodes stall5 = rnodes stall4"
    by (simp_all add: stall5_def settle_def disarm_def stall1_fields send_branch_def recv_branch_def stall4_fields
        stall2_fields channel_drop_sender_def channel_drop_receiver_def pr)
qed

text \<open>A select that withdraws from the head of a channel's senders can leave a sender and a receiver
  waiting for each other: in the run above the select completes with the value of channel 1, and then
  channel 0 has both a plain sender and a plain receiver in its queues, with nothing left to match them.\<close>

theorem select_withdrawal_strands_pair:
  "fst stall1 \<and> sr_index (select_finish 0 (fst (snd stall1)) stall4) = 1 \<and>
   sr_value (select_finish 0 (fst (snd stall1)) stall4) = Some 5 \<and>
   senders (chans stall5 0) = [20] \<and> receivers (chans stall5 0) = [30] \<and>
   map_option sn_gate (snodes stall5 20) = Some None \<and> map_option rn_gate (rnodes stall5 30) = Some None"
  by (simp add: stall5_fields stall4_fields stall3_fields stall2_fields stall1_fields select_finish_def
      send_branch_def recv_branch_def)

definition orphan :: "bool \<times> nat select_body \<times> nat cworld" where
  "orphan = select_suspend 0 3 10 0 (select_new 0 [Send_of (Some 0) 7]) cex0"

text \<open>A select whose only branch sends reports no branch at all when the channel is closed under it:
  it is woken by the closing and returns index \<open>- 1\<close>, which no caller can tell from a branch number.\<close>

theorem select_send_closed_no_branch:
  "fst orphan \<and>
   sr_index (select_finish 0 (fst (snd orphan)) (channel_close 0 (snd (snd orphan)))) = - 1 \<and>
   senders (chans (channel_close 0 (snd (snd orphan))) 0) = []"
  by (intro conjI; code_simp)

end
