(* ===== verification/Radix_Router.thy ===== *)
theory Radix_Router
  imports Coro_Prelude "HOL-Library.Char_ord" "HOL-Library.List_Lexorder"
begin

section \<open>The radix router\<close>

text \<open>
  The segment trie of router/radix_router.h: the captured parameters with their inline
  buffer, registration of a pattern in two passes, exact search of a pattern and the
  backtracking match of a request path.

  A node is the datatype \<open>node\<close>; since every node has one parent, the pointers into the
  arena are the tree itself. \<open>string_view\<close> is the text it shows. A \<open>node\<close> that the code
  updates through a pointer is rebuilt along the path from the root. Moving the value into the
  node may throw; \<open>throws\<close> says whether it does, and then the optional is as before (the
  guarantee of \<open>optional\<close> for an empty one, and of a strongly safe assignment else).

  The tree is read as a map from pattern segments to values (\<open>tree_lookup\<close>), and matching is
  specified by the relation \<open>pmatch\<close> between the segments of a pattern, a path and the captures.
\<close>

subsection \<open>Captured parameters\<close>

type_synonym param_pair = "string \<times> string"

record params_view =
  pv_inline :: "param_pair list"
  pv_n :: nat
  pv_spilled :: bool
  pv_overflow :: "param_pair list"

definition kInline :: nat where
  "kInline = 8"

definition params_new :: params_view where
  "params_new = \<lparr>pv_inline = replicate kInline ([], []), pv_n = 0, pv_spilled = False, pv_overflow = []\<rparr>"

definition pv_emplace_back :: "string \<Rightarrow> string \<Rightarrow> params_view \<Rightarrow> params_view" where
  "pv_emplace_back k v pv =
    (if pv_spilled pv then pv\<lparr>pv_overflow := pv_overflow pv @ [(k, v)]\<rparr>
     else if pv_n pv < kInline then
       pv\<lparr>pv_inline := (pv_inline pv)[pv_n pv := (k, v)], pv_n := pv_n pv + 1\<rparr>
     else pv\<lparr>pv_spilled := True, pv_overflow := take (pv_n pv) (pv_inline pv) @ [(k, v)]\<rparr>)"

definition pv_pop_back :: "params_view \<Rightarrow> params_view" where
  "pv_pop_back pv =
    (if pv_spilled pv then
       (if pv_overflow pv \<noteq> [] then pv\<lparr>pv_overflow := butlast (pv_overflow pv)\<rparr> else pv)
     else if pv_n pv > 0 then pv\<lparr>pv_n := pv_n pv - 1\<rparr> else pv)"

definition pv_clear :: "params_view \<Rightarrow> params_view" where
  "pv_clear pv = pv\<lparr>pv_n := 0, pv_spilled := False, pv_overflow := []\<rparr>"

definition pv_size :: "params_view \<Rightarrow> nat" where
  "pv_size pv = (if pv_spilled pv then length (pv_overflow pv) else pv_n pv)"

definition pv_at :: "params_view \<Rightarrow> nat \<Rightarrow> param_pair" where
  "pv_at pv i = (if pv_spilled pv then pv_overflow pv ! i else pv_inline pv ! i)"

subsection \<open>Nodes and the table of static children\<close>

datatype 'v node = Node
  (statics: "(string \<times> 'v node) list")
  (param: "'v node option")
  (wild: "'v node option")
  (node_name: string)
  (node_value: "'v option")

definition new_node :: "'v node" where
  "new_node = Node [] None None [] None"

definition named_node :: "string \<Rightarrow> 'v node" where
  "named_node nm = Node [] None None nm None"

definition kLinearMax :: nat where
  "kLinearMax = 8"

text \<open>\<open>std::lower_bound\<close>: halving of the range \<open>[first, first + len)\<close>.\<close>

fun lower_bound_from :: "(string \<times> 'v node) list \<Rightarrow> string \<Rightarrow> nat \<Rightarrow> nat \<Rightarrow> nat" where
  "lower_bound_from l seg first 0 = first"
| "lower_bound_from l seg first (Suc len) =
    (let half = Suc len div 2; mid = first + half
     in if fst (l ! mid) < seg then lower_bound_from l seg (mid + 1) (Suc len - half - 1)
        else lower_bound_from l seg first half)"

definition lower_bound_child :: "(string \<times> 'v node) list \<Rightarrow> string \<Rightarrow> nat" where
  "lower_bound_child l seg = lower_bound_from l seg 0 (length l)"

fun scan_child :: "(string \<times> 'v node) list \<Rightarrow> string \<Rightarrow> nat option" where
  "scan_child [] seg = None"
| "scan_child ((s, c) # l) seg = (if s = seg then Some 0 else map_option Suc (scan_child l seg))"

definition child_index :: "(string \<times> 'v node) list \<Rightarrow> string \<Rightarrow> nat option" where
  "child_index l seg =
    (if length l \<le> kLinearMax then scan_child l seg
     else let i = lower_bound_child l seg
          in if i < length l \<and> fst (l ! i) = seg then Some i else None)"

definition find_child :: "(string \<times> 'v node) list \<Rightarrow> string \<Rightarrow> 'v node option" where
  "find_child l seg = map_option (\<lambda>i. snd (l ! i)) (child_index l seg)"

definition find_or_create_child ::
    "(string \<times> 'v node) list \<Rightarrow> string \<Rightarrow> (string \<times> 'v node) list \<times> nat" where
  "find_or_create_child l seg =
    (case child_index l seg of
       Some i \<Rightarrow> (l, i)
     | None \<Rightarrow> let pos = lower_bound_child l seg
               in (take pos l @ [(seg, new_node)] @ drop pos l, pos))"

subsection \<open>Segments of a pattern\<close>

definition next_segment :: "string \<Rightarrow> string \<times> string" where
  "next_segment p =
    (let p = (if p \<noteq> [] \<and> hd p = CHR ''/'' then tl p else p)
     in (takeWhile (\<lambda>ch. ch \<noteq> CHR ''/'') p, dropWhile (\<lambda>ch. ch \<noteq> CHR ''/'') p))"

definition segment_has_misplaced_special :: "string \<Rightarrow> bool" where
  "segment_has_misplaced_special seg = (\<exists>ch\<in>set seg. ch = CHR '':'' \<or> ch = CHR ''*'')"

lemma next_segment_shorter:
  assumes "next_segment p = (seg, rem)" "p \<noteq> []"
  shows "length rem < length p"
proof (cases "hd p = CHR ''/''")
  case True
  then have "length rem \<le> length (tl p)"
    using assms by (simp add: next_segment_def Let_def del: length_tl) (metis length_dropWhile_le)
  also have "\<dots> < length p" using assms(2) by (cases p) auto
  finally show ?thesis .
next
  case False
  then have "rem = dropWhile (\<lambda>ch. ch \<noteq> CHR ''/'') (tl p)"
    using assms by (cases p) (auto simp: next_segment_def Let_def)
  then have "length rem \<le> length (tl p)" by (simp add: length_dropWhile_le del: length_tl)
  also have "\<dots> < length p" using assms(2) by (cases p) auto
  finally show ?thesis .
qed

lemma next_segment_Nil [simp]: "next_segment [] = ([], [])"
  by (simp add: next_segment_def)

lemma next_segment_shorter':
  assumes "next_segment p = (seg, rem)" "seg \<noteq> []"
  shows "length rem < length p"
  using next_segment_shorter [OF assms(1)] assms by (cases "p = []") auto

function validate_syntax :: "string \<Rightarrow> bool" where
  "validate_syntax rest =
    (if rest = [] then True
     else (case next_segment rest of (seg, remaining) \<Rightarrow>
       if seg = [] then remaining = []
       else if hd seg = CHR ''*'' then
         remaining = [] \<and> length seg > 1 \<and> \<not> segment_has_misplaced_special (tl seg)
       else if hd seg = CHR '':'' then
         (if length seg = 1 \<or> segment_has_misplaced_special (tl seg) then False
          else validate_syntax remaining)
       else if segment_has_misplaced_special seg then False
       else validate_syntax remaining))"
  by auto
termination
  by (relation "measure length") (auto dest: next_segment_shorter [OF sym])

text \<open>The walk of \<open>validate\<close> from the node \<open>cur\<close>.\<close>

function validate_from :: "'v node \<Rightarrow> string \<Rightarrow> bool" where
  "validate_from cur rest =
    (case next_segment rest of (seg, remaining) \<Rightarrow>
       if seg = [] then remaining = []
       else if hd seg = CHR ''*'' then
         (if remaining \<noteq> [] \<or> length seg = 1 \<or> segment_has_misplaced_special (tl seg) then False
          else (case wild cur of Some w \<Rightarrow> node_name w = tl seg | None \<Rightarrow> True))
       else if hd seg = CHR '':'' then
         (if length seg = 1 \<or> segment_has_misplaced_special (tl seg) then False
          else (case param cur of
                  Some p \<Rightarrow> if node_name p \<noteq> tl seg then False
                            else if remaining = [] then True else validate_from p remaining
                | None \<Rightarrow> validate_syntax remaining))
       else if segment_has_misplaced_special seg then False
       else (case find_child (statics cur) seg of
               None \<Rightarrow> validate_syntax remaining
             | Some c \<Rightarrow> if remaining = [] then True else validate_from c remaining))"
  by auto
termination
  by (relation "measure (\<lambda>(cur, rest). length rest)") (auto dest: next_segment_shorter' [OF sym])

declare validate_syntax.simps [simp del] validate_from.simps [simp del]

subsection \<open>The router\<close>

record 'v radix_router =
  rr_root :: "'v node"
  rr_count :: nat
  rr_log :: "string list"

definition router_new :: "'v radix_router" where
  "router_new = \<lparr>rr_root = new_node, rr_count = 0, rr_log = []\<rparr>"

fun has_double_slash :: "string \<Rightarrow> bool" where
  "has_double_slash (a # b # s) = (a = CHR ''/'' \<and> b = CHR ''/'' \<or> has_double_slash (b # s))"
| "has_double_slash s = False"

definition ill_formed :: "string \<Rightarrow> bool" where
  "ill_formed p = (p = [] \<or> hd p \<noteq> CHR ''/'' \<or> has_double_slash p)"

definition strip_slash :: "string \<Rightarrow> string" where
  "strip_slash p = (if length p > 1 \<and> last p = CHR ''/'' then butlast p else p)"

text \<open>The end of \<open>insert\<close>: whether the node had no value, and the node with the value stored.\<close>

definition store_value :: "'v \<Rightarrow> bool \<Rightarrow> 'v node \<Rightarrow> 'v node \<times> bool" where
  "store_value v throws cur =
    ((if throws then cur
      else Node (statics cur) (param cur) (wild cur) (node_name cur) (Some v)),
     node_value cur = None)"

text \<open>The second pass of \<open>insert\<close> from the node \<open>cur\<close>: the node rebuilt, and whether the
  pattern is new.\<close>

function build :: "'v \<Rightarrow> bool \<Rightarrow> string \<Rightarrow> 'v node \<Rightarrow> 'v node \<times> bool" where
  "build v throws rest cur =
    (case next_segment rest of (seg, remaining) \<Rightarrow>
       if seg = [] then store_value v throws cur
       else if hd seg = CHR ''*'' then
         (let w = (case wild cur of None \<Rightarrow> named_node (tl seg) | Some w \<Rightarrow> w);
              (w', new) = store_value v throws w
          in (Node (statics cur) (param cur) (Some w') (node_name cur) (node_value cur), new))
       else if hd seg = CHR '':'' then
         (let p = (case param cur of None \<Rightarrow> named_node (tl seg) | Some p \<Rightarrow> p);
              (p', new) = (if remaining = [] then store_value v throws p
                           else build v throws remaining p)
          in (Node (statics cur) (Some p') (wild cur) (node_name cur) (node_value cur), new))
       else
         (let (l, i) = find_or_create_child (statics cur) seg;
              (c', new) = (if remaining = [] then store_value v throws (snd (l ! i))
                           else build v throws remaining (snd (l ! i)))
          in (Node (l[i := (fst (l ! i), c')]) (param cur) (wild cur) (node_name cur)
                (node_value cur), new)))"
  by auto
termination
  by (relation "measure (\<lambda>(v, throws, rest, cur). length rest)")
    (auto dest: next_segment_shorter' [OF sym])

declare build.simps [simp del]

definition insert_route :: "string \<Rightarrow> 'v \<Rightarrow> bool \<Rightarrow> 'v radix_router \<Rightarrow> 'v radix_router \<times> bool result" where
  "insert_route pattern v throws r =
    (if ill_formed pattern then (r, Inr False)
     else let pattern = strip_slash pattern
     in if \<not> validate_from (rr_root r) pattern then (r, Inr False)
     else let (root, is_new) = build v throws pattern (rr_root r);
              r1 = r\<lparr>rr_root := root\<rparr>;
              r2 = (if is_new then r1\<lparr>rr_log := rr_log r1 @ [pattern]\<rparr> else r1)
     in if throws then
          ((if is_new then r2\<lparr>rr_log := butlast (rr_log r2)\<rparr> else r2), Inl (UserException 0))
        else ((if is_new then r2\<lparr>rr_count := rr_count r2 + 1\<rparr> else r2), Inr True))"

function find_from :: "'v node \<Rightarrow> string \<Rightarrow> 'v option" where
  "find_from cur pattern =
    (case next_segment pattern of (seg, remaining) \<Rightarrow>
       if seg = [] then node_value cur
       else
         (case (if hd seg = CHR '':'' then
                  (case param cur of None \<Rightarrow> None
                   | Some p \<Rightarrow> if node_name p \<noteq> tl seg then None else Some p)
                else if hd seg = CHR ''*'' then
                  (case wild cur of None \<Rightarrow> None
                   | Some w \<Rightarrow> if node_name w \<noteq> tl seg then None else Some w)
                else find_child (statics cur) seg) of
            None \<Rightarrow> None
          | Some c \<Rightarrow> if remaining = [] then node_value c else find_from c remaining))"
  by auto
termination
  by (relation "measure (\<lambda>(cur, rest). length rest)") (auto dest: next_segment_shorter' [OF sym])

declare find_from.simps [simp del]

definition find_exact :: "'v radix_router \<Rightarrow> string \<Rightarrow> 'v option" where
  "find_exact r pattern =
    (if ill_formed pattern then None
     else let pattern = strip_slash pattern
     in if \<not> validate_syntax pattern then None else find_from (rr_root r) pattern)"

definition router_clear :: "'v radix_router \<Rightarrow> 'v radix_router" where
  "router_clear r = \<lparr>rr_root = new_node, rr_count = 0, rr_log = []\<rparr>"

text \<open>The last branch of \<open>dfs\<close>: the wildcard child takes the rest of the path.\<close>

definition dfs_wild :: "'v node \<Rightarrow> string \<Rightarrow> params_view \<Rightarrow> 'v option \<times> params_view" where
  "dfs_wild cur rest caps =
    (case wild cur of
       None \<Rightarrow> (None, caps)
     | Some w \<Rightarrow>
         let cap = (if rest \<noteq> [] \<and> hd rest = CHR ''/'' then tl rest else rest);
             caps3 = pv_emplace_back (node_name w) cap caps
         in if node_value w \<noteq> None then (node_value w, caps3)
            else (None, pv_pop_back caps3))"

text \<open>\<open>dfs\<close> returns the value and the captures; \<open>None\<close> is the result \<open>false\<close>.\<close>

function dfs :: "'v node \<Rightarrow> string \<Rightarrow> params_view \<Rightarrow> 'v option \<times> params_view" where
  "dfs cur rest caps =
    (if rest = [] \<or> rest = ''/'' then (node_value cur, caps)
     else (case next_segment rest of (seg, remaining) \<Rightarrow>
       let (r1, caps1) =
             (if seg \<noteq> [] then
                (case find_child (statics cur) seg of
                   Some c \<Rightarrow> dfs c remaining caps
                 | None \<Rightarrow> (None, caps))
              else (None, caps))
       in if r1 \<noteq> None then (r1, caps1)
       else let (r2, caps2) =
             (case param cur of
                Some p \<Rightarrow>
                  if seg \<noteq> [] then
                    (let (r, cs) = dfs p remaining (pv_emplace_back (node_name p) seg caps1)
                     in if r \<noteq> None then (r, cs) else (None, pv_pop_back cs))
                  else (None, caps1)
              | None \<Rightarrow> (None, caps1))
       in if r2 \<noteq> None then (r2, caps2)
       else dfs_wild cur rest caps2))"
  by pat_completeness auto
termination
  by (relation "measure (\<lambda>(cur, rest, caps). length rest)")
    (auto dest: next_segment_shorter' [OF sym])

declare dfs.simps [simp del]

definition lookup :: "'v radix_router \<Rightarrow> string \<Rightarrow> params_view \<Rightarrow> 'v option \<times> params_view" where
  "lookup r path out_params =
    (if path = [] then (None, out_params) else dfs (rr_root r) path (pv_clear out_params))"

subsection \<open>The captures are a list\<close>

text \<open>What a small-buffer container promises: it is a list under appending, dropping the last
  element and clearing.\<close>

locale capture_stack =
  fixes abs :: "'s \<Rightarrow> 'e list"
    and ok :: "'s \<Rightarrow> bool"
    and push :: "'e \<Rightarrow> 's \<Rightarrow> 's"
    and pop :: "'s \<Rightarrow> 's"
    and clear :: "'s \<Rightarrow> 's"
  assumes push_law: "ok s \<Longrightarrow> ok (push e s) \<and> abs (push e s) = abs s @ [e]"
    and pop_law: "ok s \<Longrightarrow> ok (pop s) \<and> abs (pop s) = butlast (abs s)"
    and clear_law: "ok s \<Longrightarrow> ok (clear s) \<and> abs (clear s) = []"
begin

lemma undo: "ok s \<Longrightarrow> abs t = abs (push e s) \<Longrightarrow> ok t \<Longrightarrow> abs (pop t) = abs s"
  by (simp add: push_law pop_law)

lemma abs_pushes: "ok s \<Longrightarrow> ok (fold push es s) \<and> abs (fold push es s) = abs s @ es"
  by (induction es arbitrary: s) (simp_all add: push_law)

lemma refill: "ok s \<Longrightarrow> abs (fold push es (clear s)) = es"
  by (simp add: abs_pushes clear_law)

end

definition pv_ok :: "params_view \<Rightarrow> bool" where
  "pv_ok pv = (length (pv_inline pv) = kInline \<and> pv_n pv \<le> kInline)"

definition pv_list :: "params_view \<Rightarrow> param_pair list" where
  "pv_list pv = (if pv_spilled pv then pv_overflow pv else take (pv_n pv) (pv_inline pv))"

lemma pv_ok_ops:
  "pv_ok pv \<Longrightarrow> pv_ok (pv_emplace_back k v pv)"
  "pv_ok pv \<Longrightarrow> pv_ok (pv_pop_back pv)"
  "pv_ok pv \<Longrightarrow> pv_ok (pv_clear pv)"
  "pv_ok params_new"
  by (auto simp: pv_ok_def pv_emplace_back_def pv_pop_back_def pv_clear_def params_new_def)

lemma pv_list_emplace_back: "pv_ok pv \<Longrightarrow> pv_list (pv_emplace_back k v pv) = pv_list pv @ [(k, v)]"
  by (simp add: pv_ok_def pv_list_def pv_emplace_back_def take_Suc_conv_app_nth)

lemma pv_list_pop_back: "pv_ok pv \<Longrightarrow> pv_list (pv_pop_back pv) = butlast (pv_list pv)"
  by (simp add: pv_ok_def pv_list_def pv_pop_back_def butlast_take)

lemma pv_list_clear: "pv_list (pv_clear pv) = []"
  by (simp add: pv_list_def pv_clear_def)

interpretation captures: capture_stack pv_list pv_ok "\<lambda>(k, v). pv_emplace_back k v" pv_pop_back pv_clear
  by unfold_locales (auto simp: pv_ok_ops pv_list_emplace_back pv_list_pop_back pv_list_clear)

subsection \<open>The table of static children\<close>

definition keys :: "(string \<times> 'v node) list \<Rightarrow> string list" where
  "keys l = map fst l"

text \<open>Siblings are kept in strictly increasing order of their text.\<close>

definition in_order :: "(string \<times> 'v node) list \<Rightarrow> bool" where
  "in_order l = sorted_wrt (<) (keys l)"

lemma scan_child_Some:
  "scan_child l seg = Some i \<Longrightarrow> i < length l \<and> fst (l ! i) = seg \<and> map_of l seg = Some (snd (l ! i))"
  by (induction l seg arbitrary: i rule: scan_child.induct) (auto split: if_splits)

lemma scan_child_None: "scan_child l seg = None \<longleftrightarrow> map_of l seg = None"
  by (induction l seg rule: scan_child.induct) auto

lemma in_order_nth: "in_order l \<Longrightarrow> i < j \<Longrightarrow> j < length l \<Longrightarrow> fst (l ! i) < fst (l ! j)"
  by (simp add: in_order_def keys_def sorted_wrt_iff_nth_less)

lemma in_order_distinct: "in_order l \<Longrightarrow> distinct (map fst l)"
  by (simp add: in_order_def keys_def strict_sorted_iff)

text \<open>The result of \<open>lower_bound\<close>: the first index whose key is not smaller.\<close>

lemma lower_bound_from_partition:
  assumes "in_order l" "first + len \<le> length l"
    and "\<forall>i < first. fst (l ! i) < seg"
    and "\<forall>i. first + len \<le> i \<longrightarrow> i < length l \<longrightarrow> \<not> fst (l ! i) < seg"
  shows "lower_bound_from l seg first len \<le> length l
    \<and> (\<forall>i < lower_bound_from l seg first len. fst (l ! i) < seg)
    \<and> (\<forall>i. lower_bound_from l seg first len \<le> i \<longrightarrow> i < length l \<longrightarrow> \<not> fst (l ! i) < seg)"
  using assms
proof (induction l seg first len rule: lower_bound_from.induct)
  case (2 l seg first len)
  define half where "half = Suc len div 2"
  define mid where "mid = first + half"
  have lt: "mid < first + Suc len" "mid < length l" "half \<le> len"
    using "2.prems"(2) by (auto simp: mid_def half_def)
  show ?case
  proof (cases "fst (l ! mid) < seg")
    case True
    have small: "fst (l ! i) < seg" if "i < mid + 1" for i
    proof (cases "i = mid")
      case False
      with that have "fst (l ! i) < fst (l ! mid)"
        using in_order_nth [OF "2.prems"(1) _ lt(2)] by simp
      then show ?thesis using True by (rule less_trans)
    qed (use True in simp)
    then have small': "\<forall>i < mid + 1. fst (l ! i) < seg" by blast
    have eq: "mid + 1 + (Suc len - half - 1) = first + Suc len"
      using lt by (simp add: mid_def)
    have step: "lower_bound_from l seg first (Suc len) = lower_bound_from l seg (mid + 1) (Suc len - half - 1)"
      using True by (simp add: half_def mid_def Let_def)
    show ?thesis
      unfolding step
      by (rule "2.IH"(1) [OF half_def mid_def True "2.prems"(1)]) (use "2.prems" small' in \<open>simp_all only: eq\<close>)
  next
    case False
    have large: "\<not> fst (l ! i) < seg" if "mid \<le> i" "i < length l" for i
    proof (cases "i = mid")
      case f: False
      with that have "fst (l ! mid) < fst (l ! i)"
        using in_order_nth [OF "2.prems"(1) _ that(2)] by simp
      then show ?thesis using False less_trans by blast
    qed (use False in simp)
    have step: "lower_bound_from l seg first (Suc len) = lower_bound_from l seg first half"
      using False by (simp add: half_def mid_def Let_def)
    show ?thesis
      unfolding step
      by (rule "2.IH"(2) [OF half_def mid_def False "2.prems"(1)])
        (use "2.prems" large lt in \<open>simp_all add: mid_def\<close>)
  qed
qed simp

lemma lower_bound_child_partition:
  assumes "in_order l"
  shows "lower_bound_child l seg \<le> length l"
    and "i < lower_bound_child l seg \<Longrightarrow> fst (l ! i) < seg"
    and "lower_bound_child l seg \<le> i \<Longrightarrow> i < length l \<Longrightarrow> \<not> fst (l ! i) < seg"
  using lower_bound_from_partition [OF assms, of 0 "length l" seg]
  by (auto simp: lower_bound_child_def)

lemma child_index_Some:
  assumes "in_order l" "child_index l seg = Some i"
  shows "i < length l" "fst (l ! i) = seg" "map_of l seg = Some (snd (l ! i))"
proof -
  have *: "i < length l \<and> fst (l ! i) = seg"
    using assms(2) by (auto simp: child_index_def Let_def split: if_splits dest: scan_child_Some)
  then show "i < length l" "fst (l ! i) = seg" by simp_all
  show "map_of l seg = Some (snd (l ! i))"
    using * in_order_distinct [OF assms(1)]
    by (metis map_of_is_SomeI nth_mem prod.collapse)
qed

lemma child_index_None:
  assumes "in_order l" "child_index l seg = None"
  shows "map_of l seg = None"
proof (cases "length l \<le> kLinearMax")
  case False
  have "seg \<noteq> fst (l ! i)" if "i < length l" for i
  proof
    assume eq: "seg = fst (l ! i)"
    let ?b = "lower_bound_child l seg"
    have "\<not> i < ?b" using lower_bound_child_partition(2) [OF assms(1)] eq by fastforce
    moreover have "\<not> ?b < i"
      using in_order_nth [OF assms(1) _ that, of ?b] lower_bound_child_partition(3) [OF assms(1), of seg ?b]
        that eq by fastforce
    ultimately have "?b = i" by simp
    then show False using assms(2) False that eq by (simp add: child_index_def Let_def)
  qed
  then have "seg \<notin> fst ` set l" by (metis imageE in_set_conv_nth)
  then show ?thesis by (simp add: map_of_eq_None_iff)
qed (use assms in \<open>simp add: child_index_def scan_child_None\<close>)

theorem find_child_map: "in_order l \<Longrightarrow> find_child l seg = map_of l seg"
  by (cases "child_index l seg") (simp_all add: find_child_def child_index_None child_index_Some)

lemma map_of_update_nth:
  assumes "distinct (map fst l)" "i < length l" "fst (l ! i) = seg"
  shows "map_of (l[i := (seg, c)]) = (map_of l)(seg \<mapsto> c)"
  using assms
proof (induction l arbitrary: i)
  case (Cons x l)
  then show ?case
  proof (cases i)
    case (Suc j)
    with Cons.prems have "fst x \<noteq> seg" by auto
    with Suc Cons show ?thesis by (auto simp: fun_upd_twist)
  qed auto
qed simp

lemma keys_update_nth: "i < length l \<Longrightarrow> keys (l[i := (fst (l ! i), c)]) = keys l"
  by (simp add: keys_def map_update) (metis list_update_id nth_map)

lemma in_order_insert:
  assumes "in_order l" "map_of l seg = None"
  shows "in_order (take (lower_bound_child l seg) l @ [(seg, c)] @ drop (lower_bound_child l seg) l)"
proof -
  let ?b = "lower_bound_child l seg"
  have s: "sorted_wrt (<) (map fst (take ?b l))" "sorted_wrt (<) (map fst (drop ?b l))"
    using assms(1) by (simp_all add: in_order_def keys_def take_map [symmetric] drop_map [symmetric]
        sorted_wrt_take sorted_wrt_drop)
  have lo: "x < seg" if "x \<in> fst ` set (take ?b l)" for x
    using that lower_bound_child_partition(2) [OF assms(1)]
    by (auto simp: in_set_conv_nth) (metis fst_conv)
  have notin: "seg \<notin> fst ` set l" using assms(2) by (simp add: map_of_eq_None_iff)
  have hi: "seg < x" if x: "x \<in> fst ` set (drop ?b l)" for x
  proof -
    obtain j where "j < length l - ?b" "x = fst (l ! (?b + j))"
      using x by (auto simp: in_set_conv_nth)
    then have "\<not> x < seg" "x \<in> fst ` set l"
      using lower_bound_child_partition(3) [OF assms(1), of seg "?b + j"] by auto
    then show ?thesis using notin by (metis antisym_conv3)
  qed
  show ?thesis
    using s lo hi by (auto simp: in_order_def keys_def sorted_wrt_append intro: less_trans)
qed

lemma map_of_insert:
  "k \<notin> dom (map_of xs) \<Longrightarrow> map_of (xs @ [(k, v)] @ ys) = (map_of (xs @ ys))(k \<mapsto> v)"
  by (auto simp: map_add_def fun_eq_iff dom_def split: option.splits)

text \<open>What \<open>find_or_create_child\<close> promises: the index of the child of the segment in a table that
  has one more entry at most, a fresh node.\<close>

lemma find_or_create_child_spec:
  assumes "in_order l" "find_or_create_child l seg = (l', i)"
  shows "in_order l'" "i < length l'" "fst (l' ! i) = seg"
    and "map_of l' = (map_of l)(seg \<mapsto> snd (l' ! i))"
    and "snd (l' ! i) = (case map_of l seg of None \<Rightarrow> new_node | Some c \<Rightarrow> c)"
    and "set l' \<subseteq> insert (seg, new_node) (set l)"
proof -
  have "in_order l' \<and> i < length l' \<and> fst (l' ! i) = seg
    \<and> snd (l' ! i) = (case map_of l seg of None \<Rightarrow> new_node | Some c \<Rightarrow> c)
    \<and> map_of l' = (map_of l)(seg \<mapsto> snd (l' ! i)) \<and> set l' \<subseteq> insert (seg, new_node) (set l)"
  proof (cases "child_index l seg")
    case None
    let ?b = "lower_bound_child l seg"
    have ln: "length (take ?b l) = ?b" using lower_bound_child_partition(1) [OF assms(1)] by simp
    have l': "l' = take ?b l @ [(seg, new_node)] @ drop ?b l" "i = ?b"
      using assms(2) None by (auto simp: find_or_create_child_def Let_def)
    have none: "map_of l seg = None" by (rule child_index_None [OF assms(1) None])
    then have notin: "seg \<notin> fst ` set l" by (simp add: map_of_eq_None_iff)
    have at: "l' ! i = (seg, new_node)" using ln by (simp add: l' nth_append)
    have "seg \<notin> dom (map_of (take ?b l))"
      using notin by (auto simp: dom_map_of_conv_image_fst dest: in_set_takeD)
    then have "map_of l' = (map_of (take ?b l @ drop ?b l))(seg \<mapsto> new_node)"
      unfolding l' by (rule map_of_insert)
    then have "map_of l' = (map_of l)(seg \<mapsto> new_node)" by simp
    moreover have "in_order l'" using in_order_insert [OF assms(1) none] by (simp add: l')
    moreover have "set l' \<subseteq> insert (seg, new_node) (set l)"
      by (auto simp: l' dest: in_set_takeD in_set_dropD)
    moreover have "i < length l'" using lower_bound_child_partition(1) [OF assms(1), of seg] by (simp add: l')
    ultimately show ?thesis using at none by simp
  next
    case (Some j)
    then have "l' = l" "i = j" using assms(2) by (auto simp: find_or_create_child_def)
    then show ?thesis
      using child_index_Some [OF assms(1) Some] assms(1) by (auto simp: fun_upd_idem)
  qed
  then show "in_order l'" "i < length l'" "fst (l' ! i) = seg"
    "map_of l' = (map_of l)(seg \<mapsto> snd (l' ! i))"
    "snd (l' ! i) = (case map_of l seg of None \<Rightarrow> new_node | Some c \<Rightarrow> c)"
    "set l' \<subseteq> insert (seg, new_node) (set l)"
    by blast+
qed

text \<open>The children after the child of \<open>seg\<close> has been replaced.\<close>

lemma replace_child:
  assumes "in_order l" "find_or_create_child l seg = (l', i)"
  shows "in_order (l'[i := (fst (l' ! i), c)])"
    and "map_of (l'[i := (fst (l' ! i), c)]) = (map_of l)(seg \<mapsto> c)"
  using find_or_create_child_spec [OF assms] map_of_update_nth [of l' i seg c] keys_update_nth [of i l' c]
  by (auto simp: in_order_def in_order_distinct)

subsection \<open>The trie is a map from patterns\<close>

function segs :: "string \<Rightarrow> string list" where
  "segs p = (case next_segment p of (seg, remaining) \<Rightarrow> if seg = [] then [] else seg # segs remaining)"
  by auto
termination
  by (relation "measure length") (auto dest: next_segment_shorter' [OF sym])

declare segs.simps [simp del]

lemma segs_Nil [simp]: "segs [] = []"
  by (simp add: segs.simps)

lemma segs_step: "next_segment p = (seg, remaining) \<Longrightarrow> segs p = (if seg = [] then [] else seg # segs remaining)"
  by (subst segs.simps) simp

definition plain :: "string \<Rightarrow> bool" where
  "plain s = (s \<noteq> [] \<and> hd s \<noteq> CHR '':'' \<and> hd s \<noteq> CHR ''*'')"

text \<open>The child a pattern segment leads to.\<close>

definition child_of :: "'v node \<Rightarrow> string \<Rightarrow> 'v node option" where
  "child_of n s =
    (if s = [] then None
     else if hd s = CHR '':'' then
       (case param n of None \<Rightarrow> None | Some p \<Rightarrow> if node_name p = tl s then Some p else None)
     else if hd s = CHR ''*'' then
       (case wild n of None \<Rightarrow> None | Some w \<Rightarrow> if node_name w = tl s then Some w else None)
     else map_of (statics n) s)"

fun tree_lookup :: "'v node \<Rightarrow> string list \<Rightarrow> 'v option" where
  "tree_lookup n [] = node_value n"
| "tree_lookup n (s # ss) = (case child_of n s of None \<Rightarrow> None | Some c \<Rightarrow> tree_lookup c ss)"

inductive wf_node :: "'v node \<Rightarrow> bool" where
  wf_NodeI: "in_order ss \<Longrightarrow> (\<forall>x\<in>set ss. plain (fst x) \<and> wf_node (snd x)) \<Longrightarrow> (\<forall>c\<in>set_option p. wf_node c)
    \<Longrightarrow> (\<forall>c\<in>set_option w. wf_node c) \<Longrightarrow> wf_node (Node ss p w nm v)"

inductive_simps wf_node_simps: "wf_node (Node ss p w nm v)"

lemma wf_node_iff:
  "wf_node n \<longleftrightarrow> in_order (statics n) \<and> (\<forall>x\<in>set (statics n). plain (fst x) \<and> wf_node (snd x))
    \<and> (\<forall>c\<in>set_option (param n). wf_node c) \<and> (\<forall>c\<in>set_option (wild n). wf_node c)"
  by (cases n) (simp add: wf_node_simps)

lemma wf_new_node [simp]: "wf_node new_node" "wf_node (named_node nm)"
  by (simp_all add: new_node_def named_node_def wf_node_simps in_order_def keys_def)

lemma wf_child:
  assumes "wf_node n" "child_of n s = Some c"
  shows "wf_node c"
  using assms
  by (auto simp: child_of_def wf_node_iff [of n] split: if_splits option.splits dest!: map_of_SomeD)

lemma find_child_wf: "wf_node n \<Longrightarrow> find_child (statics n) s = map_of (statics n) s"
  by (simp add: find_child_map wf_node_iff [of n])

lemma wf_static_plain: "wf_node n \<Longrightarrow> map_of (statics n) s = Some c \<Longrightarrow> plain s"
  by (auto simp: wf_node_iff [of n] dest!: map_of_SomeD)

lemma tree_lookup_empty [simp]: "tree_lookup new_node ss = None" "tree_lookup (named_node nm) ss = None"
  by (cases ss; simp add: new_node_def named_node_def child_of_def)+

lemma find_from_tree: "wf_node cur \<Longrightarrow> find_from cur p = tree_lookup cur (segs p)"
proof (induction cur p rule: find_from.induct)
  case (1 cur p)
  obtain seg rem where ns: "next_segment p = (seg, rem)" by fastforce
  have step: "find_from cur p = (if seg = [] then node_value cur
      else case child_of cur seg of None \<Rightarrow> None
           | Some c \<Rightarrow> if rem = [] then node_value c else find_from c rem)"
    using ns by (subst find_from.simps)
      (auto simp: child_of_def find_child_wf [OF "1.prems"] split: option.splits)
  show ?case
  proof (cases "seg = [] \<or> child_of cur seg = None")
    case True
    then show ?thesis by (auto simp: step segs_step [OF ns])
  next
    case False
    then obtain c where c: "child_of cur seg = Some c" by auto
    have "find_from c rem = tree_lookup c (segs rem)" if "rem \<noteq> []"
      using False c that
      by (intro "1.IH" [OF ns [symmetric]] wf_child [OF "1.prems"])
        (auto simp: child_of_def find_child_wf [OF "1.prems"] split: option.splits if_splits)
    then show ?thesis using False c by (auto simp: step segs_step [OF ns])
  qed
qed

lemma validate_from_fresh:
  assumes "find_child (statics cur) = (\<lambda>s. None)" "param cur = None" "wild cur = None"
  shows "validate_from cur rest = validate_syntax rest"
proof -
  obtain seg rem where "next_segment rest = (seg, rem)" by fastforce
  moreover have "seg \<noteq> [] \<Longrightarrow> length seg \<noteq> Suc 0 \<Longrightarrow> Suc 0 < length seg"
    by (cases seg) auto
  ultimately show ?thesis
    using assms unfolding validate_from.simps [of cur rest] validate_syntax.simps [of rest] by auto
qed

lemma find_child_Nil: "find_child [] = (\<lambda>s. None)"
  by (simp add: fun_eq_iff find_child_def child_index_def)

lemma validate_fresh [simp]:
  "validate_from new_node rest = validate_syntax rest"
  "validate_from (named_node nm) rest = validate_syntax rest"
  by (simp_all add: validate_from_fresh new_node_def named_node_def find_child_Nil)

text \<open>The node \<open>build\<close> works on next, and the check that is left for it.\<close>

definition child_or_new :: "'v node \<Rightarrow> string \<Rightarrow> 'v node" where
  "child_or_new cur seg =
    (case child_of cur seg of Some c \<Rightarrow> c
     | None \<Rightarrow> if plain seg then new_node else named_node (tl seg))"

lemma wf_child_or_new: "wf_node cur \<Longrightarrow> wf_node (child_or_new cur seg)"
  by (auto simp: child_or_new_def split: option.splits dest: wf_child)

lemma name_child_or_new: "seg \<noteq> [] \<Longrightarrow> \<not> plain seg \<Longrightarrow> node_name (child_or_new cur seg) = tl seg"
  by (auto simp: child_or_new_def child_of_def plain_def named_node_def split: option.splits if_splits)

lemma lookup_child_or_new:
  "tree_lookup (child_or_new cur seg) ts = (case child_of cur seg of None \<Rightarrow> None | Some c \<Rightarrow> tree_lookup c ts)"
  by (simp add: child_or_new_def split: option.splits)

lemma validate_step:
  assumes "wf_node cur" "next_segment rest = (seg, rem)" "seg \<noteq> []" "validate_from cur rest"
  shows "rem \<noteq> [] \<Longrightarrow> validate_from (child_or_new cur seg) rem"
    and "hd seg = CHR ''*'' \<Longrightarrow> rem = []"
    and "hd seg = CHR '':'' \<Longrightarrow> param cur = Some p \<Longrightarrow> node_name p = tl seg"
    and "hd seg = CHR ''*'' \<Longrightarrow> wild cur = Some w \<Longrightarrow> node_name w = tl seg"
  using assms(2-4) find_child_wf [OF assms(1), of seg]
  by (auto simp: validate_from.simps [of cur rest] child_or_new_def child_of_def plain_def
      split: if_splits option.splits)

text \<open>The node with the child of a segment replaced.\<close>

definition set_child :: "'v node \<Rightarrow> string \<Rightarrow> 'v node \<Rightarrow> 'v node \<Rightarrow> bool" where
  "set_child cur seg c n \<longleftrightarrow>
    (\<forall>s. child_of n s = (if s = seg then Some c else child_of cur s)) \<and>
    node_value n = node_value cur \<and> node_name n = node_name cur \<and> wf_node n"

lemma set_child_lookup:
  "set_child cur seg c n \<Longrightarrow>
    tree_lookup n ts = (case ts of [] \<Rightarrow> node_value cur
      | s # ss \<Rightarrow> if s = seg then tree_lookup c ss else tree_lookup cur ts)"
  by (cases ts) (auto simp: set_child_def)

lemma set_child_static:
  assumes "wf_node cur" "plain seg" "wf_node c" "find_or_create_child (statics cur) seg = (l, i)"
  shows "set_child cur seg c (Node (l[i := (fst (l ! i), c)]) (param cur) (wild cur) (node_name cur) (node_value cur))"
    and "snd (l ! i) = child_or_new cur seg"
proof -
  have ord: "in_order (statics cur)" using assms(1) by (simp add: wf_node_iff [of cur])
  note f = find_or_create_child_spec [OF ord assms(4)] and r = replace_child [OF ord assms(4), of c]
  have "set (l[i := (fst (l ! i), c)]) \<subseteq> insert (seg, c) (insert (seg, new_node) (set (statics cur)))"
    using set_update_subset_insert [of l i "(fst (l ! i), c)"] f(3,6) by blast
  then have "wf_node (Node (l[i := (fst (l ! i), c)]) (param cur) (wild cur) (node_name cur) (node_value cur))"
    using assms r(1) by (auto simp: wf_node_simps wf_node_iff [of cur])
  then show "set_child cur seg c (Node (l[i := (fst (l ! i), c)]) (param cur) (wild cur) (node_name cur) (node_value cur))"
    using assms(2) r(2) by (auto simp: set_child_def child_of_def plain_def)
  show "snd (l ! i) = child_or_new cur seg"
    using f(5) assms(2) by (auto simp: child_or_new_def child_of_def plain_def split: option.splits)
qed

lemma set_child_param:
  assumes "wf_node cur" "hd seg = CHR '':''" "seg \<noteq> []" "wf_node c" "node_name c = tl seg"
    and "\<And>p. param cur = Some p \<Longrightarrow> node_name p = tl seg"
  shows "set_child cur seg c (Node (statics cur) (Some c) (wild cur) (node_name cur) (node_value cur))"
  using assms
  by (auto simp: set_child_def child_of_def wf_node_simps wf_node_iff [of cur] split: option.splits)
    (metis hd_Cons_tl)+

lemma set_child_wild:
  assumes "wf_node cur" "hd seg = CHR ''*''" "seg \<noteq> []" "wf_node c" "node_name c = tl seg"
    and "\<And>p. wild cur = Some p \<Longrightarrow> node_name p = tl seg"
  shows "set_child cur seg c (Node (statics cur) (param cur) (Some c) (node_name cur) (node_value cur))"
  using assms
  by (auto simp: set_child_def child_of_def wf_node_simps wf_node_iff [of cur] split: option.splits)
    (metis hd_Cons_tl)+

subsection \<open>Registration\<close>

text \<open>What one stage of the second pass does to a subtree: the pattern \<open>ss\<close> gets the value.\<close>

definition stored :: "'v \<Rightarrow> bool \<Rightarrow> string list \<Rightarrow> 'v node \<Rightarrow> 'v node \<times> bool \<Rightarrow> bool" where
  "stored v throws ss cur res \<longleftrightarrow>
    wf_node (fst res) \<and> node_name (fst res) = node_name cur \<and>
    (\<forall>ts. tree_lookup (fst res) ts = (if ts = ss \<and> \<not> throws then Some v else tree_lookup cur ts)) \<and>
    snd res = (tree_lookup cur ss = None)"

lemma store_value_stored: "wf_node cur \<Longrightarrow> stored v throws [] cur (store_value v throws cur)"
proof -
  assume wf: "wf_node cur"
  have "tree_lookup (Node (statics cur) (param cur) (wild cur) (node_name cur) (Some v)) ts
    = (if ts = [] then Some v else tree_lookup cur ts)" for ts
    by (cases ts) (auto simp: child_of_def)
  then show ?thesis
    using wf by (auto simp: stored_def store_value_def wf_node_simps wf_node_iff [of cur])
qed

lemma stored_under:
  assumes "stored v throws ss (child_or_new cur seg) (c, new)" "set_child cur seg c n"
  shows "stored v throws (seg # ss) cur (n, new)"
proof -
  have "tree_lookup n ts = (if ts = seg # ss \<and> \<not> throws then Some v else tree_lookup cur ts)" for ts
    using assms(1) set_child_lookup [OF assms(2), of ts]
    by (auto simp: stored_def lookup_child_or_new split: list.splits)
  then show ?thesis
    using assms by (auto simp: stored_def set_child_def lookup_child_or_new)
qed

lemma build_stored:
  "wf_node cur \<Longrightarrow> validate_from cur rest \<Longrightarrow> stored v throws (segs rest) cur (build v throws rest cur)"
proof (induction v throws rest cur rule: build.induct)
  case (1 v throws rest cur)
  obtain seg rem where ns: "next_segment rest = (seg, rem)" by fastforce
  let ?c = "child_or_new cur seg"
  define sub where "sub = (if rem = [] then store_value v throws ?c else build v throws rem ?c)"
  obtain c new where sub: "sub = (c, new)" by fastforce
  show ?case
  proof (cases "seg = []")
    case True
    then show ?thesis
      using ns store_value_stored [OF "1.prems"(1), of v throws]
      by (simp add: build.simps [of v throws rest cur] segs_step)
  next
    case ne: False
    note v = validate_step [OF "1.prems"(1) ns ne "1.prems"(2)]
    have wfc: "wf_node ?c" by (rule wf_child_or_new [OF "1.prems"(1)])
    consider (wild) "hd seg = CHR ''*''" | (param) "hd seg = CHR '':''" | (static) "plain seg"
      using ne by (auto simp: plain_def)
    then show ?thesis
    proof cases
      case wild
      have c: "(case wild cur of None \<Rightarrow> named_node (tl seg) | Some w \<Rightarrow> w) = ?c"
        using wild ne v(4) by (auto simp: child_or_new_def child_of_def plain_def split: option.splits)
      have st: "stored v throws [] ?c (c, new)"
        using store_value_stored [OF wfc, of v throws] sub v(2) [OF wild] by (simp add: sub_def)
      have "node_name ?c = tl seg"
        using wild ne by (intro name_child_or_new) (auto simp: plain_def)
      then have "set_child cur seg c (Node (statics cur) (param cur) (Some c) (node_name cur) (node_value cur))"
        using st by (intro set_child_wild [OF "1.prems"(1) wild ne]) (auto simp: stored_def v(4) [OF wild])
      then show ?thesis
        using stored_under [OF st] ns ne wild sub v(2) [OF wild]
        by (simp add: build.simps [of v throws rest cur] c segs_step sub_def Let_def)
    next
      case param
      have c: "(case param cur of None \<Rightarrow> named_node (tl seg) | Some p \<Rightarrow> p) = ?c"
        using param ne v(3) by (auto simp: child_or_new_def child_of_def plain_def split: option.splits)
      have st: "stored v throws (segs rem) ?c (c, new)"
        using store_value_stored [OF wfc, of v throws] "1.IH"(1) [OF ns [symmetric] ne] wfc v(1) param c sub
        by (auto simp: sub_def split: if_splits)
      have "node_name ?c = tl seg"
        using param ne by (intro name_child_or_new) (auto simp: plain_def)
      then have "set_child cur seg c (Node (statics cur) (Some c) (wild cur) (node_name cur) (node_value cur))"
        using st by (intro set_child_param [OF "1.prems"(1) param ne]) (auto simp: stored_def v(3) [OF param])
      then show ?thesis
        using stored_under [OF st] ns ne param sub
        by (auto simp: build.simps [of v throws rest cur] c segs_step sub_def Let_def split: if_splits)
    next
      case static
      obtain l i where li: "find_or_create_child (statics cur) seg = (l, i)" by fastforce
      note c = set_child_static(2) [OF "1.prems"(1) static wfc li]
      have st: "stored v throws (segs rem) ?c (c, new)"
        using store_value_stored [OF wfc, of v throws] "1.IH"(2) [OF ns [symmetric] ne] wfc v(1) static c sub li
        by (auto simp: sub_def plain_def split: if_splits)
      then have "wf_node c" by (simp add: stored_def)
      then show ?thesis
        using stored_under [OF st set_child_static(1) [OF "1.prems"(1) static _ li]] ns ne static sub
        by (auto simp: build.simps [of v throws rest cur] c li segs_step sub_def Let_def plain_def
            split: if_splits)
    qed
  qed
qed

lemma validate_from_syntax: "wf_node cur \<Longrightarrow> validate_from cur rest \<Longrightarrow> validate_syntax rest"
proof (induction cur rest rule: validate_from.induct)
  case (1 cur rest)
  obtain seg rem where ns: "next_segment rest = (seg, rem)" by fastforce
  have one: "seg \<noteq> [] \<Longrightarrow> length seg \<noteq> Suc 0 \<Longrightarrow> Suc 0 < length seg" by (cases seg) auto
  have param: "wf_node p" if "param cur = Some p" for p
    using that "1.prems"(1) by (simp add: wf_node_iff [of cur])
  have static: "wf_node c" if "find_child (statics cur) seg = Some c" for c
    using that "1.prems"(1) by (auto simp: find_child_wf wf_node_iff [of cur] dest!: map_of_SomeD)
  have nil: "validate_syntax []" by (simp add: validate_syntax.simps)
  note unf = validate_from.simps [of cur rest] validate_syntax.simps [of rest]
  consider (none) "seg = []" | (wild) "seg \<noteq> []" "hd seg = CHR ''*''" | (param) "seg \<noteq> []" "hd seg = CHR '':''"
    | (static) "seg \<noteq> []" "hd seg \<noteq> CHR ''*''" "hd seg \<noteq> CHR '':''" by blast
  then show ?case
  proof cases
    case param
    then show ?thesis
      using "1.prems"(2) "1.IH"(1) [OF ns [symmetric]] ns nil \<open>\<And>p. param cur = Some p \<Longrightarrow> wf_node p\<close>
      unfolding unf by (cases "param cur"; cases "rem = []") (auto split: if_splits)
  next
    case static
    then show ?thesis
      using "1.prems"(2) "1.IH"(2) [OF ns [symmetric]] ns nil
        \<open>\<And>c. find_child (statics cur) seg = Some c \<Longrightarrow> wf_node c\<close>
      unfolding unf by (cases "find_child (statics cur) seg"; cases "rem = []") (auto split: if_splits)
  qed (use "1.prems"(2) ns one in \<open>unfold unf, auto split: if_splits\<close>)
qed

subsection \<open>Patterns and their segments\<close>

lemma has_double_slash_iff: "has_double_slash p \<longleftrightarrow> (\<exists>xs ys. p = xs @ ''//'' @ ys)"
proof (induction p rule: has_double_slash.induct)
  case (1 a b s)
  have "(\<exists>xs ys. a # b # s = xs @ ''//'' @ ys)
    \<longleftrightarrow> a = CHR ''/'' \<and> b = CHR ''/'' \<or> (\<exists>xs ys. b # s = xs @ ''//'' @ ys)"
    by (auto simp: Cons_eq_append_conv)
  with 1 show ?case by simp
qed (auto simp: Cons_eq_append_conv)

lemma has_double_slash_part: "has_double_slash q \<Longrightarrow> has_double_slash (xs @ q @ ys)"
  unfolding has_double_slash_iff by (metis append.assoc)

lemma has_double_slash_in: "has_double_slash (xs @ ''//'' @ ys)"
  unfolding has_double_slash_iff by blast

definition normal :: "string \<Rightarrow> bool" where
  "normal p = (p \<noteq> [] \<and> hd p = CHR ''/'' \<and> \<not> has_double_slash p \<and> (length p > 1 \<longrightarrow> last p \<noteq> CHR ''/''))"

lemma normal_strip_slash:
  assumes "\<not> ill_formed p"
  shows "normal (strip_slash p)"
proof (cases "length p > 1 \<and> last p = CHR ''/''")
  case True
  define q where "q = butlast p"
  have "p \<noteq> []" using True by auto
  then have p: "p = q @ ''/''" using True append_butlast_last_id [of p] by (simp add: q_def)
  have "q \<noteq> []" using True p by auto
  moreover have "hd q = CHR ''/''" using assms p \<open>q \<noteq> []\<close> by (auto simp: ill_formed_def)
  moreover have "\<not> has_double_slash q"
    using assms has_double_slash_part [of q "[]" "''/''"] p by (auto simp: ill_formed_def)
  moreover have "last q \<noteq> CHR ''/''"
  proof
    assume "last q = CHR ''/''"
    then obtain r where "q = r @ ''/''" using \<open>q \<noteq> []\<close> append_butlast_last_id [of q] by metis
    then have "p = r @ ''//'' @ []" by (simp add: p)
    then show False using assms has_double_slash_in [of r "[]"] by (auto simp: ill_formed_def)
  qed
  ultimately show ?thesis using True by (simp add: normal_def strip_slash_def q_def)
next
  case False
  then have "strip_slash p = p" by (simp only: strip_slash_def if_False)
  then show ?thesis using assms False by (simp only: normal_def ill_formed_def) blast
qed

lemma normal_fixed: "normal p \<Longrightarrow> \<not> ill_formed p \<and> strip_slash p = p"
  unfolding normal_def ill_formed_def strip_slash_def by presburger

text \<open>A normal pattern can be read back from its segments.\<close>

lemma normal_step:
  assumes "normal p" "next_segment p = (seg, rem)"
  shows "p = CHR ''/'' # seg @ rem" "rem \<noteq> [] \<Longrightarrow> normal rem \<and> rem \<noteq> ''/''" "seg = [] \<Longrightarrow> rem = []"
proof -
  obtain q where p: "p = CHR ''/'' # q" using assms(1) by (cases p) (auto simp: normal_def)
  have sr: "seg = takeWhile (\<lambda>ch. ch \<noteq> CHR ''/'') q" "rem = dropWhile (\<lambda>ch. ch \<noteq> CHR ''/'') q"
    using assms(2) by (simp_all add: next_segment_def p)
  then show *: "p = CHR ''/'' # seg @ rem" by (simp add: p)
  have hd: "hd rem = CHR ''/''" if "rem \<noteq> []" using that sr hd_dropWhile [of "\<lambda>ch. ch \<noteq> CHR ''/''" q] by simp
  have nd: "\<not> has_double_slash rem"
    using assms(1) has_double_slash_part [of rem "CHR ''/'' # seg" "[]"] *
    unfolding normal_def by (metis append_Cons append_Nil2)
  show "normal rem \<and> rem \<noteq> ''/''" if "rem \<noteq> []"
  proof -
    have "last rem \<noteq> CHR ''/''" using assms(1) * that by (simp add: normal_def)
    then show ?thesis using that hd nd unfolding normal_def by fastforce
  qed
  show "rem = []" if "seg = []"
  proof (rule ccontr)
    assume "rem \<noteq> []"
    then have "p = [] @ ''//'' @ tl rem" using hd * \<open>seg = []\<close> by (cases rem) auto
    then have "has_double_slash p" using has_double_slash_in [of "[]" "tl rem"] by simp
    then show False using assms(1) by (simp add: normal_def)
  qed
qed

lemma join_segs: "normal p \<Longrightarrow> p = ''/'' \<or> p = concat (map (\<lambda>s. CHR ''/'' # s) (segs p))"
proof (induction p rule: segs.induct)
  case (1 p)
  obtain seg rem where ns: "next_segment p = (seg, rem)" by fastforce
  note st = normal_step [OF "1.prems" ns]
  show ?case
  proof (cases "seg = [] \<or> rem = []")
    case True
    then show ?thesis using st segs_step [OF ns] by (auto split: if_splits)
  next
    case False
    then have "rem = concat (map (\<lambda>s. CHR ''/'' # s) (segs rem))"
      using "1.IH" [OF ns [symmetric]] st(2) by auto
    moreover have "concat (map (\<lambda>s. CHR ''/'' # s) (segs p))
        = CHR ''/'' # seg @ concat (map (\<lambda>s. CHR ''/'' # s) (segs rem))"
      using False by (simp add: segs_step [OF ns])
    ultimately show ?thesis using st(1) by metis
  qed
qed

lemma segs_root [simp]: "segs ''/'' = []"
  by (simp add: segs.simps next_segment_def)

lemma segs_inj:
  assumes "normal p" "normal q" "segs p = segs q"
  shows "p = q"
  using join_segs [OF assms(1)] join_segs [OF assms(2)] assms by (auto simp: normal_def)

subsection \<open>Routers\<close>

definition router_ok :: "'v radix_router \<Rightarrow> bool" where
  "router_ok r \<longleftrightarrow> wf_node (rr_root r) \<and> distinct (rr_log r) \<and> rr_count r = length (rr_log r) \<and>
    (\<forall>p\<in>set (rr_log r). normal p \<and> validate_syntax p) \<and>
    (\<forall>ts. tree_lookup (rr_root r) ts \<noteq> None \<longleftrightarrow> ts \<in> segs ` set (rr_log r))"

lemma router_ok_new: "router_ok router_new"
  by (simp add: router_ok_def router_new_def)

lemma find_exact_tree:
  "router_ok r \<Longrightarrow> find_exact r p =
    (if ill_formed p \<or> \<not> validate_syntax (strip_slash p) then None
     else tree_lookup (rr_root r) (segs (strip_slash p)))"
  by (simp add: find_exact_def find_from_tree router_ok_def Let_def)

lemma logged_iff:
  assumes "router_ok r" "normal p" "validate_syntax p"
  shows "p \<in> set (rr_log r) \<longleftrightarrow> tree_lookup (rr_root r) (segs p) \<noteq> None"
  using assms segs_inj unfolding router_ok_def by blast

text \<open>The result of a registration that passed the checks.\<close>

lemma insert_route_cases:
  assumes ok: "router_ok r" and ins: "insert_route p v throws r = (r', res)"
  obtains "r' = r" "res = Inr False"
  | q root new where "\<not> ill_formed p" "q = strip_slash p" "normal q" "validate_syntax q"
      "stored v throws (segs q) (rr_root r) (root, new)" "new = (q \<notin> set (rr_log r))"
      "res = (if throws then Inl (UserException 0) else Inr True)"
      "r' = \<lparr>rr_root = root, rr_count = rr_count r + (if new \<and> \<not> throws then 1 else 0),
             rr_log = rr_log r @ (if new \<and> \<not> throws then [q] else [])\<rparr>"
proof (cases "ill_formed p \<or> \<not> validate_from (rr_root r) (strip_slash p)")
  case True
  then show ?thesis using ins that(1) by (cases "ill_formed p") (auto simp: insert_route_def Let_def)
next
  case False
  define q where "q = strip_slash p"
  obtain root new where b: "build v throws q (rr_root r) = (root, new)" by fastforce
  have wf: "wf_node (rr_root r)" using ok by (simp add: router_ok_def)
  have q: "normal q" "validate_syntax q" and st: "stored v throws (segs q) (rr_root r) (root, new)"
    using False normal_strip_slash validate_from_syntax [OF wf] build_stored [OF wf, of q v throws] b
    by (auto simp: q_def)
  have new: "new = (q \<notin> set (rr_log r))" using st logged_iff [OF ok q] by (auto simp: stored_def)
  have "res = (if throws then Inl (UserException 0) else Inr True) \<and>
    r' = \<lparr>rr_root = root, rr_count = rr_count r + (if new \<and> \<not> throws then 1 else 0),
      rr_log = rr_log r @ (if new \<and> \<not> throws then [q] else [])\<rparr>"
    using ins False b by (cases new; cases throws) (auto simp: insert_route_def q_def Let_def)
  then show ?thesis using that(2) False q st new by (auto simp: q_def)
qed

lemma insert_keeps_ok:
  assumes "router_ok r" "insert_route p v throws r = (r', res)"
  shows "router_ok r'"
  using assms
proof (cases rule: insert_route_cases)
  case (2 q root new)
  have lk: "\<And>ts. (tree_lookup (rr_root r) ts \<noteq> None) = (ts \<in> segs ` set (rr_log r))"
    using assms(1) by (simp add: router_ok_def)
  have dom: "(tree_lookup (rr_root r') ts \<noteq> None) = (ts \<in> segs ` set (rr_log r'))" for ts
    using 2(5,6,8) lk [of ts] by (auto simp: stored_def)
  have "wf_node (rr_root r')" using 2(5,8) by (simp add: stored_def)
  moreover have "distinct (rr_log r') \<and> rr_count r' = length (rr_log r') \<and>
      (\<forall>p\<in>set (rr_log r'). normal p \<and> validate_syntax p)"
    using 2(3,4,6,8) assms(1) by (auto simp: router_ok_def)
  ultimately show ?thesis using dom unfolding router_ok_def by blast
qed (use assms in simp)

definition same_pattern :: "string \<Rightarrow> string \<Rightarrow> bool" where
  "same_pattern p q = (\<not> ill_formed q \<and> strip_slash q = strip_slash p)"

lemma insert_find:
  assumes "router_ok r" "insert_route p v throws r = (r', res)" "res \<noteq> Inr False"
  shows "find_exact r' t = (if same_pattern p t \<and> \<not> throws then Some v else find_exact r t)"
  using assms(1,2)
proof (cases rule: insert_route_cases)
  case (2 q root new)
  have ok': "router_ok r'" by (rule insert_keeps_ok [OF assms(1,2)])
  have root: "rr_root r' = root" using 2(8) by simp
  show ?thesis
  proof (cases "ill_formed t \<or> \<not> validate_syntax (strip_slash t)")
    case True
    then show ?thesis
      using 2(2,4) by (auto simp: find_exact_tree [OF ok'] find_exact_tree [OF assms(1)] same_pattern_def)
  next
    case False
    then have "segs (strip_slash t) = segs q \<longleftrightarrow> strip_slash t = q"
      using segs_inj normal_strip_slash 2(3) by blast
    then show ?thesis
      using False 2(2,5)
      by (auto simp: find_exact_tree [OF ok'] find_exact_tree [OF assms(1)] same_pattern_def stored_def root)
  qed
qed (use assms(3) in simp)

text \<open>C25. Registering a pattern: on success exactly that pattern (up to one trailing slash) has the
  new value and the log grows by the normalised pattern if it was not registered; a rejected
  pattern leaves the router as it was; when storing the value throws, the tree may have more nodes
  but every exact search, the count and the log are as before.\<close>

theorem insert_then_find:
  assumes "router_ok r" "insert_route p v throws r = (r', res)"
  shows "case res of
      Inr True \<Rightarrow> (\<forall>q. find_exact r' q = (if same_pattern p q then Some v else find_exact r q)) \<and>
        rr_log r' = (if strip_slash p \<in> set (rr_log r) then rr_log r else rr_log r @ [strip_slash p])
    | Inr False \<Rightarrow> r' = r
    | Inl e \<Rightarrow> (\<forall>q. find_exact r' q = find_exact r q) \<and> rr_count r' = rr_count r \<and> rr_log r' = rr_log r"
  using assms
proof (cases rule: insert_route_cases)
  case (2 q root new)
  then have "find_exact r' t = (if same_pattern p t \<and> \<not> throws then Some v else find_exact r t)" for t
    by (intro insert_find [OF assms]) simp
  then show ?thesis using 2 by (auto split: sum.splits)
qed simp

lemma insert_then_find_witness:
  "case insert_route ''/user/:id/'' (7::nat) False router_new of (r', res) \<Rightarrow>
    res = Inr True \<and> find_exact r' ''/user/:id'' = Some 7 \<and> find_exact r' ''/user/me'' = None"
proof -
  have res: "snd (insert_route ''/user/:id/'' (7::nat) False router_new) = Inr True"
    by code_simp
  obtain r' where ins: "insert_route ''/user/:id/'' (7::nat) False router_new = (r', Inr True)"
    using res by (metis prod.collapse)
  have "find_exact r' q = (if same_pattern ''/user/:id/'' q then Some 7 else find_exact router_new q)" for q
    using insert_then_find [OF router_ok_new ins] by simp
  moreover have "same_pattern ''/user/:id/'' ''/user/:id''" "\<not> same_pattern ''/user/:id/'' ''/user/me''"
    by code_simp+
  moreover have "find_exact (router_new :: nat radix_router) ''/user/me'' = None" by code_simp
  ultimately show ?thesis using ins by simp
qed

subsection \<open>Every reachable router\<close>

inductive router_step :: "'v radix_router \<Rightarrow> 'v radix_router \<Rightarrow> bool" where
  step_insert: "router_step r (fst (insert_route p v throws r))"
| step_clear: "router_step r (router_clear r)"

interpretation routers: inductive_invariant "\<lambda>r. r = router_new" router_step router_ok
proof
  fix r r' :: "'v radix_router"
  assume "router_ok r" "router_step r r'"
  then show "router_ok r'"
    by (auto elim!: router_step.cases intro: insert_keeps_ok surjective_pairing)
      (simp add: router_clear_def router_ok_new [unfolded router_new_def])
qed (simp add: router_ok_new)

text \<open>After any sequence of registrations and clears, the log lists without repetition exactly
  the normalised patterns an exact search finds, and the count is its length.\<close>

theorem log_is_the_route_set:
  assumes "reachable (\<lambda>r. r = router_new) router_step r"
  shows "distinct (rr_log r) \<and> rr_count r = length (rr_log r) \<and>
    set (rr_log r) = {p. normal p \<and> find_exact r p \<noteq> None}"
proof -
  have ok: "router_ok r" by (rule routers.invariant_reachable [OF assms])
  have "p \<in> set (rr_log r) \<longleftrightarrow> normal p \<and> find_exact r p \<noteq> None" for p
  proof (cases "normal p \<and> validate_syntax p")
    case True
    then show ?thesis using logged_iff [OF ok] normal_fixed [of p] by (simp add: find_exact_tree [OF ok])
  next
    case False
    then have "p \<notin> set (rr_log r)" using ok by (auto simp: router_ok_def)
    then show ?thesis using False normal_fixed [of p] by (auto simp: find_exact_tree [OF ok])
  qed
  then show ?thesis using ok by (auto simp: router_ok_def)
qed

lemma log_is_the_route_set_witness:
  "rr_log (fst (insert_route ''/a/'' (1::nat) False router_new)) = [''/a''] \<and>
   set (rr_log (fst (insert_route ''/a/'' (1::nat) False router_new))) =
     {p. normal p \<and> find_exact (fst (insert_route ''/a/'' (1::nat) False router_new)) p \<noteq> None}"
proof -
  have "reachable (\<lambda>r. r = router_new) router_step (fst (insert_route ''/a/'' (1::nat) False router_new))"
    by (rule reachable.intros(2), rule reachable.intros(1), rule refl, rule step_insert)
  from log_is_the_route_set [OF this]
  have "set (rr_log (fst (insert_route ''/a/'' (1::nat) False router_new))) =
     {p. normal p \<and> find_exact (fst (insert_route ''/a/'' (1::nat) False router_new)) p \<noteq> None}" by blast
  moreover have "rr_log (fst (insert_route ''/a/'' (1::nat) False router_new)) = [''/a'']" by code_simp
  ultimately show ?thesis by blast
qed

subsection \<open>Matching a request path\<close>

definition at_end :: "string \<Rightarrow> bool" where
  "at_end rest = (rest = [] \<or> rest = ''/'')"

definition wild_capture :: "string \<Rightarrow> string" where
  "wild_capture rest = (if rest \<noteq> [] \<and> hd rest = CHR ''/'' then tl rest else rest)"

text \<open>A pattern, given by its segments, matches a path with some captures: a literal segment matches
  itself, \<open>:name\<close> one non-empty segment, \<open>*name\<close> all that is left.\<close>

inductive pmatch :: "string list \<Rightarrow> string \<Rightarrow> param_pair list \<Rightarrow> bool" where
  match_end: "at_end rest \<Longrightarrow> pmatch [] rest []"
| match_static: "\<not> at_end rest \<Longrightarrow> next_segment rest = (seg, rem) \<Longrightarrow> plain seg \<Longrightarrow> pmatch ps rem cs
    \<Longrightarrow> pmatch (seg # ps) rest cs"
| match_param: "\<not> at_end rest \<Longrightarrow> next_segment rest = (seg, rem) \<Longrightarrow> seg \<noteq> [] \<Longrightarrow> pmatch ps rem cs
    \<Longrightarrow> pmatch ((CHR '':'' # nm) # ps) rest ((nm, seg) # cs)"
| match_wild: "\<not> at_end rest \<Longrightarrow> pmatch [CHR ''*'' # nm] rest [(nm, wild_capture rest)]"

inductive_cases pmatch_ConsE: "pmatch (p # ps) rest cs"
inductive_cases pmatch_NilE: "pmatch [] rest cs"

text \<open>Which of two patterns wins: at the first segment where they differ in kind, a literal beats
  a parameter and a parameter beats a wildcard.\<close>

definition kind :: "string \<Rightarrow> nat" where
  "kind s = (if plain s then 0 else if hd s = CHR '':'' then 1 else 2)"

fun preferred :: "string list \<Rightarrow> string list \<Rightarrow> bool" where
  "preferred [] qs = True"
| "preferred (p # ps) [] = False"
| "preferred (p # ps) (q # qs) = (kind p < kind q \<or> kind p = kind q \<and> preferred ps qs)"

lemma kind_simps [simp]:
  "plain s \<Longrightarrow> kind s = 0" "kind (CHR '':'' # nm) = 1" "kind (CHR ''*'' # nm) = 2"
  "\<not> plain (CHR '':'' # nm)" "\<not> plain (CHR ''*'' # nm)" "\<not> plain []"
  by (simp_all add: kind_def plain_def)

text \<open>The result of the search below a node: the preferred pattern among those that match, or no
  pattern matches and the captures are as before.\<close>

definition best :: "'v node \<Rightarrow> string \<Rightarrow> params_view \<Rightarrow> 'v option \<times> params_view \<Rightarrow> bool" where
  "best n rest caps res \<longleftrightarrow> pv_ok (snd res) \<and>
    (case fst res of
       None \<Rightarrow> pv_list (snd res) = pv_list caps \<and> (\<forall>qs ds. pmatch qs rest ds \<longrightarrow> tree_lookup n qs = None)
     | Some v \<Rightarrow> \<exists>ps cs. pmatch ps rest cs \<and> tree_lookup n ps = Some v \<and> pv_list (snd res) = pv_list caps @ cs
         \<and> (\<forall>qs ds. pmatch qs rest ds \<longrightarrow> tree_lookup n qs \<noteq> None \<longrightarrow> preferred ps qs))"

lemma pmatch_Cons_iff:
  assumes "\<not> at_end rest" "next_segment rest = (seg, rem)"
  shows "pmatch (q # qs) rest ds \<longleftrightarrow>
    (plain q \<and> q = seg \<and> pmatch qs rem ds) \<or>
    (\<exists>nm es. q = CHR '':'' # nm \<and> seg \<noteq> [] \<and> ds = (nm, seg) # es \<and> pmatch qs rem es) \<or>
    (\<exists>nm. q = CHR ''*'' # nm \<and> qs = [] \<and> ds = [(nm, wild_capture rest)])"
  using assms by (auto elim!: pmatch_ConsE intro: pmatch.intros)

lemma pmatch_not_end: "\<not> at_end rest \<Longrightarrow> \<not> pmatch [] rest ds"
  by (auto elim: pmatch_NilE)

text \<open>No registered pattern that starts with a segment of the given kind matches.\<close>

definition none_of :: "nat \<Rightarrow> 'v node \<Rightarrow> string \<Rightarrow> bool" where
  "none_of k n rest = (\<forall>q qs ds. kind q = k \<longrightarrow> pmatch (q # qs) rest ds \<longrightarrow> tree_lookup n (q # qs) = None)"

lemma none_ofD: "none_of k n rest \<Longrightarrow> pmatch (q # qs) rest ds \<Longrightarrow> tree_lookup n (q # qs) \<noteq> None \<Longrightarrow> kind q \<noteq> k"
  unfolding none_of_def by metis

lemma kind_cases: "q \<noteq> [] \<Longrightarrow> kind q = 0 \<longleftrightarrow> plain q" "kind q = 0 \<or> kind q = 1 \<or> kind q = 2"
  by (simp_all add: kind_def)

lemma best_static:
  assumes "\<not> at_end rest" "next_segment rest = (seg, rem)" "plain seg" "map_of (statics n) seg = Some c"
    and b: "best c rem caps (r, cs)"
  shows "r \<noteq> None \<Longrightarrow> best n rest caps (r, cs)"
    and "r = None \<Longrightarrow> none_of 0 n rest"
proof -
  note pm = pmatch_Cons_iff [OF assms(1,2)]
  have ch: "tree_lookup n (seg # qs) = tree_lookup c qs" for qs
    using assms(3,4) by (simp add: child_of_def plain_def)
  show "none_of 0 n rest" if "r = None"
    using b that ch unfolding none_of_def best_def pm by auto
  show "best n rest caps (r, cs)" if "r \<noteq> None"
  proof -
    obtain v where v: "r = Some v" using \<open>r \<noteq> None\<close> by blast
    then obtain ps ds where *: "pmatch ps rem ds" "tree_lookup c ps = Some v" "pv_list cs = pv_list caps @ ds"
      "\<And>qs es. pmatch qs rem es \<Longrightarrow> tree_lookup c qs \<noteq> None \<Longrightarrow> preferred ps qs" "pv_ok cs"
      using b by (auto simp: best_def)
    have pref: "preferred (seg # ps) qs" if "pmatch qs rest es" "tree_lookup n qs \<noteq> None" for qs es
    proof (cases qs)
      case (Cons q qs')
      with that show ?thesis using assms(3) *(4) ch by (auto simp: pm)
    qed (use that pmatch_not_end [OF assms(1)] in auto)
    then show ?thesis
      using v *(1,2,3,5) ch assms(3) pref unfolding best_def
      by (auto simp: pm intro!: exI [of _ "seg # ps"] exI [of _ ds])
  qed
qed

lemma best_param:
  assumes "\<not> at_end rest" "next_segment rest = (seg, rem)" "seg \<noteq> []" "param n = Some p" "pv_ok caps"
    and z: "none_of 0 n rest" and b: "best p rem (pv_emplace_back (node_name p) seg caps) (r, cs)"
  shows "r \<noteq> None \<Longrightarrow> best n rest caps (r, cs)"
    and "r = None \<Longrightarrow> none_of 1 n rest"
    and "r = None \<Longrightarrow> pv_list (pv_pop_back cs) = pv_list caps \<and> pv_ok (pv_pop_back cs)"
proof -
  note pm = pmatch_Cons_iff [OF assms(1,2)]
  have ch: "tree_lookup n ((CHR '':'' # nm) # qs) = (if nm = node_name p then tree_lookup p qs else None)" for nm qs
    using assms(4) by (auto simp: child_of_def)
  note pe = pv_list_emplace_back [OF assms(5)] pv_ok_ops(1) [OF assms(5)]
  show "none_of 1 n rest" if "r = None"
    using b that ch unfolding none_of_def best_def pm by auto
  show "pv_list (pv_pop_back cs) = pv_list caps \<and> pv_ok (pv_pop_back cs)" if "r = None"
    using b that pe by (auto simp: best_def pv_list_pop_back pv_ok_ops)
  show "best n rest caps (r, cs)" if "r \<noteq> None"
  proof -
    obtain v where v: "r = Some v" using \<open>r \<noteq> None\<close> by blast
    then obtain ps ds where *: "pmatch ps rem ds" "tree_lookup p ps = Some v"
      "pv_list cs = pv_list (pv_emplace_back (node_name p) seg caps) @ ds"
      "\<And>qs es. pmatch qs rem es \<Longrightarrow> tree_lookup p qs \<noteq> None \<Longrightarrow> preferred ps qs" "pv_ok cs"
      using b by (auto simp: best_def)
    have pref: "preferred ((CHR '':'' # node_name p) # ps) qs" if "pmatch qs rest es" "tree_lookup n qs \<noteq> None" for qs es
    proof (cases qs)
      case (Cons q qs')
      have "kind q \<noteq> 0" using none_ofD [OF z] that Cons by blast
      with that Cons show ?thesis using *(4) ch by (auto simp: pm split: if_splits)
    qed (use that pmatch_not_end [OF assms(1)] in auto)
    then show ?thesis
      using v *(1,2,3,5) ch assms(3) pe unfolding best_def
      by (auto simp: pm intro!: exI [of _ "(CHR '':'' # node_name p) # ps"] exI [of _ "(node_name p, seg) # ds"])
  qed
qed

lemma none_of_all:
  assumes "\<not> at_end rest" "none_of 0 n rest" "none_of 1 n rest" "none_of 2 n rest" "pmatch qs rest ds"
  shows "tree_lookup n qs = None"
  using assms kind_cases(2) pmatch_not_end [OF assms(1)]
  by (cases qs) (auto simp: none_of_def simp del: tree_lookup.simps, blast)

lemma best_wild:
  assumes "\<not> at_end rest" "pv_ok caps" "none_of 0 n rest" "none_of 1 n rest"
    and w: "wild n = Some w" and eq: "pv_list caps' = pv_list caps" "pv_ok caps'"
    and cs: "cs = pv_emplace_back (node_name w) (wild_capture rest) caps'"
  shows "node_value w \<noteq> None \<Longrightarrow> best n rest caps (node_value w, cs)"
    and "node_value w = None \<Longrightarrow> best n rest caps (None, pv_pop_back cs)"
proof -
  obtain seg rem where ns: "next_segment rest = (seg, rem)" by fastforce
  note pm = pmatch_Cons_iff [OF assms(1) ns]
  have ch: "tree_lookup n [CHR ''*'' # nm] = (if nm = node_name w then node_value w else None)" for nm
    using w by (auto simp: child_of_def)
  have two: "\<exists>nm. qs = [CHR ''*'' # nm]" if "pmatch qs rest ds" "tree_lookup n qs \<noteq> None" for qs ds
  proof (cases qs)
    case (Cons q qs')
    have "kind q \<noteq> 0" "kind q \<noteq> 1"
      using none_ofD [OF assms(3)] none_ofD [OF assms(4)] that Cons by blast+
    with that(1) Cons show ?thesis by (auto simp: pm)
  qed (use that pmatch_not_end [OF assms(1)] in auto)
  have pe: "pv_list cs = pv_list caps @ [(node_name w, wild_capture rest)]" "pv_ok cs"
    "pv_list (pv_pop_back cs) = pv_list caps" "pv_ok (pv_pop_back cs)"
    by (simp_all add: cs eq pv_list_emplace_back pv_list_pop_back pv_ok_ops)
  show "best n rest caps (node_value w, cs)" if "node_value w \<noteq> None"
  proof -
    obtain v where v: "node_value w = Some v" using \<open>node_value w \<noteq> None\<close> by blast
    have "preferred [CHR ''*'' # node_name w] qs" if "pmatch qs rest ds" "tree_lookup n qs \<noteq> None" for qs ds
      using two [OF that] by auto
    moreover have "pmatch [CHR ''*'' # node_name w] rest [(node_name w, wild_capture rest)]"
      by (rule match_wild [OF assms(1)])
    moreover have "tree_lookup n [CHR ''*'' # node_name w] = Some v" using ch v by simp
    ultimately show ?thesis unfolding best_def fst_conv snd_conv v option.case using pe by blast
  qed
  show "best n rest caps (None, pv_pop_back cs)" if "node_value w = None"
  proof -
    have "tree_lookup n qs = None" if "pmatch qs rest ds" for qs ds
      using two [OF that] ch \<open>node_value w = None\<close>
      by (cases "tree_lookup n qs = None") (auto split: if_splits)
    then show ?thesis using pe by (simp add: best_def)
  qed
qed

lemma best_nothing:
  assumes "\<not> at_end rest" "none_of 0 n rest" "none_of 1 n rest" "wild n = None"
    and "pv_list caps' = pv_list caps" "pv_ok caps'"
  shows "best n rest caps (None, caps')"
proof -
  obtain seg rem where ns: "next_segment rest = (seg, rem)" by fastforce
  have "none_of 2 n rest"
    using assms(4) by (auto simp: none_of_def pmatch_Cons_iff [OF assms(1) ns] child_of_def)
  then show ?thesis using none_of_all [OF assms(1-3)] assms(5,6) by (auto simp: best_def)
qed

lemma none_of_static:
  assumes "\<not> at_end rest" "next_segment rest = (seg, rem)" "map_of (statics n) seg = None"
  shows "none_of 0 n rest"
  using assms(3) by (auto simp: none_of_def pmatch_Cons_iff [OF assms(1,2)] child_of_def plain_def)

lemma none_of_no_param:
  assumes "\<not> at_end rest" "next_segment rest = (seg, rem)" "param n = None \<or> seg = []"
  shows "none_of 1 n rest"
  using assms(3) by (auto simp: none_of_def pmatch_Cons_iff [OF assms(1,2)] child_of_def)

lemma best_dfs_wild:
  assumes "\<not> at_end rest" "pv_ok caps" "none_of 0 n rest" "none_of 1 n rest"
    and "pv_list caps' = pv_list caps" "pv_ok caps'"
  shows "best n rest caps (dfs_wild n rest caps')"
  using best_nothing [OF assms(1,3,4) _ assms(5,6)] best_wild [OF assms(1-4) _ assms(5,6) refl]
  by (auto simp: dfs_wild_def wild_capture_def Let_def split: option.splits)

text \<open>The static stage and the parameter stage of the search.\<close>

definition dfs_static :: "'v node \<Rightarrow> string \<Rightarrow> string \<Rightarrow> params_view \<Rightarrow> 'v option \<times> params_view" where
  "dfs_static n seg rem caps =
    (case (if seg = [] then None else map_of (statics n) seg) of Some c \<Rightarrow> dfs c rem caps | None \<Rightarrow> (None, caps))"

definition dfs_param :: "'v node \<Rightarrow> string \<Rightarrow> string \<Rightarrow> params_view \<Rightarrow> 'v option \<times> params_view" where
  "dfs_param n seg rem caps =
    (case (if seg = [] then None else param n) of
       Some p \<Rightarrow> (case dfs p rem (pv_emplace_back (node_name p) seg caps) of
                    (r, cs) \<Rightarrow> if r \<noteq> None then (r, cs) else (None, pv_pop_back cs))
     | None \<Rightarrow> (None, caps))"

lemma dfs_stages:
  assumes "wf_node n" "\<not> at_end rest" "next_segment rest = (seg, rem)"
  shows "dfs n rest caps =
    (let (r1, caps1) = dfs_static n seg rem caps
     in if r1 \<noteq> None then (r1, caps1)
        else let (r2, caps2) = dfs_param n seg rem caps1
             in if r2 \<noteq> None then (r2, caps2) else dfs_wild n rest caps2)"
proof -
  have "(if seg \<noteq> [] then (case find_child (statics n) seg of Some c \<Rightarrow> dfs c rem caps | None \<Rightarrow> (None, caps))
      else (None, caps)) = dfs_static n seg rem caps"
    by (simp add: dfs_static_def find_child_wf [OF assms(1)])
  moreover have "(case param n of
                Some p \<Rightarrow>
                  if seg \<noteq> [] then
                    (let (r, cs) = dfs p rem (pv_emplace_back (node_name p) seg caps1)
                     in if r \<noteq> None then (r, cs) else (None, pv_pop_back cs))
                  else (None, caps1)
              | None \<Rightarrow> (None, caps1)) = dfs_param n seg rem caps1" for caps1
    by (simp add: dfs_param_def Let_def split: option.split)
  moreover have "(rest = [] \<or> rest = ''/'') = False" using assms(2) by (simp add: at_end_def)
  ultimately show ?thesis
    unfolding dfs.simps [of n rest caps] assms(3) prod.case by (simp only: if_False)
qed

lemma best_dfs_static:
  fixes n :: "'v node"
  assumes "wf_node n" "pv_ok caps" "\<not> at_end rest" "next_segment rest = (seg, rem)"
    and ih: "\<And>c :: 'v node. wf_node c \<Longrightarrow> seg \<noteq> [] \<Longrightarrow> best c rem caps (dfs c rem caps)"
    and st: "dfs_static n seg rem caps = (r, cs)"
  shows "r \<noteq> None \<Longrightarrow> best n rest caps (r, cs)"
    and "r = None \<Longrightarrow> none_of 0 n rest \<and> pv_list cs = pv_list caps \<and> pv_ok cs"
proof -
  have "(r \<noteq> None \<longrightarrow> best n rest caps (r, cs)) \<and>
    (r = None \<longrightarrow> none_of 0 n rest \<and> pv_list cs = pv_list caps \<and> pv_ok cs)"
  proof (cases "if seg = [] then None else map_of (statics n) seg")
    case None
    have "none_of 0 n rest"
    proof (cases "seg = []")
      case True
      then show ?thesis by (auto simp: none_of_def pmatch_Cons_iff [OF assms(3,4)])
    qed (use None none_of_static [OF assms(3,4)] in simp)
    then show ?thesis using None st assms(2) by (auto simp: dfs_static_def)
  next
    case (Some c)
    then have c: "seg \<noteq> []" "map_of (statics n) seg = Some c" by (auto split: if_splits)
    have "wf_node c" using assms(1) c(2) by (auto simp: wf_node_iff [of n] dest!: map_of_SomeD)
    then have b: "best c rem caps (r, cs)" using ih [OF \<open>wf_node c\<close> c(1)] c st by (simp add: dfs_static_def)
    then have "r = None \<Longrightarrow> pv_list cs = pv_list caps \<and> pv_ok cs" by (simp add: best_def)
    then show ?thesis
      using best_static [OF assms(3,4) wf_static_plain [OF assms(1) c(2)] c(2) b] by blast
  qed
  then show "r \<noteq> None \<Longrightarrow> best n rest caps (r, cs)"
    "r = None \<Longrightarrow> none_of 0 n rest \<and> pv_list cs = pv_list caps \<and> pv_ok cs" by blast+
qed

lemma best_cong: "pv_list caps' = pv_list caps \<Longrightarrow> best n rest caps' = best n rest caps"
  by (simp add: best_def fun_eq_iff split: option.splits)

lemma best_dfs_param:
  fixes n :: "'v node"
  assumes "wf_node n" "pv_ok caps" "\<not> at_end rest" "next_segment rest = (seg, rem)" "none_of 0 n rest"
    and ih: "\<And>(c :: 'v node) caps. wf_node c \<Longrightarrow> seg \<noteq> [] \<Longrightarrow> pv_ok caps \<Longrightarrow> best c rem caps (dfs c rem caps)"
    and st: "dfs_param n seg rem caps = (r, cs)"
  shows "r \<noteq> None \<Longrightarrow> best n rest caps (r, cs)"
    and "r = None \<Longrightarrow> none_of 1 n rest \<and> pv_list cs = pv_list caps \<and> pv_ok cs"
proof -
  have "(r \<noteq> None \<longrightarrow> best n rest caps (r, cs)) \<and>
    (r = None \<longrightarrow> none_of 1 n rest \<and> pv_list cs = pv_list caps \<and> pv_ok cs)"
  proof (cases "if seg = [] then None else param n")
    case None
    then have "param n = None \<or> seg = []" by (auto split: if_splits)
    then show ?thesis
      using None st assms(2) none_of_no_param [OF assms(3,4)] by (simp add: dfs_param_def split: if_splits)
  next
    case (Some p)
    then have p: "seg \<noteq> []" "param n = Some p" by (auto split: if_splits)
    obtain r' cs' where d: "dfs p rem (pv_emplace_back (node_name p) seg caps) = (r', cs')" by fastforce
    have "wf_node p" using assms(1) p(2) by (simp add: wf_node_iff [of n])
    then have b: "best p rem (pv_emplace_back (node_name p) seg caps) (r', cs')"
      using ih [OF _ p(1) pv_ok_ops(1) [OF assms(2)]] d by metis
    have "r = r'" "cs = (if r' \<noteq> None then cs' else pv_pop_back cs')"
      using st p d by (auto simp: dfs_param_def split: if_splits)
    then show ?thesis using best_param [OF assms(3,4) p assms(2,5) b] by auto
  qed
  then show "r \<noteq> None \<Longrightarrow> best n rest caps (r, cs)"
    "r = None \<Longrightarrow> none_of 1 n rest \<and> pv_list cs = pv_list caps \<and> pv_ok cs" by blast+
qed

lemma best_at_end:
  assumes "at_end rest" "pv_ok caps"
  shows "best n rest caps (dfs n rest caps)"
proof -
  have only: "pmatch qs rest ds \<longleftrightarrow> qs = [] \<and> ds = []" for qs ds
    using assms(1) by (auto elim: pmatch.cases intro: match_end)
  have "dfs n rest caps = (node_value n, caps)"
    using assms(1) by (subst dfs.simps) (simp add: at_end_def)
  then show ?thesis using assms(2) by (cases "node_value n") (auto simp: best_def only)
qed

lemma dfs_best:
  fixes n :: "'v node"
  shows "wf_node n \<Longrightarrow> pv_ok caps \<Longrightarrow> best n rest caps (dfs n rest caps)"
proof (induction "length rest" arbitrary: n rest caps rule: less_induct)
  case less
  show ?case
  proof (cases "at_end rest")
    case False
    obtain seg rem where ns: "next_segment rest = (seg, rem)" by fastforce
    have ih: "best c rem cs (dfs c rem cs)" if "wf_node c" "seg \<noteq> []" "pv_ok cs" for c :: "'v node" and cs
      using less.hyps [OF next_segment_shorter' [OF ns that(2)] that(1,3)] .
    obtain r1 c1 where s1: "dfs_static n seg rem caps = (r1, c1)" by fastforce
    obtain r2 c2 where s2: "dfs_param n seg rem c1 = (r2, c2)" by fastforce
    note b1 = best_dfs_static [OF less.prems False ns ih [OF _ _ less.prems(2)] s1]
    note b2 = best_dfs_param [OF less.prems(1) _ False ns _ ih s2]
    have dfs: "dfs n rest caps = (if r1 \<noteq> None then (r1, c1) else if r2 \<noteq> None then (r2, c2) else dfs_wild n rest c2)"
      by (simp add: dfs_stages [OF less.prems(1) False ns] s1 s2)
    show ?thesis
    proof (cases "r1 = None")
      case True
      then have r1: "none_of 0 n rest" "pv_list c1 = pv_list caps" "pv_ok c1" using b1(2) by auto
      show ?thesis
      proof (cases "r2 = None")
        case r2: True
        then have "none_of 1 n rest" "pv_list c2 = pv_list caps" "pv_ok c2" using b2(2) r1 by auto
        then show ?thesis
          using best_dfs_wild [OF False less.prems(2) r1(1)] True r2 by (simp add: dfs)
      qed (use b2(1) r1 best_cong [OF r1(2), of n] dfs True in auto)
    qed (use b1(1) dfs in auto)
  qed (simp add: best_at_end less.prems)
qed

text \<open>C27. A lookup that hits returns the value of a registered pattern that matches the path, with
  exactly that pattern's captures, and no registered pattern that matches is preferred to it (at the
  first difference a literal segment beats a parameter, a parameter a wildcard); a lookup that
  misses means that no registered pattern matches, and leaves no captures.\<close>

theorem lookup_best_match:
  assumes "router_ok r" "pv_ok out" "path \<noteq> []" "lookup r path out = (res, caps)"
  shows "case res of
      Some v \<Rightarrow> \<exists>p. p \<in> set (rr_log r) \<and> find_exact r p = Some v \<and> pmatch (segs p) path (pv_list caps) \<and>
        (\<forall>q\<in>set (rr_log r). \<forall>ds. pmatch (segs q) path ds \<longrightarrow> preferred (segs p) (segs q))
    | None \<Rightarrow> pv_list caps = [] \<and> (\<forall>q\<in>set (rr_log r). \<forall>ds. \<not> pmatch (segs q) path ds)"
proof -
  have wf: "wf_node (rr_root r)" using assms(1) by (simp add: router_ok_def)
  have b: "best (rr_root r) path (pv_clear out) (res, caps)"
    using dfs_best [OF wf pv_ok_ops(3) [OF assms(2)], of path] assms(3,4) by (simp add: lookup_def)
  have reg: "tree_lookup (rr_root r) (segs q) \<noteq> None" if "q \<in> set (rr_log r)" for q
    using assms(1) that unfolding router_ok_def by blast
  show ?thesis
  proof (cases res)
    case None
    then have "pv_list caps = []" "\<And>qs ds. pmatch qs path ds \<Longrightarrow> tree_lookup (rr_root r) qs = None"
      using b by (auto simp: best_def pv_list_clear)
    then show ?thesis using None reg by fastforce
  next
    case (Some v)
    obtain ps cs where *: "pmatch ps path cs" "tree_lookup (rr_root r) ps = Some v" "pv_list caps = cs"
      "\<And>qs ds. pmatch qs path ds \<Longrightarrow> tree_lookup (rr_root r) qs \<noteq> None \<Longrightarrow> preferred ps qs"
      using b Some by (auto simp: best_def pv_list_clear)
    have "ps \<in> segs ` set (rr_log r)" using *(2) assms(1) unfolding router_ok_def by blast
    then obtain p where p: "p \<in> set (rr_log r)" "ps = segs p" by blast
    then have "normal p" "validate_syntax p" using assms(1) by (auto simp: router_ok_def)
    then have "find_exact r p = Some v"
      using *(2) p(2) normal_fixed [of p] by (simp add: find_exact_tree [OF assms(1)])
    moreover have "preferred (segs p) (segs q)" if "q \<in> set (rr_log r)" "pmatch (segs q) path ds" for q ds
      using *(4) [OF that(2) reg [OF that(1)]] p(2) by simp
    ultimately show ?thesis using Some p * by auto
  qed
qed

definition demo_router :: "nat radix_router" where
  "demo_router = fst (insert_route ''/f/*any'' 2 False (fst (insert_route ''/f/:l/r'' 1 False router_new)))"

lemma demo_router_ok: "router_ok demo_router"
  unfolding demo_router_def by (metis insert_keeps_ok prod.collapse router_ok_new)

lemma lookup_best_match_witness:
  "fst (lookup demo_router ''/f/go/x'' params_new) = Some 2 \<and>
   pv_list (snd (lookup demo_router ''/f/go/x'' params_new)) = [(''any'', ''go/x'')] \<and>
   (\<exists>p. p \<in> set (rr_log demo_router) \<and> find_exact demo_router p = Some 2 \<and>
      pmatch (segs p) ''/f/go/x'' [(''any'', ''go/x'')])"
proof -
  have r: "fst (lookup demo_router ''/f/go/x'' params_new) = Some 2"
    and c: "pv_list (snd (lookup demo_router ''/f/go/x'' params_new)) = [(''any'', ''go/x'')]"
    by code_simp+
  have "lookup demo_router ''/f/go/x'' params_new = (Some 2, snd (lookup demo_router ''/f/go/x'' params_new))"
    using r by (metis prod.collapse)
  from lookup_best_match [OF demo_router_ok pv_ok_ops(4) _ this] r c show ?thesis by auto
qed

end
