(* ===== verification/Rate_Limit.thy ===== *)
theory Rate_Limit
  imports Coro_Prelude
begin

section \<open>The token bucket\<close>

text \<open>
  The rate limiter of rate_limit.hpp. Token counts are fixed point numbers, 1024 units to a token,
  in \<open>int64\<close>; they are integers here and it is proved that they stay in range. The products the
  code forms in \<open>long double\<close> are exact for the values that reach the comparison (64 bit mantissa),
  so they are integer products.

  Each reading of the steady clock is an argument. The bucket is used on one loop, so the
  compare-exchange of \<open>settle_and_peek\<close> and \<open>try_consume\<close> can only fail spuriously, and a failed one
  leaves the bucket as it was: an execution is its last round. The loop of \<open>rate_acquire\<close> runs over
  the clock readings of its rounds; between two rounds the coroutine sleeps.
\<close>

subsection \<open>Model\<close>

definition rate_token_scale :: int where
  "rate_token_scale = 1024"

definition INT64_MAX :: int where
  "INT64_MAX = 2 ^ 63 - 1"

definition rate_scale_tokens :: "nat \<Rightarrow> int result" where
  "rate_scale_tokens n =
    (let max_units = INT64_MAX div rate_token_scale
     in if int n > max_units then Inl InvalidArgument else Inr (int n * rate_token_scale))"

record rate_state =
  tokens :: int
  capacity :: int
  refill :: int
  period_us :: int
  last_us :: int

definition settle_and_peek :: "int \<Rightarrow> rate_state \<Rightarrow> int \<times> rate_state" where
  "settle_and_peek now st =
    (let old_tokens = tokens st; old_last = last_us st; cap = capacity st;
         per = refill st; period = period_us st;
         (nxt, next_last) =
           (if per > 0 \<and> period > 0 \<and> now > old_last then
              (let periods = (now - old_last) div period
               in if periods > 0 then
                    (let grown = old_tokens + per * periods
                     in (if grown \<ge> cap then cap else if grown < 0 then 0 else grown,
                         old_last + periods * period))
                  else (old_tokens, old_last))
            else (old_tokens, old_last))
     in (nxt, st\<lparr>tokens := nxt, last_us := next_last\<rparr>))"

definition try_consume :: "int \<Rightarrow> int \<Rightarrow> rate_state \<Rightarrow> bool \<times> rate_state" where
  "try_consume now need st =
    (let (have_tokens, st) = settle_and_peek now st
     in if have_tokens < need then (False, st) else (True, st\<lparr>tokens := have_tokens - need\<rparr>))"

definition wait_us_for :: "int \<Rightarrow> int \<Rightarrow> int \<Rightarrow> rate_state \<Rightarrow> int \<times> rate_state" where
  "wait_us_for now now2 need st =
    (let (have_tokens, st) = settle_and_peek now st
     in if have_tokens \<ge> need then (0, st)
        else let per = refill st; period = period_us st
        in if per \<le> 0 \<or> period \<le> 0 then (-1, st)
           else let missing = need - have_tokens;
                    periods = (missing - 1) div per + 1;
                    us = periods * period
           in if us \<ge> INT64_MAX then (INT64_MAX, st)
              else let elapsed = now2 - last_us st;
                       w = (if elapsed > 0 then
                              (let in_period = elapsed mod period in if us > in_period then us - in_period else 1)
                            else us)
              in (if w < 1 then 1 else w, st))"

text \<open>One round of the loop of \<open>rate_acquire\<close>, with the readings of its three uses of the clock.\<close>

datatype rate_outcome = Acquired rate_state | Refused coro_error rate_state | Sleep int rate_state

definition rate_round :: "int \<times> int \<times> int \<Rightarrow> int \<Rightarrow> rate_state \<Rightarrow> rate_outcome" where
  "rate_round t need st =
    (case t of (t1, t2, t3) \<Rightarrow>
      if capacity st < need then Refused StructuredConcurrencyError st
      else let (ok, st) = try_consume t1 need st
      in if ok then Acquired st
         else let (wait, st) = wait_us_for t2 t3 need st
         in if wait < 0 then Refused StructuredConcurrencyError st
            else Sleep (if wait = 0 then 1 else wait) st)"

fun rate_rounds :: "(int \<times> int \<times> int) list \<Rightarrow> int \<Rightarrow> rate_state \<Rightarrow> rate_outcome" where
  "rate_rounds [] need st = Sleep 0 st"
| "rate_rounds (t # ts) need st =
    (case rate_round t need st of
       Sleep w st' \<Rightarrow> (if ts = [] then Sleep w st' else rate_rounds ts need st')
     | r \<Rightarrow> r)"

definition rate_acquire :: "(int \<times> int \<times> int) list \<Rightarrow> int \<Rightarrow> rate_state \<Rightarrow> rate_outcome" where
  "rate_acquire ts need st = (if need \<le> 0 then Acquired st else rate_rounds ts need st)"

text \<open>The limiter: periods are given in microseconds.\<close>

definition rate_limiter :: "nat \<Rightarrow> int \<Rightarrow> nat \<Rightarrow> int \<Rightarrow> rate_state result" where
  "rate_limiter cap period refill_per_period now =
    (if cap = 0 then Inl InvalidArgument
     else if period \<le> 0 then Inl InvalidArgument
     else case rate_scale_tokens cap of
       Inl e \<Rightarrow> Inl e
     | Inr c \<Rightarrow>
         (case rate_scale_tokens (if refill_per_period = 0 then cap else refill_per_period) of
            Inl e \<Rightarrow> Inl e
          | Inr per \<Rightarrow> Inr \<lparr>tokens = c, capacity = c, refill = per, period_us = period, last_us = now\<rparr>))"

definition set_rate :: "nat \<Rightarrow> int \<Rightarrow> nat \<Rightarrow> rate_state \<Rightarrow> rate_state \<times> unit result" where
  "set_rate cap period refill_per_period st =
    (if cap = 0 then (st, Inl InvalidArgument)
     else if period \<le> 0 then (st, Inl InvalidArgument)
     else case rate_scale_tokens cap of
       Inl e \<Rightarrow> (st, Inl e)
     | Inr c \<Rightarrow>
         (let st1 = st\<lparr>capacity := c\<rparr>
          in case rate_scale_tokens (if refill_per_period = 0 then cap else refill_per_period) of
            Inl e \<Rightarrow> (st1, Inl e)
          | Inr per \<Rightarrow>
              (let st2 = st1\<lparr>refill := per, period_us := period\<rparr>
               in (if tokens st2 > c then st2\<lparr>tokens := c\<rparr> else st2, Inr ()))))"

definition acquire_n :: "(int \<times> int \<times> int) list \<Rightarrow> nat \<Rightarrow> rate_state \<Rightarrow> rate_outcome" where
  "acquire_n ts n st =
    (case rate_scale_tokens n of Inl e \<Rightarrow> Refused e st | Inr need \<Rightarrow> rate_acquire ts need st)"

definition try_acquire :: "int \<Rightarrow> nat \<Rightarrow> rate_state \<Rightarrow> rate_state \<times> bool result" where
  "try_acquire now n st =
    (case rate_scale_tokens n of
       Inl e \<Rightarrow> (st, Inl e)
     | Inr need \<Rightarrow> (let (ok, st) = try_consume now need st in (st, Inr ok)))"

definition available :: "int \<Rightarrow> rate_state \<Rightarrow> int \<times> rate_state" where
  "available now st = (let (have_tokens, st) = settle_and_peek now st in (have_tokens div rate_token_scale, st))"

text \<open>\<open>None\<close> is the largest value of the duration.\<close>

definition retry_after :: "int \<Rightarrow> int \<Rightarrow> nat \<Rightarrow> rate_state \<Rightarrow> rate_state \<times> int option result" where
  "retry_after now now2 n st =
    (case rate_scale_tokens n of
       Inl e \<Rightarrow> (st, Inl e)
     | Inr need \<Rightarrow>
         (let (us, st) = wait_us_for now now2 need st
          in (st, Inr (if us < 0 then None else Some us))))"

subsection \<open>The bucket stays in range\<close>

definition rate_ok :: "rate_state \<Rightarrow> bool" where
  "rate_ok st \<longleftrightarrow> 0 \<le> tokens st \<and> tokens st \<le> capacity st \<and> 0 < capacity st \<and> capacity st \<le> INT64_MAX \<and>
    0 < refill st \<and> refill st \<le> INT64_MAX \<and> 0 < period_us st"

lemma rate_scale_tokens_range:
  assumes "rate_scale_tokens n = Inr k"
  shows "k = int n * 1024" "0 \<le> k" "k \<le> INT64_MAX" "0 < n \<Longrightarrow> 0 < k"
  using assms by (auto simp: rate_scale_tokens_def rate_token_scale_def INT64_MAX_def Let_def split: if_splits)

text \<open>What settling does: whole periods are credited, up to the capacity.\<close>

lemma settle_cases:
  assumes "rate_ok st" "settle_and_peek now st = (h, st')"
  obtains k where "0 \<le> k" "h = min (capacity st) (tokens st + refill st * k)"
    "st' = st\<lparr>tokens := h, last_us := last_us st + k * period_us st\<rparr>"
    "last_us st \<le> now \<Longrightarrow> last_us st + k * period_us st \<le> now \<and> now < last_us st + (k + 1) * period_us st"
    "now \<le> last_us st \<Longrightarrow> k = 0"
proof -
  let ?k = "if now > last_us st then (now - last_us st) div period_us st else 0"
  have p: "0 < period_us st" "0 < refill st" "tokens st \<le> capacity st" "0 \<le> tokens st"
    using assms(1) by (auto simp: rate_ok_def)
  have k0: "0 \<le> ?k" using p by (simp add: pos_imp_zdiv_nonneg_iff)
  have grown: "\<not> tokens st + refill st * ((now - last_us st) div period_us st) < 0" if "now > last_us st"
    using p k0 that by (simp add: not_less)
  have eq: "h = min (capacity st) (tokens st + refill st * ?k)"
    "st' = st\<lparr>tokens := h, last_us := last_us st + ?k * period_us st\<rparr>"
    using assms(2) p k0 grown by (auto simp: settle_and_peek_def Let_def min_def split: if_splits)
  have now: "last_us st + ?k * period_us st \<le> now \<and> now < last_us st + (?k + 1) * period_us st"
    if "last_us st \<le> now"
  proof (cases "now > last_us st")
    case True
    define q where "q = (now - last_us st) div period_us st"
    define r where "r = (now - last_us st) mod period_us st"
    have "q * period_us st + r = now - last_us st" unfolding q_def r_def by (rule div_mult_mod_eq)
    moreover have "0 \<le> r" "r < period_us st" using p(1) by (simp_all add: r_def)
    moreover have "(q + 1) * period_us st = q * period_us st + period_us st" by (simp add: distrib_right)
    moreover have k: "?k = q" using True by (simp add: q_def)
    ultimately show ?thesis unfolding k by (intro conjI) linarith+
  qed (use that p in auto)
  show thesis by (rule that [OF k0 eq now]) auto
qed

lemma settle_keeps_ok:
  assumes "rate_ok st" "settle_and_peek now st = (h, st')"
  shows "rate_ok st'" "tokens st' = h" "0 \<le> h" "h \<le> capacity st"
    and "capacity st' = capacity st" "refill st' = refill st" "period_us st' = period_us st"
    and "last_us st \<le> last_us st'" "last_us st \<le> now \<Longrightarrow> last_us st' \<le> now"
proof -
  obtain k where k: "0 \<le> k" "h = min (capacity st) (tokens st + refill st * k)"
    "st' = st\<lparr>tokens := h, last_us := last_us st + k * period_us st\<rparr>"
    "last_us st \<le> now \<Longrightarrow> last_us st + k * period_us st \<le> now"
    by (rule settle_cases [OF assms]) blast
  have "0 \<le> k * period_us st" "0 \<le> refill st * k" using assms(1) k(1) by (auto simp: rate_ok_def)
  then show "rate_ok st'" "tokens st' = h" "0 \<le> h" "h \<le> capacity st"
    "capacity st' = capacity st" "refill st' = refill st" "period_us st' = period_us st"
    "last_us st \<le> last_us st'" "last_us st \<le> now \<Longrightarrow> last_us st' \<le> now"
    using assms(1) k by (auto simp: rate_ok_def)
qed

lemma try_consume_cases:
  assumes "rate_ok st" "try_consume now need st = (ok, st')"
  obtains h st1 where "settle_and_peek now st = (h, st1)" "rate_ok st1" "tokens st1 = h"
    "ok = (need \<le> h)" "st' = (if ok then st1\<lparr>tokens := h - need\<rparr> else st1)"
proof -
  obtain h st1 where s: "settle_and_peek now st = (h, st1)" by fastforce
  show thesis
    using that [OF s settle_keeps_ok(1,2) [OF assms(1) s]] assms(2) s
    by (auto simp: try_consume_def split: if_splits)
qed

lemma try_consume_ok:
  assumes "rate_ok st" "0 \<le> need" "try_consume now need st = (ok, st')"
  shows "rate_ok st'" "capacity st' = capacity st" "refill st' = refill st" "period_us st' = period_us st"
proof -
  obtain h st1 where *: "settle_and_peek now st = (h, st1)" "rate_ok st1" "tokens st1 = h"
    "ok = (need \<le> h)" "st' = (if ok then st1\<lparr>tokens := h - need\<rparr> else st1)"
    by (rule try_consume_cases [OF assms(1,3)])
  then show "rate_ok st'" using assms(2) by (auto simp: rate_ok_def)
  show "capacity st' = capacity st" "refill st' = refill st" "period_us st' = period_us st"
    using * settle_keeps_ok(5-7) [OF assms(1) *(1)] by auto
qed

lemma wait_us_for_state: "wait_us_for now now2 need st = (w, st') \<Longrightarrow> st' = snd (settle_and_peek now st)"
  by (auto simp: wait_us_for_def Let_def split: prod.splits if_splits)

lemma wait_us_for_range:
  assumes "rate_ok st1" "settle_and_peek t1 st = (h, st1)" "wait_us_for t1 t2 need st = (w, st2)"
  shows "(w = 0 \<longleftrightarrow> need \<le> h) \<and> 0 \<le> w \<and> w \<le> INT64_MAX"
proof (cases "need \<le> h")
  case False
  define us where "us = ((need - h - 1) div refill st1 + 1) * period_us st1"
  define m where "m = (t2 - last_us st1) mod period_us st1"
  have "0 \<le> m" "\<not> (refill st1 \<le> 0 \<or> period_us st1 \<le> 0)" "1 \<le> INT64_MAX"
    using assms(1) by (auto simp: rate_ok_def m_def INT64_MAX_def)
  moreover from this have "w = (if us \<ge> INT64_MAX then INT64_MAX
      else let w = (if t2 - last_us st1 > 0 then (if us > m then us - m else 1) else us) in if w < 1 then 1 else w)"
    using False assms(2,3) by (auto simp: wait_us_for_def Let_def us_def m_def)
  ultimately show ?thesis using False by (auto simp: Let_def)
qed (use assms(2,3) in \<open>auto simp: wait_us_for_def INT64_MAX_def\<close>)

lemma rate_limiter_ok: "rate_limiter cap period per now = Inr st \<Longrightarrow> rate_ok st \<and> tokens st = capacity st"
  by (auto simp: rate_limiter_def rate_ok_def split: if_splits sum.splits dest: rate_scale_tokens_range)

lemma set_rate_ok: "rate_ok st \<Longrightarrow> set_rate cap period per st = (st', Inr ()) \<Longrightarrow> rate_ok st'"
  by (auto simp: set_rate_def rate_ok_def Let_def split: if_splits sum.splits dest: rate_scale_tokens_range)

text \<open>A step of a bucket in use: settling by an observer, a demand, a change of the rate.\<close>

inductive rate_step :: "rate_state \<Rightarrow> rate_state \<Rightarrow> bool" where
  rs_peek: "rate_step st (snd (settle_and_peek now st))"
| rs_consume: "0 \<le> need \<Longrightarrow> rate_step st (snd (try_consume now need st))"
| rs_set_rate: "set_rate cap period per st = (st', Inr ()) \<Longrightarrow> rate_step st st'"

interpretation bucket: inductive_invariant
  "\<lambda>st. \<exists>cap period per now. rate_limiter cap period per now = Inr st" rate_step rate_ok
proof
  fix st st'
  assume ok: "rate_ok st" and "rate_step st st'"
  from this(2) show "rate_ok st'"
  proof cases
    case (rs_peek now)
    then show ?thesis by (metis ok prod.collapse settle_keeps_ok(1))
  next
    case (rs_consume need now)
    then show ?thesis by (metis ok prod.collapse try_consume_ok(1))
  next
    case rs_set_rate
    then show ?thesis using set_rate_ok [OF ok] by blast
  qed
qed (auto dest: rate_limiter_ok)



subsection \<open>No more is issued than the rate allows\<close>

text \<open>A sequence of demands, each with its clock reading; the sum of what was granted.\<close>

fun demands :: "(int \<times> int) list \<Rightarrow> rate_state \<Rightarrow> int \<times> rate_state" where
  "demands [] st = (0, st)"
| "demands ((now, need) # ds) st =
    (let (ok, st1) = try_consume now need st; (g, st2) = demands ds st1
     in ((if ok then need else 0) + g, st2))"

lemma consume_accounts:
  assumes ok: "rate_ok st" and need: "0 \<le> need" and c: "try_consume now need st = (b, st')"
    and T: "now \<le> T" "last_us st \<le> T"
  obtains k where "0 \<le> k" "last_us st' = last_us st + k * period_us st" "last_us st' \<le> T"
    "(if b then need else 0) + tokens st' \<le> tokens st + refill st * k"
proof -
  obtain h st1 where *: "settle_and_peek now st = (h, st1)" "tokens st1 = h"
    "b = (need \<le> h)" "st' = (if b then st1\<lparr>tokens := h - need\<rparr> else st1)"
    by (rule try_consume_cases [OF ok c])
  obtain k where k: "0 \<le> k" "h = min (capacity st) (tokens st + refill st * k)"
    "st1 = st\<lparr>tokens := h, last_us := last_us st + k * period_us st\<rparr>"
    "last_us st \<le> now \<Longrightarrow> last_us st + k * period_us st \<le> now" "now \<le> last_us st \<Longrightarrow> k = 0"
    by (rule settle_cases [OF ok *(1)]) blast
  have "last_us st + k * period_us st \<le> T" using k(4,5) T by (cases "now \<le> last_us st") auto
  then show thesis using that [OF k(1)] * k by auto
qed

lemma demands_account:
  assumes "rate_ok st" "\<forall>d\<in>set ds. fst d \<le> T \<and> 0 \<le> snd d" "last_us st \<le> T" "demands ds st = (g, st')"
  shows "\<exists>k\<ge>0. last_us st' = last_us st + k * period_us st \<and> last_us st' \<le> T \<and>
    g + tokens st' \<le> tokens st + refill st * k \<and> rate_ok st' \<and> refill st' = refill st \<and> period_us st' = period_us st"
  using assms
proof (induction ds arbitrary: st g)
  case Nil
  then show ?case by (intro exI [of _ 0]) auto
next
  case (Cons d ds)
  obtain now need where d: "d = (now, need)" by fastforce
  obtain b st1 where c: "try_consume now need st = (b, st1)" by fastforce
  obtain g2 where g: "demands ds st1 = (g2, st')" "g = (if b then need else 0) + g2"
    using Cons.prems(4) d c by (auto split: prod.splits)
  have need: "now \<le> T" "0 \<le> need" using Cons.prems(2) d by auto
  obtain k where k: "0 \<le> k" "last_us st1 = last_us st + k * period_us st" "last_us st1 \<le> T"
    "(if b then need else 0) + tokens st1 \<le> tokens st + refill st * k"
    by (rule consume_accounts [OF Cons.prems(1) need(2) c need(1) Cons.prems(3)])
  note ok1 = try_consume_ok [OF Cons.prems(1) need(2) c]
  obtain j where j: "j \<ge> 0" "last_us st' = last_us st1 + j * period_us st1" "last_us st' \<le> T"
    "g2 + tokens st' \<le> tokens st1 + refill st1 * j" "rate_ok st'" "refill st' = refill st1" "period_us st' = period_us st1"
    using Cons.IH [OF ok1(1) _ k(3) g(1)] Cons.prems(2) by auto
  have "g + tokens st' \<le> tokens st + refill st * (k + j)"
    using k(4) j(4) ok1(3) g(2) by (simp add: distrib_left)
  moreover have "last_us st' = last_us st + (k + j) * period_us st"
    using k(2) j(2) ok1(4) by (simp add: distrib_right)
  ultimately show ?case using k(1) j ok1 by (intro exI [of _ "k + j"]) auto
qed

text \<open>Whatever demands are made up to the time \<open>T\<close>, the units granted are at most what the
  bucket held and one refill for each whole period since it was last settled; so a full bucket
  grants at most the capacity and the refills of the elapsed periods.\<close>

theorem never_over_issued:
  assumes "rate_ok st" "\<forall>d\<in>set ds. fst d \<le> T \<and> 0 \<le> snd d" "last_us st \<le> T" "demands ds st = (g, st')"
  shows "g \<le> tokens st + refill st * ((T - last_us st) div period_us st) \<and>
    g \<le> capacity st + refill st * ((T - last_us st) div period_us st)"
proof -
  obtain k where k: "k \<ge> 0" "last_us st' = last_us st + k * period_us st" "last_us st' \<le> T"
    "g + tokens st' \<le> tokens st + refill st * k" "rate_ok st'"
    using demands_account [OF assms] by auto
  have p: "0 < period_us st" "0 < refill st" "tokens st \<le> capacity st" using assms(1) by (auto simp: rate_ok_def)
  have "k * period_us st \<le> T - last_us st" using k by simp
  then have "k * period_us st div period_us st \<le> (T - last_us st) div period_us st"
    using p(1) by (intro zdiv_mono1)
  then have "refill st * k \<le> refill st * ((T - last_us st) div period_us st)" using p by simp
  moreover have "0 \<le> tokens st'" using k(5) by (simp add: rate_ok_def)
  ultimately show ?thesis using k(4) p(3) by (intro conjI) linarith+
qed

definition demo_bucket :: rate_state where
  "demo_bucket = \<lparr>tokens = 2048, capacity = 2048, refill = 1024, period_us = 10, last_us = 0\<rparr>"

lemma demo_bucket_ok: "rate_ok demo_bucket" "last_us demo_bucket = 0"
  by (simp_all add: rate_ok_def demo_bucket_def INT64_MAX_def)

lemma never_over_issued_witness:
  "fst (demands [(0, 1024), (1, 1024), (2, 1024), (12, 1024)] demo_bucket) = 3072 \<and>
   fst (demands [(0, 1024), (1, 1024), (2, 1024), (12, 1024)] demo_bucket)
     \<le> tokens demo_bucket + refill demo_bucket * ((12 - last_us demo_bucket) div period_us demo_bucket)"
proof -
  have "fst (demands [(0, 1024), (1, 1024), (2, 1024), (12, 1024)] demo_bucket) = 3072" by code_simp
  then show ?thesis
    using never_over_issued [OF demo_bucket_ok(1) _ _ surjective_pairing,
        of "[(0, 1024), (1, 1024), (2, 1024), (12, 1024)]" 12] demo_bucket_ok(2) by simp
qed

subsection \<open>A waiter is served when it said it would be\<close>

text \<open>The whole periods a waiting time is computed from cover what is missing.\<close>

lemma periods_cover:
  fixes need h per :: int
  assumes "\<not> need \<le> h" "0 < per"
  shows "need - h \<le> per * ((need - h - 1) div per + 1)" "1 \<le> (need - h - 1) div per + 1"
proof -
  have "per * ((need - h - 1) div per) + (need - h - 1) mod per = need - h - 1"
    by (rule mult_div_mod_eq)
  moreover have "(need - h - 1) mod per < per" using assms(2) by simp
  ultimately show "need - h \<le> per * ((need - h - 1) div per + 1)" unfolding distrib_left by linarith
  show "1 \<le> (need - h - 1) div per + 1" using assms by (simp add: pos_imp_zdiv_nonneg_iff)
qed

text \<open>The end of the wait is at or after the end of the last of these periods.\<close>

lemma wait_us_for_lower:
  assumes ok: "rate_ok st1" and s: "settle_and_peek t2 st = (h, st1)" and w: "wait_us_for t2 t3 need st = (w, st2)"
    and t: "last_us st1 \<le> t3" and n: "\<not> need \<le> h" and "w < INT64_MAX"
  shows "last_us st1 + ((need - h - 1) div refill st1 + 1) * period_us st1 \<le> t3 + w"
proof -
  define us where "us = ((need - h - 1) div refill st1 + 1) * period_us st1"
  define m where "m = (t3 - last_us st1) mod period_us st1"
  have p: "0 < period_us st1" "0 < refill st1" using ok by (auto simp: rate_ok_def)
  have m: "0 \<le> m" "m < period_us st1" "m \<le> t3 - last_us st1"
    using p(1) t by (auto simp: m_def intro: zmod_le_nonneg_dividend)
  have "period_us st1 \<le> us" using periods_cover(2) [OF n p(2)] p(1) by (simp add: us_def)
  moreover have "w = (if us \<ge> INT64_MAX then INT64_MAX
      else let w = (if t3 - last_us st1 > 0 then (if us > m then us - m else 1) else us) in if w < 1 then 1 else w)"
    using w s n p by (auto simp: wait_us_for_def Let_def us_def m_def)
  ultimately have "us \<le> w + m" using m p(1) \<open>w < INT64_MAX\<close> by (auto simp: Let_def split: if_splits)
  then show ?thesis using m(3) by (simp add: us_def)
qed

lemma settle_after_wait:
  assumes ok: "rate_ok st" and l: "last_us st \<le> t2" "t2 \<le> t3"
    and w: "wait_us_for t2 t3 need st = (w0, st2)" "w0 < INT64_MAX" and u: "t3 + w0 \<le> u1" "need \<le> capacity st"
    and s3: "settle_and_peek u1 st2 = (h3, st3)"
  shows "need \<le> h3"
proof -
  obtain h where s1: "settle_and_peek t2 st = (h, st2)"
    using wait_us_for_state [OF w(1)] by (metis prod.collapse)
  note k2 = settle_keeps_ok [OF ok s1]
  have p: "0 < period_us st2" "0 < refill st2" using k2(1) by (auto simp: rate_ok_def)
  obtain k where k: "0 \<le> k" "h3 = min (capacity st2) (tokens st2 + refill st2 * k)"
    "last_us st2 \<le> u1 \<Longrightarrow> u1 < last_us st2 + (k + 1) * period_us st2"
    by (rule settle_cases [OF k2(1) s3]) blast
  have "need \<le> h + refill st2 * k"
  proof (cases "need \<le> h")
    case True
    have "0 \<le> refill st2 * k" using p k(1) by simp
    then show ?thesis using True by simp
  next
    case False
    define ps where "ps = (need - h - 1) div refill st2 + 1"
    have "last_us st2 + ps * period_us st2 \<le> u1"
      using wait_us_for_lower [OF k2(1) s1 w(1) _ False w(2)] k2(9) l u(1) by (simp add: ps_def)
    moreover have "last_us st2 \<le> u1"
      using k2(9) l u(1) wait_us_for_range [OF k2(1) s1 w(1)] by linarith
    ultimately have "ps * period_us st2 < (k + 1) * period_us st2" using k(3) by linarith
    then have "refill st2 * ps \<le> refill st2 * k" using p by (simp add: mult_less_cancel_right)
    then show ?thesis using periods_cover(1) [OF False p(2)] by (simp add: ps_def)
  qed
  then show ?thesis using u(2) k(2) k2(2,5) by simp
qed

text \<open>A coroutine that is refused and told to sleep \<open>w\<close> microseconds (not a saturated value) gets
  its tokens in its next round if it wakes at any time after that and nobody else used the bucket:
  the loop of \<open>acquire\<close> ends after two rounds.\<close>

theorem acquire_ends_after_one_sleep:
  assumes "rate_ok st" "0 < need" "last_us st \<le> t1" "t1 \<le> t2" "t2 \<le> t3"
    and "rate_round (t1, t2, t3) need st = Sleep w st'" "w < INT64_MAX" "t3 + w \<le> u1"
  shows "\<exists>st''. rate_acquire [(t1, t2, t3), (u1, u2, u3)] need st = Acquired st''"
proof -
  obtain b st1 where c: "try_consume t1 need st = (b, st1)" by fastforce
  obtain w0 st2 where w0: "wait_us_for t2 t3 need st1 = (w0, st2)" by fastforce
  have cap: "need \<le> capacity st" and b: "\<not> b" "st' = st2" "w = (if w0 = 0 then 1 else w0)"
    using assms(6) c w0 by (auto simp: rate_round_def Let_def split: if_splits prod.splits)
  obtain h1 where s0: "settle_and_peek t1 st = (h1, st1)"
    using try_consume_cases [OF assms(1) c] b(1) by metis
  note k1 = settle_keeps_ok [OF assms(1) s0]
  obtain h3 st3 where s3: "settle_and_peek u1 st2 = (h3, st3)" by fastforce
  have cap2: "capacity st2 = capacity st"
    using wait_us_for_state [OF w0] settle_keeps_ok(5) [OF k1(1)] k1(5) by (metis prod.collapse)
  have "need \<le> h3"
    by (rule settle_after_wait [OF k1(1) _ assms(5) w0 _ _ _ s3])
      (use k1 assms b(3) cap in \<open>auto split: if_splits\<close>)
  then have "rate_round (u1, u2, u3) need st2 = Acquired (st3\<lparr>tokens := h3 - need\<rparr>)"
    using cap cap2 s3 by (simp add: rate_round_def try_consume_def)
  then show ?thesis using assms(2,6) b(2) by (simp add: rate_acquire_def)
qed

lemma acquire_ends_after_one_sleep_witness:
  "rate_round (0, 0, 3) 3072 (demo_bucket\<lparr>capacity := 4096\<rparr>) = Sleep 7 (demo_bucket\<lparr>capacity := 4096\<rparr>) \<and>
   (\<exists>st''. rate_acquire [(0, 0, 3), (10, 10, 10)] 3072 (demo_bucket\<lparr>capacity := 4096\<rparr>) = Acquired st'')"
proof -
  have r: "rate_round (0, 0, 3) 3072 (demo_bucket\<lparr>capacity := 4096\<rparr>) = Sleep 7 (demo_bucket\<lparr>capacity := 4096\<rparr>)"
    by code_simp
  have "rate_ok (demo_bucket\<lparr>capacity := 4096\<rparr>)" "last_us (demo_bucket\<lparr>capacity := 4096\<rparr>) \<le> 0"
    by (simp_all add: rate_ok_def demo_bucket_def INT64_MAX_def)
  from acquire_ends_after_one_sleep [OF this(1) _ this(2) _ _ r] r
  show ?thesis by (simp add: INT64_MAX_def)
qed

end
