(* ===== verification/Pool.thy ===== *)
theory Pool
  imports Coro_Prelude
begin

section \<open>The resource pool\<close>

text \<open>
  The pool of pool.hpp. The state is \<open>pool_state\<close> together with what the coroutines that call
  \<open>acquire\<close> hold: \<open>agents\<close> says of a coroutine, named by its handle, whether it is suspended in the
  awaiter, is building a resource (it holds a \<open>pool_reservation\<close>) or has a lease. A node of the
  waiting queue is named by the handle it was made for; \<open>live\<close> are the nodes whose handle is not
  null. \<open>ready\<close> are the coroutines \<open>wake_one\<close> has scheduled and the loop has not resumed yet.

  \<open>acquire_impl\<close> is cut at its suspension points: the part from the top of its loop to the next
  suspension or the return is \<open>acquire_loop\<close>, the return of the factory is \<open>built\<close>. The factory is an
  external coroutine; the resource it returns is an argument.
\<close>

subsection \<open>Model\<close>

datatype 'r agent = Waiting | Building | Leased 'r

record 'r pool_state =
  idle :: "'r list"
  waiters :: "nat list"
  max_agents :: nat
  max_idle :: nat
  in_use :: nat
  closed :: bool
  live :: "nat set"
  ready :: "nat list"
  agents :: "nat \<Rightarrow> 'r agent option"

definition can_create :: "'r pool_state \<Rightarrow> bool" where
  "can_create st = (\<not> closed st \<and> (max_agents st = 0 \<or> in_use st < max_agents st))"

function wake_one :: "'r pool_state \<Rightarrow> 'r pool_state" where
  "wake_one st =
    (case waiters st of
       [] \<Rightarrow> st
     | node # ws \<Rightarrow>
         if node \<notin> live st then wake_one (st\<lparr>waiters := ws\<rparr>)
         else st\<lparr>waiters := ws, live := live st - {node}, ready := ready st @ [node]\<rparr>)"
  by auto
termination
  by (relation "measure (\<lambda>st. length (waiters st))") auto

declare wake_one.simps [simp del]

definition pool_await_ready :: "'r pool_state \<Rightarrow> bool" where
  "pool_await_ready st = (closed st \<or> idle st \<noteq> [] \<or> can_create st)"

definition pool_await_suspend :: "nat \<Rightarrow> 'r pool_state \<Rightarrow> 'r pool_state" where
  "pool_await_suspend h st =
    (if closed st \<and> idle st = [] then st\<lparr>ready := ready st @ [h]\<rparr>
     else st\<lparr>live := insert h (live st), waiters := waiters st @ [h]\<rparr>)"

definition pool_drop :: "nat \<Rightarrow> 'r pool_state \<Rightarrow> 'r pool_state" where
  "pool_drop h st = st\<lparr>waiters := erase_first (\<lambda>n. n = h) (waiters st), live := live st - {h}\<rparr>"

text \<open>The destructor of the awaiter, for an awaiter that has a node.\<close>

definition pool_awaiter_destroy :: "bool \<Rightarrow> nat \<Rightarrow> 'r pool_state \<Rightarrow> 'r pool_state" where
  "pool_awaiter_destroy resumed h st =
    (let st = pool_drop h st
     in if \<not> resumed \<and> (idle st \<noteq> [] \<or> can_create st) then wake_one st else st)"

text \<open>The destructor of an active reservation.\<close>

definition reservation_destroy :: "'r pool_state \<Rightarrow> 'r pool_state" where
  "reservation_destroy st = wake_one (st\<lparr>in_use := in_use st - 1\<rparr>)"

definition set_agent :: "nat \<Rightarrow> 'r agent option \<Rightarrow> 'r pool_state \<Rightarrow> 'r pool_state" where
  "set_agent h a st = st\<lparr>agents := (agents st)(h := a)\<rparr>"

text \<open>From the top of the loop of \<open>acquire_impl\<close>. When neither an idle resource nor a free place is
  there, \<open>await_ready\<close> is false too (\<open>await_ready_false\<close> below) and the coroutine suspends.\<close>

definition acquire_loop :: "nat \<Rightarrow> 'r pool_state \<Rightarrow> 'r pool_state" where
  "acquire_loop h st =
    (if closed st then set_agent h None st
     else if idle st \<noteq> [] then
       set_agent h (Some (Leased (hd (idle st)))) (st\<lparr>idle := tl (idle st), in_use := in_use st + 1\<rparr>)
     else if \<not> can_create st then set_agent h (Some Waiting) (pool_await_suspend h st)
     else set_agent h (Some Building) (st\<lparr>in_use := in_use st + 1\<rparr>))"

text \<open>The guards of \<open>Pool::acquire\<close>: the pool was not moved from, and the caller is on the loop of
  the pool (or the pool has none).\<close>

definition pool_acquire :: "nat \<Rightarrow> nat option \<Rightarrow> 'r pool_state option \<Rightarrow> 'r pool_state result" where
  "pool_acquire this_loop owner pool =
    (case pool of
       None \<Rightarrow> Inl StructuredConcurrencyError
     | Some st \<Rightarrow>
         if owner \<noteq> None \<and> owner \<noteq> Some this_loop then Inl StructuredConcurrencyError else Inr st)"

text \<open>The loop resumes a scheduled coroutine; \<open>await_resume\<close> marks it, the awaiter is destroyed and
  the loop starts again.\<close>

definition pool_resume :: "nat \<Rightarrow> 'r pool_state \<Rightarrow> 'r pool_state" where
  "pool_resume h st =
    acquire_loop h (pool_awaiter_destroy True h (st\<lparr>ready := remove1 h (ready st)\<rparr>))"

text \<open>A suspended coroutine is cancelled or its frame destroyed; the loop drops a scheduled handle of
  a dead frame.\<close>

definition pool_cancel :: "nat \<Rightarrow> 'r pool_state \<Rightarrow> 'r pool_state" where
  "pool_cancel h st =
    set_agent h None (pool_awaiter_destroy False h (st\<lparr>ready := remove1 h (ready st)\<rparr>))"

definition built :: "nat \<Rightarrow> 'r \<Rightarrow> 'r pool_state \<Rightarrow> 'r pool_state" where
  "built h r st =
    (if closed st then reservation_destroy (set_agent h None st)
     else set_agent h (Some (Leased r)) st)"

text \<open>The factory throws, or the frame is destroyed while it runs.\<close>

definition build_failed :: "nat \<Rightarrow> 'r pool_state \<Rightarrow> 'r pool_state" where
  "build_failed h st = reservation_destroy (set_agent h None st)"

text \<open>\<open>PoolLease::release\<close>; \<open>throws\<close> says whether storing the resource throws.\<close>

definition lease_release :: "bool \<Rightarrow> nat \<Rightarrow> 'r pool_state \<Rightarrow> 'r pool_state" where
  "lease_release throws h st =
    (case agents st h of
       Some (Leased r) \<Rightarrow>
         (let st = set_agent h None st;
              st = (if \<not> closed st \<and> length (idle st) < max_idle st \<and> \<not> throws
                    then st\<lparr>idle := idle st @ [r]\<rparr> else st)
          in wake_one (st\<lparr>in_use := in_use st - 1\<rparr>))
     | _ \<Rightarrow> st)"

definition lease_discard :: "nat \<Rightarrow> 'r pool_state \<Rightarrow> 'r pool_state" where
  "lease_discard h st =
    (case agents st h of
       Some (Leased r) \<Rightarrow>
         (let st = set_agent h None st
          in wake_one (st\<lparr>in_use := in_use st - (if in_use st > 0 then 1 else 0)\<rparr>))
     | _ \<Rightarrow> st)"

lemma wake_one_shorter: "waiters st \<noteq> [] \<Longrightarrow> length (waiters (wake_one st)) < length (waiters st)"
proof (induction st rule: wake_one.induct)
  case (1 st)
  then obtain n ws where w: "waiters st = n # ws" by (cases "waiters st") auto
  show ?case
  proof (cases "n \<in> live st \<or> ws = []")
    case False
    then show ?thesis using 1 w by (simp add: wake_one.simps [of st])
  qed (use w in \<open>auto simp: wake_one.simps [of st] wake_one.simps [of "st\<lparr>waiters := []\<rparr>"]\<close>)
qed

function wake_all :: "'r pool_state \<Rightarrow> 'r pool_state" where
  "wake_all st = (if waiters st = [] then st else wake_all (wake_one st))"
  by auto
termination
  by (relation "measure (\<lambda>st. length (waiters st))") (auto simp: wake_one_shorter)

declare wake_all.simps [simp del]

definition pool_close :: "'r pool_state \<Rightarrow> 'r pool_state" where
  "pool_close st = (if closed st then st else wake_all (st\<lparr>closed := True, idle := []\<rparr>))"

definition pool_new :: "nat \<Rightarrow> nat \<Rightarrow> 'r pool_state" where
  "pool_new agents_limit idle_limit =
    \<lparr>idle = [], waiters = [], max_agents = agents_limit, max_idle = idle_limit, in_use = 0, closed = False,
     live = {}, ready = [], agents = Map.empty\<rparr>"

lemma await_ready_false: "\<not> closed st \<Longrightarrow> idle st = [] \<Longrightarrow> \<not> can_create st \<Longrightarrow> \<not> pool_await_ready st"
  by (simp add: pool_await_ready_def)

subsection \<open>Reachable pools\<close>

definition resources :: "'r pool_state \<Rightarrow> 'r set" where
  "resources st = set (idle st) \<union> {r. \<exists>h. agents st h = Some (Leased r)}"

text \<open>A coroutine calls \<open>acquire\<close> when it holds nothing; the factory returns a resource the pool does
  not have.\<close>

inductive pool_step :: "'r pool_state \<Rightarrow> 'r pool_state \<Rightarrow> bool" where
  ps_acquire: "agents st h = None \<Longrightarrow> pool_step st (acquire_loop h st)"
| ps_resume: "h \<in> set (ready st) \<Longrightarrow> pool_step st (pool_resume h st)"
| ps_cancel: "agents st h = Some Waiting \<Longrightarrow> pool_step st (pool_cancel h st)"
| ps_built: "agents st h = Some Building \<Longrightarrow> r \<notin> resources st \<Longrightarrow> pool_step st (built h r st)"
| ps_failed: "agents st h = Some Building \<Longrightarrow> pool_step st (build_failed h st)"
| ps_release: "agents st h = Some (Leased r) \<Longrightarrow> pool_step st (lease_release throws h st)"
| ps_discard: "agents st h = Some (Leased r) \<Longrightarrow> pool_step st (lease_discard h st)"
| ps_close: "pool_step st (pool_close st)"

abbreviation holds_place :: "'r agent \<Rightarrow> bool" where
  "holds_place a \<equiv> a \<noteq> Waiting"

definition pool_core :: "'r pool_state \<Rightarrow> bool" where
  "pool_core st \<longleftrightarrow>
    distinct (waiters st @ ready st) \<and> set (waiters st) \<union> set (ready st) = marked (\<lambda>a. a = Waiting) (agents st) \<and>
    live st = set (waiters st) \<and>
    finite (marked holds_place (agents st)) \<and> in_use st = card (marked holds_place (agents st)) \<and>
    (max_agents st \<noteq> 0 \<longrightarrow> in_use st + length (idle st) \<le> max_agents st) \<and>
    length (idle st) \<le> max_idle st \<and> (closed st \<longrightarrow> idle st = [] \<and> waiters st = [])"

text \<open>Places that are free while coroutines wait, beyond those the scheduled coroutines will take.\<close>

definition owed :: "nat \<Rightarrow> 'r pool_state \<Rightarrow> bool" where
  "owed k st \<longleftrightarrow> (waiters st \<noteq> [] \<longrightarrow> max_agents st \<noteq> 0 \<and> max_agents st \<le> in_use st + length (ready st) + k)"

definition pool_ok :: "'r pool_state \<Rightarrow> bool" where
  "pool_ok st \<longleftrightarrow> pool_core st \<and> owed 0 st"

definition exclusive :: "'r pool_state \<Rightarrow> bool" where
  "exclusive st \<longleftrightarrow> distinct (idle st) \<and>
    (\<forall>h h' r. agents st h = Some (Leased r) \<longrightarrow> agents st h' = Some (Leased r) \<longrightarrow> h = h') \<and>
    (\<forall>h r. agents st h = Some (Leased r) \<longrightarrow> r \<notin> set (idle st))"

subsection \<open>Every step keeps the invariant\<close>

lemma set_agent_simps [simp]:
  "agents (set_agent h a st) = (agents st)(h := a)" "idle (set_agent h a st) = idle st"
  "waiters (set_agent h a st) = waiters st" "max_agents (set_agent h a st) = max_agents st"
  "max_idle (set_agent h a st) = max_idle st" "in_use (set_agent h a st) = in_use st"
  "closed (set_agent h a st) = closed st" "live (set_agent h a st) = live st" "ready (set_agent h a st) = ready st"
  by (simp_all add: set_agent_def)

lemma wake_one_live:
  "live st = set (waiters st) \<Longrightarrow> wake_one st =
    (case waiters st of [] \<Rightarrow> st
     | n # ws \<Rightarrow> st\<lparr>waiters := ws, live := live st - {n}, ready := ready st @ [n]\<rparr>)"
  by (subst wake_one.simps) (auto split: list.splits)

lemma wake_one_keeps [simp]:
  "idle (wake_one st) = idle st" "agents (wake_one st) = agents st" "in_use (wake_one st) = in_use st"
  "max_agents (wake_one st) = max_agents st" "max_idle (wake_one st) = max_idle st" "closed (wake_one st) = closed st"
  by (induction st rule: wake_one.induct; subst wake_one.simps; simp split: list.split)+

lemma core_wake_one: "pool_core st \<Longrightarrow> pool_core (wake_one st)"
  by (cases "waiters st") (auto simp: pool_core_def wake_one_live)

lemma owed_wake_one: "pool_core st \<Longrightarrow> owed (Suc k) st \<Longrightarrow> owed k (wake_one st)"
  by (cases "waiters st") (auto simp: pool_core_def owed_def wake_one_live)

lemma owed_mono: "owed k st \<Longrightarrow> owed (Suc k) st"
  by (auto simp: owed_def)

lemma ok_wake_one: "pool_core st \<Longrightarrow> owed 1 st \<Longrightarrow> pool_ok (wake_one st)"
  by (simp add: pool_ok_def core_wake_one owed_wake_one)

text \<open>A coroutine that holds a place gives it up.\<close>

lemma core_free:
  assumes "pool_core st" "agents st h = Some a" "holds_place a"
  shows "pool_core ((set_agent h None st)\<lparr>in_use := in_use st - 1\<rparr>)"
    and "0 < in_use st"
proof -
  have h: "h \<in> marked holds_place (agents st)" "finite (marked holds_place (agents st))"
    using assms by (auto simp: marked_iff pool_core_def)
  then show "0 < in_use st" using assms(1) by (auto simp: pool_core_def card_gt_0_iff)
  have "h \<notin> marked (\<lambda>a. a = Waiting) (agents st)" using assms(2,3) by (simp add: marked_iff)
  then show "pool_core ((set_agent h None st)\<lparr>in_use := in_use st - 1\<rparr>)"
    using assms(1) h by (auto simp: pool_core_def marked_upd)
qed

lemma owed_free: "owed 0 st \<Longrightarrow> 0 < in_use st \<Longrightarrow> owed 1 ((set_agent h None st)\<lparr>in_use := in_use st - 1\<rparr>)"
  by (auto simp: owed_def)

lemma ok_free:
  assumes "pool_ok st" "agents st h = Some a" "holds_place a"
  shows "pool_ok (wake_one ((set_agent h None st)\<lparr>in_use := in_use st - 1\<rparr>))"
  using assms core_free [of st h a] owed_free by (intro ok_wake_one) (auto simp: pool_ok_def)

text \<open>A coroutine that holds nothing runs the loop; one place may be owed to it.\<close>

lemma ok_acquire_loop:
  assumes "pool_core st" "agents st h \<noteq> Some Waiting" "h \<notin> marked holds_place (agents st)" "owed 1 st"
  shows "pool_ok (acquire_loop h st)"
proof -
  have fin: "finite (marked holds_place (agents st))" using assms(1) by (simp add: pool_core_def)
  have nw: "h \<notin> marked (\<lambda>a. a = Waiting) (agents st)" using assms(2) by (auto simp: marked_iff)
  then have nq: "h \<notin> set (waiters st)" "h \<notin> set (ready st)" using assms(1) by (auto simp: pool_core_def)
  consider (closed) "closed st" | (idle) "\<not> closed st" "idle st \<noteq> []"
    | (full) "\<not> closed st" "idle st = []" "\<not> can_create st"
    | (create) "\<not> closed st" "idle st = []" "can_create st" by blast
  then show ?thesis
  proof cases
    case closed
    then show ?thesis
      using assms nw by (auto simp: acquire_loop_def pool_ok_def pool_core_def owed_def marked_upd)
  next
    case idle
    then obtain r rs where "idle st = r # rs" by (cases "idle st") auto
    then show ?thesis
      using idle assms fin nw
      by (auto simp: acquire_loop_def pool_ok_def pool_core_def owed_def marked_upd)
  next
    case full
    then have "max_agents st \<noteq> 0" "max_agents st \<le> in_use st" by (auto simp: can_create_def)
    then show ?thesis
      using full assms fin nw nq
      by (auto simp: acquire_loop_def pool_await_suspend_def pool_ok_def pool_core_def owed_def marked_upd)
  next
    case create
    then show ?thesis
      using assms fin nw
      by (auto simp: acquire_loop_def pool_ok_def pool_core_def owed_def marked_upd can_create_def)
  qed
qed

lemma core_leave:
  assumes "pool_core st" "agents st h = Some Waiting"
  shows "pool_core (set_agent h None (pool_drop h (st\<lparr>ready := remove1 h (ready st)\<rparr>)))"
proof -
  have "h \<notin> marked holds_place (agents st)" using assms(2) by (simp add: marked_iff)
  then show ?thesis
    using assms(1)
    by (auto simp: pool_core_def pool_drop_def erase_first_eq_remove1 marked_upd dest: in_set_remove1 [THEN iffD1, rotated])
qed

lemma owed_leave:
  assumes "owed 0 st"
  shows "owed 1 (set_agent h None (pool_drop h (st\<lparr>ready := remove1 h (ready st)\<rparr>)))"
proof (cases "waiters st = []")
  case False
  have "length (ready st) \<le> length (remove1 h (ready st)) + 1"
    by (cases "ready st") (auto simp: length_remove1)
  then show ?thesis using assms False by (auto simp: owed_def pool_drop_def)
qed (simp add: owed_def pool_drop_def)

lemma set_agent_wake_one: "set_agent h a (wake_one st) = wake_one (set_agent h a st)"
proof (induction st rule: wake_one.induct)
  case (1 st)
  have "st\<lparr>waiters := ws, agents := ag\<rparr> = st\<lparr>agents := ag, waiters := ws\<rparr>" for ws ag
    by (cases st) simp
  with 1 show ?case
    by (subst (1 2) wake_one.simps) (auto simp: set_agent_def split: list.splits)
qed

lemma acquire_loop_forget: "acquire_loop h (set_agent h a st) = acquire_loop h st"
  by (simp add: acquire_loop_def set_agent_def pool_await_suspend_def can_create_def)

lemma ok_resume:
  assumes "pool_ok st" "h \<in> set (ready st)"
  shows "pool_ok (pool_resume h st)"
proof -
  have w: "agents st h = Some Waiting"
    using assms by (auto simp: pool_ok_def pool_core_def marked_iff)
  let ?t = "pool_drop h (st\<lparr>ready := remove1 h (ready st)\<rparr>)"
  have "pool_ok (acquire_loop h (set_agent h None ?t))"
    using assms(1) core_leave [OF _ w] owed_leave
    by (intro ok_acquire_loop) (auto simp: pool_ok_def marked_iff)
  then show ?thesis
    by (simp add: pool_resume_def pool_awaiter_destroy_def acquire_loop_forget Let_def)
qed

lemma ok_cancel:
  assumes "pool_ok st" "agents st h = Some Waiting"
  shows "pool_ok (pool_cancel h st)"
proof -
  let ?t = "pool_drop h (st\<lparr>ready := remove1 h (ready st)\<rparr>)"
  have *: "pool_core (set_agent h None ?t)" "owed 1 (set_agent h None ?t)"
    using assms core_leave owed_leave by (auto simp: pool_ok_def)
  show ?thesis
  proof (cases "idle ?t \<noteq> [] \<or> can_create ?t")
    case True
    then show ?thesis
      using ok_wake_one [OF *] by (simp add: pool_cancel_def pool_awaiter_destroy_def set_agent_wake_one Let_def)
  next
    case False
    then have "owed 0 (set_agent h None ?t)"
      using *(1) by (auto simp: owed_def can_create_def pool_core_def)
    then show ?thesis
      using False * by (simp add: pool_cancel_def pool_awaiter_destroy_def pool_ok_def Let_def)
  qed
qed

lemma wake_all_eq:
  "live st = set (waiters st) \<Longrightarrow> distinct (waiters st) \<Longrightarrow>
    wake_all st = st\<lparr>waiters := [], live := {}, ready := ready st @ waiters st\<rparr>"
proof (induction st rule: wake_all.induct)
  case (1 st)
  show ?case
  proof (cases "waiters st")
    case (Cons n ws)
    then show ?thesis
      using 1 by (subst wake_all.simps) (auto simp: wake_one_live)
  qed (use 1 in \<open>simp add: wake_all.simps [of st]\<close>)
qed

lemma ok_close: "pool_ok st \<Longrightarrow> pool_ok (pool_close st)"
  by (auto simp: pool_ok_def pool_core_def owed_def pool_close_def wake_all_eq)

lemma ok_release:
  assumes "pool_ok st" "agents st h = Some (Leased r)"
  shows "pool_ok (lease_release throws h st)" "pool_ok (lease_discard h st)"
proof -
  let ?t = "(set_agent h None st)\<lparr>in_use := in_use st - 1\<rparr>"
  have ok: "pool_core st" "owed 0 st" using assms(1) by (auto simp: pool_ok_def)
  have *: "pool_core ?t" "owed 1 ?t" "0 < in_use st"
    using core_free [OF ok(1) assms(2)] owed_free [OF ok(2)] by auto
  show "pool_ok (lease_discard h st)"
    using ok_wake_one [OF *(1,2)] *(3) assms(2) by (simp add: lease_discard_def Let_def)
  show "pool_ok (lease_release throws h st)"
  proof (cases "\<not> closed st \<and> length (idle st) < max_idle st \<and> \<not> throws")
    case True
    let ?u = "(set_agent h None st)\<lparr>idle := idle st @ [r], in_use := in_use st - 1\<rparr>"
    have "pool_core ?u" "owed 1 ?u"
      using * True ok(1) by (auto simp: pool_core_def owed_def)
    from ok_wake_one [OF this] show ?thesis
      using True assms(2) by (simp add: lease_release_def Let_def set_agent_def)
  next
    case False
    then show ?thesis using ok_wake_one [OF *(1,2)] assms(2) by (auto simp: lease_release_def Let_def)
  qed
qed

lemma pool_step_ok: "pool_step st st' \<Longrightarrow> pool_ok st \<Longrightarrow> pool_ok st'"
proof (induction rule: pool_step.induct)
  case (ps_acquire st h)
  then show ?case
    by (intro ok_acquire_loop) (auto simp: pool_ok_def marked_iff owed_mono)
next
  case (ps_built st h r)
  then show ?case
  proof (cases "closed st")
    case True
    then show ?thesis
      using ok_free [OF ps_built.prems ps_built.hyps(1)] by (simp add: built_def reservation_destroy_def)
  next
    case False
    have "h \<in> marked holds_place (agents st)" "h \<notin> marked (\<lambda>a. a = Waiting) (agents st)"
      using ps_built.hyps(1) by (simp_all add: marked_iff)
    then show ?thesis
      using ps_built.prems False
      by (auto simp: built_def pool_ok_def pool_core_def owed_def marked_upd insert_absorb)
  qed
next
  case (ps_failed st h)
  then show ?case using ok_free [OF ps_failed.prems ps_failed.hyps] by (simp add: build_failed_def reservation_destroy_def)
qed (simp_all add: ok_resume ok_cancel ok_release ok_close)

lemma wake_all_keeps [simp]: "agents (wake_all st) = agents st" "idle (wake_all st) = idle st"
  by (induction st rule: wake_all.induct; subst wake_all.simps; simp)+

lemma step_exclusive: "pool_step st st' \<Longrightarrow> exclusive st \<Longrightarrow> exclusive st'"
proof (induction rule: pool_step.induct)
  case (ps_acquire st h)
  then show ?case
    by (cases "idle st")
      (auto simp: exclusive_def acquire_loop_def pool_await_suspend_def)
next
  case (ps_resume h st)
  then show ?case
    by (cases "idle st")
      (auto simp: exclusive_def pool_resume_def acquire_loop_def pool_await_suspend_def
        pool_awaiter_destroy_def pool_drop_def Let_def)
next
  case (ps_cancel st h)
  then show ?case by (auto simp: exclusive_def pool_cancel_def pool_awaiter_destroy_def pool_drop_def Let_def)
next
  case (ps_built st h r)
  then show ?case by (auto simp: exclusive_def built_def reservation_destroy_def resources_def)
next
  case (ps_failed st h)
  then show ?case by (auto simp: exclusive_def build_failed_def reservation_destroy_def)
next
  case (ps_release st h r throws)
  then show ?case by (auto simp: exclusive_def lease_release_def Let_def)
next
  case (ps_discard st h r)
  then show ?case by (auto simp: exclusive_def lease_discard_def Let_def)
next
  case (ps_close st)
  then show ?case by (auto simp: exclusive_def pool_close_def)
qed

interpretation pools: inductive_invariant "\<lambda>st. \<exists>a i. st = pool_new a i" pool_step "\<lambda>st. pool_ok st \<and> exclusive st"
proof
  show "pool_ok st \<and> exclusive st" if "\<exists>a i. st = pool_new a i" for st :: "'r pool_state"
    using that by (auto simp: pool_new_def pool_ok_def pool_core_def owed_def exclusive_def marked_upd)
qed (blast intro: pool_step_ok step_exclusive)

text \<open>In every reachable state of a pool: the places in use are exactly the leases and the resources
  being built; with a limit, they and the idle resources together stay within it; no more idle
  resources are kept than asked for; no resource is leased twice or leased and idle at once; a
  closed pool keeps neither idle resources nor waiting coroutines.\<close>

theorem pool_never_exceeds_limit:
  assumes "reachable (\<lambda>st. \<exists>a i. st = pool_new a i) pool_step st"
  shows "in_use st = card {h. \<exists>a. agents st h = Some a \<and> a \<noteq> Waiting} \<and>
    (max_agents st \<noteq> 0 \<longrightarrow> in_use st + length (idle st) \<le> max_agents st) \<and> length (idle st) \<le> max_idle st \<and>
    (\<forall>h h' r. agents st h = Some (Leased r) \<longrightarrow> agents st h' = Some (Leased r) \<longrightarrow> h = h') \<and>
    distinct (idle st) \<and> (\<forall>h r. agents st h = Some (Leased r) \<longrightarrow> r \<notin> set (idle st)) \<and>
    (closed st \<longrightarrow> idle st = [] \<and> waiters st = [])"
  using pools.invariant_reachable [OF assms]
  by (auto simp: pool_ok_def pool_core_def exclusive_def marked_def)

text \<open>C32. No wake-up is lost: in every reachable state in which a coroutine waits, the pool has a
  limit and at least as many coroutines are scheduled to retry as places are free; so if none is
  scheduled, every place is in use and nothing is idle. A coroutine is in the queue or scheduled,
  never both, and the suspended ones are exactly these.\<close>

theorem pool_no_lost_wakeup:
  assumes "reachable (\<lambda>st. \<exists>a i. st = pool_new a i) pool_step st" "waiters st \<noteq> []"
  shows "max_agents st \<noteq> 0 \<and> max_agents st - in_use st \<le> length (ready st) \<and>
    (ready st = [] \<longrightarrow> in_use st = max_agents st \<and> idle st = []) \<and>
    distinct (waiters st @ ready st) \<and>
    {h. agents st h = Some Waiting} = set (waiters st) \<union> set (ready st)"
proof -
  have ok: "pool_core st" "owed 0 st"
    using pools.invariant_reachable [OF assms(1)] by (auto simp: pool_ok_def)
  have "max_agents st \<noteq> 0" "max_agents st \<le> in_use st + length (ready st)" "in_use st + length (idle st) \<le> max_agents st"
    using ok assms(2) by (auto simp: owed_def pool_core_def)
  moreover have "distinct (waiters st @ ready st)" "{h. agents st h = Some Waiting} = set (waiters st) \<union> set (ready st)"
    using ok(1) by (auto simp: pool_core_def marked_def)
  ultimately show ?thesis by (cases "idle st") auto
qed

text \<open>A pool of one place: coroutine 1 has the lease, 2 waits.\<close>

definition demo_pool :: "nat pool_state" where
  "demo_pool = acquire_loop 2 (built 1 7 (acquire_loop 1 (pool_new 1 1)))"

lemma demo_pool_eq:
  "demo_pool = \<lparr>idle = [], waiters = [2], max_agents = 1, max_idle = 1, in_use = 1, closed = False,
     live = {2}, ready = [], agents = [1 \<mapsto> Leased 7, 2 \<mapsto> Waiting]\<rparr>"
  by (simp add: demo_pool_def acquire_loop_def pool_new_def can_create_def built_def set_agent_def
      pool_await_suspend_def)

lemma demo_pool_reachable: "reachable (\<lambda>st. \<exists>a i. st = pool_new a i) pool_step demo_pool"
proof -
  have "reachable (\<lambda>st. \<exists>a i. st = pool_new a i) pool_step (acquire_loop 1 (pool_new 1 1 :: nat pool_state))"
    by (rule reachable_step [OF reachable_init], blast, rule ps_acquire) (simp add: pool_new_def)
  then have "reachable (\<lambda>st. \<exists>a i. st = pool_new a i) pool_step (built 1 7 (acquire_loop 1 (pool_new 1 1 :: nat pool_state)))"
    by (rule reachable_step, intro ps_built)
      (simp_all add: acquire_loop_def pool_new_def can_create_def set_agent_def resources_def)
  then show ?thesis unfolding demo_pool_def
    by (rule reachable_step, intro ps_acquire)
      (simp add: acquire_loop_def pool_new_def can_create_def set_agent_def built_def)
qed

lemma pool_never_exceeds_limit_witness:
  "in_use demo_pool = 1 \<and> in_use demo_pool + length (idle demo_pool) \<le> max_agents demo_pool"
  using pool_never_exceeds_limit [OF demo_pool_reachable] by (simp add: demo_pool_eq)

lemma pool_no_lost_wakeup_witness:
  "waiters demo_pool = [2] \<and> ready demo_pool = [] \<and> in_use demo_pool = max_agents demo_pool"
proof -
  have "waiters demo_pool \<noteq> []" by (simp add: demo_pool_eq)
  from pool_no_lost_wakeup [OF demo_pool_reachable this] show ?thesis by (simp add: demo_pool_eq)
qed

end
