(* ===== verification/Stream.thy ===== *)
theory Stream
  imports Coro_Prelude
begin

section \<open>Buffered reading and complete writing\<close>

text \<open>
  \<open>stream_reader\<close> and \<open>stream_writer\<close> of stream.hpp. The buffer is the vector of the code: its length is
  the capacity, \<open>used\<close> and \<open>head\<close> delimit the bytes that are buffered. The source is what its next reads
  will return, a list of events: some bytes (a read takes as many as fit and leaves the rest for the
  next one), an end of the stream, or an error; a list that has run out ends the stream. A coroutine is
  its run to completion: suspension in a read changes nothing of the reader.

  \<open>unread\<close> is the buffered text and \<open>rest\<close> all text still to come; the operations are specified by
  what they take from \<open>rest\<close>.
\<close>

subsection \<open>Model\<close>

datatype read_event = Got string | Failed coro_error

type_synonym source = "read_event list"

record stream_reader =
  buf :: string
  used :: nat
  head :: nat
  scan_mark :: nat
  byte_mark :: nat
  max_cap :: nat
  at_eof :: bool

definition initial_capacity :: "nat \<Rightarrow> nat \<Rightarrow> nat result" where
  "initial_capacity requested maximum =
    (if maximum = 0 then Inl InvalidArgument
     else let requested = (if requested = 0 then 1 else requested)
     in Inr (if requested < maximum then requested else maximum))"

definition reader_new :: "nat \<Rightarrow> nat \<Rightarrow> stream_reader result" where
  "reader_new buffer_capacity max_capacity =
    (case initial_capacity buffer_capacity max_capacity of
       Inl e \<Rightarrow> Inl e
     | Inr n \<Rightarrow> Inr \<lparr>buf = replicate n (CHR 0x00), used = 0, head = 0, scan_mark = 0, byte_mark = 0,
                   max_cap = max_capacity, at_eof = False\<rparr>)"

definition buffered :: "stream_reader \<Rightarrow> nat" where
  "buffered r = used r - head r"

text \<open>One read of the source into \<open>room\<close> bytes: the bytes, or an error; no bytes is the end.\<close>

fun source_read :: "nat \<Rightarrow> source \<Rightarrow> string result \<times> source" where
  "source_read room [] = (Inr [], [])"
| "source_read room (Failed e # s) = (Inl e, s)"
| "source_read room (Got d # s) =
    (if length d \<le> room then (Inr d, s) else (Inr (take room d), Got (drop room d) # s))"

datatype filled = Filled nat | FillEof | FillError coro_error

text \<open>The compaction at the start of \<open>fill\<close>: \<open>memmove\<close> of the buffered bytes to the front.\<close>

definition compact :: "stream_reader \<Rightarrow> stream_reader" where
  "compact r =
    (if head r > 0 then
       r\<lparr>buf := take (buffered r) (drop (head r) (buf r)) @ drop (buffered r) (buf r),
         used := used r - head r, head := 0\<rparr>
     else r)"

text \<open>The growth of a full buffer below its maximum.\<close>

definition grow :: "stream_reader \<Rightarrow> stream_reader" where
  "grow r =
    (let size = length (buf r); remaining = max_cap r - size;
         g = (if size > 0 then size else 1024); g = (if g < 1024 then 1024 else g);
         bigger = size + (if remaining < g then remaining else g)
     in r\<lparr>buf := buf r @ replicate (bigger - size) (CHR 0x00)\<rparr>)"

text \<open>The read of \<open>fill\<close> into a buffer that has room.\<close>

definition fill_read :: "stream_reader \<Rightarrow> source \<Rightarrow> filled \<times> stream_reader \<times> source" where
  "fill_read r s =
    (case source_read (length (buf r) - used r) s of
       (Inl e, s) \<Rightarrow> (FillError e, r, s)
     | (Inr d, s) \<Rightarrow>
         if d = [] then (FillEof, r\<lparr>at_eof := True\<rparr>, s)
         else (Filled (length d),
               r\<lparr>buf := take (used r) (buf r) @ d @ drop (used r + length d) (buf r),
                 used := used r + length d\<rparr>, s))"

definition fill :: "stream_reader \<Rightarrow> source \<Rightarrow> filled \<times> stream_reader \<times> source" where
  "fill r s =
    (if at_eof r then (FillEof, r, s)
     else let r = compact r
     in if length (buf r) - used r = 0 \<and> length (buf r) \<ge> max_cap r
        then (FillError (StreamOverflowError (max_cap r)), r, s)
        else fill_read (if length (buf r) - used r = 0 then grow r else r) s)"

definition rewind_marks :: "nat \<Rightarrow> stream_reader \<Rightarrow> stream_reader" where
  "rewind_marks consumed r =
    r\<lparr>scan_mark := (if scan_mark r > consumed then scan_mark r - consumed else 0),
      byte_mark := (if byte_mark r > consumed then byte_mark r - consumed else 0)\<rparr>"

definition take_bytes :: "nat \<Rightarrow> stream_reader \<Rightarrow> string \<times> stream_reader" where
  "take_bytes n r = (take n (drop (head r) (buf r)), rewind_marks n (r\<lparr>head := head r + n\<rparr>))"

definition take_into :: "nat \<Rightarrow> stream_reader \<Rightarrow> string \<times> stream_reader" where
  "take_into n r =
    (let k = (if buffered r < n then buffered r else n)
     in (take k (drop (head r) (buf r)), rewind_marks k (r\<lparr>head := head r + k\<rparr>)))"

text \<open>The loops of \<open>scan\<close> and \<open>find_byte\<close>: the first hit in the \<open>n\<close> positions from \<open>i\<close>.\<close>

fun match_from :: "(nat \<Rightarrow> bool) \<Rightarrow> nat \<Rightarrow> nat \<Rightarrow> nat option" where
  "match_from hit i 0 = None"
| "match_from hit i (Suc n) = (if hit i then Some i else match_from hit (Suc i) n)"

definition scan_delim :: "string \<Rightarrow> stream_reader \<Rightarrow> nat option \<times> stream_reader" where
  "scan_delim delim r =
    (if delim = [] \<or> buffered r < length delim then (None, r)
     else let left = buffered r - length delim;
              start = (if scan_mark r < left then scan_mark r else left)
     in case match_from (\<lambda>i. take (length delim) (drop (head r + i) (buf r)) = delim) start (left + 1 - start) of
          Some i \<Rightarrow> (Some i, r)
        | None \<Rightarrow> (None, r\<lparr>scan_mark := left + 1\<rparr>))"

definition find_byte :: "char \<Rightarrow> stream_reader \<Rightarrow> nat option \<times> stream_reader" where
  "find_byte ch r =
    (let size = buffered r; start = (if byte_mark r < size then byte_mark r else size)
     in case match_from (\<lambda>i. buf r ! (head r + i) = ch) start (size - start) of
          Some i \<Rightarrow> (Some i, r)
        | None \<Rightarrow> (None, r\<lparr>byte_mark := size\<rparr>))"

text \<open>What is left to read from a source, for the termination of the loops.\<close>

definition source_size :: "source \<Rightarrow> nat" where
  "source_size s = sum_list (map (\<lambda>e. case e of Got d \<Rightarrow> Suc (length d) | Failed x \<Rightarrow> 1) s)"

lemma source_read_smaller:
  "source_read room s = (Inr d, s') \<Longrightarrow> d \<noteq> [] \<Longrightarrow> source_size s' < source_size s"
  by (induction room s rule: source_read.induct) (auto simp: source_size_def split: if_splits)

lemma fill_smaller: "fill r s = (Filled n, r', s') \<Longrightarrow> source_size s' < source_size s"
  by (auto simp: fill_def fill_read_def Let_def split: if_splits prod.splits sum.splits dest!: source_read_smaller)

function read_until_owned :: "string \<Rightarrow> stream_reader \<Rightarrow> source \<Rightarrow> string option result \<times> stream_reader \<times> source" where
  "read_until_owned delim r s =
    (case scan_delim delim r of
       (Some hit, r) \<Rightarrow> (let (out, r) = take_bytes hit r in (Inr (Some out), r\<lparr>head := head r + length delim\<rparr>, s))
     | (None, r) \<Rightarrow>
         (case fill r s of
            (Filled n, r, s) \<Rightarrow> read_until_owned delim r s
          | (FillEof, r, s) \<Rightarrow>
              if buffered r = 0 then (Inr None, r, s)
              else (let (out, r) = take_bytes (buffered r) r in (Inr (Some out), r, s))
          | (FillError e, r, s) \<Rightarrow> (Inl e, r, s)))"
  by pat_completeness auto
termination
  by (relation "measure (\<lambda>(delim, r, s). source_size s)") (auto dest: fill_smaller [OF sym])

definition read_until :: "string \<Rightarrow> stream_reader \<Rightarrow> source \<Rightarrow> string option result \<times> stream_reader \<times> source" where
  "read_until delim r s = (if delim = [] then (Inl InvalidArgument, r, s) else read_until_owned delim r s)"

definition LF :: char where "LF = CHR 0x0A"
definition CR :: char where "CR = CHR 0x0D"

function read_line :: "stream_reader \<Rightarrow> source \<Rightarrow> string option result \<times> stream_reader \<times> source" where
  "read_line r s =
    (case find_byte LF r of
       (Some nl, r) \<Rightarrow>
         (let content = (if nl > 0 \<and> buf r ! (head r + nl - 1) = CR then nl - 1 else nl);
              (out, r) = take_bytes content r
          in (Inr (Some out), r\<lparr>head := head r + (nl - content) + 1\<rparr>, s))
     | (None, r) \<Rightarrow>
         (case fill r s of
            (Filled n, r, s) \<Rightarrow> read_line r s
          | (FillEof, r, s) \<Rightarrow>
              if buffered r = 0 then (Inr None, r, s)
              else (let (out, r) = take_bytes (buffered r) r in (Inr (Some out), r, s))
          | (FillError e, r, s) \<Rightarrow> (Inl e, r, s)))"
  by pat_completeness auto
termination
  by (relation "measure (\<lambda>(r, s). source_size s)") (auto dest: fill_smaller [OF sym])

declare read_until_owned.simps [simp del] read_line.simps [simp del]

text \<open>Reading into the caller's memory; \<open>has_dst\<close> says whether the pointer is not null. When bytes
  are buffered at least one is taken, so the loop of \<open>read_some\<close> runs once after a fill.\<close>

definition read_some :: "bool \<Rightarrow> nat \<Rightarrow> stream_reader \<Rightarrow> source \<Rightarrow> string option result \<times> stream_reader \<times> source" where
  "read_some has_dst n r s =
    (if n = 0 then (Inr (Some []), r, s)
     else if \<not> has_dst then (Inl InvalidArgument, r, s)
     else if buffered r = 0 then
       (case fill r s of
          (Filled k, r, s) \<Rightarrow> (let (out, r) = take_into n r in (Inr (Some out), r, s))
        | (FillEof, r, s) \<Rightarrow> (Inr None, r, s)
        | (FillError e, r, s) \<Rightarrow> (Inl e, r, s))
     else (let (out, r) = take_into n r in (Inr (Some out), r, s)))"

lemma take_into_smaller: "take_into n r = (out, r') \<Longrightarrow> 0 < n \<Longrightarrow> 0 < buffered r \<Longrightarrow> buffered r' < buffered r"
  by (auto simp: take_into_def buffered_def rewind_marks_def Let_def split: if_splits)

function read_exactly_from :: "nat \<Rightarrow> string \<Rightarrow> stream_reader \<Rightarrow> source \<Rightarrow> string result \<times> stream_reader \<times> source" where
  "read_exactly_from n got r s =
    (if length got \<ge> n then (Inr got, r, s)
     else if buffered r = 0 then
       (case fill r s of
          (Filled k, r, s) \<Rightarrow> (let (out, r) = take_into (n - length got) r in read_exactly_from n (got @ out) r s)
        | (FillEof, r, s) \<Rightarrow> (Inl (IncompleteStreamError n (length got)), r, s)
        | (FillError e, r, s) \<Rightarrow> (Inl e, r, s))
     else (let (out, r) = take_into (n - length got) r in read_exactly_from n (got @ out) r s))"
  by pat_completeness auto
termination
  by (relation "measures [\<lambda>(n, got, r, s). source_size s, \<lambda>(n, got, r, s). buffered r]")
    (auto dest: fill_smaller [OF sym] take_into_smaller [OF sym])

declare read_exactly_from.simps [simp del]

definition read_exactly :: "bool \<Rightarrow> nat \<Rightarrow> stream_reader \<Rightarrow> source \<Rightarrow> string result \<times> stream_reader \<times> source" where
  "read_exactly has_dst n r s =
    (if n \<noteq> 0 \<and> \<not> has_dst then (Inl InvalidArgument, r, s) else read_exactly_from n [] r s)"

text \<open>Writing: the sink is what its next writes will accept, a positive count, nothing, or an error.\<close>

datatype write_event = Accepts nat | WriteFailed coro_error

fun write_from :: "string \<Rightarrow> string \<Rightarrow> write_event list \<Rightarrow> bool result \<times> string" where
  "write_from done_part [] ws = (Inr True, done_part)"
| "write_from done_part data [] = (Inr False, done_part)"
| "write_from done_part data (WriteFailed e # ws) = (Inl e, done_part)"
| "write_from done_part data (Accepts n # ws) =
    (if n = 0 then (Inr False, done_part) else write_from (done_part @ take n data) (drop n data) ws)"

definition write_all :: "bool \<Rightarrow> string \<Rightarrow> write_event list \<Rightarrow> bool result \<times> string" where
  "write_all has_data data ws =
    (if data \<noteq> [] \<and> \<not> has_data then (Inl InvalidArgument, []) else write_from [] data ws)"

definition write_line :: "string \<Rightarrow> write_event list \<Rightarrow> bool result \<times> string" where
  "write_line s ws = write_all True (s @ [LF]) ws"

subsection \<open>The text that is still to come\<close>

fun content :: "source \<Rightarrow> string" where
  "content [] = []"
| "content (Failed e # s) = content s"
| "content (Got d # s) = (if d = [] then [] else d @ content s)"

definition unread :: "stream_reader \<Rightarrow> string" where
  "unread r = take (buffered r) (drop (head r) (buf r))"

definition rest :: "stream_reader \<Rightarrow> source \<Rightarrow> string" where
  "rest r s = unread r @ (if at_eof r then [] else content s)"

definition reader_ok :: "stream_reader \<Rightarrow> bool" where
  "reader_ok r \<longleftrightarrow> head r \<le> used r \<and> used r \<le> length (buf r) \<and> 0 < length (buf r) \<and> length (buf r) \<le> max_cap r"

lemma length_unread: "reader_ok r \<Longrightarrow> length (unread r) = buffered r"
  by (auto simp: reader_ok_def unread_def buffered_def)

lemma unread_nth: "i < buffered r \<Longrightarrow> reader_ok r \<Longrightarrow> buf r ! (head r + i) = unread r ! i"
  by (simp add: reader_ok_def unread_def buffered_def)

lemma source_read_content:
  assumes "0 < room"
  shows "source_read room s = (Inr d, s') \<Longrightarrow> content s = (if d = [] then [] else d @ content s')"
    and "source_read room s = (Inl e, s') \<Longrightarrow> content s = content s'"
    and "source_read room s = (Inr d, s') \<Longrightarrow> length d \<le> room"
  using assms by (induction room s rule: source_read.induct) (auto split: if_splits)

lemma compact_spec:
  assumes "reader_ok r"
  shows "reader_ok (compact r)" "unread (compact r) = unread r" "used (compact r) = buffered r" "head (compact r) = 0"
    and "length (buf (compact r)) = length (buf r)" "byte_mark (compact r) = byte_mark r" "at_eof (compact r) = at_eof r"
    and "max_cap (compact r) = max_cap r" "buffered (compact r) = buffered r"
  using assms by (auto simp: compact_def reader_ok_def unread_def buffered_def)

lemma grow_spec:
  assumes "reader_ok r" "length (buf r) < max_cap r"
  shows "reader_ok (grow r)" "unread (grow r) = unread r" "used (grow r) = used r" "head (grow r) = head r"
    and "byte_mark (grow r) = byte_mark r" "at_eof (grow r) = at_eof r" "max_cap (grow r) = max_cap r"
    and "length (buf r) < length (buf (grow r))" "buffered (grow r) = buffered r"
  using assms by (auto simp: grow_def reader_ok_def unread_def buffered_def Let_def)

text \<open>The reader the source is read into: it has room, and the same text buffered.\<close>

definition roomy :: "stream_reader \<Rightarrow> stream_reader \<Rightarrow> bool" where
  "roomy r r1 \<longleftrightarrow> reader_ok r1 \<and> unread r1 = unread r \<and> head r1 = 0 \<and> used r1 = buffered r \<and>
    used r1 < length (buf r1) \<and> byte_mark r1 = byte_mark r \<and> at_eof r1 = at_eof r \<and> max_cap r1 = max_cap r"

lemma fill_cases:
  assumes ok: "reader_ok r" and f: "fill r s = (res, r', s')"
  obtains (eof) "at_eof r" "res = FillEof" "r' = r" "s' = s"
  | (full) "\<not> at_eof r" "buffered r = max_cap r" "res = FillError (StreamOverflowError (max_cap r))"
      "r' = compact r" "s' = s"
  | (read) r1 where "\<not> at_eof r" "roomy r r1" "fill_read r1 s = (res, r', s')"
proof (cases "at_eof r")
  case True
  then show thesis using eof f by (simp add: fill_def)
next
  case ne: False
  define c where "c = compact r"
  note cs = compact_spec [OF ok, folded c_def]
  show thesis
  proof (cases "length (buf c) - used c = 0 \<and> length (buf c) \<ge> max_cap c")
    case True
    then have "buffered r = max_cap r" using cs by (auto simp: reader_ok_def)
    then show thesis using full ne True f by (auto simp: fill_def c_def [symmetric] Let_def cs(8))
  next
    case False
    define r1 where "r1 = (if length (buf c) - used c = 0 then grow c else c)"
    have "roomy r r1"
      using False cs grow_spec [of c] by (auto simp: roomy_def r1_def reader_ok_def)
    moreover have "fill r s = fill_read r1 s"
      using ne False by (simp only: fill_def c_def [symmetric] r1_def [symmetric] Let_def if_False)
    ultimately show thesis using read ne f by simp
  qed
qed

lemma roomy_rest: "roomy r r1 \<Longrightarrow> rest r1 s = rest r s"
  by (simp add: roomy_def rest_def)

lemma unread_extended:
  assumes "roomy r r1" "length d \<le> length (buf r1) - used r1"
  defines "r2 \<equiv> r1\<lparr>buf := take (used r1) (buf r1) @ d @ drop (used r1 + length d) (buf r1), used := used r1 + length d\<rparr>"
  shows "reader_ok r2" "unread r2 = unread r @ d"
proof -
  have "unread r = take (used r1) (buf r1)" "used r1 \<le> length (buf r1)" "head r1 = 0"
    using assms(1) by (auto simp: roomy_def unread_def buffered_def)
  then show "unread r2 = unread r @ d" by (simp add: r2_def unread_def buffered_def)
  show "reader_ok r2" using assms by (auto simp: roomy_def reader_ok_def)
qed

lemma fill_spec:
  assumes ok: "reader_ok r" and f: "fill r s = (res, r', s')"
  shows "reader_ok r'" "rest r' s' = rest r s" "byte_mark r' = byte_mark r" "max_cap r' = max_cap r"
    and "res = Filled n \<Longrightarrow> \<exists>d. unread r' = unread r @ d"
    and "res = FillEof \<Longrightarrow> unread r' = unread r \<and> rest r s = unread r \<and> at_eof r'"
    and "res = FillError e \<Longrightarrow> unread r' = unread r \<and> (buffered r = max_cap r \<or> Failed e \<in> set s)"
proof -
  have "reader_ok r' \<and> rest r' s' = rest r s \<and> byte_mark r' = byte_mark r \<and> max_cap r' = max_cap r \<and>
    (\<forall>n. res = Filled n \<longrightarrow> (\<exists>d. unread r' = unread r @ d)) \<and>
    (res = FillEof \<longrightarrow> unread r' = unread r \<and> rest r s = unread r \<and> at_eof r') \<and>
    (\<forall>e. res = FillError e \<longrightarrow> unread r' = unread r \<and> (buffered r = max_cap r \<or> Failed e \<in> set s))"
    using ok f
  proof (cases rule: fill_cases)
    case eof
    then show ?thesis using ok by (simp add: rest_def)
  next
    case full
    then show ?thesis using compact_spec [OF ok] by (simp add: rest_def)
  next
    case (read r1)
    have room: "0 < length (buf r1) - used r1" using read(2) by (simp add: roomy_def)
    obtain d s1 where sr: "source_read (length (buf r1) - used r1) s = (d, s1)" by fastforce
    note sc = source_read_content [OF room]
    show ?thesis
    proof (cases d)
      case (Inl e)
      have "Failed e \<in> set s" using sr Inl by (cases s; cases "hd s") (auto split: if_splits)
      moreover have "res = FillError e" "r' = r1" "s' = s1" using read(3) sr Inl by (auto simp: fill_read_def)
      ultimately show ?thesis
        using read(1,2) sc(2) [OF sr [unfolded Inl]] by (auto simp: roomy_def rest_def)
    next
      case (Inr t)
      note c = sc(1) [OF sr [unfolded Inr]]
      show ?thesis
      proof (cases "t = []")
        case True
        then have "res = FillEof" "r' = r1\<lparr>at_eof := True\<rparr>" "s' = s1"
          using read(3) sr Inr by (auto simp: fill_read_def)
        then show ?thesis
          using read(1,2) True c by (auto simp: roomy_def rest_def reader_ok_def unread_def buffered_def)
      next
        case False
        note e = unread_extended [OF read(2) sc(3) [OF sr [unfolded Inr]]]
        have "res = Filled (length t)" "s' = s1" "r' = r1\<lparr>buf := take (used r1) (buf r1) @ t @
            drop (used r1 + length t) (buf r1), used := used r1 + length t\<rparr>"
          using read(3) sr Inr False by (auto simp: fill_read_def)
        then show ?thesis using read(1,2) False c e by (auto simp: rest_def roomy_def)
      qed
    qed
  qed
  then show "reader_ok r'" "rest r' s' = rest r s" "byte_mark r' = byte_mark r" "max_cap r' = max_cap r"
    "res = Filled n \<Longrightarrow> \<exists>d. unread r' = unread r @ d"
    "res = FillEof \<Longrightarrow> unread r' = unread r \<and> rest r s = unread r \<and> at_eof r'"
    "res = FillError e \<Longrightarrow> unread r' = unread r \<and> (buffered r = max_cap r \<or> Failed e \<in> set s)" by blast+
qed

subsection \<open>Searching and taking\<close>

lemma match_from_Some:
  "match_from hit i n = Some j \<Longrightarrow> i \<le> j \<and> j < i + n \<and> hit j \<and> (\<forall>k. i \<le> k \<longrightarrow> k < j \<longrightarrow> \<not> hit k)"
proof (induction hit i n rule: match_from.induct)
  case (2 hit i n)
  show ?case
  proof (cases "hit i")
    case False
    with 2 have *: "Suc i \<le> j \<and> j < Suc i + n \<and> hit j \<and> (\<forall>k. Suc i \<le> k \<longrightarrow> k < j \<longrightarrow> \<not> hit k)" by simp
    then have "\<not> hit k" if "i \<le> k" "k < j" for k using that False by (cases "k = i") auto
    with * show ?thesis by auto
  qed (use 2 in auto)
qed simp

lemma match_from_None: "match_from hit i n = None \<longleftrightarrow> (\<forall>k. i \<le> k \<longrightarrow> k < i + n \<longrightarrow> \<not> hit k)"
proof (induction hit i n rule: match_from.induct)
  case (2 hit i n)
  have "(\<forall>k. i \<le> k \<longrightarrow> k < i + Suc n \<longrightarrow> \<not> hit k) \<longleftrightarrow> \<not> hit i \<and> (\<forall>k. Suc i \<le> k \<longrightarrow> k < Suc i + n \<longrightarrow> \<not> hit k)"
    by (metis Suc_leI add_Suc_right add_Suc_shift le_less less_add_Suc1 Suc_leD)
  then show ?case using 2 by simp
qed simp

text \<open>The cursor of \<open>find_byte\<close> is sound for line ends: no line end lies before it.\<close>

definition mark_ok :: "stream_reader \<Rightarrow> bool" where
  "mark_ok r \<longleftrightarrow> (\<forall>i < byte_mark r. i < buffered r \<longrightarrow> unread r ! i \<noteq> LF)"

lemma find_byte_Some:
  assumes "reader_ok r" "mark_ok r" "find_byte LF r = (Some i, r')"
  shows "r' = r" "i < buffered r" "unread r ! i = LF" "byte_mark r \<le> i" "LF \<notin> set (take i (unread r))"
proof -
  let ?st = "if byte_mark r < buffered r then byte_mark r else buffered r"
  have m: "match_from (\<lambda>i. buf r ! (head r + i) = LF) ?st (buffered r - ?st) = Some i" and r: "r' = r"
    using assms(3) by (auto simp: find_byte_def Let_def split: option.splits split del: if_split)
  note ms = match_from_Some [OF m]
  have i: "i < buffered r" "?st \<le> i" using ms by auto
  then have st: "?st = byte_mark r" "byte_mark r \<le> i" by (auto split: if_splits)
  have hit: "unread r ! i = LF" using ms unread_nth [OF i(1) assms(1)] by simp
  have "unread r ! k \<noteq> LF" if "k < i" for k
  proof (cases "k < byte_mark r")
    case True
    then show ?thesis using assms(2) that i(1) by (auto simp: mark_ok_def)
  next
    case False
    then show ?thesis using ms that i(1) st unread_nth [of k r] assms(1) by auto
  qed
  then show "LF \<notin> set (take i (unread r))" by (auto simp: in_set_conv_nth length_unread [OF assms(1)])
  show "r' = r" "i < buffered r" "unread r ! i = LF" "byte_mark r \<le> i" using r i hit st by auto
qed

lemma find_byte_None:
  assumes "reader_ok r" "mark_ok r" "find_byte LF r = (None, r')"
  shows "r' = r\<lparr>byte_mark := buffered r\<rparr>" "LF \<notin> set (unread r)"
proof -
  let ?st = "if byte_mark r < buffered r then byte_mark r else buffered r"
  have m: "match_from (\<lambda>i. buf r ! (head r + i) = LF) ?st (buffered r - ?st) = None"
    and r: "r' = r\<lparr>byte_mark := buffered r\<rparr>"
    using assms(3) by (auto simp: find_byte_def Let_def split: option.splits split del: if_split)
  have "unread r ! k \<noteq> LF" if "k < buffered r" for k
  proof (cases "k < byte_mark r")
    case True
    then show ?thesis using assms(2) that by (auto simp: mark_ok_def)
  next
    case False
    then show ?thesis using m that unread_nth [OF that assms(1)] by (auto simp: match_from_None)
  qed
  then show "LF \<notin> set (unread r)" by (auto simp: in_set_conv_nth length_unread [OF assms(1)])
  show "r' = r\<lparr>byte_mark := buffered r\<rparr>" by (rule r)
qed

text \<open>Advancing the head by \<open>n\<close> buffered bytes.\<close>

lemma advance:
  assumes "reader_ok r" "n \<le> buffered r" "head r' = head r + n" "used r' = used r" "buf r' = buf r" "max_cap r' = max_cap r"
  shows "reader_ok r'" "unread r' = drop n (unread r)" "buffered r' = buffered r - n"
  using assms by (auto simp: reader_ok_def unread_def buffered_def drop_take add.commute)

lemma take_bytes_out: "n \<le> buffered r \<Longrightarrow> take_bytes n r = (out, r') \<Longrightarrow>
    out = take n (unread r) \<and> head r' = head r + n \<and> used r' = used r \<and> buf r' = buf r \<and> max_cap r' = max_cap r \<and>
    at_eof r' = at_eof r \<and> byte_mark r' = byte_mark r - n"
  by (auto simp: take_bytes_def unread_def rewind_marks_def min_def)

subsection \<open>Lines\<close>

text \<open>The first line of a text and what follows it: the line ends before a line feed, and a carriage
  return just before the line feed is not part of it; a text without line feed is one line.\<close>

definition split_line :: "string \<Rightarrow> string \<times> string" where
  "split_line t =
    (let l = takeWhile (\<lambda>ch. ch \<noteq> LF) t
     in (if LF \<in> set t \<and> l \<noteq> [] \<and> last l = CR then butlast l else l, drop (length l + 1) t))"

lemma takeWhile_first:
  assumes "i < length t" "t ! i = x" "x \<notin> set (take i t)"
  shows "takeWhile (\<lambda>ch. ch \<noteq> x) (t @ u) = take i t" "x \<in> set t"
proof -
  have t: "t = take i t @ x # drop (Suc i) t" using assms(1,2) id_take_nth_drop [of i t] by simp
  then have "takeWhile (\<lambda>ch. ch \<noteq> x) (t @ u) = takeWhile (\<lambda>ch. ch \<noteq> x) (take i t @ x # drop (Suc i) t @ u)"
    by (metis append.assoc append_Cons)
  also have "\<dots> = take i t" using assms(3) by (subst takeWhile_append2) auto
  finally show "takeWhile (\<lambda>ch. ch \<noteq> x) (t @ u) = take i t" .
  show "x \<in> set t" using assms(1,2) by (auto simp: in_set_conv_nth)
qed

text \<open>The branch of \<open>read_line\<close> that finds a line feed.\<close>

lemma found_line:
  assumes ok: "reader_ok r" "mark_ok r" and fb: "find_byte LF r = (Some nl, r1)"
    and content: "c = (if nl > 0 \<and> buf r ! (head r + nl - 1) = CR then nl - 1 else nl)"
    and tb: "take_bytes c r = (out, r2)" and r': "r' = r2\<lparr>head := head r2 + (nl - c) + 1\<rparr>"
  shows "reader_ok r'" "split_line (rest r s) = (out, rest r' s)" "max_cap r' = max_cap r"
    and "\<not> mark_ok r' \<Longrightarrow> \<exists>t. rest r s = out @ [CR, LF, LF] @ t"
proof -
  note f = find_byte_Some [OF ok fb]
  have lu: "length (unread r) = buffered r" by (rule length_unread [OF ok(1)])
  have cr: "buf r ! (head r + nl - 1) = unread r ! (nl - 1)" if "nl > 0"
    using that f(2) unread_nth [of "nl - 1" r] ok(1) by simp
  have c: "c \<le> nl" "nl - c \<le> 1" "c < nl \<Longrightarrow> nl = Suc c \<and> unread r ! c = CR"
    using content cr by (auto split: if_splits)
  have cb: "c \<le> buffered r" using c(1) f(2) by simp
  note t = take_bytes_out [OF cb tb]
  have adv: "head r' = head r + (nl + 1)" "used r' = used r" "buf r' = buf r" "max_cap r' = max_cap r"
    using t c(1) by (auto simp: r')
  note a = advance [OF ok(1) _ adv] 
  show "reader_ok r'" "max_cap r' = max_cap r" using a(1) f(2) adv by auto
  have u': "unread r' = drop (nl + 1) (unread r)" using a(2) f(2) by simp
  have rest': "rest r' s = drop (nl + 1) (rest r s)"
    using u' t f(2) lu by (simp add: rest_def r')
  note tw = takeWhile_first [OF f(2) [folded lu] f(3,5)]
  have l: "takeWhile (\<lambda>ch. ch \<noteq> LF) (rest r s) = take nl (unread r)" "LF \<in> set (rest r s)"
    using tw by (auto simp: rest_def)
  have len: "length (take nl (unread r)) = nl" using f(2) lu by simp
  have last: "last (take nl (unread r)) = unread r ! (nl - 1)" if "nl > 0"
    using that len by (subst last_conv_nth) auto
  have "out = (if take nl (unread r) \<noteq> [] \<and> last (take nl (unread r)) = CR then butlast (take nl (unread r))
      else take nl (unread r))"
    using t content cr last len f(2) lu by (cases "nl > 0") (auto simp: butlast_take)
  then show sl: "split_line (rest r s) = (out, rest r' s)"
    using l len rest' by (simp add: split_line_def)
  assume "\<not> mark_ok r'"
  then obtain i where i: "i < byte_mark r'" "i < buffered r'" "unread r' ! i = LF" by (auto simp: mark_ok_def)
  have "byte_mark r' = byte_mark r - c" using t by (simp add: r')
  then have c1: "nl = Suc c" "unread r ! c = CR" "i = 0" using i(1) f(4) c by auto
  have "nl + 1 < buffered r" using i(2) a(3) f(2) c1 by simp
  then have "unread r = take c (unread r) @ [unread r ! c, unread r ! nl, unread r ! (nl + 1)] @ drop (nl + 2) (unread r)"
    using c1(1) lu by (simp add: Cons_nth_drop_Suc id_take_nth_drop [symmetric])
  moreover have "unread r ! (nl + 1) = LF" using i(3) u' c1 \<open>nl + 1 < buffered r\<close> lu by simp
  ultimately have "unread r = out @ [CR, LF, LF] @ drop (nl + 2) (unread r)" using t c1(2) f(3) by simp
  then show "\<exists>t. rest r s = out @ [CR, LF, LF] @ t" unfolding rest_def by (metis append.assoc)
qed

text \<open>What a call of \<open>read_line\<close> does to the text that is to come.\<close>

definition line_result :: "stream_reader \<Rightarrow> source \<Rightarrow> string option result \<times> stream_reader \<times> source \<Rightarrow> bool" where
  "line_result r s out \<longleftrightarrow> (case out of (res, r', s') \<Rightarrow>
    reader_ok r' \<and> max_cap r' = max_cap r \<and>
    (case res of
       Inr (Some l) \<Rightarrow> rest r s \<noteq> [] \<and> split_line (rest r s) = (l, rest r' s') \<and>
         (\<not> mark_ok r' \<longrightarrow> (\<exists>t. rest r s = l @ [CR, LF, LF] @ t))
     | Inr None \<Rightarrow> rest r s = [] \<and> rest r' s' = [] \<and> mark_ok r'
     | Inl e \<Rightarrow> rest r' s' = rest r s \<and> mark_ok r' \<and> (max_cap r \<le> length (rest r s) \<or> Failed e \<in> set s)) \<and>
    (\<forall>e. Failed e \<in> set s' \<longrightarrow> Failed e \<in> set s))"

lemma source_read_events: "source_read room s = (d, s') \<Longrightarrow> Failed e \<in> set s' \<Longrightarrow> Failed e \<in> set s"
  by (induction room s rule: source_read.induct) (auto split: if_splits)

lemma fill_events: "fill r s = (res, r', s') \<Longrightarrow> Failed e \<in> set s' \<Longrightarrow> Failed e \<in> set s"
  by (auto simp: fill_def fill_read_def Let_def split: if_splits prod.splits sum.splits dest: source_read_events)

lemma split_line_whole: "LF \<notin> set t \<Longrightarrow> split_line t = (t, [])"
proof -
  assume "LF \<notin> set t"
  then have tw: "takeWhile (\<lambda>ch. ch \<noteq> LF) t = t" by (auto simp: takeWhile_eq_all_conv)
  show ?thesis unfolding split_line_def tw using \<open>LF \<notin> set t\<close> by simp
qed

text \<open>The end of the stream without a line feed: all that is buffered is the last line.\<close>

lemma eof_line:
  assumes ok: "reader_ok r" "at_eof r" "LF \<notin> set (unread r)" "byte_mark r \<le> buffered r" "max_cap r = max_cap r0"
    and rest: "rest r0 s0 = unread r" and ev: "\<And>e. Failed e \<in> set s \<Longrightarrow> Failed e \<in> set s0"
  shows "line_result r0 s0 (if buffered r = 0 then (Inr None, r, s)
    else (let (out, r) = take_bytes (buffered r) r in (Inr (Some out), r, s)))"
proof (cases "buffered r = 0")
  case True
  then show ?thesis
    using ok rest ev length_unread [OF ok(1)] by (auto simp: line_result_def rest_def mark_ok_def)
next
  case False
  obtain out r' where tb: "take_bytes (buffered r) r = (out, r')" by fastforce
  note t = take_bytes_out [OF order_refl tb]
  have out: "out = unread r" using t length_unread [OF ok(1)] by simp
  have u: "reader_ok r'" "unread r' = []" "buffered r' = 0"
    using advance [OF ok(1), of "buffered r" r'] t length_unread [OF ok(1)] by auto
  then have "rest r' s = []" "mark_ok r'" using t ok(2) by (auto simp: rest_def mark_ok_def)
  moreover have "unread r \<noteq> []" using False length_unread [OF ok(1)] by auto
  ultimately show ?thesis
    using False tb u t ev rest split_line_whole [OF ok(3)] ok(5) out by (simp add: line_result_def)
qed

lemma line_result_trans:
  assumes "rest r1 s1 = rest r s" "max_cap r1 = max_cap r" "\<And>e. Failed e \<in> set s1 \<Longrightarrow> Failed e \<in> set s"
    and "line_result r1 s1 out"
  shows "line_result r s out"
proof -
  obtain res r' s' where out: "out = (res, r', s')" by (metis prod_cases3)
  have "\<forall>e. Failed e \<in> set s' \<longrightarrow> Failed e \<in> set s" using assms(3,4) by (simp add: line_result_def out)
  then show ?thesis
    using assms(4) unfolding line_result_def out prod.case assms(1,2)
    by (cases res; cases "projr res") (use assms(3) in auto)
qed

lemma read_line_spec: "reader_ok r \<Longrightarrow> mark_ok r \<Longrightarrow> line_result r s (read_line r s)"
proof (induction r s rule: read_line.induct)
  case (1 r s)
  obtain hit r1 where fb: "find_byte LF r = (hit, r1)" by fastforce
  show ?case
  proof (cases hit)
    case (Some nl)
    note f = find_byte_Some [OF "1.prems" fb [unfolded Some]]
    define c where "c = (if nl > 0 \<and> buf r ! (head r + nl - 1) = CR then nl - 1 else nl)"
    obtain out r2 where tb: "take_bytes c r = (out, r2)" by fastforce
    note l = found_line(1,3) [OF "1.prems" fb [unfolded Some] c_def tb refl]
      found_line(2,4) [OF "1.prems" fb [unfolded Some] c_def tb refl, of s]
    have "rest r s \<noteq> []" using f(2) length_unread [OF "1.prems"(1)] by (auto simp: rest_def)
    then show ?thesis
      using l fb Some f(1) tb c_def
      by (subst read_line.simps) (simp add: line_result_def Let_def)
  next
    case None
    note f = find_byte_None [OF "1.prems" fb [unfolded None]]
    have r1: "reader_ok r1" "unread r1 = unread r" "buffered r1 = buffered r" "max_cap r1 = max_cap r" "byte_mark r1 = buffered r"
        "rest r1 s = rest r s"
      using "1.prems"(1) by (simp_all add: f(1) reader_ok_def unread_def buffered_def rest_def)
    obtain fl r2 s2 where fi: "fill r1 s = (fl, r2, s2)" by (metis prod_cases3)
    note fs = fill_spec [OF r1(1) fi]
    have ev: "\<And>e. Failed e \<in> set s2 \<Longrightarrow> Failed e \<in> set s" using fill_events [OF fi] by blast
    have m2: "mark_ok r2" if "\<exists>d. unread r2 = unread r @ d"
      using that fs(3) r1(5) f(2) length_unread [OF "1.prems"(1)]
      by (auto simp: mark_ok_def nth_append in_set_conv_nth)
    show ?thesis
    proof (cases fl)
      case (Filled n)
      have "line_result r2 s2 (read_line r2 s2)"
        using "1.IH" [OF fb [symmetric] None fi [symmetric] Filled refl] fs(1) m2 fs(5) [OF Filled] r1(2) by simp
      then have "line_result r s (read_line r2 s2)"
        by (rule line_result_trans [rotated 3]) (use fs(2,4) r1 ev in auto)
      then show ?thesis using fb None fi Filled by (subst read_line.simps) simp
    next
      case FillEof
      have "line_result r s (if buffered r2 = 0 then (Inr None, r2, s2)
          else (let (out, r) = take_bytes (buffered r2) r2 in (Inr (Some out), r, s2)))"
        using fs FillEof f(2) r1 ev length_unread [OF fs(1)] length_unread [OF "1.prems"(1)]
        by (intro eof_line) auto
      then show ?thesis using fb None fi FillEof by (subst read_line.simps) simp
    next
      case (FillError e)
      have "length (unread r) \<le> length (rest r s)" by (simp add: rest_def)
      then show ?thesis
        using fb None fi FillError fs(1,2,4) fs(7) [OF FillError] m2 r1 ev length_unread [OF "1.prems"(1)]
        by (subst read_line.simps) (auto simp: line_result_def)
    qed
  qed
qed

function lines_of :: "string \<Rightarrow> string list" where
  "lines_of t = (if t = [] then [] else (case split_line t of (l, u) \<Rightarrow> l # lines_of u))"
  by auto
termination
  by (relation "measure length") (auto simp: split_line_def Let_def split: if_splits)

declare lines_of.simps [simp del]

text \<open>A caller that reads up to \<open>k\<close> lines and stops at the end or at an error.\<close>

fun read_lines :: "nat \<Rightarrow> stream_reader \<Rightarrow> source \<Rightarrow> string list" where
  "read_lines 0 r s = []"
| "read_lines (Suc k) r s =
    (case read_line r s of (Inr (Some l), r, s) \<Rightarrow> l # read_lines k r s | _ \<Rightarrow> [])"

definition no_crlflf :: "string \<Rightarrow> bool" where
  "no_crlflf t = (\<nexists>xs ys. t = xs @ [CR, LF, LF] @ ys)"

lemma split_line_suffix: "split_line t = (l, u) \<Longrightarrow> \<exists>p. t = p @ u"
  by (auto simp: split_line_def Let_def) (metis append_take_drop_id)+


definition demo_reader :: stream_reader where
  "demo_reader = \<lparr>buf = replicate 8 (CHR 0x00), used = 0, head = 0, scan_mark = 0, byte_mark = 0, max_cap = 64, at_eof = False\<rparr>"

lemma demo_reader_new: "reader_new 8 64 = Inr demo_reader"
  by (simp add: reader_new_def initial_capacity_def demo_reader_def)

lemma demo_reader_ok: "reader_ok demo_reader" "mark_ok demo_reader"
  by (simp_all add: reader_ok_def mark_ok_def demo_reader_def)

lemma rest_demo: "rest demo_reader s = content s"
  by (simp add: rest_def unread_def demo_reader_def buffered_def)


text \<open>A line that ends in carriage return and line feed, cut between the two by a read, hides an
  empty line that follows: after the call the search cursor still points one byte past the new
  head, so the line feed there is not found and stays in the next line.\<close>

theorem split_crlf_hides_empty_line:
  "lines_of (rest demo_reader [Got (''ab'' @ [CR]), Got ([LF, LF] @ ''X'' @ [LF])]) = [''ab'', [], ''X''] \<and>
   read_lines 4 demo_reader [Got (''ab'' @ [CR]), Got ([LF, LF] @ ''X'' @ [LF])] = [''ab'', LF # ''X'']"
  by code_simp

subsection \<open>Exact counts\<close>

lemma take_into_out: "take_into n r = (out, r') \<Longrightarrow>
    out = take n (unread r) \<and> head r' = head r + min n (buffered r) \<and> used r' = used r \<and> buf r' = buf r \<and>
    max_cap r' = max_cap r \<and> at_eof r' = at_eof r"
  by (auto simp: take_into_def unread_def rewind_marks_def Let_def min_def split: if_splits)

lemma take_into_rest:
  assumes "reader_ok r" "take_into n r = (out, r')"
  shows "reader_ok r'" "rest r s = out @ rest r' s" "length out = min n (buffered r)" "at_eof r' = at_eof r"
proof -
  note t = take_into_out [OF assms(2)]
  note a = advance [OF assms(1), of "min n (buffered r)" r']
  show "reader_ok r'" "at_eof r' = at_eof r" using a(1) t by auto
  show "length out = min n (buffered r)" using t length_unread [OF assms(1)] by simp
  have "drop (min n (buffered r)) (unread r) = drop n (unread r)"
    using length_unread [OF assms(1)] by (cases "n \<le> buffered r") auto
  then have "unread r = out @ unread r'" using a(2) t by simp
  then show "rest r s = out @ rest r' s" using t by (simp add: rest_def)
qed

text \<open>\<open>read_exactly\<close> returns the next \<open>n\<close> bytes, or reports how many there were; an error of the source
  or of the buffer is passed on.\<close>

lemma read_exactly_from_spec:
  "reader_ok r \<Longrightarrow> length got \<le> n \<Longrightarrow> read_exactly_from n got r s = (res, r', s') \<Longrightarrow>
    (case res of
       Inr d \<Rightarrow> length d = n \<and> got @ rest r s = d @ rest r' s'
     | Inl e \<Rightarrow> e = IncompleteStreamError n (length got + length (rest r s)) \<and> rest r' s' = [] \<or>
         e \<in> range StreamOverflowError \<or> Failed e \<in> set s)"
proof (induction n got r s rule: read_exactly_from.induct)
  case (1 n got r s)
  show ?case
  proof (cases "length got \<ge> n")
    case True
    then show ?thesis using "1.prems" by (subst (asm) read_exactly_from.simps) auto
  next
    case more: False
    show ?thesis
    proof (cases "buffered r = 0")
      case False
      obtain out r1 where ti: "take_into (n - length got) r = (out, r1)" by fastforce
      note t = take_into_rest [OF "1.prems"(1) ti]
      have "read_exactly_from n (got @ out) r1 s = (res, r', s')"
        using "1.prems"(3) more False ti by (subst (asm) read_exactly_from.simps) auto
      moreover have "length (got @ out) \<le> n" using t(3) more by simp
      ultimately show ?thesis
        using "1.IH"(2) [OF more False ti [symmetric] refl t(1)] t(2) [of s] by (auto split: sum.splits)
    next
      case True
      obtain fl r1 s1 where fi: "fill r s = (fl, r1, s1)" by (metis prod_cases3)
      note fs = fill_spec [OF "1.prems"(1) fi]
      show ?thesis
      proof (cases fl)
        case (Filled k)
        obtain out r2 where ti: "take_into (n - length got) r1 = (out, r2)" by fastforce
        note t = take_into_rest [OF fs(1) ti]
        have "read_exactly_from n (got @ out) r2 s1 = (res, r', s')"
          using "1.prems"(3) more True fi Filled ti by (subst (asm) read_exactly_from.simps) auto
        moreover have "length (got @ out) \<le> n" using t(3) more by simp
        ultimately show ?thesis
          using "1.IH"(1) [OF more True fi [symmetric] Filled refl ti [symmetric] refl t(1)] t(2) [of s1] fs(2)
            fill_events [OF fi] by (auto split: sum.splits)
      next
        case FillEof
        then show ?thesis
          using "1.prems" more True fi fs(2) fs(6) [OF FillEof] length_unread [OF "1.prems"(1)]
          by (subst (asm) read_exactly_from.simps) auto
      next
        case (FillError e)
        have "max_cap r \<noteq> 0" using "1.prems"(1) unfolding reader_ok_def by linarith
        then have "Failed e \<in> set s" using fs(7) [OF FillError] True by simp
        then show ?thesis
          using "1.prems" more True fi FillError by (subst (asm) read_exactly_from.simps) auto
      qed
    qed
  qed
qed

text \<open>Writing is complete or reports that it is not; what was written is a prefix of the data.\<close>

lemma write_from_spec:
  "write_from p d ws = (res, w) \<Longrightarrow> (\<exists>k. w = p @ take k d) \<and> (res = Inr True \<longrightarrow> w = p @ d)"
proof (induction p d ws arbitrary: w rule: write_from.induct)
  case (4 p v va n ws)
  show ?case
  proof (cases "n = 0")
    case True
    then show ?thesis using "4.prems" by (auto intro: exI [of _ 0])
  next
    case False
    then obtain k where k: "w = (p @ take n (v # va)) @ take k (drop n (v # va))"
      and full: "res = Inr True \<longrightarrow> w = (p @ take n (v # va)) @ drop n (v # va)"
      using "4.IH" "4.prems" by auto
    have "w = p @ take (n + k) (v # va)" using k by (simp only: append.assoc take_add)
    moreover have "res = Inr True \<longrightarrow> w = p @ v # va" using full by (simp only: append.assoc append_take_drop_id)
    ultimately show ?thesis by blast
  qed
qed (auto intro: exI [of _ 0])

end
