(* ===== verification/Timer_Wait.thy ===== *)
theory Timer_Wait
  imports Coro_Prelude
begin

section \<open>The one-shot timer\<close>

text \<open>
  \<open>Timer\<close> of timer.hpp: \<open>timer_state\<close> shared by the timer and its waiter, with the part of the loop it
  uses: the entries it registered in the timer heap (handle, deadline, token), the tokens set to
  true, the handles that are scheduled and the closures posted by \<open>reset\<close>. The wait tasks are named
  by their handles; a task is created by \<open>wait\<close> (it then owns the reservation) and suspended once it
  has been started. Scheduling a frame twice is dropped by the loop's bit, as is a dead frame.

  A moved-from timer (a null state) is not modelled; destruction of a timer is \<open>timer_cancel\<close>.
\<close>

subsection \<open>Model\<close>

datatype timer_outcome = Pending | Expired | Cancelled

datatype wait_task = Created | Suspended

record timer_state =
  result :: timer_outcome
  waiting :: bool
  wait_taken :: bool
  token :: "nat option"
  handle :: nat
  has_owner :: bool
  deadline :: "time option"
  heap :: "(nat \<times> time \<times> nat) list"
  dead :: "nat set"
  next_token :: nat
  ready :: "nat list"
  posted :: nat
  waits :: "nat \<Rightarrow> wait_task option"

definition timer_new :: "time option \<Rightarrow> timer_state" where
  "timer_new d =
    \<lparr>result = Pending, waiting = False, wait_taken = False, token = None, handle = 0, has_owner = False,
     deadline = d, heap = [], dead = {}, next_token = 0, ready = [], posted = 0, waits = Map.empty\<rparr>"

definition claim_outcome :: "timer_outcome \<Rightarrow> timer_state \<Rightarrow> bool \<times> timer_state" where
  "claim_outcome res st = (if result st = Pending then (True, st\<lparr>result := res\<rparr>) else (False, st))"

definition kill_token :: "timer_state \<Rightarrow> timer_state" where
  "kill_token st = (case token st of None \<Rightarrow> st | Some k \<Rightarrow> st\<lparr>dead := insert k (dead st)\<rparr>)"

definition sched :: "nat \<Rightarrow> timer_state \<Rightarrow> timer_state" where
  "sched h st =
    (if h \<in> set (ready st) \<or> waits st h \<noteq> Some Suspended then st else st\<lparr>ready := ready st @ [h]\<rparr>)"

text \<open>A fresh token and its entry in the timer heap.\<close>

definition register :: "nat \<Rightarrow> time \<Rightarrow> timer_state \<Rightarrow> timer_state" where
  "register h d st =
    st\<lparr>token := Some (next_token st), heap := heap st @ [(h, d, next_token st)], next_token := next_token st + 1\<rparr>"

definition rearm :: "timer_state \<Rightarrow> timer_state" where
  "rearm st =
    (let st = (kill_token st)\<lparr>token := None\<rparr>
     in if \<not> waiting st then st
        else if result st \<noteq> Pending then st
        else case deadline st of None \<Rightarrow> st | Some d \<Rightarrow> register (handle st) d st)"

definition timer_wait :: "nat \<Rightarrow> timer_state \<Rightarrow> timer_state result" where
  "timer_wait h st =
    (if wait_taken st then Inl StructuredConcurrencyError
     else Inr (st\<lparr>wait_taken := True, waits := (waits st)(h \<mapsto> Created)\<rparr>))"

text \<open>\<open>await_resume\<close>, after which the task is done.\<close>

definition wait_resume :: "nat \<Rightarrow> timer_state \<Rightarrow> bool \<times> timer_state" where
  "wait_resume h st =
    (let st = (kill_token (st\<lparr>waiting := False\<rparr>))\<lparr>wait_taken := False\<rparr>;
         (won, st) = claim_outcome Expired st
     in (won \<or> result st = Expired, st\<lparr>waits := (waits st)(h := None)\<rparr>))"

text \<open>\<open>await_suspend\<close>; the outcome is looked at once more.\<close>

definition wait_suspend :: "nat \<Rightarrow> timer_state \<Rightarrow> timer_state" where
  "wait_suspend h st =
    (let st = st\<lparr>has_owner := True, handle := h, waiting := True, waits := (waits st)(h \<mapsto> Suspended)\<rparr>
     in if result st \<noteq> Pending then sched h st
        else case deadline st of None \<Rightarrow> st | Some d \<Rightarrow> register h d st)"

text \<open>The task is started: \<open>await_ready\<close>, then one of the two.\<close>

definition wait_start :: "nat \<Rightarrow> timer_state \<Rightarrow> timer_state" where
  "wait_start h st = (if result st \<noteq> Pending then snd (wait_resume h st) else wait_suspend h st)"

text \<open>The task is destroyed: the reservation is returned, and a suspended awaiter retires.\<close>

definition wait_destroy :: "nat \<Rightarrow> timer_state \<Rightarrow> timer_state" where
  "wait_destroy h st =
    (case waits st h of
       Some Suspended \<Rightarrow>
         (let st = (kill_token st)\<lparr>token := None, waiting := False, handle := 0, has_owner := False\<rparr>
          in st\<lparr>wait_taken := False, waits := (waits st)(h := None), ready := remove1 h (ready st)\<rparr>)
     | Some Created \<Rightarrow> st\<lparr>wait_taken := False, waits := (waits st)(h := None)\<rparr>
     | None \<Rightarrow> st)"

definition timer_cancel :: "timer_state \<Rightarrow> timer_state" where
  "timer_cancel st =
    (let was_waiting = waiting st;
         (won, st) = claim_outcome Cancelled (st\<lparr>waiting := False\<rparr>)
     in if \<not> won then st
        else let st = kill_token st
        in if was_waiting \<and> has_owner st then sched (handle st) st else st)"

definition timer_reset :: "time \<Rightarrow> timer_state \<Rightarrow> timer_state" where
  "timer_reset d st =
    (let st = st\<lparr>deadline := Some d\<rparr>
     in if waiting st then (if has_owner st then st\<lparr>posted := posted st + 1\<rparr> else st)
        else (kill_token st)\<lparr>token := None, has_owner := False, handle := 0, wait_taken := False, result := Pending\<rparr>)"

definition timer_done :: "timer_state \<Rightarrow> bool" where
  "timer_done st = (result st \<noteq> Pending)"

text \<open>The loop: a posted closure runs, an entry expires, a dead entry is dropped, a scheduled task is
  resumed.\<close>

definition run_posted :: "timer_state \<Rightarrow> timer_state" where
  "run_posted st = rearm (st\<lparr>posted := posted st - 1\<rparr>)"

definition fire :: "nat \<times> time \<times> nat \<Rightarrow> timer_state \<Rightarrow> timer_state" where
  "fire e st =
    (let st = st\<lparr>heap := remove1 e (heap st)\<rparr>
     in if snd (snd e) \<in> dead st then st else sched (fst e) st)"

definition run_task :: "nat \<Rightarrow> timer_state \<Rightarrow> bool \<times> timer_state" where
  "run_task h st = wait_resume h (st\<lparr>ready := remove1 h (ready st)\<rparr>)"

subsection \<open>A waiter is never stranded\<close>

text \<open>Uses of a timer in which \<open>reset\<close> is called while a task waits or when there is none, not between
  the creation of a wait task and its start nor between a cancellation and the resumption of the
  task (\<open>reset_undoes_cancel\<close> shows what happens then).\<close>

inductive timer_step :: "timer_state \<Rightarrow> timer_state \<Rightarrow> bool" where
  ts_wait: "h \<noteq> 0 \<Longrightarrow> waits st h = None \<Longrightarrow> timer_wait h st = Inr st' \<Longrightarrow> timer_step st st'"
| ts_start: "waits st h = Some Created \<Longrightarrow> timer_step st (wait_start h st)"
| ts_fire: "e \<in> set (heap st) \<Longrightarrow> timer_step st (fire e st)"
| ts_run: "h \<in> set (ready st) \<Longrightarrow> timer_step st (snd (run_task h st))"
| ts_destroy: "timer_step st (wait_destroy h st)"
| ts_cancel: "timer_step st (timer_cancel st)"
| ts_reset: "waiting st \<or> (\<forall>h. waits st h = None) \<Longrightarrow> timer_step st (timer_reset d st)"
| ts_posted: "0 < posted st \<Longrightarrow> timer_step st (run_posted st)"

definition live_entry :: "nat \<Rightarrow> timer_state \<Rightarrow> bool" where
  "live_entry h st \<longleftrightarrow> (\<exists>d k. (h, d, k) \<in> set (heap st) \<and> k \<notin> dead st \<and> (posted st = 0 \<longrightarrow> deadline st = Some d))"

definition timer_ok :: "timer_state \<Rightarrow> bool" where
  "timer_ok st \<longleftrightarrow>
    (\<forall>h h'. waits st h \<noteq> None \<longrightarrow> waits st h' \<noteq> None \<longrightarrow> h = h') \<and>
    (\<forall>h. waits st h \<noteq> None \<longrightarrow> wait_taken st) \<and>
    (waiting st \<longrightarrow> result st = Pending \<and> has_owner st \<and> waits st (handle st) = Some Suspended) \<and>
    distinct (ready st) \<and> (\<forall>h\<in>set (ready st). waits st h = Some Suspended) \<and>
    (\<forall>h. waits st h = Some Suspended \<longrightarrow> h \<in> set (ready st) \<or>
       waiting st \<and> (deadline st = None \<or> 0 < posted st \<or> live_entry h st)) \<and>
    (\<forall>(h, d, k) \<in> set (heap st). k < next_token st \<and>
       (k \<notin> dead st \<longrightarrow> token st = Some k \<and> waits st h = Some Suspended)) \<and>
    (\<forall>k\<in>dead st. k < next_token st)"

lemma kill_token_simps [simp]:
  "result (kill_token st) = result st" "waiting (kill_token st) = waiting st" "wait_taken (kill_token st) = wait_taken st"
  "token (kill_token st) = token st" "handle (kill_token st) = handle st" "has_owner (kill_token st) = has_owner st"
  "deadline (kill_token st) = deadline st" "heap (kill_token st) = heap st" "next_token (kill_token st) = next_token st"
  "ready (kill_token st) = ready st" "posted (kill_token st) = posted st" "waits (kill_token st) = waits st"
  "dead (kill_token st) = dead st \<union> set_option (token st)"
  by (auto simp: kill_token_def split: option.splits)

lemma sched_simps [simp]:
  "result (sched h st) = result st" "waiting (sched h st) = waiting st" "wait_taken (sched h st) = wait_taken st"
  "token (sched h st) = token st" "handle (sched h st) = handle st" "has_owner (sched h st) = has_owner st"
  "deadline (sched h st) = deadline st" "heap (sched h st) = heap st" "next_token (sched h st) = next_token st"
  "posted (sched h st) = posted st" "waits (sched h st) = waits st" "dead (sched h st) = dead st"
  by (simp_all add: sched_def)

lemma sched_ready:
  "set (ready (sched h st)) = (if waits st h = Some Suspended then insert h (set (ready st)) else set (ready st))"
  "distinct (ready st) \<Longrightarrow> distinct (ready (sched h st))"
  by (auto simp: sched_def)

lemma live_entryI:
  "(h, d, k) \<in> set (heap st) \<Longrightarrow> k \<notin> dead st \<Longrightarrow> posted st = 0 \<longrightarrow> deadline st = Some d \<Longrightarrow> live_entry h st"
  unfolding live_entry_def by (intro exI [of _ d] exI [of _ k]) simp

text \<open>The parts of the invariant, for use on a state at hand.\<close>

lemma timer_okD:
  assumes "timer_ok st"
  shows "waits st h = Some a \<Longrightarrow> waits st h' = Some b \<Longrightarrow> h = h'" "waits st h = Some a \<Longrightarrow> wait_taken st"
    and "waiting st \<Longrightarrow> result st = Pending \<and> has_owner st \<and> waits st (handle st) = Some Suspended"
    and "distinct (ready st)" "h \<in> set (ready st) \<Longrightarrow> waits st h = Some Suspended"
    and "waits st h = Some Suspended \<Longrightarrow> h \<in> set (ready st) \<or>
       waiting st \<and> (deadline st = None \<or> 0 < posted st \<or> live_entry h st)"
    and "(h, d, k) \<in> set (heap st) \<Longrightarrow> k < next_token st \<and>
       (k \<notin> dead st \<longrightarrow> token st = Some k \<and> waits st h = Some Suspended)"
    and "k \<in> dead st \<Longrightarrow> k < next_token st"
  using assms unfolding timer_ok_def by auto

lemma heapD:
  assumes "timer_ok st" "(h, d, k) \<in> set (heap st)"
  shows "k < next_token st" "token st \<noteq> Some k \<Longrightarrow> k \<in> dead st" "waits st h \<noteq> Some Suspended \<Longrightarrow> k \<in> dead st"
  using timer_okD(7) [OF assms] by blast+

lemma timer_okI:
  assumes "\<And>h h' a b. waits st h = Some a \<Longrightarrow> waits st h' = Some b \<Longrightarrow> h = h'" "\<And>h a. waits st h = Some a \<Longrightarrow> wait_taken st"
    and "waiting st \<Longrightarrow> result st = Pending \<and> has_owner st \<and> waits st (handle st) = Some Suspended"
    and "distinct (ready st)" "\<And>h. h \<in> set (ready st) \<Longrightarrow> waits st h = Some Suspended"
    and "\<And>h. waits st h = Some Suspended \<Longrightarrow> h \<in> set (ready st) \<or>
       waiting st \<and> (deadline st = None \<or> 0 < posted st \<or> live_entry h st)"
    and "\<And>h d k. (h, d, k) \<in> set (heap st) \<Longrightarrow> k < next_token st \<and>
       (k \<notin> dead st \<longrightarrow> token st = Some k \<and> waits st h = Some Suspended)"
    and "\<And>k. k \<in> dead st \<Longrightarrow> k < next_token st"
  shows "timer_ok st"
  unfolding timer_ok_def using assms by auto

text \<open>The current token is one that was handed out.\<close>

definition token_ok :: "timer_state \<Rightarrow> bool" where
  "token_ok st \<longleftrightarrow> (\<forall>k. token st = Some k \<longrightarrow> k < next_token st)"

lemma ok_wait: "timer_ok st \<Longrightarrow> timer_wait h st = Inr st' \<Longrightarrow> timer_ok st'"
proof -
  assume ok: "timer_ok st" and w: "timer_wait h st = Inr st'"
  have nt: "\<not> wait_taken st" and st': "st' = st\<lparr>wait_taken := True, waits := (waits st)(h \<mapsto> Created)\<rparr>"
    using w by (auto simp: timer_wait_def split: if_splits)
  have none: "waits st x = None" for x using timer_okD(2) [OF ok, of x] nt by (cases "waits st x") auto
  have "set (ready st) = {}" "\<not> waiting st" using timer_okD(3,5) [OF ok] none by fastforce+
  then show ?thesis
    using none timer_okD(7,8) [OF ok] by (intro timer_okI) (auto simp: st' split: if_splits)
qed

lemma ok_finish:
  assumes ok: "timer_ok st" and tok: "token_ok st" and h: "waits st h = Some w" and rd: "set rd \<subseteq> set (ready st) - {h}" "distinct rd"
  shows "timer_ok (snd (wait_resume h (st\<lparr>ready := rd\<rparr>)))"
proof -
  have only: "waits st x = None" if "x \<noteq> h" for x using timer_okD(1) [OF ok h, of x] that by (cases "waits st x") auto
  have "rd = []" using rd(1) timer_okD(5) [OF ok] only by (cases rd) fastforce+
  then show ?thesis
    using only tok heapD [OF ok] timer_okD(8) [OF ok]
    by (intro timer_okI)
      (auto simp: wait_resume_def claim_outcome_def Let_def token_ok_def split: if_splits)
qed

lemma ok_suspend:
  assumes ok: "timer_ok st" and h: "waits st h = Some Created" and p: "result st = Pending"
  shows "timer_ok (wait_suspend h st)"
proof -
  have only: "waits st x = None" if "x \<noteq> h" for x using timer_okD(1) [OF ok h, of x] that by (cases "waits st x") auto
  then have ns: "waits st x \<noteq> Some Suspended" for x using h by (cases "x = h") auto
  then have rd: "ready st = []" and dead: "\<And>x d k. (x, d, k) \<in> set (heap st) \<Longrightarrow> k \<in> dead st"
    using timer_okD(5,7) [OF ok] by (cases "ready st"; fastforce)+
  have "wait_taken st" by (rule timer_okD(2) [OF ok h])
  have fresh: "next_token st \<notin> dead st" using timer_okD(8) [OF ok] by blast
  show ?thesis
  proof (cases "deadline st")
    case None
    then show ?thesis
      using only rd dead p \<open>wait_taken st\<close> timer_okD(7,8) [OF ok]
      by (intro timer_okI) (auto simp: wait_suspend_def Let_def split: if_splits)
  next
    case (Some d)
    have "live_entry h (wait_suspend h st)"
      by (rule live_entryI [of _ d "next_token st"])
        (use Some p fresh in \<open>simp_all add: wait_suspend_def register_def Let_def\<close>)
    moreover have "wait_suspend h st = st\<lparr>has_owner := True, handle := h, waiting := True,
        waits := (waits st)(h \<mapsto> Suspended), token := Some (next_token st),
        heap := heap st @ [(h, d, next_token st)], next_token := next_token st + 1\<rparr>"
      using Some p by (simp add: wait_suspend_def register_def Let_def)
    ultimately show ?thesis
      using only rd dead p \<open>wait_taken st\<close> timer_okD(7,8) [OF ok] fresh
      by (intro timer_okI) (auto split: if_splits intro: less_SucI)
  qed
qed

text \<open>A step that leaves the tasks and the outcome as they are.\<close>

lemma timer_ok_frame:
  assumes ok: "timer_ok st"
    and same: "waits t = waits st" "wait_taken t = wait_taken st" "waiting t = waiting st" "result t = result st"
      "has_owner t = has_owner st" "handle t = handle st"
    and rd: "distinct (ready t)" "\<And>x. x \<in> set (ready t) \<Longrightarrow> waits st x = Some Suspended"
    and hp: "\<And>h d k. (h, d, k) \<in> set (heap t) \<Longrightarrow> k < next_token t \<and>
       (k \<notin> dead t \<longrightarrow> token t = Some k \<and> waits st h = Some Suspended)"
    and dd: "\<And>k. k \<in> dead t \<Longrightarrow> k < next_token t"
    and st: "\<And>x. waits st x = Some Suspended \<Longrightarrow> x \<in> set (ready t) \<or>
       waiting st \<and> (deadline t = None \<or> 0 < posted t \<or> live_entry x t)"
  shows "timer_ok t"
proof (rule timer_okI, unfold same)
  show "h = h'" if "waits st h = Some a" "waits st h' = Some b" for h h' a b by (rule timer_okD(1) [OF ok that])
  show "wait_taken st" if "waits st h = Some a" for h a by (rule timer_okD(2) [OF ok that])
  show "result st = Pending \<and> has_owner st \<and> waits st (handle st) = Some Suspended" if "waiting st"
    by (rule timer_okD(3) [OF ok that])
qed (fact rd hp dd st)+

lemma ok_fire:
  assumes ok: "timer_ok st" and e: "e \<in> set (heap st)"
  shows "timer_ok (fire e st)"
proof -
  obtain h d k where e': "e = (h, d, k)" by (cases e)
  let ?st = "st\<lparr>heap := remove1 e (heap st)\<rparr>"
  have sub: "set (heap ?st) \<subseteq> set (heap st)" by (simp add: set_remove1_subset)
  have dist: "x \<in> set (ready st) \<or> waiting st \<and> (deadline st = None \<or> 0 < posted st \<or> live_entry x ?st)"
    if "waits st x = Some Suspended" "x \<noteq> h \<or> k \<in> dead st" for x
  proof -
    have "live_entry x ?st" if l: "live_entry x st"
    proof -
      obtain d' k' where k: "(x, d', k') \<in> set (heap st)" "k' \<notin> dead st" "posted st = 0 \<longrightarrow> deadline st = Some d'"
        using l by (auto simp: live_entry_def)
      then have "(x, d', k') \<noteq> e" using \<open>x \<noteq> h \<or> k \<in> dead st\<close> e' by auto
      then show ?thesis using k by (intro live_entryI [of x d' k']) auto
    qed
    then show ?thesis using timer_okD(6) [OF ok that(1)] by blast
  qed
  show ?thesis
  proof (cases "k \<in> dead st")
    case True
    then have "fire e st = ?st" by (simp add: fire_def e')
    then show ?thesis
      using True timer_okD(4) [OF ok] sub
      by (intro timer_ok_frame [OF ok]) (auto dest: timer_okD(5,8) [OF ok] heapD [OF ok] dist)
  next
    case False
    then have h: "waits st h = Some Suspended" using timer_okD(7) [OF ok] e e' by blast
    then have "set (ready (sched h ?st)) = insert h (set (ready st))" "distinct (ready (sched h ?st))"
      using timer_okD(4) [OF ok] by (simp_all add: sched_ready)
    moreover have "fire e st = sched h ?st" using False by (simp add: fire_def e')
    ultimately show ?thesis
      using h sub
      by (intro timer_ok_frame [OF ok]) (auto dest: timer_okD(1) [OF ok _ h] timer_okD(5,8) [OF ok] heapD [OF ok])
  qed
qed

lemma ok_destroy:
  assumes ok: "timer_ok st" and tok: "token_ok st"
  shows "timer_ok (wait_destroy h st)"
proof (cases "waits st h")
  case (Some w)
  have only: "waits st x = None" if "x \<noteq> h" for x using timer_okD(1) [OF ok Some, of x] that by (cases "waits st x") auto
  have rd: "set (ready st) \<subseteq> {h}" using timer_okD(5) [OF ok] only by fastforce
  have nw: "w = Created \<Longrightarrow> \<not> waiting st" using timer_okD(3) [OF ok] only Some by (cases "handle st = h") auto
  have rd0: "w = Created \<Longrightarrow> ready st = []" using timer_okD(5) [OF ok] rd Some by (cases "ready st") auto
  have "remove1 h (ready st) = []" if "ready st \<noteq> []"
    using rd timer_okD(4) [OF ok] that by (cases "ready st"; cases "tl (ready st)") auto
  then have r1: "remove1 h (ready st) = []" by (cases "ready st = []") auto
  show ?thesis
  proof (cases w)
    case Created
    then show ?thesis
      using Some only nw rd0 heapD [OF ok] timer_okD(8) [OF ok]
      by (intro timer_okI) (auto simp: wait_destroy_def split: if_splits)
  next
    case Suspended
    then show ?thesis
      using Some only r1 tok heapD [OF ok] timer_okD(8) [OF ok]
      by (intro timer_okI) (auto simp: wait_destroy_def Let_def token_ok_def split: if_splits)
  qed
qed (simp add: wait_destroy_def ok)

lemma timer_ok_cancel:
  assumes ok: "timer_ok st" and tok: "token_ok st"
  shows "timer_ok (timer_cancel st)"
proof (cases "result st = Pending")
  case False
  then have "\<not> waiting st" using timer_okD(3) [OF ok] by blast
  then have "timer_cancel st = st" using False by (simp add: timer_cancel_def claim_outcome_def)
  then show ?thesis by (simp add: ok)
next
  case True
  define t where "t = kill_token (st\<lparr>waiting := False, result := Cancelled\<rparr>)"
  have c: "timer_cancel st = (if waiting st then sched (handle st) t else t)"
    using True timer_okD(3) [OF ok] by (auto simp: timer_cancel_def claim_outcome_def Let_def t_def)
  have susp: "x \<in> set (ready (timer_cancel st))" if "waits st x = Some Suspended" for x
  proof (cases "waiting st")
    case True
    then have "x = handle st" using timer_okD(1) [OF ok that] timer_okD(3) [OF ok] by blast
    then show ?thesis using True that by (simp add: c sched_ready t_def)
  next
    case False
    then show ?thesis using timer_okD(6) [OF ok that] by (simp add: c t_def)
  qed
  have rd: "waits st x = Some Suspended" if "x \<in> set (ready (timer_cancel st))" for x
    using that timer_okD(3,5) [OF ok] by (auto simp: c sched_ready t_def split: if_splits)
  have "distinct (ready (timer_cancel st))" using timer_okD(4) [OF ok] by (simp add: c sched_ready t_def)
  then show ?thesis
    using susp rd tok heapD [OF ok] timer_okD(1,2,8) [OF ok]
    by (intro timer_okI) (auto simp: c t_def token_ok_def split: if_splits)
qed

lemma ok_reset:
  assumes ok: "timer_ok st" and tok: "token_ok st" and g: "waiting st \<or> (\<forall>h. waits st h = None)"
  shows "timer_ok (timer_reset d st)"
proof (cases "waiting st")
  case True
  then show ?thesis
    using timer_okD [OF ok] by (intro timer_okI) (auto simp: timer_reset_def Let_def)
next
  case False
  then have none: "waits st h = None" for h using g by blast
  then have "ready st = []" using timer_okD(5) [OF ok] by (cases "ready st") fastforce+
  then show ?thesis
    using False none tok heapD [OF ok] timer_okD(8) [OF ok]
    by (intro timer_okI) (auto simp: timer_reset_def Let_def token_ok_def split: option.splits)
qed

lemma ok_posted:
  assumes ok: "timer_ok st" and tok: "token_ok st" and p: "0 < posted st"
  shows "timer_ok (run_posted st)"
proof -
  define t where "t = (kill_token (st\<lparr>posted := posted st - 1\<rparr>))\<lparr>token := None\<rparr>"
  have t: "waits t = waits st" "wait_taken t = wait_taken st" "waiting t = waiting st" "result t = result st"
    "has_owner t = has_owner st" "handle t = handle st" "ready t = ready st" "heap t = heap st"
    "next_token t = next_token st" "deadline t = deadline st" "dead t = dead st \<union> set_option (token st)"
    by (simp_all add: t_def)
  have dead: "k \<in> dead t" if "(x, d, k) \<in> set (heap st)" for x d k
    using heapD(2) [OF ok that] by (cases "token st = Some k") (auto simp: t)
  have nt: "k < next_token st" if "k \<in> dead t" for k
    using that timer_okD(8) [OF ok] tok by (auto simp: t token_ok_def)
  note rd = timer_okD(4) [OF ok] timer_okD(5) [OF ok]
  show ?thesis
  proof (cases "waiting st \<and> deadline st \<noteq> None")
    case False
    then have "run_posted st = t" by (auto simp: run_posted_def rearm_def Let_def t_def split: option.splits)
    moreover have "timer_ok t"
    proof (rule timer_ok_frame [OF ok t(1-6)], unfold t(7-10))
      show "x \<in> set (ready st) \<or> waiting st \<and> (deadline st = None \<or> 0 < posted t \<or> live_entry x t)"
        if "waits st x = Some Suspended" for x using timer_okD(6) [OF ok that] False by blast
      show "k < next_token st \<and> (k \<notin> dead t \<longrightarrow> token t = Some k \<and> waits st h = Some Suspended)"
        if "(h, d, k) \<in> set (heap st)" for h d k using heapD(1) [OF ok that] dead [OF that] by blast
    qed (fact rd nt)+
    ultimately show ?thesis by simp
  next
    case True
    then obtain d where d: "deadline st = Some d" by blast
    have w: "result st = Pending" "waits st (handle st) = Some Suspended"
      using timer_okD(3) [OF ok] True by blast+
    have r: "run_posted st = register (handle st) d t"
      using True d w(1) by (simp add: run_posted_def rearm_def Let_def t_def)
    let ?u = "register (handle st) d t"
    have u: "waits ?u = waits st" "wait_taken ?u = wait_taken st" "waiting ?u = waiting st" "result ?u = result st"
      "has_owner ?u = has_owner st" "handle ?u = handle st" "ready ?u = ready st"
      "heap ?u = heap st @ [(handle st, d, next_token st)]" "next_token ?u = Suc (next_token st)"
      "deadline ?u = deadline st" "dead ?u = dead t" "token ?u = Some (next_token st)"
      by (simp_all add: register_def t)
    have "next_token st \<notin> dead t" using nt by blast
    then have l: "live_entry (handle st) ?u"
      by (intro live_entryI [of _ d "next_token st"]) (simp_all add: u d)
    have "timer_ok ?u"
    proof (rule timer_ok_frame [OF ok u(1-6)], unfold u(7-12))
      show "x \<in> set (ready st) \<or> waiting st \<and> (deadline st = None \<or> 0 < posted ?u \<or> live_entry x ?u)"
        if "waits st x = Some Suspended" for x using timer_okD(1) [OF ok that w(2)] l True by blast
      show "k < Suc (next_token st) \<and> (k \<notin> dead t \<longrightarrow> Some (next_token st) = Some k \<and> waits st h = Some Suspended)"
        if "(h, e, k) \<in> set (heap st @ [(handle st, d, next_token st)])" for h e k
      proof (cases "(h, e, k) \<in> set (heap st)")
        case True
        then show ?thesis using heapD(1) [OF ok True] dead [OF True] by simp
      next
        case False
        then show ?thesis using that w(2) by simp
      qed
      show "k < Suc (next_token st)" if "k \<in> dead t" for k using nt [OF that] by simp
    qed (fact rd)+
    then show ?thesis by (simp add: r)
  qed
qed

lemma token_ok_step: "timer_step st st' \<Longrightarrow> token_ok st \<Longrightarrow> token_ok st'"
  by (induction rule: timer_step.induct)
    (auto simp: token_ok_def timer_wait_def wait_start_def wait_resume_def claim_outcome_def wait_suspend_def
      register_def fire_def run_task_def wait_destroy_def timer_cancel_def timer_reset_def run_posted_def rearm_def
      Let_def less_Suc_eq split: if_splits option.splits wait_task.splits)

lemma timer_step_ok: "timer_step st st' \<Longrightarrow> timer_ok st \<and> token_ok st \<Longrightarrow> timer_ok st'"
proof (induction rule: timer_step.induct)
  case (ts_start st h)
  have "st\<lparr>ready := ready st\<rparr> = st" by simp
  moreover have "h \<notin> set (ready st)" using timer_okD(5) ts_start by fastforce
  ultimately show ?case
    using ts_start ok_finish [where st = st and h = h and rd = "ready st"] timer_okD(4) ok_suspend
    by (auto simp: wait_start_def)
next
  case (ts_run h st)
  then show ?case
    using ok_finish [where st = st and h = h and rd = "remove1 h (ready st)"] timer_okD(4,5) [of st]
    by (auto simp: run_task_def)
qed (auto intro: ok_wait ok_fire ok_destroy timer_ok_cancel ok_reset ok_posted)

interpretation timers: inductive_invariant "\<lambda>st. \<exists>d. st = timer_new d" timer_step "\<lambda>st. timer_ok st \<and> token_ok st"
proof
  show "timer_ok st \<and> token_ok st" if "\<exists>d. st = timer_new d" for st
    using that by (auto simp: timer_new_def token_ok_def intro: timer_okI)
qed (blast intro: timer_step_ok token_ok_step)

text \<open>In every reachable state of a timer, \<open>wait\<close> has admitted at most one task; a suspended task
  is scheduled, or the outcome is still pending and the task waits without a deadline, for a posted
  re-registration, or on a live heap entry that carries the current deadline; every live entry
  belongs to the current token and to a suspended task, so an entry of an earlier wait wakes
  nobody.\<close>

theorem timer_waiter_not_stranded:
  assumes "reachable (\<lambda>st. \<exists>d. st = timer_new d) timer_step st"
  shows "(\<forall>h h'. waits st h \<noteq> None \<longrightarrow> waits st h' \<noteq> None \<longrightarrow> h = h') \<and>
    (\<forall>h. waits st h = Some Suspended \<longrightarrow> h \<in> set (ready st) \<or>
       result st = Pending \<and> handle st = h \<and>
       (deadline st = None \<or> 0 < posted st \<or> (\<exists>k. (h, the (deadline st), k) \<in> set (heap st) \<and> k \<notin> dead st))) \<and>
    (\<forall>(h, d, k) \<in> set (heap st). k \<notin> dead st \<longrightarrow> token st = Some k \<and> waits st h = Some Suspended)"
proof -
  have ok: "timer_ok st" using timers.invariant_reachable [OF assms] by blast
  have "h \<in> set (ready st) \<or> result st = Pending \<and> handle st = h \<and>
       (deadline st = None \<or> 0 < posted st \<or> (\<exists>k. (h, the (deadline st), k) \<in> set (heap st) \<and> k \<notin> dead st))"
    if h: "waits st h = Some Suspended" for h
  proof (cases "h \<in> set (ready st)")
    case False
    then have w: "waiting st" "deadline st = None \<or> 0 < posted st \<or> live_entry h st"
      using timer_okD(6) [OF ok h] by auto
    have "handle st = h" using timer_okD(3) [OF ok w(1)] timer_okD(1) [OF ok _ h] by blast
    then show ?thesis using timer_okD(3) [OF ok w(1)] w(2) by (fastforce simp: live_entry_def)
  qed simp
  moreover have "\<forall>h h'. waits st h \<noteq> None \<longrightarrow> waits st h' \<noteq> None \<longrightarrow> h = h'" using ok unfolding timer_ok_def by blast
  moreover have "\<forall>(h, d, k) \<in> set (heap st). k \<notin> dead st \<longrightarrow> token st = Some k \<and> waits st h = Some Suspended"
    using timer_okD(7) [OF ok] by fastforce
  ultimately show ?thesis by blast
qed

text \<open>A timer with the deadline 5 and one suspended task.\<close>

definition demo_timer :: timer_state where
  "demo_timer = wait_start 1 ((timer_new (Some 5))\<lparr>wait_taken := True, waits := [1 \<mapsto> Created]\<rparr>)"

lemma demo_timer_eq:
  "demo_timer = \<lparr>result = Pending, waiting = True, wait_taken = True, token = Some 0, handle = 1, has_owner = True,
     deadline = Some 5, heap = [(1, 5, 0)], dead = {}, next_token = 1, ready = [], posted = 0, waits = [1 \<mapsto> Suspended]\<rparr>"
  by (simp add: demo_timer_def wait_start_def wait_suspend_def register_def timer_new_def Let_def)

lemma demo_timer_reachable: "reachable (\<lambda>st. \<exists>d. st = timer_new d) timer_step demo_timer"
proof -
  have "reachable (\<lambda>st. \<exists>d. st = timer_new d) timer_step ((timer_new (Some 5))\<lparr>wait_taken := True, waits := [1 \<mapsto> Created]\<rparr>)"
    by (rule reachable_step [OF reachable_init], blast, rule ts_wait [of 1]) (simp_all add: timer_new_def timer_wait_def)
  then show ?thesis unfolding demo_timer_def
    by (rule reachable_step, intro ts_start) (simp add: timer_new_def)
qed

lemma timer_waiter_not_stranded_witness:
  "waits demo_timer 1 = Some Suspended \<and> (\<exists>k. (1, the (deadline demo_timer), k) \<in> set (heap demo_timer) \<and> k \<notin> dead demo_timer)"
  using timer_waiter_not_stranded [OF demo_timer_reachable, THEN conjunct2, THEN conjunct1, rule_format, of 1]
  by (simp add: demo_timer_eq)

text \<open>A \<open>reset\<close> between a cancellation and the resumption of the cancelled task sets the outcome
  back to pending: the task then takes it for an expiry and its wait returns true at once; and the
  place of the waiter is given back, so a second \<open>wait\<close> is admitted while the first still runs.\<close>

theorem reset_undoes_cancel:
  assumes "reachable (\<lambda>st. \<exists>d. st = timer_new d) timer_step st" "waiting st"
  shows "let st' = timer_cancel st; st'' = timer_reset d st'; h = handle st
   in h \<in> set (ready st') \<and> fst (run_task h st') = False \<and>
      fst (run_task h st'') = True \<and> waits st'' h = Some Suspended \<and> (\<forall>h'. \<exists>u. timer_wait h' st'' = Inr u)"
proof -
  have "timer_ok st" using timers.invariant_reachable [OF assms(1)] by blast
  then have w: "result st = Pending" "has_owner st" "waits st (handle st) = Some Suspended"
    using timer_okD(3) assms(2) by blast+
  then have "timer_cancel st = sched (handle st) (kill_token (st\<lparr>waiting := False, result := Cancelled\<rparr>))"
    using assms(2) by (simp add: timer_cancel_def claim_outcome_def Let_def)
  then show ?thesis
    using w(3) by (simp add: Let_def sched_ready run_task_def wait_resume_def claim_outcome_def timer_reset_def timer_wait_def)
qed

lemma reset_undoes_cancel_witness:
  "waiting demo_timer \<and> fst (run_task 1 (timer_cancel demo_timer)) = False \<and>
   fst (run_task 1 (timer_reset 100 (timer_cancel demo_timer))) = True"
  using reset_undoes_cancel [OF demo_timer_reachable, of 100] by (simp add: demo_timer_eq Let_def)

end
