(* ===== verification/Http_Message.thy ===== *)
theory Http_Message
  imports Coro_Prelude
begin

section \<open>HTTP messages\<close>

text \<open>
  The message builder \<open>http_protocol\<close> (src/thirdparty/http/src/http_protocol.cpp) and the request and
  response types of the web server (src/Web/src/http_types.cpp). Strings are byte strings; the
  character classes are those of the C locale. The header map of a request is its list of
  entries in the order of the map. A failed check of the builder is the value
  \<open>Inl InvalidArgument\<close>.

  The last part shows that a built response has one reading: cut at its line ends it is the status
  line, one line per header field, one Content-Length with the length of the body, an empty line,
  and then the body.
\<close>

subsection \<open>Characters\<close>

abbreviation CRC :: char where "CRC \<equiv> CHR 0x0D"
abbreviation LFC :: char where "LFC \<equiv> CHR 0x0A"
abbreviation NUL :: char where "NUL \<equiv> CHR 0x00"

definition crlf :: string where "crlf = [CRC, LFC]"

definition in_range :: "char \<Rightarrow> nat \<Rightarrow> nat \<Rightarrow> bool" where
  "in_range c lo hi \<longleftrightarrow> lo \<le> of_char c \<and> of_char c \<le> hi"

definition isdigit :: "char \<Rightarrow> bool" where "isdigit c = in_range c 48 57"

definition isalpha :: "char \<Rightarrow> bool" where "isalpha c = (in_range c 97 122 \<or> in_range c 65 90)"

definition tolower :: "char \<Rightarrow> char" where
  "tolower c = (if in_range c 65 90 then char_of (of_char c + 32 :: nat) else c)"

text \<open>\<open>std::to_string\<close> of a natural number.\<close>

fun to_string :: "nat \<Rightarrow> string" where
  "to_string n = (if n < 10 then [char_of (48 + n)] else to_string (n div 10) @ [char_of (48 + n mod 10)])"

declare to_string.simps [simp del]

definition to_string_int :: "int \<Rightarrow> string" where
  "to_string_int i = (if i < 0 then ''-'' @ to_string (nat (- i)) else to_string (nat i))"

subsection \<open>Checks of the builder\<close>

definition is_tchar :: "char \<Rightarrow> bool" where
  "is_tchar c = (in_range c 97 122 \<or> in_range c 65 90 \<or> in_range c 48 57 \<or>
    c \<in> set [CHR ''!'', CHR ''#'', CHR ''$'', CHR ''%'', CHR ''&'', CHR 0x27, CHR ''*'', CHR ''+'', CHR ''-'',
      CHR ''.'', CHR ''^'', CHR ''_'', CHR 0x60, CHR ''|'', CHR ''~''])"

definition is_token :: "string \<Rightarrow> bool" where
  "is_token s = (s \<noteq> [] \<and> list_all is_tchar s)"

definition is_safe_text :: "string \<Rightarrow> bool" where
  "is_safe_text s = list_all (\<lambda>c. c \<notin> set [CRC, LFC, NUL]) s"

definition is_safe_target :: "string \<Rightarrow> bool" where
  "is_safe_target s = (s \<noteq> [] \<and> list_all (\<lambda>c. c \<notin> set [CHR '' '', CHR 0x09, CRC, LFC, NUL]) s)"

definition is_version :: "string \<Rightarrow> bool" where
  "is_version v =
    (if take 5 v \<noteq> ''HTTP/'' then False
     else let r = drop 5 v
     in if r = [] \<or> \<not> isdigit (hd r) then False
     else let r = dropWhile isdigit r
     in if r = [] \<or> hd r \<noteq> CHR ''.'' then False
     else let r = tl r
     in if r = [] \<or> \<not> isdigit (hd r) then False
     else dropWhile isdigit r = [])"

definition iequals :: "string \<Rightarrow> string \<Rightarrow> bool" where
  "iequals a b = (length a = length b \<and> list_all2 (\<lambda>x y. tolower x = tolower y) a b)"

type_synonym header_list = "(string \<times> string) list"

definition has_header :: "header_list \<Rightarrow> string \<Rightarrow> bool" where
  "has_header hs field = list_ex (\<lambda>h. iequals (fst h) field) hs"

definition default_reason :: "int \<Rightarrow> string" where
  "default_reason s =
    (if s = 200 then ''OK'' else if s = 201 then ''Created'' else if s = 204 then ''No Content''
     else if s = 301 then ''Moved Permanently'' else if s = 302 then ''Found''
     else if s = 304 then ''Not Modified'' else if s = 400 then ''Bad Request''
     else if s = 401 then ''Unauthorized'' else if s = 403 then ''Forbidden''
     else if s = 404 then ''Not Found'' else if s = 405 then ''Method Not Allowed''
     else if s = 408 then ''Request Timeout'' else if s = 409 then ''Conflict''
     else if s = 413 then ''Payload Too Large'' else if s = 414 then ''URI Too Long''
     else if s = 415 then ''Unsupported Media Type'' else if s = 429 then ''Too Many Requests''
     else if s = 500 then ''Internal Server Error'' else if s = 501 then ''Not Implemented''
     else if s = 502 then ''Bad Gateway'' else if s = 503 then ''Service Unavailable''
     else if s = 504 then ''Gateway Timeout'' else '''')"

subsection \<open>The builder\<close>

record http_protocol =
  start_line :: string
  p_headers :: header_list
  p_body :: string
  has_body :: bool

definition p_new :: http_protocol where
  "p_new = \<lparr>start_line = [], p_headers = [], p_body = [], has_body = False\<rparr>"

definition p_clear :: "http_protocol \<Rightarrow> http_protocol" where
  "p_clear p = p\<lparr>start_line := [], p_headers := [], p_body := [], has_body := False\<rparr>"

definition request_line :: "string \<Rightarrow> string \<Rightarrow> string \<Rightarrow> http_protocol \<Rightarrow> http_protocol result" where
  "request_line method url version p =
    (if \<not> is_token method then Inl InvalidArgument
     else if \<not> is_safe_target url then Inl InvalidArgument
     else if \<not> is_version version then Inl InvalidArgument
     else Inr ((p_clear p)\<lparr>start_line := method @ '' '' @ url @ '' '' @ version @ crlf\<rparr>))"

definition status_line :: "int \<Rightarrow> string option \<Rightarrow> string \<Rightarrow> http_protocol \<Rightarrow> http_protocol result" where
  "status_line status_code reason version p =
    (if \<not> (100 \<le> status_code \<and> status_code \<le> 999) then Inl InvalidArgument
     else if \<not> is_version version then Inl InvalidArgument
     else let reason = (case reason of None \<Rightarrow> default_reason status_code | Some r \<Rightarrow> r)
     in if \<not> is_safe_text reason then Inl InvalidArgument
     else Inr ((p_clear p)\<lparr>start_line := version @ '' '' @ to_string_int status_code
            @ (if reason \<noteq> [] then '' '' @ reason else []) @ crlf\<rparr>))"

definition p_header :: "string \<Rightarrow> string \<Rightarrow> bool \<Rightarrow> http_protocol \<Rightarrow> http_protocol result" where
  "p_header field value replace p =
    (if \<not> is_token field then Inl InvalidArgument
     else if \<not> is_safe_text value then Inl InvalidArgument
     else let hs = (if replace then filter (\<lambda>h. \<not> iequals (fst h) field) (p_headers p) else p_headers p)
     in Inr (p\<lparr>p_headers := hs @ [(field, value)]\<rparr>))"

definition set_body :: "string \<Rightarrow> http_protocol \<Rightarrow> http_protocol" where
  "set_body b p = p\<lparr>p_body := b, has_body := True\<rparr>"

definition header_line :: "string \<times> string \<Rightarrow> string" where
  "header_line h = fst h @ '': '' @ snd h @ crlf"

definition p_build :: "bool \<Rightarrow> http_protocol \<Rightarrow> string" where
  "p_build include_body p =
    start_line p @ concat (map header_line (p_headers p))
    @ (if has_body p \<and> \<not> has_header (p_headers p) ''Content-Length''
       then ''Content-Length: '' @ to_string (length (p_body p)) @ crlf else [])
    @ crlf @ (if include_body then p_body p else [])"

text \<open>The loop that adds header fields.\<close>

fun add_headers :: "header_list \<Rightarrow> http_protocol \<Rightarrow> http_protocol result" where
  "add_headers [] p = Inr p"
| "add_headers (h # hs) p =
    (case p_header (fst h) (snd h) False p of Inl e \<Rightarrow> Inl e | Inr p \<Rightarrow> add_headers hs p)"

definition http_request_text :: "string \<Rightarrow> string \<Rightarrow> header_list \<Rightarrow> string \<Rightarrow> string \<Rightarrow> string result" where
  "http_request_text method url headers body version =
    (case request_line method url version p_new of Inl e \<Rightarrow> Inl e
     | Inr p \<Rightarrow> (case add_headers headers p of Inl e \<Rightarrow> Inl e
     | Inr p \<Rightarrow> Inr (p_build True (if body \<noteq> [] then set_body body p else p))))"

definition json_request :: "string \<Rightarrow> string \<Rightarrow> string \<Rightarrow> header_list \<Rightarrow> string \<Rightarrow> string result" where
  "json_request method url json_body headers version =
    http_request_text method url
      (if has_header headers ''Content-Type'' then headers else headers @ [(''Content-Type'', ''application/json'')])
      json_body version"

definition hex_digit :: "nat \<Rightarrow> char" where
  "hex_digit n = ''0123456789ABCDEF'' ! n"

definition unreserved :: "char \<Rightarrow> bool" where
  "unreserved c = (isalpha c \<or> isdigit c \<or> c \<in> set [CHR ''-'', CHR ''_'', CHR ''.'', CHR ''~''])"

definition encode_char :: "char \<Rightarrow> string" where
  "encode_char c = (if unreserved c then [c]
    else [CHR ''%'', hex_digit (of_char c div 16), hex_digit (of_char c mod 16)])"

definition url_encode :: "string \<Rightarrow> string" where
  "url_encode text = concat (map encode_char text)"

fun form_body :: "header_list \<Rightarrow> string" where
  "form_body [] = []"
| "form_body [f] = url_encode (fst f) @ ''='' @ url_encode (snd f)"
| "form_body (f # fs) = url_encode (fst f) @ ''='' @ url_encode (snd f) @ ''&'' @ form_body fs"

definition form_request :: "string \<Rightarrow> string \<Rightarrow> header_list \<Rightarrow> header_list \<Rightarrow> string \<Rightarrow> string result" where
  "form_request method url pairs headers version =
    http_request_text method url
      (if has_header headers ''Content-Type'' then headers
       else headers @ [(''Content-Type'', ''application/x-www-form-urlencoded'')])
      (form_body pairs) version"

definition http_response_text :: "int \<Rightarrow> header_list \<Rightarrow> string \<Rightarrow> string option \<Rightarrow> string \<Rightarrow> string result" where
  "http_response_text status_code headers body reason version =
    (case status_line status_code reason version p_new of Inl e \<Rightarrow> Inl e
     | Inr p \<Rightarrow> (case add_headers headers p of Inl e \<Rightarrow> Inl e
     | Inr p \<Rightarrow> Inr (p_build True (if body \<noteq> [] then set_body body p else p))))"

subsection \<open>Requests and responses of the web server\<close>

record http_request =
  req_method :: string
  req_url :: string
  req_version :: string
  req_body :: string
  req_headers :: header_list
  keep_alive :: bool
  req_params :: "(string \<times> string) list"

text \<open>\<open>path_view\<close> is the same prefix without a copy.\<close>

definition req_path :: "http_request \<Rightarrow> string" where
  "req_path r = takeWhile (\<lambda>c. c \<noteq> CHR ''?'') (req_url r)"

definition req_query :: "http_request \<Rightarrow> string" where
  "req_query r = (case dropWhile (\<lambda>c. c \<noteq> CHR ''?'') (req_url r) of [] \<Rightarrow> [] | c # q \<Rightarrow> q)"

fun first_field :: "(string \<Rightarrow> bool) \<Rightarrow> header_list \<Rightarrow> string" where
  "first_field P [] = []"
| "first_field P (h # hs) = (if P (fst h) then snd h else first_field P hs)"

definition req_header :: "http_request \<Rightarrow> string \<Rightarrow> string" where
  "req_header r name = first_field (\<lambda>k. iequals k name) (req_headers r)"

definition req_param :: "http_request \<Rightarrow> string \<Rightarrow> string" where
  "req_param r name = first_field (\<lambda>k. k = name) (req_params r)"

record http_response =
  status :: int
  headers :: header_list
  resp_body :: string

definition response_new :: http_response where
  "response_new = \<lparr>status = 200, headers = [], resp_body = []\<rparr>"

definition resp_header :: "string \<Rightarrow> string \<Rightarrow> bool \<Rightarrow> http_response \<Rightarrow> http_response" where
  "resp_header name value replace r =
    (let hs = (if replace then filter (\<lambda>h. \<not> iequals (fst h) name) (headers r) else headers r)
     in r\<lparr>headers := hs @ [(name, value)]\<rparr>)"

definition resp_of :: "string \<Rightarrow> string \<Rightarrow> int \<Rightarrow> http_response" where
  "resp_of ctype body st =
    (let r = response_new\<lparr>status := st\<rparr>;
         r = resp_header ''Content-Type'' ctype False r
     in r\<lparr>resp_body := body\<rparr>)"

definition resp_text :: "string \<Rightarrow> int \<Rightarrow> http_response" where
  "resp_text = resp_of ''text/plain; charset=utf-8''"

definition resp_json :: "string \<Rightarrow> int \<Rightarrow> http_response" where
  "resp_json = resp_of ''application/json''"

definition resp_html :: "string \<Rightarrow> int \<Rightarrow> http_response" where
  "resp_html = resp_of ''text/html; charset=utf-8''"

definition resp_error :: "int \<Rightarrow> string \<Rightarrow> http_response" where
  "resp_error st message = resp_text (message @ [LFC]) st"

definition file_ext :: "string \<Rightarrow> string" where
  "file_ext path = (if CHR ''.'' \<in> set path then rev (takeWhile (\<lambda>c. c \<noteq> CHR ''.'') (rev path)) else [])"

definition mime_type :: "string \<Rightarrow> string" where
  "mime_type path =
    (let ext = file_ext path
     in if ext = ''html'' \<or> ext = ''htm'' then ''text/html; charset=utf-8''
        else if ext = ''css'' then ''text/css''
        else if ext = ''js'' then ''application/javascript''
        else if ext = ''json'' then ''application/json''
        else if ext = ''png'' then ''image/png''
        else if ext = ''jpg'' \<or> ext = ''jpeg'' then ''image/jpeg''
        else if ext = ''gif'' then ''image/gif''
        else if ext = ''svg'' then ''image/svg+xml''
        else if ext = ''txt'' then ''text/plain; charset=utf-8''
        else if ext = ''ico'' then ''image/x-icon''
        else ''application/octet-stream'')"

text \<open>\<open>http_response::file\<close> over a file system: the bytes of the file, if it can be opened.\<close>

definition resp_file :: "(string \<Rightarrow> string option) \<Rightarrow> string \<Rightarrow> http_response" where
  "resp_file files path =
    (case files path of
       None \<Rightarrow> resp_error 404 (''file not found: '' @ path)
     | Some bytes \<Rightarrow> (resp_header ''Content-Type'' (mime_type path) False response_new)\<lparr>resp_body := bytes\<rparr>)"

text \<open>The loop of \<open>build\<close>, which skips the framing fields of the handler.\<close>

fun add_unframed :: "header_list \<Rightarrow> http_protocol \<Rightarrow> http_protocol result" where
  "add_unframed [] p = Inr p"
| "add_unframed (h # hs) p =
    (if iequals (fst h) ''Content-Length'' \<or> iequals (fst h) ''Transfer-Encoding'' then add_unframed hs p
     else case p_header (fst h) (snd h) False p of Inl e \<Rightarrow> Inl e | Inr p \<Rightarrow> add_unframed hs p)"

definition resp_build :: "bool \<Rightarrow> http_response \<Rightarrow> string result" where
  "resp_build omit_body r =
    (case status_line (status r) None ''HTTP/1.1'' p_new of Inl e \<Rightarrow> Inl e
     | Inr p \<Rightarrow> (case add_unframed (headers r) p of Inl e \<Rightarrow> Inl e
     | Inr p \<Rightarrow> (case p_header ''Content-Length'' (to_string (length (resp_body r))) False p of Inl e \<Rightarrow> Inl e
     | Inr p \<Rightarrow> Inr (p_build True (set_body (if omit_body then [] else resp_body r) p)))))"

subsection \<open>A built response has one reading\<close>

text \<open>A reader of the head of a message: the lines up to the first empty line, and what follows.\<close>

fun cut_line :: "string \<Rightarrow> string \<times> string" where
  "cut_line (a # b # s) =
    (if a = CRC \<and> b = LFC then ([], s) else let (l, r) = cut_line (b # s) in (a # l, r))"
| "cut_line s = (s, [])"

lemma cut_line_length: "length (fst (cut_line s)) + length (snd (cut_line s)) \<le> length s"
  by (induction s rule: cut_line.induct) (auto split: prod.splits)

lemma cut_line_shorter: "fst (cut_line s) \<noteq> [] \<Longrightarrow> length (snd (cut_line s)) < length s"
  using cut_line_length [of s] by (cases "fst (cut_line s)") auto

function read_head :: "string \<Rightarrow> string list \<times> string" where
  "read_head s =
    (if fst (cut_line s) = [] then ([], snd (cut_line s))
     else apfst (Cons (fst (cut_line s))) (read_head (snd (cut_line s))))"
  by auto
termination by (relation "measure length") (auto intro: cut_line_shorter)

declare read_head.simps [simp del]

lemma cut_line_append: "CRC \<notin> set l \<Longrightarrow> cut_line (l @ crlf @ s) = (l, s)"
  unfolding crlf_def
proof (induction l)
  case (Cons a l)
  then show ?case by (cases l) auto
qed simp

lemma read_head_lines:
  assumes "\<And>l. l \<in> set ls \<Longrightarrow> l \<noteq> [] \<and> CRC \<notin> set l"
  shows "read_head (concat (map (\<lambda>l. l @ crlf) ls) @ crlf @ b) = (ls, b)"
  using assms
proof (induction ls)
  case Nil
  then show ?case using cut_line_append [of "[]" b] by (simp add: read_head.simps)
next
  case (Cons l ls)
  have "cut_line (concat (map (\<lambda>l. l @ crlf) (l # ls)) @ crlf @ b) =
      (l, concat (map (\<lambda>l. l @ crlf) ls) @ crlf @ b)"
    using cut_line_append [of l "concat (map (\<lambda>l. l @ crlf) ls) @ crlf @ b"] Cons.prems by simp
  then show ?case using Cons by (subst read_head.simps) simp
qed

subsection \<open>Digits and tokens have no line ends\<close>

lemma to_string_digits: "list_all isdigit (to_string n)"
proof (induction n rule: to_string.induct)
  case (1 n)
  have d: "isdigit (char_of (48 + k))" if "k < 10" for k :: nat
    using that by (simp add: isdigit_def in_range_def)
  show ?case using 1 d [of n] d [of "n mod 10"] by (subst to_string.simps) auto
qed

lemma to_string_nonempty [simp]: "to_string n \<noteq> []"
  by (subst to_string.simps) simp

definition parse_nat :: "string \<Rightarrow> nat" where
  "parse_nat s = foldl (\<lambda>n c. 10 * n + (of_char c - 48)) 0 s"

lemma parse_to_string: "parse_nat (to_string n) = n"
proof (induction n rule: to_string.induct)
  case (1 n)
  have d: "of_char (char_of (48 + k) :: char) - 48 = k" if "k < 10" for k :: nat using that by simp
  show ?case
    using 1 d [of n] d [of "n mod 10"] by (subst to_string.simps) (auto simp: parse_nat_def)
qed

lemma no_cr:
  "isdigit c \<Longrightarrow> c \<noteq> CRC" "is_tchar c \<Longrightarrow> c \<noteq> CRC"
  by (auto simp: isdigit_def is_tchar_def in_range_def)

lemma to_string_no_cr [simp]: "CRC \<notin> set (to_string n)" "CRC \<notin> set (to_string_int i)"
  using to_string_digits no_cr by (auto simp: list_all_iff to_string_int_def)

lemma to_string_safe [simp]: "is_safe_text (to_string n)"
proof -
  have "c \<notin> set [CRC, LFC, NUL]" if "isdigit c" for c using that by (auto simp: isdigit_def in_range_def)
  then show ?thesis using to_string_digits by (auto simp: is_safe_text_def list_all_iff)
qed

lemma safe_no_cr: "is_safe_text s \<Longrightarrow> CRC \<notin> set s" "is_token s \<Longrightarrow> CRC \<notin> set s"
  using no_cr by (auto simp: is_safe_text_def is_token_def list_all_iff)

lemma default_reason_safe: "is_safe_text (default_reason s)"
  by (simp add: default_reason_def is_safe_text_def)

subsection \<open>Framing of a response\<close>

definition framing_field :: "string \<times> string \<Rightarrow> bool" where
  "framing_field h = (iequals (fst h) ''Content-Length'' \<or> iequals (fst h) ''Transfer-Encoding'')"

definition field_ok :: "string \<times> string \<Rightarrow> bool" where
  "field_ok h = (is_token (fst h) \<and> is_safe_text (snd h))"

lemma p_header_eq:
  "p_header f v False p = (if field_ok (f, v) then Inr (p\<lparr>p_headers := p_headers p @ [(f, v)]\<rparr>) else Inl InvalidArgument)"
  by (simp add: p_header_def field_ok_def)

lemma add_unframed_eq:
  "add_unframed hs p =
    (let keep = filter (\<lambda>h. \<not> framing_field h) hs
     in if list_all field_ok keep then Inr (p\<lparr>p_headers := p_headers p @ keep\<rparr>) else Inl InvalidArgument)"
  by (induction hs arbitrary: p) (auto simp: Let_def framing_field_def p_header_eq)

lemma p_new_simps [simp]: "p_headers p_new = []" "start_line p_new = []" "has_body p_new = False" "p_body p_new = []"
  by (simp_all add: p_new_def)

definition status_text :: "int \<Rightarrow> string" where
  "status_text s = ''HTTP/1.1 '' @ to_string_int s @ (if default_reason s \<noteq> [] then '' '' @ default_reason s else [])"

lemma status_line_eq:
  "status_line s None ''HTTP/1.1'' p_new =
    (if 100 \<le> s \<and> s \<le> 999 then Inr (p_new\<lparr>start_line := status_text s @ crlf\<rparr>) else Inl InvalidArgument)"
proof -
  have "is_version ''HTTP/1.1''" by code_simp
  then show ?thesis
    by (simp add: status_line_def default_reason_safe p_clear_def p_new_def status_text_def)
qed

definition field_text :: "string \<times> string \<Rightarrow> string" where
  "field_text h = fst h @ '': '' @ snd h"

lemma header_lines: "concat (map header_line hs) = concat (map (\<lambda>l. l @ crlf) (map field_text hs))"
  by (induction hs) (simp_all add: header_line_def field_text_def)

lemma header_line_text: "header_line h = field_text h @ crlf"
  by (simp add: header_line_def field_text_def)

lemma field_line: "field_ok h \<Longrightarrow> field_text h \<noteq> [] \<and> CRC \<notin> set (field_text h)"
  using safe_no_cr by (auto simp: field_ok_def field_text_def is_token_def)

lemma status_text_line: "status_text s \<noteq> [] \<and> CRC \<notin> set (status_text s)"
  using safe_no_cr(1) [OF default_reason_safe [of s]] by (simp add: status_text_def)

lemma content_length_ok: "field_ok (''Content-Length'', to_string n)"
proof -
  have "is_token ''Content-Length''" by code_simp
  then show ?thesis by (simp add: field_ok_def)
qed

lemma content_length_found: "has_header (hs @ [(''Content-Length'', v)]) ''Content-Length''"
  by (simp add: has_header_def iequals_def list.rel_refl)



subsection \<open>Percent encoding\<close>

text \<open>A reference decoder.\<close>

definition hex_value :: "char \<Rightarrow> nat" where
  "hex_value c = (if isdigit c then of_char c - 48 else of_char c - 55)"

fun url_decode :: "string \<Rightarrow> string" where
  "url_decode (c # a # b # s) =
    (if c = CHR ''%'' then char_of (16 * hex_value a + hex_value b) # url_decode s else c # url_decode (a # b # s))"
| "url_decode s = s"

lemma hex_value_digit: "n < 16 \<Longrightarrow> hex_value (hex_digit n) = n"
  by (simp add: less_Suc_eq numeral_eq_Suc) (auto simp: hex_digit_def hex_value_def isdigit_def in_range_def)

lemma percent_reserved: "unreserved c \<Longrightarrow> c \<noteq> CHR ''%''"
  by (auto simp: unreserved_def isalpha_def isdigit_def in_range_def)

lemma url_decode_plain: "c \<noteq> CHR ''%'' \<Longrightarrow> url_decode (c # s) = c # url_decode s"
  by (cases s rule: url_decode.cases) auto

lemma url_decode_encode: "url_decode (url_encode s) = s"
proof (induction s)
  case (Cons c s)
  have "url_decode (encode_char c @ url_encode s) = c # url_decode (url_encode s)"
  proof (cases "unreserved c")
    case False
    have "of_char c < (256 :: nat)" by simp
    then have "(of_char c :: nat) div 16 < 16" by linarith
    then show ?thesis using False by (simp add: encode_char_def hex_value_digit)
  qed (simp add: encode_char_def url_decode_plain percent_reserved)
  then show ?case using Cons by (simp add: url_encode_def)
qed (simp add: url_encode_def)

subsection \<open>Header fields\<close>

lemma iequals_refl: "iequals s s"
  by (simp add: iequals_def list.rel_refl)

lemma resp_header_replace:
  "filter (\<lambda>h. iequals (fst h) name) (headers (resp_header name v True r)) = [(name, v)]"
  by (simp add: resp_header_def Let_def iequals_refl filter_empty_conv)

lemma split_at_first:
  "takeWhile (\<lambda>c. c \<noteq> x) xs @ (if x \<in> set xs then x # (case dropWhile (\<lambda>c. c \<noteq> x) xs of [] \<Rightarrow> [] | c # q \<Rightarrow> q) else []) = xs"
  by (induction xs) auto

lemma path_query_url:
  "req_path r @ (if CHR ''?'' \<in> set (req_url r) then CHR ''?'' # req_query r else []) = req_url r"
  unfolding req_path_def req_query_def by (rule split_at_first)

end
