(* ===== verification/Middleware.thy ===== *)
theory Middleware
  imports Http_Message
begin

section \<open>The middleware chain\<close>

text \<open>
  middleware.h: a middleware is a coroutine over the request and a \<open>next\<close> that may be called at most
  once; the chain drives the list by index. A middleware is given as a tree of its calls to
  \<open>next\<close>: \<open>Done\<close> ends it with a response or an exception, \<open>Call_Next\<close> calls \<open>next\<close> and goes on with
  what it gave. The state \<open>'s\<close> is the request, which is passed by reference, with whatever else
  the program keeps.
\<close>

datatype 's mw_task =
    Done "http_response result" 's
  | Call_Next 's "http_response result \<Rightarrow> 's \<Rightarrow> 's mw_task"

type_synonym 's terminal_fn = "'s \<Rightarrow> http_response result \<times> 's"
type_synonym 's middleware_fn = "'s \<Rightarrow> 's mw_task"

text \<open>A middleware with its \<open>next_fn\<close>: \<open>called\<close> is its flag, and a second call throws before any
  inner layer is started.\<close>

primrec exec_mw :: "'s mw_task \<Rightarrow> 's terminal_fn \<Rightarrow> bool \<Rightarrow> http_response result \<times> 's" where
  "exec_mw (Done r s) nxt called = (r, s)"
| "exec_mw (Call_Next s k) nxt called =
    (if called then exec_mw (k (Inl LogicError) s) nxt called
     else exec_mw (k (fst (nxt s)) (snd (nxt s))) nxt True)"

function run_chain :: "'s middleware_fn list \<Rightarrow> 's terminal_fn \<Rightarrow> nat \<Rightarrow> 's \<Rightarrow> http_response result \<times> 's" where
  "run_chain mws terminal index req =
    (if index < length mws
     then exec_mw ((mws ! index) req) (\<lambda>r. run_chain mws terminal (index + 1) r) False
     else terminal req)"
  by auto
termination by (relation "measure (\<lambda>(mws, _, i, _). length mws - i)") auto

declare run_chain.simps [simp del]

subsection \<open>The onion\<close>

text \<open>One layer around an inner one, and the chain as a composition of layers.\<close>

definition layer :: "'s middleware_fn \<Rightarrow> 's terminal_fn \<Rightarrow> 's terminal_fn" where
  "layer mw inner s = exec_mw (mw s) inner False"

lemma run_chain_drop: "run_chain mws terminal i = foldr layer (drop i mws) terminal"
proof (induction "length mws - i" arbitrary: i)
  case (Suc n)
  then have "i < length mws" by simp
  moreover have "run_chain mws terminal (i + 1) = foldr layer (drop (i + 1) mws) terminal" using Suc by simp
  ultimately show ?case
    by (intro ext) (subst run_chain.simps, simp add: layer_def Cons_nth_drop_Suc [symmetric])
qed (rule ext, subst run_chain.simps, simp)

text \<open>After its one call a task does not look at the inner layer any more; before it, it looks at
  one state at most.\<close>

lemma exec_called: "exec_mw t nxt True = exec_mw t nxt' True"
  by (induction t) auto

lemma exec_once: "\<exists>s0. \<forall>nxt'. nxt' s0 = nxt s0 \<longrightarrow> exec_mw t nxt' False = exec_mw t nxt False"
proof (cases t)
  case (Call_Next s k)
  have "exec_mw t nxt' False = exec_mw t nxt False" if "nxt' s = nxt s" for nxt'
    using that by (simp add: Call_Next exec_called [of _ nxt' nxt])
  then show ?thesis by blast
qed simp

lemma layers_once:
  "\<exists>s0. \<forall>t'. t' s0 = terminal s0 \<longrightarrow> foldr layer mws t' s = foldr layer mws terminal s"
proof (induction mws arbitrary: s)
  case Nil
  show ?case by (intro exI [of _ s]) simp
next
  case (Cons mw mws)
  obtain s1 where s1: "\<forall>nxt'. nxt' s1 = foldr layer mws terminal s1 \<longrightarrow>
      exec_mw (mw s) nxt' False = exec_mw (mw s) (foldr layer mws terminal) False"
    using exec_once [of "foldr layer mws terminal" "mw s"] ..
  obtain s0 where s0: "\<forall>t'. t' s0 = terminal s0 \<longrightarrow> foldr layer mws t' s1 = foldr layer mws terminal s1"
    using Cons.IH [of s1] ..
  have "foldr layer (mw # mws) t' s = foldr layer (mw # mws) terminal s" if "t' s0 = terminal s0" for t'
    using s1 [rule_format, of "foldr layer mws t'"] s0 [rule_format, of t'] that by (simp add: layer_def)
  then show ?case by blast
qed

text \<open>C37. The chain is the composition of its layers, the first registered outermost; and, whatever
  the middlewares do, the run looks at the terminal in one state at most: there is a state such
  that the outcome is the same for every terminal that agrees there. A second call of \<open>next\<close> ends
  in \<open>logic_error\<close> in that middleware without touching the inner layers.\<close>

theorem chain_is_an_onion:
  "run_chain mws terminal 0 = foldr layer mws terminal \<and>
   (\<exists>s0. \<forall>terminal'. terminal' s0 = terminal s0 \<longrightarrow> run_chain mws terminal' 0 s = run_chain mws terminal 0 s) \<and>
   exec_mw (Call_Next s k) inner True = exec_mw (k (Inl LogicError) s) inner' True"
proof (intro conjI)
  show "run_chain mws terminal 0 = foldr layer mws terminal" by (simp add: run_chain_drop)
  show "\<exists>s0. \<forall>terminal'. terminal' s0 = terminal s0 \<longrightarrow> run_chain mws terminal' 0 s = run_chain mws terminal 0 s"
    unfolding run_chain_drop drop_0 by (rule layers_once)
  show "exec_mw (Call_Next s k) inner True = exec_mw (k (Inl LogicError) s) inner' True"
    by (subst exec_mw.simps, subst if_P, rule TrueI) (rule exec_called)
qed

text \<open>The middleware adds a header field to what the inner layer answers; the second one calls
  \<open>next\<close> twice and answers with what the second call gave.\<close>

definition add_field :: "string \<Rightarrow> http_request middleware_fn" where
  "add_field name req = Call_Next req (\<lambda>res req. Done (map_sum id (resp_header name ''1'' False) res) req)"

definition next_twice :: "http_request middleware_fn" where
  "next_twice req = Call_Next req (\<lambda>_ req. Call_Next req (\<lambda>res req. Done res req))"

lemma chain_is_an_onion_witness:
  "(\<forall>req. run_chain [add_field ''X'', next_twice] (\<lambda>req. (Inr response_new, req)) 0 req = (Inl LogicError, req)) \<and>
   (\<forall>req. run_chain [add_field ''X'', add_field ''Y''] (\<lambda>req. (Inr response_new, req)) 0 req =
     (Inr (response_new\<lparr>headers := [(''Y'', ''1''), (''X'', ''1'')]\<rparr>), req))"
proof -
  have c: "run_chain mws t 0 = foldr layer mws t" for mws :: "http_request middleware_fn list" and t
    by (rule chain_is_an_onion [THEN conjunct1])
  show ?thesis unfolding c by (simp add: layer_def add_field_def next_twice_def resp_header_def response_new_def)
qed

end
