(* ===== verification/Web_Router.thy ===== *)
theory Web_Router
  imports Radix_Router Middleware
begin

section \<open>The router of the web server\<close>

text \<open>
  router.h: one radix router per method, the mounts of static directories, the global middlewares
  and the frozen flag. The table of trees is an \<open>unordered_map\<close>, a list of its entries in the order
  of its iteration; a new entry goes to the end, and no statement depends on the order. The file
  system (\<open>weakly_canonical\<close>, \<open>relative\<close>, \<open>read_all\<close>) is a parameter; a failed call is \<open>None\<close>.
  The type \<open>'w\<close> is what the handlers work on beside the request.
\<close>

type_synonym 'w handler_fn = "http_request \<Rightarrow> 'w \<Rightarrow> http_response result \<times> 'w"

record 'w route_entry =
  handler :: "'w handler_fn"
  middlewares :: "(http_request \<times> 'w) middleware_fn list"

record static_mount =
  mount :: string
  dir :: string
  base :: string

record 'w web_router =
  trees :: "(string \<times> 'w route_entry radix_router) list"
  static_dirs :: "static_mount list"
  global_mws :: "(http_request \<times> 'w) middleware_fn list"
  frozen :: bool

record fs_ops =
  weakly_canonical :: "string \<Rightarrow> string option"
  relative_to :: "string \<Rightarrow> string \<Rightarrow> string option"
  read_all :: "string \<Rightarrow> string option"

definition web_router_new :: "'w web_router" where
  "web_router_new = \<lparr>trees = [], static_dirs = [], global_mws = [], frozen = False\<rparr>"

subsection \<open>Registration\<close>

fun set_tree :: "string \<Rightarrow> 'v \<Rightarrow> (string \<times> 'v) list \<Rightarrow> (string \<times> 'v) list" where
  "set_tree m t [] = [(m, t)]"
| "set_tree m t ((k, v) # l) = (if k = m then (k, t) # l else (k, v) # set_tree m t l)"

definition tree_or_new :: "(string \<times> 'v radix_router) list \<Rightarrow> string \<Rightarrow> 'v radix_router" where
  "tree_or_new l m = (case map_of l m of None \<Rightarrow> router_new | Some t \<Rightarrow> t)"

definition unclean :: "string \<Rightarrow> bool" where
  "unclean s = (\<exists>c \<in> set s. c \<in> set [CHR ''?'', CHR ''#'', NUL])"

definition add_route ::
    "string \<Rightarrow> string \<Rightarrow> 'w handler_fn option \<Rightarrow> (http_request \<times> 'w) middleware_fn list \<Rightarrow>
     'w web_router \<Rightarrow> 'w web_router \<times> unit result" where
  "add_route method path fn mws r =
    (if frozen r then (r, Inl LogicError)
     else case fn of
       None \<Rightarrow> (r, Inl InvalidArgument)
     | Some fn \<Rightarrow>
         if method = [] \<or> unclean path then (r, Inl InvalidArgument)
         else (case insert_route path \<lparr>handler = fn, middlewares = mws\<rparr> False (tree_or_new (trees r) method) of
             (t, res) \<Rightarrow>
               (r\<lparr>trees := set_tree method t (trees r)\<rparr>,
                if res = Inr True then Inr () else Inl InvalidArgument)))"

definition get_route :: "string \<Rightarrow> 'w handler_fn option \<Rightarrow> (http_request \<times> 'w) middleware_fn list \<Rightarrow>
     'w web_router \<Rightarrow> 'w web_router \<times> unit result" where
  "get_route path fn mws r = add_route ''GET'' path fn mws r"

definition post_route :: "string \<Rightarrow> 'w handler_fn option \<Rightarrow> (http_request \<times> 'w) middleware_fn list \<Rightarrow>
     'w web_router \<Rightarrow> 'w web_router \<times> unit result" where
  "post_route path fn mws r = add_route ''POST'' path fn mws r"

definition use_mw :: "(http_request \<times> 'w) middleware_fn \<Rightarrow> 'w web_router \<Rightarrow> 'w web_router \<times> unit result" where
  "use_mw mw r = (if frozen r then (r, Inl LogicError) else (r\<lparr>global_mws := global_mws r @ [mw]\<rparr>, Inr ()))"

definition freeze :: "'w web_router \<Rightarrow> 'w web_router" where
  "freeze r = r\<lparr>frozen := True\<rparr>"

text \<open>The loop that pops the slashes at the end but keeps one character.\<close>

function pop_slashes :: "string \<Rightarrow> string" where
  "pop_slashes s = (if length s > 1 \<and> last s = CHR ''/'' then pop_slashes (butlast s) else s)"
  by auto
termination by (relation "measure length") auto

declare pop_slashes.simps [simp del]

definition static_dir :: "fs_ops \<Rightarrow> string \<Rightarrow> string \<Rightarrow> 'w web_router \<Rightarrow> 'w web_router \<times> unit result" where
  "static_dir fs mnt d r =
    (if frozen r then (r, Inl LogicError)
     else let n = pop_slashes (if mnt = [] then ''/'' else mnt);
              n = (if hd n \<noteq> CHR ''/'' then CHR ''/'' # n else n);
              b = (case weakly_canonical fs d of None \<Rightarrow> [] | Some p \<Rightarrow> p)
     in (r\<lparr>static_dirs := static_dirs r @ [\<lparr>mount = n, dir = d, base = b\<rparr>]\<rparr>, Inr ()))"

subsection \<open>Inclusion of a router\<close>

definition norm_prefix :: "string \<Rightarrow> string" where
  "norm_prefix prefix =
    (let n = (if prefix \<noteq> [] \<and> hd prefix \<noteq> CHR ''/'' then CHR ''/'' # prefix else prefix)
     in if n \<noteq> [] \<and> last n = CHR ''/'' then butlast n else n)"

fun insert_all :: "string list \<Rightarrow> bool radix_router \<Rightarrow> bool radix_router option" where
  "insert_all [] v = Some v"
| "insert_all (p # ps) v =
    (case insert_route p True False v of (v', res) \<Rightarrow> if res = Inr True then insert_all ps v' else None)"

type_synonym 'w pending_route = "string \<times> string \<times> 'w route_entry"

text \<open>The routes of one method of the child, tried one by one on the validation tree.\<close>

fun collect_routes ::
    "string \<Rightarrow> string \<Rightarrow> (http_request \<times> 'w) middleware_fn list \<Rightarrow> 'w route_entry radix_router \<Rightarrow> string list \<Rightarrow>
     bool radix_router \<Rightarrow> 'w pending_route list result" where
  "collect_routes m norm mws sub_tree [] v = Inr []"
| "collect_routes m norm mws sub_tree (p # ps) v =
    (case find_exact sub_tree p of
       None \<Rightarrow> Inl LogicError
     | Some e \<Rightarrow>
         (case insert_route (norm @ p) True False v of (v', res) \<Rightarrow>
            if res \<noteq> Inr True then Inl InvalidArgument
            else (case collect_routes m norm mws sub_tree ps v' of
                    Inl er \<Rightarrow> Inl er
                  | Inr l \<Rightarrow> Inr ((m, norm @ p, e\<lparr>middlewares := mws @ middlewares e\<rparr>) # l))))"

fun collect_all ::
    "string \<Rightarrow> (http_request \<times> 'w) middleware_fn list \<Rightarrow> (string \<times> 'w route_entry radix_router) list \<Rightarrow>
     (string \<times> 'w route_entry radix_router) list \<Rightarrow> 'w pending_route list result" where
  "collect_all norm mws [] parent = Inr []"
| "collect_all norm mws ((m, sub_tree) # ts) parent =
    (case insert_all (case map_of parent m of None \<Rightarrow> [] | Some t \<Rightarrow> rr_log t) router_new of
       None \<Rightarrow> Inl LogicError
     | Some v \<Rightarrow>
         (case collect_routes m norm mws sub_tree (rr_log sub_tree) v of
            Inl e \<Rightarrow> Inl e
          | Inr l \<Rightarrow> map_sum id (\<lambda>l'. l @ l') (collect_all norm mws ts parent)))"

fun add_pending :: "'w pending_route list \<Rightarrow> 'w web_router \<Rightarrow> 'w web_router \<times> unit result" where
  "add_pending [] r = (r, Inr ())"
| "add_pending ((m, p, e) # l) r =
    (case add_route m p (Some (handler e)) (middlewares e) r of
       (r', Inl er) \<Rightarrow> (r', Inl er)
     | (r', Inr _) \<Rightarrow> add_pending l r')"

text \<open>\<open>self\<close>: whether the child is the router itself.\<close>

definition include_router :: "'w web_router \<Rightarrow> bool \<Rightarrow> string \<Rightarrow> 'w web_router \<Rightarrow> 'w web_router \<times> unit result" where
  "include_router sub self prefix r =
    (if frozen r then (r, Inl LogicError)
     else if self then (r, Inl InvalidArgument)
     else if unclean prefix \<or> has_double_slash prefix then (r, Inl InvalidArgument)
     else let norm = norm_prefix prefix
     in if norm \<noteq> [] \<and> (CHR ''*'' \<in> set norm \<or> snd (insert_route norm True False router_new) \<noteq> Inr True)
        then (r, Inl InvalidArgument)
     else case collect_all norm (global_mws sub) (trees sub) (trees r) of
       Inl e \<Rightarrow> (r, Inl e)
     | Inr l \<Rightarrow> add_pending l r)"

subsection \<open>Static files\<close>

fun split_slash :: "string \<Rightarrow> string \<Rightarrow> bool" where
  "split_slash segment [] = (segment \<noteq> ''..'')"
| "split_slash segment (c # s) =
    (if c = CHR ''/'' then (if segment = ''..'' then False else split_slash [] s)
     else split_slash (segment @ [c]) s)"

fun has_encoded_dot :: "string \<Rightarrow> bool" where
  "has_encoded_dot (a # b # c # s) =
    (a = CHR ''%'' \<and> b = CHR ''2'' \<and> (c = CHR ''e'' \<or> c = CHR ''E'') \<or> has_encoded_dot (b # c # s))"
| "has_encoded_dot s = False"

definition fwd :: "char \<Rightarrow> char" where
  "fwd c = (if c = CHR 0x5C then CHR ''/'' else c)"

definition is_safe_path :: "string \<Rightarrow> bool" where
  "is_safe_path rel =
    (if NUL \<in> set rel then False
     else let n = map fwd rel
     in if n \<noteq> [] \<and> hd n = CHR ''/'' then False
     else if length n \<ge> 2 \<and> isalpha (n ! 0) \<and> n ! 1 = CHR '':'' then False
     else if has_encoded_dot n then False
     else split_slash [] n)"

definition mount_match :: "string \<Rightarrow> string \<Rightarrow> bool" where
  "mount_match mpath path =
    (path = mpath \<or> length path > length mpath \<and> take (length mpath) path = mpath \<and> path ! length mpath = CHR ''/'')"

definition begins_with :: "string \<Rightarrow> string \<Rightarrow> bool" where
  "begins_with s t = (take (length t) s = t)"

definition static_file :: "fs_ops \<Rightarrow> static_mount \<Rightarrow> string \<Rightarrow> http_response" where
  "static_file fs mnt rel_trim =
    (let missing = resp_error 404 (''file not found: '' @ rel_trim)
     in case weakly_canonical fs (dir mnt @ ''/'' @ rel_trim) of
          None \<Rightarrow> missing
        | Some candidate \<Rightarrow>
            (case relative_to fs candidate (base mnt) of
               None \<Rightarrow> missing
             | Some rel \<Rightarrow>
                 if rel = [] \<or> rel = ''.'' then resp_error 404 ''not found''
                 else if rel = ''..'' \<or> begins_with rel ''../'' then resp_error 403 ''forbidden''
                 else (case read_all fs candidate of
                         None \<Rightarrow> missing
                       | Some body \<Rightarrow>
                           (resp_header ''Content-Type'' (mime_type candidate) False response_new)\<lparr>resp_body := body\<rparr>)))"

fun try_mounts :: "fs_ops \<Rightarrow> http_request \<Rightarrow> static_mount list \<Rightarrow> http_response" where
  "try_mounts fs req [] = resp_error 404 ''not found''"
| "try_mounts fs req (mnt # ms) =
    (let path = req_path req
     in if \<not> mount_match (mount mnt) path then try_mounts fs req ms
     else if req_method req \<noteq> ''GET'' \<and> req_method req \<noteq> ''HEAD'' then
       resp_header ''Allow'' ''GET, HEAD, OPTIONS'' False
         (if req_method req = ''OPTIONS'' then resp_text [] 200 else resp_error 405 ''method not allowed'')
     else let rel = drop (length (mount mnt)) path;
              rel = (if rel = [] then ''/'' else rel);
              rel_trim = (if rel \<noteq> [] \<and> hd rel = CHR ''/'' then tl rel else rel)
     in if rel_trim \<noteq> [] \<and> \<not> is_safe_path rel_trim then resp_error 403 ''forbidden''
        else static_file fs mnt rel_trim)"

subsection \<open>Dispatch\<close>

text \<open>A matched route: its captures go into the request, then the route's middlewares and the handler
  run.\<close>

definition terminal_of :: "'w route_entry \<Rightarrow> (http_request \<times> 'w) terminal_fn" where
  "terminal_of e = (\<lambda>(req, w). case handler e req w of (res, w') \<Rightarrow> (res, req, w'))"

definition enter_route :: "'w route_entry \<Rightarrow> params_view \<Rightarrow> http_request \<times> 'w \<Rightarrow> http_response result \<times> http_request \<times> 'w" where
  "enter_route e caps s =
    (let req = (fst s)\<lparr>req_params := req_params (fst s) @ pv_list caps\<rparr>
     in if middlewares e = [] then terminal_of e (req, snd s)
        else run_chain (middlewares e) (terminal_of e) 0 (req, snd s))"

definition find_entry :: "'w web_router \<Rightarrow> string \<Rightarrow> string \<Rightarrow> ('w route_entry \<times> params_view) option" where
  "find_entry r m path =
    (case map_of (trees r) m of
       None \<Rightarrow> None
     | Some t \<Rightarrow> (case lookup t path params_new of (None, _) \<Rightarrow> None | (Some e, caps) \<Rightarrow> Some (e, caps)))"

fun allowed :: "string \<Rightarrow> string \<Rightarrow> (string \<times> 'v radix_router) list \<Rightarrow> string \<Rightarrow> string" where
  "allowed method path [] allow = allow"
| "allowed method path ((m, t) # ts) allow =
    allowed method path ts
      (if m \<noteq> method \<and> fst (lookup t path params_new) \<noteq> None
       then allow @ (if allow = [] then [] else '', '') @ m else allow)"

definition route_core :: "fs_ops \<Rightarrow> 'w web_router \<Rightarrow> http_request \<times> 'w \<Rightarrow> http_response result \<times> http_request \<times> 'w" where
  "route_core fs r s =
    (let req = fst s; path = req_path req
     in case find_entry r (req_method req) path of
          Some (e, caps) \<Rightarrow> enter_route e caps s
        | None \<Rightarrow>
            (case (if req_method req = ''HEAD'' then find_entry r ''GET'' path else None) of
               Some (e, caps) \<Rightarrow> enter_route e caps s
             | None \<Rightarrow>
                 (let allow = allowed (req_method req) path (trees r) []
                  in if allow \<noteq> [] then
                       (if req_method req = ''OPTIONS''
                        then (Inr (resp_header ''Allow'' (allow @ '', OPTIONS'') False (resp_text [] 200)), s)
                        else (Inr (resp_header ''Allow'' allow False (resp_error 405 ''method not allowed'')), s))
                     else (Inr (try_mounts fs req (static_dirs r)), s))))"

definition route_request :: "fs_ops \<Rightarrow> 'w web_router \<Rightarrow> http_request \<times> 'w \<Rightarrow> http_response result \<times> http_request \<times> 'w" where
  "route_request fs r s =
    (if global_mws r = [] then route_core fs r s else run_chain (global_mws r) (route_core fs r) 0 s)"

subsection \<open>Static files stay inside their mount\<close>

text \<open>The segments of a path.\<close>

function pieces :: "string \<Rightarrow> string list" where
  "pieces s = takeWhile (\<lambda>c. c \<noteq> CHR ''/'') s #
    (case dropWhile (\<lambda>c. c \<noteq> CHR ''/'') s of [] \<Rightarrow> [] | _ # r \<Rightarrow> pieces r)"
  by auto
termination
proof (relation "measure length")
  fix s x r assume "dropWhile (\<lambda>c. c \<noteq> CHR ''/'') s = x # r"
  then have "length (x # r) \<le> length s" by (metis length_dropWhile_le)
  then show "(r, s) \<in> measure length" by simp
qed simp

declare pieces.simps [simp del]

lemma pieces_simps [simp]:
  "pieces [] = [[]]" "pieces (CHR ''/'' # s) = [] # pieces s"
  "c \<noteq> CHR ''/'' \<Longrightarrow> pieces (c # s) = (c # hd (pieces s)) # tl (pieces s)"
proof -
  show "pieces [] = [[]]" by (simp add: pieces.simps)
  show "pieces (CHR ''/'' # s) = [] # pieces s" by (subst pieces.simps) simp
  show "pieces (c # s) = (c # hd (pieces s)) # tl (pieces s)" if "c \<noteq> CHR ''/''"
    using that by (subst (1 2 3) pieces.simps) simp
qed

lemma split_slash_pieces:
  "split_slash seg s = (seg @ hd (pieces s) \<noteq> ''..'' \<and> ''..'' \<notin> set (tl (pieces s)))"
proof (induction s arbitrary: seg)
  case (Cons c s)
  have p: "pieces s = hd (pieces s) # tl (pieces s)" by (subst (1 2 3) pieces.simps) simp
  show ?case
  proof (cases "c = CHR ''/''")
    case True
    then show ?thesis
      using Cons.IH [of "[]"] p by (metis (no_types, lifting) append_Nil append_Nil2 list.sel(1,3) pieces_simps(2) set_ConsD list.set_intros split_slash.simps(2))
  qed (simp add: Cons.IH)
qed simp

lemma is_safe_path_iff:
  "is_safe_path rel \<longleftrightarrow> NUL \<notin> set rel \<and> (rel = [] \<or> hd rel \<noteq> CHR ''/'' \<and> hd rel \<noteq> CHR 0x5C) \<and>
    \<not> (length rel \<ge> 2 \<and> isalpha (fwd (rel ! 0)) \<and> fwd (rel ! 1) = CHR '':'') \<and>
    \<not> has_encoded_dot (map fwd rel) \<and> ''..'' \<notin> set (pieces (map fwd rel))"
proof -
  have "split_slash [] n = (''..'' \<notin> set (pieces n))" for n
  proof -
    have "pieces n = hd (pieces n) # tl (pieces n)" by (subst (1 2 3) pieces.simps) simp
    then show ?thesis using split_slash_pieces [of "[]" n] by (metis append_Nil list.set_intros set_ConsD)
  qed
  moreover have "(map fwd rel \<noteq> [] \<and> hd (map fwd rel) = CHR ''/'') = (rel \<noteq> [] \<and> (hd rel = CHR ''/'' \<or> hd rel = CHR 0x5C))"
    by (cases rel) (auto simp: fwd_def)
  moreover have "(length (map fwd rel) \<ge> 2 \<and> isalpha (map fwd rel ! 0) \<and> map fwd rel ! 1 = CHR '':'') =
      (length rel \<ge> 2 \<and> isalpha (fwd (rel ! 0)) \<and> fwd (rel ! 1) = CHR '':'')"
    by (cases rel; cases "tl rel") auto
  ultimately show ?thesis unfolding is_safe_path_def Let_def by (simp only: if_False if_True) auto
qed

text \<open>The files a mount may serve: the canonical form of a safe path under the directory, which lies
  below the canonical root of the mount.\<close>

definition confined :: "fs_ops \<Rightarrow> static_mount \<Rightarrow> string \<Rightarrow> bool" where
  "confined fs mnt p \<longleftrightarrow>
    (\<exists>t. (t = [] \<or> is_safe_path t) \<and> weakly_canonical fs (dir mnt @ ''/'' @ t) = Some p) \<and>
    (\<exists>rel. relative_to fs p (base mnt) = Some rel \<and> rel \<notin> {[], ''.'', ''..''} \<and> \<not> begins_with rel ''../'')"

lemma static_file_confined:
  assumes "t = [] \<or> is_safe_path t" "\<And>p. confined fs mnt p \<Longrightarrow> rd p = read_all fs p"
  shows "static_file (fs\<lparr>read_all := rd\<rparr>) mnt t = static_file fs mnt t"
proof (cases "weakly_canonical fs (dir mnt @ ''/'' @ t)")
  case (Some p)
  show ?thesis
  proof (cases "\<exists>rel. relative_to fs p (base mnt) = Some rel \<and> rel \<notin> {[], ''.'', ''..''} \<and> \<not> begins_with rel ''../''")
    case True
    then have "rd p = read_all fs p" using assms Some by (auto simp: confined_def)
    then show ?thesis using Some by (simp add: static_file_def Let_def cong: option.case_cong if_cong)
  next
    case False
    then show ?thesis using Some by (auto simp: static_file_def Let_def split: option.splits)
  qed
qed (simp add: static_file_def)

lemma try_mounts_confined:
  assumes "\<And>mnt p. mnt \<in> set ms \<Longrightarrow> confined fs mnt p \<Longrightarrow> rd p = read_all fs p"
  shows "try_mounts (fs\<lparr>read_all := rd\<rparr>) req ms = try_mounts fs req ms"
  using assms
proof (induction ms)
  case (Cons mnt ms)
  have "static_file (fs\<lparr>read_all := rd\<rparr>) mnt t = static_file fs mnt t" if "t = [] \<or> is_safe_path t" for t
    using that Cons.prems by (intro static_file_confined) auto
  moreover have "try_mounts (fs\<lparr>read_all := rd\<rparr>) req ms = try_mounts fs req ms" using Cons by auto
  ultimately show ?case by (simp add: Let_def)
qed simp

text \<open>C28. The answer to a request depends only on files below the static directories: if two file
  systems differ only in the contents of files that are not the canonical form of a safe path of
  some mount lying strictly below its canonical root, every request is answered the same way. A
  path is safe iff it has no NUL, does not start with a slash or backslash nor a drive letter,
  contains no percent-encoded dot and, with backslashes read as slashes, no segment \<open>..\<close>.\<close>

theorem static_files_confined:
  assumes "\<And>mnt p. mnt \<in> set (static_dirs r) \<Longrightarrow> confined fs mnt p \<Longrightarrow> rd p = read_all fs p"
  shows "route_request (fs\<lparr>read_all := rd\<rparr>) r s = route_request fs r s \<and>
    (is_safe_path t \<longleftrightarrow> NUL \<notin> set t \<and> (t = [] \<or> hd t \<noteq> CHR ''/'' \<and> hd t \<noteq> CHR 0x5C) \<and>
      \<not> (length t \<ge> 2 \<and> isalpha (fwd (t ! 0)) \<and> fwd (t ! 1) = CHR '':'') \<and>
      \<not> has_encoded_dot (map fwd t) \<and> ''..'' \<notin> set (pieces (map fwd t)))"
proof (intro conjI)
  have "try_mounts (fs\<lparr>read_all := rd\<rparr>) req (static_dirs r) = try_mounts fs req (static_dirs r)" for req
    using assms by (intro try_mounts_confined) auto
  then have "route_core (fs\<lparr>read_all := rd\<rparr>) r = route_core fs r"
    by (intro ext) (simp only: route_core_def Let_def)
  then show "route_request (fs\<lparr>read_all := rd\<rparr>) r s = route_request fs r s" by (simp add: route_request_def)
qed (rule is_safe_path_iff)


text \<open>A file system with one directory and a link in it that leaves it; the request for the link.\<close>

definition demo_fs :: fs_ops where
  "demo_fs =
    \<lparr>weakly_canonical = (\<lambda>p. if p = ''www'' then Some ''/www'' else if p = ''www/a.txt'' then Some ''/www/a.txt''
        else if p = ''www/link'' then Some ''/etc/passwd'' else None),
     relative_to = (\<lambda>p b. if p = ''/www/a.txt'' then Some ''a.txt'' else if p = ''/etc/passwd'' then Some ''../etc/passwd'' else None),
     read_all = (\<lambda>p. Some p)\<rparr>"

definition demo_get :: "string \<Rightarrow> http_request" where
  "demo_get u = \<lparr>req_method = ''GET'', req_url = u, req_version = ''1.1'', req_body = [], req_headers = [], keep_alive = True, req_params = []\<rparr>"

definition demo_static :: "unit web_router" where
  "demo_static = web_router_new\<lparr>static_dirs := [\<lparr>mount = ''/static'', dir = ''www'', base = ''/www''\<rparr>]\<rparr>"

lemma static_files_confined_witness:
  "route_request (demo_fs\<lparr>read_all := \<lambda>p. if p = ''/www/a.txt'' then Some p else Some ''secret''\<rparr>) demo_static (demo_get ''/static/link'', ()) =
     route_request demo_fs demo_static (demo_get ''/static/link'', ()) \<and>
   fst (route_request demo_fs demo_static (demo_get ''/static/link'', ())) = Inr (resp_error 403 ''forbidden'') \<and>
   fst (route_request demo_fs demo_static (demo_get ''/static/a.txt'', ())) =
     Inr ((resp_header ''Content-Type'' ''text/plain; charset=utf-8'' False response_new)\<lparr>resp_body := ''/www/a.txt''\<rparr>)"
proof (intro conjI)
  show "route_request (demo_fs\<lparr>read_all := \<lambda>p. if p = ''/www/a.txt'' then Some p else Some ''secret''\<rparr>) demo_static (demo_get ''/static/link'', ()) =
     route_request demo_fs demo_static (demo_get ''/static/link'', ())"
  proof (rule static_files_confined [THEN conjunct1])
    fix mnt p
    assume "confined demo_fs mnt p"
    then have "p = ''/www/a.txt''" by (auto simp: confined_def demo_fs_def begins_with_def split: if_splits)
    then show "(if p = ''/www/a.txt'' then Some p else Some ''secret'') = read_all demo_fs p" by (simp add: demo_fs_def)
  qed
  show "fst (route_request demo_fs demo_static (demo_get ''/static/link'', ())) = Inr (resp_error 403 ''forbidden'')"
    by code_simp
  show "fst (route_request demo_fs demo_static (demo_get ''/static/a.txt'', ())) =
     Inr ((resp_header ''Content-Type'' ''text/plain; charset=utf-8'' False response_new)\<lparr>resp_body := ''/www/a.txt''\<rparr>)"
    by code_simp
qed

text \<open>A directory mounted at the root serves no file: the mount is the one character slash, and a path
  matches only if another slash follows.\<close>

theorem root_mount_serves_nothing:
  assumes "mnt \<in> {[], ''/''}" "req_path req = CHR ''/'' # c # rest" "c \<noteq> CHR ''/''"
  shows "\<exists>r. static_dir fs mnt d (web_router_new :: 'w web_router) = (r, Inr ()) \<and>
    route_request fs r (req, w) = (Inr (resp_error 404 ''not found''), req, w)"
proof -
  have "pop_slashes ''/'' = ''/''" by (subst pop_slashes.simps) simp
  then have "pop_slashes (if mnt = [] then ''/'' else mnt) = ''/''" using assms(1) by auto
  then obtain b where r: "static_dir fs mnt d (web_router_new :: 'w web_router) =
      (web_router_new\<lparr>static_dirs := [\<lparr>mount = ''/'', dir = d, base = b\<rparr>]\<rparr>, Inr ())"
    by (simp add: static_dir_def web_router_new_def Let_def)
  moreover have "\<not> mount_match ''/'' (req_path req)" using assms(2,3) by (simp add: mount_match_def)
  ultimately show ?thesis
    by (simp add: route_request_def route_core_def web_router_new_def find_entry_def Let_def)
qed


end
