(* ===== verification/Web_Include.thy ===== *)
theory Web_Include
  imports Web_Router
begin

section \<open>Inclusion of a router is all or nothing\<close>

text \<open>
  \<open>router::include\<close> first inserts every route into a validation tree that holds only flags, rebuilt
  from the patterns of the parent, and only then adds the routes. The check is right because what
  \<open>insert\<close> accepts depends on the shape of the tree alone (\<open>shape\<close>), and the shape is the one that
  comes from inserting the logged patterns in their order (\<open>rebuilds\<close>). The main result: an
  inclusion that throws leaves the router as it was, and one that succeeds adds exactly the routes
  of the child under the prefix.
\<close>

subsection \<open>What insertion accepts depends on the shape\<close>

definition shape :: "'v node \<Rightarrow> bool node" where
  "shape = map_node (\<lambda>_. True)"

abbreviation shapes :: "(string \<times> 'v node) list \<Rightarrow> (string \<times> bool node) list" where
  "shapes l \<equiv> map (map_prod id shape) l"

lemma shape_sels [simp]:
  "statics (shape n) = shapes (statics n)" "Radix_Router.param (shape n) = map_option shape (Radix_Router.param n)"
  "wild (shape n) = map_option shape (wild n)" "node_name (shape n) = node_name n"
  "node_value (shape n) = map_option (\<lambda>_. True) (node_value n)"
  by (simp_all add: shape_def node.map_sel)

lemma shape_Node [simp]:
  "shape (Node l p w nm v) = Node (shapes l) (map_option shape p) (map_option shape w) nm (map_option (\<lambda>_. True) v)"
  by (simp add: shape_def)

lemma shape_expand:
  "shape n = Node (shapes (statics n)) (map_option shape (Radix_Router.param n)) (map_option shape (wild n)) (node_name n)
    (map_option (\<lambda>_. True) (node_value n))"
  by (cases n) simp

lemma shape_new [simp]: "shape new_node = new_node" "shape (named_node nm) = named_node nm"
  by (simp_all add: new_node_def named_node_def)

lemma lower_bound_shapes: "first + len \<le> length l \<Longrightarrow> lower_bound_from (shapes l) seg first len = lower_bound_from l seg first len"
proof (induction l seg first len rule: lower_bound_from.induct)
  case (2 l seg first len)
  then have "fst (shapes l ! (first + Suc len div 2)) = fst (l ! (first + Suc len div 2))" by simp
  then show ?case using 2 by (simp add: Let_def)
qed simp

lemma scan_shapes: "scan_child (shapes l) seg = scan_child l seg"
  by (induction l seg rule: scan_child.induct) auto

lemma child_index_shapes [simp]: "child_index (shapes l) seg = child_index l seg"
  by (auto simp: child_index_def scan_shapes lower_bound_child_def lower_bound_shapes Let_def)

lemma child_index_less: "child_index l seg = Some i \<Longrightarrow> i < length l"
  using scan_child_Some by (fastforce simp: child_index_def Let_def split: if_splits)

lemma find_child_shapes [simp]: "find_child (shapes l) seg = map_option shape (find_child l seg)"
  using child_index_less by (cases "child_index l seg") (fastforce simp: find_child_def)+

lemma find_or_create_shapes:
  "find_or_create_child (shapes l) seg = apfst shapes (find_or_create_child l seg)"
  by (simp add: find_or_create_child_def lower_bound_child_def lower_bound_shapes Let_def take_map drop_map split: option.splits)

lemma lower_bound_le: "first + len \<le> length l \<Longrightarrow> lower_bound_from l seg first len \<le> length l"
  by (induction l seg first len rule: lower_bound_from.induct) (auto simp: Let_def)

lemma find_or_create_less: "find_or_create_child l seg = (l', i) \<Longrightarrow> i < length l'"
  using child_index_less lower_bound_le [of 0 "length l" l seg]
  by (auto simp: find_or_create_child_def lower_bound_child_def Let_def split: option.splits)

lemma validate_shape: "validate_from (shape n) p = validate_from n p"
proof (induction n p rule: validate_from.induct)
  case (1 cur rest)
  obtain seg rem where ns: "next_segment rest = (seg, rem)" by fastforce
  show ?case
    using 1 [OF ns [symmetric]]
    by (subst (1 2) validate_from.simps) (simp add: ns split: option.splits)
qed

lemma store_shape: "store_value True False (shape m) = apfst shape (store_value v False m)"
  by (cases "node_value m") (simp_all add: store_value_def)

lemma new_nodes_shape:
  "(case map_option shape x of None \<Rightarrow> named_node nm | Some p \<Rightarrow> p) = shape (case x of None \<Rightarrow> named_node nm | Some p \<Rightarrow> p)"
  by (cases x) simp_all

lemma build_shape: "throws = False \<Longrightarrow> build True throws p (shape n) = apfst shape (build v throws p n)"
proof (induction v throws p n rule: build.induct)
  case (1 v throws rest cur)
  obtain seg rem where ns: "next_segment rest = (seg, rem)" by fastforce
  obtain l i where fc: "find_or_create_child (statics cur) seg = (l, i)" by fastforce
  then have i: "i < length l" by (rule find_or_create_less)
  note step = build.simps [of _ throws rest] ns prod.case
  note store = store_shape [folded 1(3)]
  show ?case
  proof (cases "seg = [] \<or> hd seg = CHR ''*''")
    case True
    then consider "seg = []" | "seg \<noteq> []" "hd seg = CHR ''*''" by blast
    then show ?thesis
    proof cases
      case 1
      then show ?thesis using store [of cur v] by (simp only: step refl if_True)
    next
      case 2
      then show ?thesis
        using store [of "case wild cur of None \<Rightarrow> named_node (tl seg) | Some w \<Rightarrow> w" v]
        by (simp only: step shape_sels new_nodes_shape Let_def if_False if_True) (simp split: prod.splits)
    qed
  next
    case False
    then have seg: "seg \<noteq> []" "hd seg \<noteq> CHR ''*''" by auto
    show ?thesis
    proof (cases "hd seg = CHR '':''")
      case True
      let ?p = "case Radix_Router.param cur of None \<Rightarrow> named_node (tl seg) | Some p \<Rightarrow> p"
      have "(if rem = [] then store_value True throws (shape ?p) else build True throws rem (shape ?p))
        = apfst shape (if rem = [] then store_value v throws ?p else build v throws rem ?p)"
        using 1(1) [OF ns [symmetric] seg True refl _ 1(3)] store [of ?p v] by simp
      then show ?thesis using seg True
        by (simp only: step shape_sels new_nodes_shape Let_def if_False if_True) (simp split: prod.splits)
    next
      case False
      have "(if rem = [] then store_value True throws (shape (snd (l ! i))) else build True throws rem (shape (snd (l ! i))))
        = apfst shape (if rem = [] then store_value v throws (snd (l ! i)) else build v throws rem (snd (l ! i)))"
        using 1(2) [OF ns [symmetric] seg False fc [symmetric] refl _ 1(3)] store [of "snd (l ! i)" v] by simp
      then show ?thesis using seg False i
        by (simp only: step shape_sels find_or_create_shapes fc Let_def if_False if_True)
          (cases "rem = []"; auto simp: map_update split: prod.splits)
    qed
  qed
qed

lemma find_or_create_Nil: "find_or_create_child [] seg = ([(seg, new_node)], 0)"
  by (simp add: find_or_create_child_def child_index_def lower_bound_child_def kLinearMax_def)

lemma build_fresh: "n = named_node nm \<Longrightarrow> snd (build v throws p n)"
proof (induction v throws p n arbitrary: nm rule: build.induct)
  case (1 v throws rest cur)
  obtain seg rem where ns: "next_segment rest = (seg, rem)" by fastforce
  have nn: "new_node = named_node []" by (simp add: new_node_def named_node_def)
  have st: "snd (store_value v throws (named_node x))" for x by (simp add: store_value_def named_node_def)
  have emp: "statics (named_node nm) = []" "Radix_Router.param (named_node nm) = None" "wild (named_node nm) = None"
    by (simp_all add: named_node_def)
  show ?case
  proof (cases "seg = [] \<or> hd seg = CHR ''*''")
    case True
    then show ?thesis using st [of nm] st [of "tl seg"]
      by (auto simp: build.simps [of v throws rest "named_node nm"] ns 1(3) emp split: prod.splits)
  next
    case False
    then have seg: "seg \<noteq> []" "hd seg \<noteq> CHR ''*''" by auto
    have "snd (build v throws rem (named_node (tl seg)))" if "hd seg = CHR '':''" "rem \<noteq> []"
      using 1(1) [OF ns [symmetric] seg that(1) refl that(2), of "tl seg"] by (simp add: 1(3) emp)
    moreover have "snd (build v throws rem (named_node []))" if "hd seg \<noteq> CHR '':''" "rem \<noteq> []"
      using 1(2) [OF ns [symmetric] seg that(1) _ refl that(2), of "[(seg, new_node)]" 0 "[]"]
      by (simp add: 1(3) emp find_or_create_Nil nn)
    ultimately show ?thesis using seg st [of "[]"] st [of "tl seg"]
      by (cases "rem = []"; cases "hd seg = CHR '':''")
        (auto simp: build.simps [of v throws rest "named_node nm"] ns 1(3) emp find_or_create_Nil nn Let_def split: prod.splits)
  qed
qed

text \<open>Storing at a place that has a value leaves the shape as it is.\<close>

lemma build_old_shape:
  "throws = False \<Longrightarrow> \<not> snd (build v throws p n) \<Longrightarrow> shape (fst (build v throws p n)) = shape n"
proof (induction v throws p n rule: build.induct)
  case (1 v throws rest cur)
  obtain seg rem where ns: "next_segment rest = (seg, rem)" by fastforce
  have st: "shape (fst (store_value v throws m)) = shape m" if "\<not> snd (store_value v throws m)" for m
    using that 1(3) by (cases m) (auto simp: store_value_def)
  have fresh: "snd (store_value v throws (named_node x))" "snd (build v throws rem (named_node x))"
    "snd (store_value v throws new_node)" "snd (build v throws rem new_node)" for x
    using build_fresh [of _ x v throws rem] build_fresh [of new_node "[]" v throws rem]
    by (auto simp: store_value_def named_node_def new_node_def)
  obtain l i where fc: "find_or_create_child (statics cur) seg = (l, i)" by fastforce
  then have i: "i < length l" by (rule find_or_create_less)
  note step = build.simps [of v throws rest cur] ns prod.case
  show ?case
  proof (cases "seg = [] \<or> hd seg = CHR ''*''")
    case True
    show ?thesis
    proof (cases "seg = []")
      case True
      then show ?thesis using st 1(4) by (simp only: step if_True refl)
    next
      case False
      let ?w = "case wild cur of None \<Rightarrow> named_node (tl seg) | Some w \<Rightarrow> w"
      have n: "\<not> snd (store_value v throws ?w)" using True False 1(4) by (simp add: step Let_def split: prod.splits)
      then obtain w where "wild cur = Some w" using fresh(1) by (cases "wild cur") auto
      then show ?thesis
        using st [of w] n True False by (auto simp: step Let_def shape_expand [of cur] split: prod.splits)
    qed
  next
    case False
    then have seg: "seg \<noteq> []" "hd seg \<noteq> CHR ''*''" by auto
    show ?thesis
    proof (cases "hd seg = CHR '':''")
      case True
      let ?p = "case Radix_Router.param cur of None \<Rightarrow> named_node (tl seg) | Some p \<Rightarrow> p"
      let ?b = "if rem = [] then store_value v throws ?p else build v throws rem ?p"
      have n: "\<not> snd ?b" using True seg 1(4) by (cases ?b) (simp add: step Let_def)
      then obtain p where p: "Radix_Router.param cur = Some p"
        using fresh(1,2) by (cases "Radix_Router.param cur") (auto split: if_splits)
      moreover have "shape (fst ?b) = shape p"
        using n p st [of p] 1(1) [OF ns [symmetric] seg True refl _ 1(3)] by (simp split: if_splits)
      ultimately show ?thesis
        using True seg by (auto simp: step Let_def shape_expand [of cur] split: prod.splits)
    next
      case False
      let ?c = "snd (l ! i)"
      let ?b = "if rem = [] then store_value v throws ?c else build v throws rem ?c"
      have n: "\<not> snd ?b" using False seg 1(4) fc by (cases ?b) (simp add: step Let_def)
      then have "?c \<noteq> new_node" using fresh(3,4) by (auto split: if_splits)
      then have l: "l = statics cur" using fc
        by (auto simp: find_or_create_child_def lower_bound_child_def Let_def nth_append lower_bound_le split: option.splits)
      have "shape (fst ?b) = shape ?c"
        using n st [of ?c] 1(2) [OF ns [symmetric] seg False fc [symmetric] refl _ 1(3)] by (simp split: if_splits)
      then have "shapes (l[i := (fst (l ! i), fst ?b)]) = shapes l"
        using i by (simp add: map_update list_update_same_conv prod_eq_iff)
      then show ?thesis
        using False seg fc l by (auto simp: step Let_def shape_expand [of cur] split: prod.splits)
    qed
  qed
qed


subsection \<open>Routers and their validation trees\<close>

definition like :: "bool radix_router \<Rightarrow> 'v radix_router \<Rightarrow> bool" where
  "like v t = (rr_root v = shape (rr_root t))"

lemma insert_like:
  assumes "like v t"
  shows "snd (insert_route p True False v) = snd (insert_route p e False t)"
    and "like (fst (insert_route p True False v)) (fst (insert_route p e False t))"
proof -
  obtain root new where b: "build e False (strip_slash p) (rr_root t) = (root, new)" by fastforce
  then have "build True False (strip_slash p) (rr_root v) = (shape root, new)"
    using assms build_shape [OF refl, of "strip_slash p" "rr_root t" e] by (simp add: like_def)
  moreover have "validate_from (rr_root v) (strip_slash p) = validate_from (rr_root t) (strip_slash p)"
    using assms by (simp add: like_def validate_shape)
  ultimately show "snd (insert_route p True False v) = snd (insert_route p e False t)"
    and "like (fst (insert_route p True False v)) (fst (insert_route p e False t))"
    using assms b by (auto simp: insert_route_def Let_def like_def)
qed

lemma insert_like_ok:
  assumes "like v t" "insert_route p True False v = (v', Inr True)"
  obtains t' where "insert_route p e False t = (t', Inr True)" "like v' t'"
  using insert_like [OF assms(1), of p e] assms(2) by (metis fst_conv prod.collapse snd_conv)

definition rebuilds :: "'v radix_router \<Rightarrow> bool" where
  "rebuilds t = (\<exists>v. insert_all (rr_log t) router_new = Some v \<and> like v t)"

lemma rebuilds_new: "rebuilds router_new"
  by (simp add: rebuilds_def router_new_def like_def)

lemma insert_all_append:
  "insert_all (ps @ qs) v = (case insert_all ps v of None \<Rightarrow> None | Some v \<Rightarrow> insert_all qs v)"
  by (induction ps v rule: insert_all.induct) (auto split: prod.splits)

lemma normal_well_formed: "normal q \<Longrightarrow> \<not> ill_formed q \<and> strip_slash q = q"
  by (auto simp: normal_def ill_formed_def strip_slash_def)

lemma insert_strip: "\<not> ill_formed p \<Longrightarrow> insert_route (strip_slash p) e throws t = insert_route p e throws t"
  using normal_well_formed [OF normal_strip_slash [of p]] by (simp add: insert_route_def)

lemma insert_rebuilds:
  assumes ok: "router_ok t" and rb: "rebuilds t" and ins: "insert_route p e False t = (t', res)"
  shows "rebuilds t'"
  using ok ins
proof (cases rule: insert_route_cases)
  case (2 q root new)
  obtain v where v: "insert_all (rr_log t) router_new = Some v" "like v t" using rb by (auto simp: rebuilds_def)
  have i: "insert_route q e False t = (t', Inr True)" using 2 insert_strip [of p e False t] ins by simp
  show ?thesis
  proof (cases new)
    case True
    have "snd (insert_route q True False v) = Inr True" "like (fst (insert_route q True False v)) t'"
      using insert_like [OF v(2), of q e] i by simp_all
    then show ?thesis using True 2(8) v(1) by (auto simp: rebuilds_def insert_all_append split: prod.splits)
  next
    case False
    have "build e False q (rr_root t) = (rr_root t', False)"
      using i False 2(2,8) normal_well_formed [OF 2(3)]
      by (cases t) (auto simp: insert_route_def Let_def split: if_splits prod.splits)
    then have "shape (rr_root t') = shape (rr_root t)" using build_old_shape [of False e q "rr_root t"] by simp
    then show ?thesis using v 2(8) False by (auto simp: rebuilds_def like_def)
  qed
qed (use rb in simp)

subsection \<open>The invariant of the web router\<close>

definition tree_fine :: "'v radix_router \<Rightarrow> bool" where
  "tree_fine t = (router_ok t \<and> rebuilds t \<and> (\<forall>p\<in>set (rr_log t). \<not> unclean p))"

definition web_wf :: "'w web_router \<Rightarrow> bool" where
  "web_wf r = (distinct (map fst (trees r)) \<and> (\<forall>(m, t) \<in> set (trees r). m \<noteq> [] \<and> tree_fine t))"

lemma tree_fine_new: "tree_fine router_new"
  by (simp add: tree_fine_def router_ok_new rebuilds_new) (simp add: router_new_def)

lemma tree_or_new_fine: "web_wf r \<Longrightarrow> tree_fine (tree_or_new (trees r) m)"
  using tree_fine_new by (auto simp: tree_or_new_def web_wf_def split: option.splits dest!: map_of_SomeD)

lemma set_tree_simps:
  "map_of (set_tree m t l) = (map_of l)(m \<mapsto> t)" "fst ` set (set_tree m t l) = insert m (fst ` set l)"
  "set (set_tree m t l) \<subseteq> insert (m, t) (set l)" "distinct (map fst l) \<Longrightarrow> distinct (map fst (set_tree m t l))"
proof -
  show f: "fst ` set (set_tree m t l) = insert m (fst ` set l)" for l by (induction m t l rule: set_tree.induct) auto
  show "map_of (set_tree m t l) = (map_of l)(m \<mapsto> t)" "set (set_tree m t l) \<subseteq> insert (m, t) (set l)"
    by (induction m t l rule: set_tree.induct) auto
  show "distinct (map fst l) \<Longrightarrow> distinct (map fst (set_tree m t l))"
    by (induction l) (auto simp only: set_tree.simps f list.map distinct.simps fst_conv set_map split: if_splits, auto)
qed

lemma tree_or_new_set: "tree_or_new (set_tree m t l) m' = (if m' = m then t else tree_or_new l m')"
  by (simp add: tree_or_new_def set_tree_simps)

lemma unclean_strip: "unclean (strip_slash p) \<Longrightarrow> unclean p"
  by (auto simp: unclean_def strip_slash_def dest: in_set_butlastD split: if_splits)

lemma insert_fine:
  assumes "tree_fine t" "\<not> unclean p" "insert_route p e False t = (t', res)"
  shows "tree_fine t'"
proof -
  have ok: "router_ok t" "rebuilds t" using assms(1) by (simp_all add: tree_fine_def)
  have "router_ok t'" "rebuilds t'" using insert_keeps_ok [OF ok(1) assms(3)] insert_rebuilds [OF ok assms(3)] .
  moreover have "set (rr_log t') \<subseteq> insert (strip_slash p) (set (rr_log t))"
    using ok(1) assms(3) by (cases rule: insert_route_cases) auto
  ultimately show ?thesis using assms(1,2) unclean_strip by (fastforce simp: tree_fine_def)
qed

lemma add_route_wf: "web_wf r \<Longrightarrow> web_wf (fst (add_route m p fn mws r))"
proof -
  assume wf: "web_wf r"
  show ?thesis
  proof (cases "frozen r \<or> fn = None \<or> m = [] \<or> unclean p")
    case False
    then obtain f where f: "fn = Some f" by (cases fn) auto
    obtain t res where i: "insert_route p \<lparr>handler = f, middlewares = mws\<rparr> False (tree_or_new (trees r) m) = (t, res)" by fastforce
    have "tree_fine t" using insert_fine [OF tree_or_new_fine [OF wf] _ i] False by blast
    then have "web_wf (r\<lparr>trees := set_tree m t (trees r)\<rparr>)"
      using wf False set_tree_simps(3) [of m t "trees r"] set_tree_simps(4) [of "trees r" m t] by (fastforce simp: web_wf_def)
    then show ?thesis using False f i by (simp add: add_route_def)
  qed (use wf in \<open>auto simp: add_route_def split: option.splits\<close>)
qed


subsection \<open>Adding the checked routes\<close>

definition route_at :: "'w web_router \<Rightarrow> string \<Rightarrow> string \<Rightarrow> 'w route_entry option" where
  "route_at r m q = find_exact (tree_or_new (trees r) m) q"

text \<open>The registration of a route that its method's tree accepts.\<close>

lemma add_accepted:
  assumes wf: "web_wf r" "\<not> frozen r" "m \<noteq> []" "\<not> unclean p"
    and ins: "insert_route p e False (tree_or_new (trees r) m) = (t, Inr True)"
  shows "add_route m p (Some (handler e)) (middlewares e) r = (r\<lparr>trees := set_tree m t (trees r)\<rparr>, Inr ())"
    and "find_exact t q = (if same_pattern p q then Some e else route_at r m q)"
proof -
  have e: "e = \<lparr>handler = handler e, middlewares = middlewares e\<rparr>" by simp
  show "add_route m p (Some (handler e)) (middlewares e) r = (r\<lparr>trees := set_tree m t (trees r)\<rparr>, Inr ())"
    using assms by (simp add: add_route_def flip: e)
  have "router_ok (tree_or_new (trees r) m)" using tree_or_new_fine [OF wf(1), of m] by (simp add: tree_fine_def)
  then show "find_exact t q = (if same_pattern p q then Some e else route_at r m q)"
    using insert_find [OF _ ins] by (simp add: route_at_def)
qed

definition with_mws :: "(http_request \<times> 'w) middleware_fn list \<Rightarrow> 'w route_entry \<Rightarrow> 'w route_entry" where
  "with_mws mws e = e\<lparr>middlewares := mws @ middlewares e\<rparr>"

text \<open>What adding the routes \<open>ps\<close> of one method does to a router.\<close>

definition added :: "string \<Rightarrow> string \<Rightarrow> (http_request \<times> 'w) middleware_fn list \<Rightarrow> 'w route_entry radix_router \<Rightarrow> string list \<Rightarrow>
    'w web_router \<Rightarrow> 'w web_router \<Rightarrow> bool" where
  "added m norm mws st ps r r' \<longleftrightarrow> web_wf r' \<and> (\<exists>ts. r' = r\<lparr>trees := ts\<rparr>) \<and>
    (\<forall>m'. m' \<noteq> m \<longrightarrow> tree_or_new (trees r') m' = tree_or_new (trees r) m') \<and>
    (\<forall>q. (\<forall>p\<in>set ps. \<not> same_pattern (norm @ p) q) \<longrightarrow> route_at r' m q = route_at r m q) \<and>
    (\<forall>p\<in>set ps. \<forall>q. same_pattern (norm @ p) q \<longrightarrow> route_at r' m q = map_option (with_mws mws) (find_exact st p))"

lemma collect_add:
  assumes "web_wf r" "\<not> frozen r" "m \<noteq> []" "\<And>p. p \<in> set ps \<Longrightarrow> \<not> unclean (norm @ p)"
    and "like v (tree_or_new (trees r) m)" "collect_routes m norm mws st ps v = Inr l"
    and "distinct (map (\<lambda>p. strip_slash (norm @ p)) ps)"
  shows "\<exists>r'. add_pending l r = (r', Inr ()) \<and> added m norm mws st ps r r'"
  using assms
proof (induction ps arbitrary: r v l)
  case Nil
  then show ?case by (intro exI [of _ r] conjI) (simp_all add: added_def, intro exI [of _ "trees r"], simp)
next
  case (Cons p ps)
  obtain e v' l' where e: "find_exact st p = Some e" and i: "insert_route (norm @ p) True False v = (v', Inr True)"
    and l': "collect_routes m norm mws st ps v' = Inr l'" "l = (m, norm @ p, with_mws mws e) # l'"
    using Cons.prems(6) by (auto simp: with_mws_def split: option.splits prod.splits if_splits sum.splits)
  obtain t where t: "insert_route (norm @ p) (with_mws mws e) False (tree_or_new (trees r) m) = (t, Inr True)" "like v' t"
    using insert_like_ok [OF Cons.prems(5) i, of "with_mws mws e"] .
  let ?r = "r\<lparr>trees := set_tree m t (trees r)\<rparr>"
  have u: "\<not> unclean (norm @ p)" using Cons.prems(4) by simp
  note a = add_accepted [OF Cons.prems(1-3) u t(1)]
  have wf: "web_wf ?r" using add_route_wf [OF Cons.prems(1)] a(1) by (metis fst_conv)
  have "like v' (tree_or_new (trees ?r) m)" using t(2) by (simp add: tree_or_new_set)
  from Cons.IH [OF wf _ Cons.prems(3) _ this l'(1)] Cons.prems(2,4,7)
  obtain r' where r': "add_pending l' ?r = (r', Inr ())" "added m norm mws st ps ?r r'" by auto
  have "add_pending l r = (r', Inr ())" using a(1) r'(1) l'(2) by simp
  moreover have "added m norm mws st (p # ps) r r'"
  proof -
    have none: "route_at r' m q = route_at ?r m q" if "\<forall>x\<in>set ps. \<not> same_pattern (norm @ x) q" for q
      using r'(2) that by (simp add: added_def)
    have first: "route_at ?r m q = (if same_pattern (norm @ p) q then Some (with_mws mws e) else route_at r m q)" for q
      using a(2) [of q] by (simp add: route_at_def tree_or_new_set)
    have other: "\<not> same_pattern (norm @ x) q" if "same_pattern (norm @ p) q" "x \<in> set ps" for x q
      using that Cons.prems(7) by (auto simp: same_pattern_def)
    have "route_at r' m q = map_option (with_mws mws) (find_exact st x)"
      if "x \<in> set (p # ps)" "same_pattern (norm @ x) q" for x q
    proof (cases "x \<in> set ps")
      case True
      then show ?thesis using r'(2) that(2) by (simp add: added_def)
    next
      case False
      then have "x = p" using that(1) by simp
      then show ?thesis using none [of q] first [of q] other [of q] that(2) e by simp
    qed
    moreover have "route_at r' m q = route_at r m q" if "\<forall>x\<in>set (p # ps). \<not> same_pattern (norm @ x) q" for q
      using none [of q] first [of q] that by simp
    moreover have "web_wf r'" "\<exists>ts. r' = r\<lparr>trees := ts\<rparr>" using r'(2) by (auto simp: added_def)
    moreover have "\<forall>m'. m' \<noteq> m \<longrightarrow> tree_or_new (trees r') m' = tree_or_new (trees r) m'"
      using r'(2) by (simp add: added_def tree_or_new_set)
    ultimately show ?thesis unfolding added_def by blast
  qed
  ultimately show ?case by blast
qed

lemma add_pending_append:
  "add_pending (l @ l') r = (case add_pending l r of (r', Inl e) \<Rightarrow> (r', Inl e) | (r', Inr _) \<Rightarrow> add_pending l' r')"
  by (induction l r rule: add_pending.induct) (auto split: prod.splits sum.splits)

text \<open>Different patterns of the child stay different under the prefix.\<close>

lemma strip_prefix_inj:
  assumes "normal p" "normal q" "strip_slash (norm @ p) = strip_slash (norm @ q)"
  shows "p = q"
proof -
  have s: "strip_slash (norm @ p) = (if p = ''/'' \<and> norm \<noteq> [] then norm else norm @ p)" if "normal p" for p
  proof (cases "length p > 1")
    case True
    then show ?thesis using that by (auto simp: normal_def strip_slash_def)
  next
    case False
    then have "p = ''/''" using that by (cases p) (auto simp: normal_def)
    then show ?thesis by (cases norm) (auto simp: strip_slash_def butlast_append)
  qed
  have "p \<noteq> []" "q \<noteq> []" using assms(1,2) by (auto simp: normal_def)
  then show ?thesis using assms(3) unfolding s [OF assms(1)] s [OF assms(2)] by (auto split: if_splits)
qed


lemma tree_log_parent: "(case map_of parent m of None \<Rightarrow> [] | Some t \<Rightarrow> rr_log t) = rr_log (tree_or_new parent m)"
  by (simp add: tree_or_new_def router_new_def split: option.splits)

lemma fine_log:
  assumes "tree_fine t"
  shows "distinct (map (\<lambda>p. strip_slash (norm @ p)) (rr_log t))" "\<not> unclean norm \<Longrightarrow> p \<in> set (rr_log t) \<Longrightarrow> \<not> unclean (norm @ p)"
    and "p \<in> set (rr_log t) \<Longrightarrow> find_exact t p \<noteq> None"
proof -
  have ok: "router_ok t" "\<forall>p\<in>set (rr_log t). \<not> unclean p" using assms by (auto simp: tree_fine_def)
  have nv: "normal p" "validate_syntax p" if "p \<in> set (rr_log t)" for p using ok(1) that by (auto simp: router_ok_def)
  have "inj_on (\<lambda>p. strip_slash (norm @ p)) (set (rr_log t))"
    using strip_prefix_inj nv(1) by (intro inj_onI) blast
  then show "distinct (map (\<lambda>p. strip_slash (norm @ p)) (rr_log t))" using ok(1) by (simp add: distinct_map router_ok_def)
  show "\<not> unclean (norm @ p)" if "\<not> unclean norm" "p \<in> set (rr_log t)" using that ok(2) by (auto simp: unclean_def)
  show "find_exact t p \<noteq> None" if p: "p \<in> set (rr_log t)"
    using p nv [OF p] normal_well_formed logged_iff [OF ok(1)] by (simp add: find_exact_tree [OF ok(1)])
qed

lemma collect_all_add:
  assumes "web_wf r" "\<not> frozen r" "\<not> unclean norm" "distinct (map fst ts)" "\<forall>(m, t) \<in> set ts. m \<noteq> [] \<and> tree_fine t"
    and "\<forall>m \<in> fst ` set ts. tree_or_new parent m = tree_or_new (trees r) m" "collect_all norm mws ts parent = Inr l"
  shows "\<exists>r'. add_pending l r = (r', Inr ()) \<and> web_wf r' \<and> (\<exists>x. r' = r\<lparr>trees := x\<rparr>) \<and>
    (\<forall>m q. route_at r' m q =
      (case find (\<lambda>p. same_pattern (norm @ p) q) (rr_log (tree_or_new ts m)) of
         Some p \<Rightarrow> map_option (with_mws mws) (find_exact (tree_or_new ts m) p) | None \<Rightarrow> route_at r m q))"
  using assms
proof (induction ts arbitrary: r l)
  case Nil
  then show ?case
    by (intro exI [of _ r]) (auto simp: tree_or_new_def router_new_def intro: exI [of _ "trees r"])
next
  case (Cons mt ts)
  obtain m st where mt: "mt = (m, st)" by fastforce
  have fine: "m \<noteq> []" "tree_fine st" using Cons.prems(5) mt by auto
  obtain v l1 l2 where v: "insert_all (rr_log (tree_or_new (trees r) m)) router_new = Some v"
    and l1: "collect_routes m norm mws st (rr_log st) v = Inr l1" and l2: "collect_all norm mws ts parent = Inr l2"
    and l: "l = l1 @ l2"
    using Cons.prems(6,7) mt
    by (cases "collect_all norm mws ts parent") (auto simp: tree_log_parent split: option.splits sum.splits)
  have "rebuilds (tree_or_new (trees r) m)" using tree_or_new_fine [OF Cons.prems(1)] by (simp add: tree_fine_def)
  then have lk: "like v (tree_or_new (trees r) m)" using v by (simp add: rebuilds_def)
  obtain r1 where r1: "add_pending l1 r = (r1, Inr ())" "added m norm mws st (rr_log st) r r1"
    using collect_add [OF Cons.prems(1,2) fine(1) _ lk l1] fine_log [OF fine(2)] Cons.prems(3) by blast
  have r1': "web_wf r1" "\<not> frozen r1" "\<forall>m'. m' \<noteq> m \<longrightarrow> tree_or_new (trees r1) m' = tree_or_new (trees r) m'"
    using r1(2) Cons.prems(2) by (auto simp: added_def)
  have m: "m \<notin> fst ` set ts" and d: "distinct (map fst ts)" using Cons.prems(4) mt by auto
  have par: "\<forall>m\<in>fst ` set ts. tree_or_new parent m = tree_or_new (trees r1) m"
    using Cons.prems(6) r1'(3) m by (metis image_eqI insert_iff list.simps(15) image_insert)
  obtain r' where r': "add_pending l2 r1 = (r', Inr ())" "web_wf r'" "\<exists>x. r' = r1\<lparr>trees := x\<rparr>"
    and at: "\<And>m q. route_at r' m q =
      (case find (\<lambda>p. same_pattern (norm @ p) q) (rr_log (tree_or_new ts m)) of
         Some p \<Rightarrow> map_option (with_mws mws) (find_exact (tree_or_new ts m) p) | None \<Rightarrow> route_at r1 m q)"
    using Cons.IH [OF r1'(1,2) Cons.prems(3) d _ par l2] Cons.prems(5) by auto
  have "add_pending l r = (r', Inr ())" using r1(1) r'(1) l by (simp add: add_pending_append)
  moreover have "\<exists>x. r' = r\<lparr>trees := x\<rparr>" using r'(3) r1(2) by (auto simp: added_def)
  moreover have "route_at r' k q =
      (case find (\<lambda>p. same_pattern (norm @ p) q) (rr_log (tree_or_new (mt # ts) k)) of
         Some p \<Rightarrow> map_option (with_mws mws) (find_exact (tree_or_new (mt # ts) k) p) | None \<Rightarrow> route_at r k q)" for k q
  proof (cases "k = m")
    case True
    have "map_of ts m = None" using m by (simp add: map_of_eq_None_iff)
    then have "tree_or_new ts m = router_new" by (simp add: tree_or_new_def)
    then have "route_at r' m q = route_at r1 m q" using at [of m q] by (simp add: router_new_def)
    moreover have "tree_or_new (mt # ts) m = st" by (simp add: mt tree_or_new_def)
    moreover have "route_at r1 m q = (case find (\<lambda>p. same_pattern (norm @ p) q) (rr_log st) of
        Some p \<Rightarrow> map_option (with_mws mws) (find_exact st p) | None \<Rightarrow> route_at r m q)"
      using r1(2) by (auto simp: added_def find_None_iff find_Some_iff split: option.splits)
    ultimately show ?thesis unfolding True by (simp only:)
  next
    case False
    then have "tree_or_new (mt # ts) k = tree_or_new ts k" "route_at r1 k q = route_at r k q"
      using r1'(3) by (simp_all add: mt tree_or_new_def route_at_def)
    then show ?thesis using at [of k q] by (simp only:)
  qed
  ultimately show ?case using r'(2) by blast
qed

text \<open>The consistency checks of \<open>include\<close> never fail.\<close>

lemma collect_routes_no_logic:
  "\<forall>p\<in>set ps. find_exact st p \<noteq> None \<Longrightarrow> collect_routes m norm mws st ps v \<noteq> Inl LogicError"
  by (induction ps arbitrary: v) (auto split: option.splits prod.splits sum.splits)

lemma collect_all_no_logic:
  assumes "web_wf r" "\<forall>(m, t) \<in> set ts. tree_fine t"
  shows "collect_all norm mws ts (trees r) \<noteq> Inl LogicError"
  using assms(2)
proof (induction ts)
  case (Cons mt ts)
  obtain m st where mt: "mt = (m, st)" by fastforce
  have "rebuilds (tree_or_new (trees r) m)" using tree_or_new_fine [OF assms(1)] by (simp add: tree_fine_def)
  then obtain v where "insert_all (rr_log (tree_or_new (trees r) m)) router_new = Some v" by (auto simp: rebuilds_def)
  moreover have "collect_routes m norm mws st (rr_log st) v \<noteq> Inl LogicError"
    using fine_log(3) [of st] Cons.prems mt by (intro collect_routes_no_logic) auto
  ultimately show ?case
    using Cons mt by (cases "collect_all norm mws ts (trees r)") (auto simp: tree_log_parent split: sum.splits)
qed simp


lemma tree_of_sub: "web_wf sub \<Longrightarrow> distinct (map fst (trees sub)) \<and> (\<forall>(m, t) \<in> set (trees sub). m \<noteq> [] \<and> tree_fine t)"
  by (simp add: web_wf_def)

lemma unclean_norm: "unclean (norm_prefix prefix) \<Longrightarrow> unclean prefix"
  by (auto simp: unclean_def norm_prefix_def Let_def dest: in_set_butlastD split: if_splits)

lemma include_cases:
  assumes "include_router sub self prefix r = (r', res)" "web_wf r" "web_wf sub"
  obtains e where "r' = r" "res = Inl e" "e = LogicError \<longleftrightarrow> frozen r"
  | l where "\<not> frozen r" "\<not> unclean (norm_prefix prefix)" "(r', res) = add_pending l r"
      "collect_all (norm_prefix prefix) (global_mws sub) (trees sub) (trees r) = Inr l"
proof (cases "frozen r \<or> self \<or> unclean prefix \<or> has_double_slash prefix \<or>
    norm_prefix prefix \<noteq> [] \<and> (CHR ''*'' \<in> set (norm_prefix prefix) \<or> snd (insert_route (norm_prefix prefix) True False router_new) \<noteq> Inr True)")
  case True
  then have "r' = r \<and> (\<exists>e. res = Inl e \<and> (e = LogicError \<longleftrightarrow> frozen r))"
    using assms(1) by (cases "frozen r") (auto simp: include_router_def Let_def split: if_splits)
  then show ?thesis using that(1) by blast
next
  case False
  have nl: "collect_all (norm_prefix prefix) (global_mws sub) (trees sub) (trees r) \<noteq> Inl LogicError"
    using tree_of_sub [OF assms(3)] by (intro collect_all_no_logic [OF assms(2)]) auto
  have eq: "(r', res) = (case collect_all (norm_prefix prefix) (global_mws sub) (trees sub) (trees r) of
      Inl e \<Rightarrow> (r, Inl e) | Inr l \<Rightarrow> add_pending l r)"
    using assms(1) False unfolding include_router_def Let_def by (simp only: if_False de_Morgan_disj) simp
  show ?thesis
  proof (cases "collect_all (norm_prefix prefix) (global_mws sub) (trees sub) (trees r)")
    case (Inl e)
    then show ?thesis using that(1) [of e] eq nl False by auto
  next
    case (Inr l)
    then show ?thesis using that(2) [of l] eq False unclean_norm by auto
  qed
qed

lemma include_outcome:
  assumes "web_wf r" "web_wf sub" "include_router sub self prefix r = (r', res)"
  shows "case res of
      Inl e \<Rightarrow> r' = r \<and> (e = LogicError \<longleftrightarrow> frozen r)
    | Inr _ \<Rightarrow> web_wf r' \<and> (\<exists>ts. r' = r\<lparr>trees := ts\<rparr>) \<and>
        (\<forall>m q. route_at r' m q =
          (case find (\<lambda>p. same_pattern (norm_prefix prefix @ p) q) (rr_log (tree_or_new (trees sub) m)) of
             Some p \<Rightarrow> map_option (with_mws (global_mws sub)) (route_at sub m p)
           | None \<Rightarrow> route_at r m q))"
  using assms(3,1,2)
proof (cases rule: include_cases)
  case (2 l)
  have "\<exists>r1. add_pending l r = (r1, Inr ()) \<and> web_wf r1 \<and> (\<exists>x. r1 = r\<lparr>trees := x\<rparr>) \<and>
    (\<forall>m q. route_at r1 m q =
      (case find (\<lambda>p. same_pattern (norm_prefix prefix @ p) q) (rr_log (tree_or_new (trees sub) m)) of
         Some p \<Rightarrow> map_option (with_mws (global_mws sub)) (route_at sub m p) | None \<Rightarrow> route_at r m q))"
    unfolding route_at_def [of sub]
    by (rule collect_all_add [OF assms(1) 2(1,2) _ _ _ 2(4)]) (use tree_of_sub [OF assms(2)] in auto)
  then obtain r1 where r1: "add_pending l r = (r1, Inr ())" "web_wf r1" "\<exists>x. r1 = r\<lparr>trees := x\<rparr>"
    "\<forall>m q. route_at r1 m q =
      (case find (\<lambda>p. same_pattern (norm_prefix prefix @ p) q) (rr_log (tree_or_new (trees sub) m)) of
         Some p \<Rightarrow> map_option (with_mws (global_mws sub)) (route_at sub m p) | None \<Rightarrow> route_at r m q)" by blast
  have "r' = r1" "res = Inr ()" using 2(3) r1(1) by simp_all
  then show ?thesis using r1(2-4) by simp
qed simp

subsection \<open>Every router a program builds\<close>

inductive web_built :: "'w web_router \<Rightarrow> bool" where
  web_built_new: "web_built web_router_new"
| web_built_add: "web_built r \<Longrightarrow> web_built (fst (add_route m p fn mws r))"
| web_built_use: "web_built r \<Longrightarrow> web_built (fst (use_mw mw r))"
| web_built_static: "web_built r \<Longrightarrow> web_built (fst (static_dir fs mnt d r))"
| web_built_freeze: "web_built r \<Longrightarrow> web_built (freeze r)"
| web_built_include: "web_built r \<Longrightarrow> web_built sub \<Longrightarrow> web_built (fst (include_router sub self prefix r))"

lemma web_built_wf: "web_built r \<Longrightarrow> web_wf r"
proof (induction rule: web_built.induct)
  case (web_built_include r sub self prefix)
  obtain r' res where i: "include_router sub self prefix r = (r', res)" by fastforce
  then show ?case using include_outcome [OF web_built_include(3,4) i] web_built_include(3) by (cases res) auto
qed (auto simp: add_route_wf, auto simp: web_wf_def web_router_new_def use_mw_def static_dir_def freeze_def Let_def)

text \<open>Including a router under a prefix is all or nothing, for routers built by any sequence of
  registrations and inclusions: an inclusion that throws leaves the router exactly as it was, and
  it throws \<open>logic_error\<close> only because the router is frozen; one that returns leaves everything but
  the routes as it was, and for every method and path the route registered there is the child's,
  with the child's global middlewares in front of its own, if the path is the prefix followed by a
  pattern of the child (up to a trailing slash), and otherwise the one the parent had.\<close>

theorem include_all_or_nothing:
  assumes "web_built r" "web_built sub" "include_router sub self prefix r = (r', res)"
  shows "case res of
      Inl e \<Rightarrow> r' = r \<and> (e = LogicError \<longleftrightarrow> frozen r)
    | Inr _ \<Rightarrow> (\<exists>ts. r' = r\<lparr>trees := ts\<rparr>) \<and>
        (\<forall>m q. route_at r' m q =
          (case find (\<lambda>p. same_pattern (norm_prefix prefix @ p) q) (rr_log (tree_or_new (trees sub) m)) of
             Some p \<Rightarrow> map_option (with_mws (global_mws sub)) (route_at sub m p)
           | None \<Rightarrow> route_at r m q))"
  using include_outcome [OF web_built_wf [OF assms(1)] web_built_wf [OF assms(2)] assms(3)] by (simp split: sum.splits)

text \<open>A child with one route, included under a prefix with a parameter.\<close>

definition demo_sub :: "nat web_router" where
  "demo_sub = fst (get_route ''/:id'' (Some (\<lambda>req n. (Inr (resp_text [] 200), n + 1))) [] web_router_new)"

lemma demo_sub_facts:
  "snd (include_router demo_sub False ''api/'' (web_router_new :: nat web_router)) = Inr ()"
  "rr_log (tree_or_new (trees demo_sub) ''GET'') = [''/:id'']" "global_mws demo_sub = []"
  "norm_prefix ''api/'' = ''/api''" "same_pattern ''/api/:id'' ''/api/:id''"
  by code_simp+

lemma include_all_or_nothing_witness:
  "snd (include_router demo_sub False ''api/'' (web_router_new :: nat web_router)) = Inr () \<and>
   route_at (fst (include_router demo_sub False ''api/'' web_router_new)) ''GET'' ''/api/:id'' =
     route_at demo_sub ''GET'' ''/:id''"
proof -
  obtain r' where i: "include_router demo_sub False ''api/'' (web_router_new :: nat web_router) = (r', Inr ())"
    using demo_sub_facts(1) by (metis prod.collapse)
  have b: "web_built demo_sub" unfolding demo_sub_def get_route_def by (intro web_built_add web_built_new)
  have "with_mws [] = (\<lambda>e :: nat route_entry. e)" by (simp add: fun_eq_iff with_mws_def)
  then have "route_at r' ''GET'' ''/api/:id'' = route_at demo_sub ''GET'' ''/:id''"
    using include_all_or_nothing [OF web_built_new b i] by (simp add: demo_sub_facts option.map_ident)
  then show ?thesis using i by simp
qed

end
