(* ===== verification/Web_Server.thy ===== *)
theory Web_Server
  imports Web_Router
begin

section \<open>The web server\<close>

text \<open>
  web_server.cpp: the set of connections with the counters, the dispatch with its last exception
  handlers, and the loop that serves one connection. What the transport and the parser (llhttp)
  give is the input of the loop: a read is a chunk for which the parser completes some requests
  and then succeeds or fails, the end of the stream, or a timeout; each handler run is given as
  within its time limit or not; each write succeeds, fails or times out. Logging and the threads
  of the scheduler are not modelled.
\<close>

subsection \<open>Connections and counters\<close>

record server_stats =
  requests :: nat
  errors :: nat
  in_flight :: nat
  peak :: nat

record web_server =
  running :: bool
  connections :: "nat set"
  stats :: server_stats

definition server_new :: web_server where
  "server_new = \<lparr>running = False, connections = {}, stats = \<lparr>requests = 0, errors = 0, in_flight = 0, peak = 0\<rparr>\<rparr>"

definition record_response :: "int \<Rightarrow> server_stats \<Rightarrow> server_stats" where
  "record_response st s =
    (let s = (if 400 \<le> st \<and> st < 600 then s\<lparr>errors := errors s + 1\<rparr> else s) in s\<lparr>requests := requests s + 1\<rparr>)"

definition register_connection :: "nat \<Rightarrow> web_server \<Rightarrow> bool \<times> web_server" where
  "register_connection c s =
    (if \<not> running s then (False, s)
     else if c \<in> connections s then (True, s)
     else let active = in_flight (stats s) + 1
     in (True, s\<lparr>connections := insert c (connections s),
           stats := (stats s)\<lparr>in_flight := active, peak := (if active > peak (stats s) then active else peak (stats s))\<rparr>\<rparr>))"

definition unregister_connection :: "nat \<Rightarrow> web_server \<Rightarrow> web_server" where
  "unregister_connection c s =
    (if c \<in> connections s
     then s\<lparr>connections := connections s - {c}, stats := (stats s)\<lparr>in_flight := in_flight (stats s) - 1\<rparr>\<rparr>
     else s)"

text \<open>\<open>stop\<close>: the connections that are shut down are those registered.\<close>

definition stop_server :: "web_server \<Rightarrow> nat set \<times> web_server" where
  "stop_server s = (connections s, s\<lparr>running := False\<rparr>)"

definition start_server :: "web_server \<Rightarrow> web_server" where
  "start_server s = s\<lparr>running := True\<rparr>"

text \<open>\<open>serve\<close> freezes the routes before it accepts; \<open>stats\<close> is the handler of the built-in route.\<close>

definition serve_setup :: "'w handler_fn \<Rightarrow> bool \<Rightarrow> 'w web_router \<Rightarrow> 'w web_router result" where
  "serve_setup stats_handler registered r =
    (if registered then Inr (freeze r)
     else case get_route ''/__stats'' (Some stats_handler) [] r of
       (r', Inl e) \<Rightarrow> Inl e
     | (r', Inr _) \<Rightarrow> Inr (freeze r'))"

subsection \<open>Timeouts\<close>

text \<open>In milliseconds; a value that is not positive means no limit.\<close>

definition stricter_timeout :: "int \<Rightarrow> int \<Rightarrow> int" where
  "stricter_timeout a b = (if a \<le> 0 then b else if b \<le> 0 then a else min a b)"

text \<open>The limit of the next read: \<open>None\<close> when the deadline of the request that is being received has
  passed. The clock ticks in nanoseconds.\<close>

definition read_limit :: "int \<Rightarrow> time option \<Rightarrow> time \<Rightarrow> int option" where
  "read_limit idle deadline now =
    (case deadline of
       None \<Rightarrow> Some idle
     | Some d \<Rightarrow>
         if now \<ge> d then None
         else let remaining = (d - now) div 1000000;
                  remaining = (if remaining = 0 then 1 else remaining)
              in Some (stricter_timeout idle remaining))"

subsection \<open>Dispatch\<close>

definition dispatch_request :: "fs_ops \<Rightarrow> 'w web_router \<Rightarrow> http_request \<times> 'w \<Rightarrow> http_response result \<times> http_request \<times> 'w" where
  "dispatch_request fs r s =
    (case route_request fs r s of
       (Inr resp, s') \<Rightarrow> (Inr resp, s')
     | (Inl CancelledError, s') \<Rightarrow> (Inl CancelledError, s')
     | (Inl _, s') \<Rightarrow> (Inr (resp_error 500 ''internal server error''), s'))"

subsection \<open>One connection\<close>

datatype conn_read = Chunk "http_request list" bool | End_Of_Stream | Read_Timeout
datatype conn_write = Sent | Write_Failed | Write_Timeout

record 'w connection =
  world :: 'w
  wire :: "string list"
  written :: "conn_write list"
  timeouts :: "bool list"
  conn_stats :: server_stats

text \<open>One write: the message, whether the loop goes on, and the response is counted only if it went
  out. Results that are not given are taken to be successful.\<close>

definition write_response :: "string \<Rightarrow> int \<Rightarrow> 'w connection \<Rightarrow> bool \<times> 'w connection" where
  "write_response msg st c =
    (case written c of
       [] \<Rightarrow> (True, c\<lparr>wire := wire c @ [msg], conn_stats := record_response st (conn_stats c)\<rparr>)
     | w # ws \<Rightarrow>
         (let c = c\<lparr>written := ws\<rparr>
          in if w = Sent then (True, c\<lparr>wire := wire c @ [msg], conn_stats := record_response st (conn_stats c)\<rparr>)
             else (False, c)))"

text \<open>The handler under its time limit: a timeout answers 503 and gives the connection up.\<close>

definition run_handler ::
    "fs_ops \<Rightarrow> 'w web_router \<Rightarrow> http_request \<Rightarrow> 'w connection \<Rightarrow> http_response result \<times> bool \<times> 'w connection" where
  "run_handler fs r req c =
    (case timeouts c of
       True # ts \<Rightarrow> (Inr (resp_error 503 ''handler timeout''), False, c\<lparr>timeouts := ts\<rparr>)
     | ts \<Rightarrow>
         (case dispatch_request fs r (req, world c) of
            (res, req', w) \<Rightarrow> (res, keep_alive req', c\<lparr>world := w, timeouts := tl ts\<rparr>)))"

text \<open>The loop over the completed requests: \<open>Inr True\<close> when the connection goes on reading,
  \<open>Inr False\<close> when it is closed, \<open>Inl\<close> when an exception leaves the coroutine.\<close>

fun serve_pending :: "fs_ops \<Rightarrow> 'w web_router \<Rightarrow> http_request list \<Rightarrow> 'w connection \<Rightarrow> bool result \<times> 'w connection" where
  "serve_pending fs r [] c = (Inr True, c)"
| "serve_pending fs r (req # reqs) c =
    (let is_head = (req_method req = ''HEAD'')
     in case run_handler fs r req c of
          (Inl e, _, c) \<Rightarrow> (Inl e, c)
        | (Inr resp, keep, c) \<Rightarrow>
            (case resp_build is_head resp of
               Inl e \<Rightarrow> (Inl e, c)
             | Inr msg \<Rightarrow>
                 (case write_response msg (status resp) c of
                    (False, c) \<Rightarrow> (Inr False, c)
                  | (True, c) \<Rightarrow> if \<not> keep then (Inr False, c) else serve_pending fs r reqs c)))"

fun process_connection :: "fs_ops \<Rightarrow> 'w web_router \<Rightarrow> conn_read list \<Rightarrow> 'w connection \<Rightarrow> unit result \<times> 'w connection" where
  "process_connection fs r [] c = (Inr (), c)"
| "process_connection fs r (End_Of_Stream # es) c = (Inr (), c)"
| "process_connection fs r (Read_Timeout # es) c = (Inr (), c)"
| "process_connection fs r (Chunk reqs ok # es) c =
    (if \<not> ok then
       (let resp = resp_error 400 ''bad request''
        in case resp_build False resp of
             Inl e \<Rightarrow> (Inl e, c)
           | Inr msg \<Rightarrow> (Inr (), snd (write_response msg (status resp) c)))
     else (case serve_pending fs r reqs c of
             (Inl e, c) \<Rightarrow> (Inl e, c)
           | (Inr False, c) \<Rightarrow> (Inr (), c)
           | (Inr True, c) \<Rightarrow> process_connection fs r es c))"

text \<open>\<open>handle_connection\<close>: the connection is unregistered on every way out.\<close>

definition handle_connection ::
    "fs_ops \<Rightarrow> 'w web_router \<Rightarrow> nat \<Rightarrow> conn_read list \<Rightarrow> 'w connection \<Rightarrow> web_server \<Rightarrow> unit result \<times> 'w connection \<times> web_server" where
  "handle_connection fs r cid es c s =
    (case process_connection fs r es c of (res, c') \<Rightarrow> (res, c', unregister_connection cid s))"

subsection \<open>How the bytes arrive does not matter\<close>

lemma serve_pending_append:
  "serve_pending fs r (xs @ ys) c =
    (case serve_pending fs r xs c of (Inr True, c') \<Rightarrow> serve_pending fs r ys c' | other \<Rightarrow> other)"
  by (induction fs r xs c rule: serve_pending.induct)
    (auto simp: Let_def split: prod.splits sum.splits bool.splits)

text \<open>The answers to requests that are received without a parse error do not depend on how the
  requests were cut into reads: serving the chunks one after the other is serving all the requests
  at once, in their order, with the same responses on the wire, the same effects of the handlers,
  the same counters and the same way of ending.\<close>

theorem pipelining_irrelevant:
  "process_connection fs r (map (\<lambda>reqs. Chunk reqs True) chunks @ es) c =
   process_connection fs r (Chunk (concat chunks) True # es) c"
proof (induction chunks arbitrary: c)
  case (Cons reqs chunks)
  obtain res c1 where s: "serve_pending fs r reqs c = (res, c1)" by fastforce
  then show ?case
    using Cons.IH [of c1] by (cases res) (auto simp: serve_pending_append split: bool.splits)
qed simp

text \<open>When the parser fails in a chunk that also completed requests, those requests are dropped:
  no handler runs, and the only message on the wire is the 400; had the same bytes arrived in two
  reads, with the malformed part alone in the second, the requests would have been answered
  first.\<close>

theorem parse_error_drops_requests:
  assumes "written c = []"
  shows "(\<exists>msg. resp_build False (resp_error 400 ''bad request'') = Inr msg \<and>
    process_connection fs r (Chunk reqs False # es) c =
      (Inr (), c\<lparr>wire := wire c @ [msg], conn_stats := record_response 400 (conn_stats c)\<rparr>)) \<and>
    process_connection fs r (Chunk reqs True # Chunk [] False # es) c =
      (case serve_pending fs r reqs c of
         (Inr True, c') \<Rightarrow> process_connection fs r (Chunk [] False # es) c'
       | (Inr False, c') \<Rightarrow> (Inr (), c')
       | (Inl e, c') \<Rightarrow> (Inl e, c'))"
proof (intro conjI)
  have "\<not> isl (resp_build False (resp_error 400 ''bad request''))" by code_simp
  then obtain msg where m: "resp_build False (resp_error 400 ''bad request'') = Inr msg"
    by (cases "resp_build False (resp_error 400 ''bad request'')") auto
  have "status (resp_error 400 ''bad request'') = 400"
    by (simp add: resp_error_def resp_text_def resp_of_def resp_header_def response_new_def Let_def)
  then show "\<exists>msg. resp_build False (resp_error 400 ''bad request'') = Inr msg \<and>
    process_connection fs r (Chunk reqs False # es) c =
      (Inr (), c\<lparr>wire := wire c @ [msg], conn_stats := record_response 400 (conn_stats c)\<rparr>)"
    using m assms by (simp add: write_response_def)
qed (simp split: prod.splits sum.splits bool.splits)

definition demo_conn :: "unit connection" where
  "demo_conn = \<lparr>world = (), wire = [], written = [], timeouts = [],
     conn_stats = \<lparr>requests = 0, errors = 0, in_flight = 1, peak = 1\<rparr>\<rparr>"

lemma parse_error_drops_requests_witness:
  "\<exists>msg. resp_build False (resp_error 400 ''bad request'') = Inr msg \<and>
    wire (snd (process_connection demo_fs demo_static [Chunk [demo_get ''/static/a.txt''] False] demo_conn)) = [msg] \<and>
    length (wire (snd (process_connection demo_fs demo_static [Chunk [demo_get ''/static/a.txt''] True, Chunk [] False] demo_conn))) = 2"
proof -
  have w: "written demo_conn = []" by (simp add: demo_conn_def)
  have "length (wire (snd (process_connection demo_fs demo_static [Chunk [demo_get ''/static/a.txt''] True, Chunk [] False] demo_conn))) = 2"
    by code_simp
  then show ?thesis
    using parse_error_drops_requests [OF w, of demo_fs demo_static "[demo_get ''/static/a.txt'']" "[]", THEN conjunct1]
    by (auto simp: demo_conn_def)
qed

text \<open>A response whose header the builder rejects is not turned into a 500: the exception leaves the
  connection's coroutine, and nothing is written.\<close>

lemma bad_header_ends_connection:
  assumes "run_handler fs r req c = (Inr resp, keep, c1)" "100 \<le> status resp" "status resp \<le> 999"
    and "h \<in> set (headers resp)" "\<not> framing_field h" "\<not> field_ok h"
  shows "serve_pending fs r (req # reqs) c = (Inl InvalidArgument, c1)"
proof -
  have "h \<in> set (filter (\<lambda>h. \<not> framing_field h) (headers resp))" using assms(4,5) by simp
  then have "\<not> list_all field_ok (filter (\<lambda>h. \<not> framing_field h) (headers resp))"
    using assms(6) unfolding list_all_iff by blast
  then have "resp_build omit resp = Inl InvalidArgument" for omit
    using assms(2,3) by (simp add: resp_build_def status_line_eq add_unframed_eq)
  then show ?thesis using assms(1) by simp
qed

subsection \<open>The counters\<close>

inductive server_step :: "web_server \<Rightarrow> web_server \<Rightarrow> bool" where
  sv_start: "server_step s (start_server s)"
| sv_stop: "server_step s (snd (stop_server s))"
| sv_register: "server_step s (snd (register_connection c s))"
| sv_unregister: "server_step s (unregister_connection c s)"
| sv_response: "server_step s (s\<lparr>stats := record_response st (stats s)\<rparr>)"

definition server_ok :: "web_server \<Rightarrow> bool" where
  "server_ok s \<longleftrightarrow> finite (connections s) \<and> in_flight (stats s) = card (connections s) \<and>
    in_flight (stats s) \<le> peak (stats s) \<and> errors (stats s) \<le> requests (stats s)"

interpretation servers: inductive_invariant "\<lambda>s. s = server_new" server_step server_ok
proof
  fix s s'
  assume "server_ok s" "server_step s s'"
  then show "server_ok s'"
    by (auto elim!: server_step.cases simp: server_ok_def start_server_def stop_server_def register_connection_def
        unregister_connection_def record_response_def Let_def card_gt_0_iff)
qed (simp add: server_ok_def server_new_def)

lemma counters_right:
  "reachable (\<lambda>s. s = server_new) server_step s \<Longrightarrow>
    in_flight (stats s) = card (connections s) \<and> card (connections s) \<le> peak (stats s) \<and> errors (stats s) \<le> requests (stats s)"
  using servers.invariant_reachable [of s] by (auto simp: server_ok_def)

text \<open>Once the server has stopped, no connection is admitted.\<close>

lemma stopped_admits_none: "register_connection c (snd (stop_server s)) = (False, snd (stop_server s))"
  by (simp add: register_connection_def stop_server_def)

subsection \<open>The limit of a read\<close>

lemma read_limit_bounds:
  assumes "read_limit idle (Some d) now = Some t"
  shows "now < d" "0 < t" "0 < idle \<Longrightarrow> t \<le> idle" "(t - 1) * 1000000 \<le> d - now"
proof -
  show n: "now < d" using assms by (auto simp: read_limit_def split: if_splits)
  define rem where "rem = (if (d - now) div 1000000 = 0 then 1 else (d - now) div 1000000)"
  have "0 \<le> (d - now) div 1000000" using n by (simp add: pos_imp_zdiv_nonneg_iff)
  then have rem: "0 < rem" "(rem - 1) * 1000000 \<le> d - now"
    using n div_mult_mod_eq [of "d - now" 1000000] pos_mod_sign [of 1000000 "d - now"] by (auto simp: rem_def)
  have t: "t = stricter_timeout idle rem" using assms n by (simp add: read_limit_def rem_def Let_def)
  then have "t = (if idle \<le> 0 then rem else min idle rem)" using rem(1) by (simp add: stricter_timeout_def)
  then show "0 < t" "0 < idle \<Longrightarrow> t \<le> idle" "(t - 1) * 1000000 \<le> d - now" using rem by (auto simp: min_def)
qed

subsection \<open>Dispatch never fails but by cancellation\<close>

lemma dispatch_total: "fst (dispatch_request fs r s) = Inl e \<Longrightarrow> e = CancelledError"
  by (auto simp: dispatch_request_def split: prod.splits sum.splits coro_error.splits)


end
