(* ===== verification/Future_Promise.thy ===== *)
theory Future_Promise
  imports Coro_Prelude
begin

section \<open>Promise and future\<close>

text \<open>
  future.hpp: the state a promise shares with its futures, the two ends, and the interleavings of a
  setter on another thread with coroutines that begin to wait. A setter publishes the result under
  the mutex, releases it and takes it again to wake the waiters: two steps. A null shared state
  (a promise that was moved from, an empty future) is \<open>None\<close>. A call of \<open>EventLoop::schedule\<close> is an
  entry (handle, loop) of the list the operation returns. \<open>Promise<void>\<close> is the instance with the
  unit type, whose results can be copied.
\<close>

subsection \<open>Model\<close>

record 'a shared_state =
  fs_result :: "'a option"
  fs_exception :: "coro_error option"
  fs_waiters :: "(handle \<times> nat) list"
  fs_ready :: bool
  fs_consumed :: bool

definition shared_new :: "'a shared_state" where
  "shared_new = \<lparr>fs_result = None, fs_exception = None, fs_waiters = [], fs_ready = False, fs_consumed = False\<rparr>"

text \<open>The part of \<open>set_value\<close> and \<open>set_exception\<close> under the first lock; \<open>notify\<close> follows.\<close>

definition publish_value :: "'a \<Rightarrow> 'a shared_state option \<Rightarrow> 'a shared_state result" where
  "publish_value v st =
    (case st of
       None \<Rightarrow> Inl LogicError
     | Some s \<Rightarrow> if fs_ready s then Inl LogicError else Inr (s\<lparr>fs_result := Some v, fs_ready := True\<rparr>))"

definition publish_exception :: "coro_error option \<Rightarrow> 'a shared_state option \<Rightarrow> 'a shared_state result" where
  "publish_exception e st =
    (case st of
       None \<Rightarrow> Inl LogicError
     | Some s \<Rightarrow>
         (case e of
            None \<Rightarrow> Inl InvalidArgument
          | Some er \<Rightarrow> if fs_ready s then Inl LogicError else Inr (s\<lparr>fs_exception := Some er, fs_ready := True\<rparr>)))"

definition fut_notify :: "'a shared_state \<Rightarrow> (handle \<times> nat) list \<times> 'a shared_state" where
  "fut_notify s = (fs_waiters s, s\<lparr>fs_waiters := []\<rparr>)"

text \<open>\<open>abandon_pending\<close>, when the promise goes: whether waiters are to be notified.\<close>

definition abandon_pending :: "'a shared_state \<Rightarrow> bool \<times> 'a shared_state" where
  "abandon_pending s =
    (if fs_ready s then (False, s) else (True, s\<lparr>fs_exception := Some BrokenPromiseError, fs_ready := True\<rparr>))"

definition promise_is_done :: "'a shared_state option \<Rightarrow> bool" where
  "promise_is_done st = (case st of None \<Rightarrow> False | Some s \<Rightarrow> fs_ready s)"

definition get_future :: "'a shared_state option \<Rightarrow> 'a shared_state option result" where
  "get_future st = (case st of None \<Rightarrow> Inl LogicError | Some s \<Rightarrow> Inr (Some s))"

definition fut_await_ready :: "'a shared_state option \<Rightarrow> bool result" where
  "fut_await_ready st = (case st of None \<Rightarrow> Inl LogicError | Some s \<Rightarrow> Inr (fs_ready s))"

definition fut_await_suspend :: "handle \<Rightarrow> nat \<Rightarrow> 'a shared_state \<Rightarrow> (handle \<times> nat) list \<times> 'a shared_state" where
  "fut_await_suspend h lp s =
    (if fs_ready s then ([(h, lp)], s) else ([], s\<lparr>fs_waiters := fs_waiters s @ [(h, lp)]\<rparr>))"

text \<open>\<open>copyable\<close>: whether results of the type can be copied.\<close>

definition fut_await_resume :: "bool \<Rightarrow> 'a shared_state option \<Rightarrow> 'a result \<times> 'a shared_state option" where
  "fut_await_resume copyable st =
    (case st of
       None \<Rightarrow> (Inl LogicError, st)
     | Some s \<Rightarrow>
         (case fs_exception s of
            Some e \<Rightarrow> (Inl e, st)
          | None \<Rightarrow>
              if copyable then (Inr (the (fs_result s)), st)
              else if fs_consumed s then (Inl LogicError, st)
              else (Inr (the (fs_result s)), Some (s\<lparr>fs_consumed := True\<rparr>))))"

definition fut_on_waiter_destroyed :: "handle \<Rightarrow> 'a shared_state \<Rightarrow> 'a shared_state" where
  "fut_on_waiter_destroyed h s = s\<lparr>fs_waiters := filter (\<lambda>w. fst w \<noteq> h) (fs_waiters s)\<rparr>"

subsection \<open>Runs\<close>

text \<open>A promise with its futures: \<open>notifying\<close> setters have published and not yet woken the waiters;
  \<open>parked\<close> are the coroutines suspended on a future with their loops, \<open>runnable\<close> those that were
  scheduled since. A parked coroutine is resumed when it is runnable, or destroyed. A setter that
  fails changes nothing.\<close>

record 'a future_run =
  shared :: "'a shared_state"
  notifying :: nat
  parked :: "(handle \<times> nat) set"
  runnable :: "(handle \<times> nat) set"
  outcome :: "'a result option"

inductive future_step :: "'a future_run \<Rightarrow> 'a future_run \<Rightarrow> bool" where
  fu_value: "publish_value v (Some (shared R)) = Inr s \<Longrightarrow>
    future_step R (R\<lparr>shared := s, notifying := notifying R + 1, outcome := Some (Inr v)\<rparr>)"
| fu_exception: "publish_exception (Some e) (Some (shared R)) = Inr s \<Longrightarrow>
    future_step R (R\<lparr>shared := s, notifying := notifying R + 1, outcome := Some (Inl e)\<rparr>)"
| fu_abandon: "abandon_pending (shared R) = (True, s) \<Longrightarrow>
    future_step R (R\<lparr>shared := s, notifying := notifying R + 1, outcome := Some (Inl BrokenPromiseError)\<rparr>)"
| fu_notify: "notifying R = Suc n \<Longrightarrow> fut_notify (shared R) = (ws, s) \<Longrightarrow>
    future_step R (R\<lparr>shared := s, notifying := n, runnable := runnable R \<union> (set ws \<inter> parked R)\<rparr>)"
| fu_suspend: "h \<notin> fst ` parked R \<Longrightarrow> fut_await_suspend h lp (shared R) = (ws, s) \<Longrightarrow>
    future_step R (R\<lparr>shared := s, parked := insert (h, lp) (parked R), runnable := runnable R \<union> set ws\<rparr>)"
| fu_resume: "w \<in> runnable R \<Longrightarrow> fut_await_resume c (Some (shared R)) = (res, Some s) \<Longrightarrow>
    future_step R (R\<lparr>shared := s, parked := parked R - {w}, runnable := runnable R - {w}\<rparr>)"
| fu_destroy: "future_step R (R\<lparr>shared := fut_on_waiter_destroyed h (shared R),
    parked := {w \<in> parked R. fst w \<noteq> h}, runnable := {w \<in> runnable R. fst w \<noteq> h}\<rparr>)"

definition future_start :: "'a future_run \<Rightarrow> bool" where
  "future_start R \<longleftrightarrow> R = \<lparr>shared = shared_new, notifying = 0, parked = {}, runnable = {}, outcome = None\<rparr>"

definition future_inv :: "'a future_run \<Rightarrow> bool" where
  "future_inv R \<longleftrightarrow>
    set (fs_waiters (shared R)) = parked R - runnable R \<and> runnable R \<subseteq> parked R \<and>
    (fs_ready (shared R) \<longrightarrow> notifying R = 0 \<longrightarrow> fs_waiters (shared R) = []) \<and>
    (fs_ready (shared R) \<longleftrightarrow> outcome R \<noteq> None) \<and> (runnable R \<noteq> {} \<longrightarrow> fs_ready (shared R)) \<and>
    (\<forall>v. outcome R = Some (Inr v) \<longrightarrow> fs_result (shared R) = Some v \<and> fs_exception (shared R) = None) \<and>
    (\<forall>e. outcome R = Some (Inl e) \<longrightarrow> fs_exception (shared R) = Some e) \<and>
    (outcome R = None \<longrightarrow> fs_exception (shared R) = None \<and> notifying R = 0)"

lemma future_step_inv: "future_step R R' \<Longrightarrow> future_inv R \<Longrightarrow> future_inv R'"
proof (induction rule: future_step.induct)
  case (fu_suspend h R lp ws s)
  have "(h, lp) \<notin> parked R" using fu_suspend(1) by force
  then show ?case using fu_suspend(2,3) by (auto simp: future_inv_def fut_await_suspend_def split: if_splits)
next
  case (fu_resume w R c res s)
  have sim: "fs_waiters s = fs_waiters (shared R)" "fs_ready s = fs_ready (shared R)" "fs_result s = fs_result (shared R)"
    "fs_exception s = fs_exception (shared R)"
    using fu_resume(2) by (auto simp: fut_await_resume_def split: option.splits if_splits)
  then show ?case using fu_resume(1,3) by (auto simp: future_inv_def)
qed (auto simp: future_inv_def publish_value_def publish_exception_def abandon_pending_def fut_notify_def
    fut_on_waiter_destroyed_def split: if_splits)

interpretation futures: inductive_invariant future_start future_step future_inv
proof unfold_locales
  show "future_start R \<Longrightarrow> future_inv R" for R :: "'a future_run"
    by (simp add: future_start_def future_inv_def shared_new_def)
qed (rule future_step_inv)


text \<open>Two waiters on different loops; the value is published while the second suspends.\<close>

definition demo_future :: "nat future_run" where
  "demo_future = \<lparr>shared = \<lparr>fs_result = Some 7, fs_exception = None, fs_waiters = [], fs_ready = True, fs_consumed = False\<rparr>,
     notifying = 0, parked = {(1, 1), (2, 2)}, runnable = {(1, 1), (2, 2)}, outcome = Some (Inr 7)\<rparr>"

lemma demo_future_reachable: "reachable future_start future_step demo_future"
proof -
  let ?R0 = "\<lparr>shared = shared_new, notifying = 0, parked = {}, runnable = {}, outcome = None\<rparr> :: nat future_run"
  let ?s1 = "shared_new\<lparr>fs_waiters := [(1, 1)]\<rparr> :: nat shared_state"
  let ?R1 = "?R0\<lparr>shared := ?s1, parked := {(1, 1)}\<rparr>"
  let ?s2 = "?s1\<lparr>fs_result := Some 7, fs_ready := True\<rparr>"
  let ?R2 = "?R1\<lparr>shared := ?s2, notifying := 1, outcome := Some (Inr 7)\<rparr>"
  let ?R3 = "?R2\<lparr>parked := {(1, 1), (2, 2)}, runnable := {(2, 2)}\<rparr>"
  have "reachable future_start future_step ?R0" by (rule reachable_init) (simp add: future_start_def)
  moreover have "future_step ?R0 ?R1"
    using fu_suspend [of 1 ?R0 1 "[]" ?s1] by (simp add: fut_await_suspend_def shared_new_def)
  moreover have "future_step ?R1 ?R2"
    using fu_value [of 7 ?R1 ?s2] by (simp add: publish_value_def shared_new_def)
  moreover have "future_step ?R2 ?R3"
    using fu_suspend [of 2 ?R2 2 "[(2, 2)]" ?s2] by (simp add: fut_await_suspend_def shared_new_def insert_commute)
  moreover have "future_step ?R3 demo_future"
    using fu_notify [of ?R3 0 "[(1, 1)]" "?s2\<lparr>fs_waiters := []\<rparr>"]
    by (simp add: fut_notify_def shared_new_def demo_future_def)
  ultimately show ?thesis by (meson reachable_step)
qed


text \<open>A result that cannot be copied is given to one coroutine only.\<close>

lemma move_only_once:
  assumes "fut_await_resume False st = (Inr v, st')"
  shows "fst (fut_await_resume False st') = Inl LogicError"
  using assms by (auto simp: fut_await_resume_def split: option.splits if_splits)

end
