(* ===== verification/Task_Core.thy ===== *)
theory Task_Core
  imports Coro_Prelude
begin

section \<open>Tasks and cancellation\<close>

text \<open>
  task.hpp: a task object with the promise of its coroutine, the wrapper around every \<open>co_await\<close> of
  its body (\<open>cancel_check_awaiter\<close>), cancellation, completion and what an awaiting coroutine gets. The
  model is of \<open>Task<T>\<close>; \<open>Task<void>\<close> is the same with the unit type, but for \<open>store_result\<close>, which is
  given for both. The frame of the coroutine is not started, in the ready queue, running, suspended,
  marked for the loop to destroy, or gone. Calls to the loop and the hooks are the list of actions
  an operation returns. The moves of a task only change which object holds the handle.
\<close>

subsection \<open>Model\<close>

datatype frame = Fresh | Queued | Running | Waiting | Doomed | Gone

datatype action =
    Schedule_Self
  | Cancel_IO
  | Mark_Io_Abandoned
  | Mark_Abandoned
  | Ask_Deferred
  | Schedule handle nat

text \<open>The kind of thing that is awaited: I/O that can be cancelled in the kernel, a wait that takes the
  cancellation over (\<open>on_cancel_requested\<close>), or another wait.\<close>

datatype await_kind = Await_IO | Await_Deferring | Await_Plain

record 'a task =
  has_handle :: bool
  result :: "'a option"
  exception :: "coro_error option"
  ready :: bool
  started :: bool
  result_consumed :: bool
  pr_attached :: bool
  pr_result :: "'a option"
  pr_exception :: "coro_error option"
  continuation :: "(handle \<times> nat) option"
  cancelled :: bool
  suspended :: bool
  pending_io :: bool
  cancel_hook :: bool
  defer_cancel :: bool
  frame :: frame

definition task_new :: "'a task" where
  "task_new = \<lparr>has_handle = True, result = None, exception = None, ready = False, started = False, result_consumed = False,
     pr_attached = True, pr_result = None, pr_exception = None, continuation = None, cancelled = False, suspended = False,
     pending_io = False, cancel_hook = False, defer_cancel = False, frame = Fresh\<rparr>"

text \<open>Completion: \<open>store_result\<close>, \<open>release_handle\<close> and \<open>final_awaiter\<close>. The second result of
  \<open>store_result\<close> is an exception nobody will see, which goes to the handler for detached tasks.\<close>

definition store_result :: "'a task \<Rightarrow> 'a task \<times> coro_error option" where
  "store_result t =
    (if pr_attached t then
       (let t = (if cancelled t then t\<lparr>exception := Some CancelledError\<rparr>
                 else case pr_result t of Some v \<Rightarrow> t\<lparr>result := Some v\<rparr> | None \<Rightarrow> t);
            t = (case pr_exception t of Some e \<Rightarrow> t\<lparr>exception := Some e, pr_exception := None\<rparr> | None \<Rightarrow> t)
        in (t\<lparr>ready := True\<rparr>, None))
     else (t, pr_exception t))"

definition store_result_void :: "unit task \<Rightarrow> unit task \<times> coro_error option" where
  "store_result_void t =
    (if pr_attached t then
       (let t = (if cancelled t then t\<lparr>exception := Some CancelledError\<rparr>
                 else case pr_exception t of Some e \<Rightarrow> t\<lparr>exception := Some e, pr_exception := None\<rparr> | None \<Rightarrow> t)
        in (t\<lparr>ready := True\<rparr>, None))
     else (t, pr_exception t))"

definition release_handle :: "'a task \<Rightarrow> 'a task" where
  "release_handle t = (if pr_attached t then t\<lparr>has_handle := False\<rparr> else t)"

definition final_suspend :: "'a task \<Rightarrow> action list \<times> 'a task" where
  "final_suspend t =
    (let t = release_handle (fst (store_result t))
     in ((case continuation t of None \<Rightarrow> [] | Some (h, lp) \<Rightarrow> [Schedule h lp]), t\<lparr>frame := Gone\<rparr>))"

definition return_value :: "'a \<Rightarrow> 'a task \<Rightarrow> 'a task" where
  "return_value v t = t\<lparr>pr_result := Some v\<rparr>"

definition unhandled_exception :: "coro_error \<Rightarrow> 'a task \<Rightarrow> 'a task" where
  "unhandled_exception e t = t\<lparr>pr_exception := Some e\<rparr>"

text \<open>The task as something to await.\<close>

definition task_await_ready :: "'a task \<Rightarrow> bool" where
  "task_await_ready t = ready t"

definition task_start :: "'a task \<Rightarrow> action list \<times> 'a task" where
  "task_start t =
    (if \<not> started t \<and> has_handle t then ([Schedule_Self], t\<lparr>started := True, frame := Queued\<rparr>) else ([], t))"

definition task_await_suspend :: "handle \<Rightarrow> nat \<Rightarrow> 'a task \<Rightarrow> (action list \<times> 'a task) result" where
  "task_await_suspend h lp t =
    (if \<not> has_handle t then Inl RuntimeError
     else if continuation t \<noteq> None then Inl LogicError
     else let t = t\<lparr>continuation := Some (h, lp)\<rparr>
     in Inr (if \<not> started t then ([Schedule_Self], t\<lparr>started := True, frame := Queued\<rparr>) else ([], t)))"

definition take_result :: "'a task \<Rightarrow> 'a result \<times> 'a task" where
  "take_result t =
    (case exception t of
       Some e \<Rightarrow> (Inl e, t)
     | None \<Rightarrow>
         if result_consumed t then (Inl LogicError, t)
         else case result t of None \<Rightarrow> (Inl LogicError, t) | Some v \<Rightarrow> (Inr v, t\<lparr>result_consumed := True\<rparr>))"

definition task_on_waiter_destroyed :: "handle \<Rightarrow> 'a task \<Rightarrow> 'a task" where
  "task_on_waiter_destroyed h t =
    (if has_handle t \<and> map_option fst (continuation t) = Some h then t\<lparr>continuation := None\<rparr> else t)"

definition task_detach :: "'a task \<Rightarrow> 'a task" where
  "task_detach t = (if has_handle t then t\<lparr>pr_attached := False\<rparr> else t)\<lparr>has_handle := False, ready := True\<rparr>"

text \<open>The destructor: a frame with pending I/O stays until its completion arrives, a frame in the ready
  queue until the loop takes it, any other is destroyed at once.\<close>

definition task_destroy :: "'a task \<Rightarrow> action list \<times> 'a task" where
  "task_destroy t =
    (if has_handle t then
       (if started t \<and> \<not> ready t then
          (if pending_io t \<and> cancel_hook t then
             ([Mark_Io_Abandoned, Cancel_IO], t\<lparr>pr_attached := False, has_handle := False, frame := Doomed\<rparr>)
           else if frame t = Queued then ([Mark_Abandoned], t\<lparr>has_handle := False, frame := Doomed\<rparr>)
           else ([], t\<lparr>has_handle := False, frame := Gone\<rparr>))
        else ([], t\<lparr>has_handle := False, frame := Gone\<rparr>))
     else ([], t))"

text \<open>Cancellation. \<open>defers\<close>: what \<open>on_cancel_requested\<close> of the current wait answers.\<close>

definition task_cancel :: "bool \<Rightarrow> 'a task \<Rightarrow> action list \<times> 'a task" where
  "task_cancel defers t =
    (if has_handle t \<and> \<not> ready t then
       (let t = t\<lparr>cancelled := True\<rparr>
        in if \<not> started t then ([], (release_handle (fst (store_result t)))\<lparr>has_handle := False, frame := Gone\<rparr>)
           else if pending_io t \<and> cancel_hook t then ([Cancel_IO], t)
           else if defer_cancel t then (if defers then ([Ask_Deferred], t) else ([Ask_Deferred, Schedule_Self], t\<lparr>frame := Queued\<rparr>))
           else if suspended t then ([Schedule_Self], t\<lparr>frame := Queued\<rparr>)
           else ([], t))
     else ([], t))"

text \<open>The wrapper around a \<open>co_await\<close> of the body.\<close>

definition wrap_ready :: "bool \<Rightarrow> 'a task \<Rightarrow> bool" where
  "wrap_ready inner_ready t = (if cancelled t then True else inner_ready)"

definition wrap_suspend :: "await_kind \<Rightarrow> 'a task \<Rightarrow> 'a task" where
  "wrap_suspend k t =
    (let t = t\<lparr>suspended := True, frame := Waiting\<rparr>;
         t = (if k = Await_IO then t\<lparr>cancel_hook := True, pending_io := True\<rparr> else t)
     in if k = Await_Deferring then t\<lparr>defer_cancel := True\<rparr> else t)"

text \<open>The inner \<open>await_suspend\<close> declined or threw: the wait did not begin.\<close>

definition wrap_not_suspended :: "await_kind \<Rightarrow> 'a task \<Rightarrow> 'a task" where
  "wrap_not_suspended k t =
    t\<lparr>suspended := False, pending_io := (if k = Await_IO then False else pending_io t), frame := Running\<rparr>"

definition wrap_threw :: "'a task \<Rightarrow> 'a task" where
  "wrap_threw t = t\<lparr>suspended := False, pending_io := False, defer_cancel := False, cancel_hook := False, frame := Running\<rparr>"

text \<open>Resumption: what the body gets, given the result of the inner \<open>await_resume\<close>; a wait that took the
  cancellation over reports its own exception first.\<close>

definition wrap_resume :: "await_kind \<Rightarrow> 'b result \<Rightarrow> 'a task \<Rightarrow> 'b result \<times> 'a task" where
  "wrap_resume k inner t =
    (let t = t\<lparr>suspended := False, pending_io := False, defer_cancel := False, frame := Running\<rparr>
     in if cancelled t then
          (let t = t\<lparr>cancelled := False\<rparr>
           in if k = Await_Deferring then (case inner of Inl e \<Rightarrow> (Inl e, t) | Inr _ \<Rightarrow> (Inl CancelledError, t))
              else (Inl CancelledError, t))
        else (inner, t))"


subsection \<open>Runs\<close>

text \<open>A task with the coroutine that awaits it. \<open>parked\<close> is that coroutine while it is suspended, \<open>woken\<close>
  the coroutines the task's end has scheduled, and \<open>asked\<close> says that the current wait has been told
  of a cancellation and will end by itself: the I/O by a completion, a deferring wait when its
  clean-up is done. A task is not destroyed while a coroutine awaits it (the awaiter is the task) and
  not by its own body. What a wait gives the body plays no part for the task and is a unit here.\<close>

record 'a task_run =
  tk :: "'a task"
  parked :: "handle option"
  woken :: "handle list"
  asked :: bool

definition end_body :: "'a task \<Rightarrow> 'a task_run \<Rightarrow> 'a task_run" where
  "end_body t R =
    (case final_suspend t of (as, t') \<Rightarrow>
       R\<lparr>tk := t',
         parked := (if as = [] then parked R else None),
         woken := woken R @ concat (map (\<lambda>a. case a of Schedule h _ \<Rightarrow> [h] | _ \<Rightarrow> []) as)\<rparr>)"

definition asks :: "action list \<Rightarrow> bool" where
  "asks as \<longleftrightarrow> as = [Cancel_IO] \<or> as = [Ask_Deferred]"

definition kind_of :: "'a task \<Rightarrow> await_kind" where
  "kind_of t = (if pending_io t then Await_IO else if defer_cancel t then Await_Deferring else Await_Plain)"

inductive task_step :: "'a task_run \<Rightarrow> 'a task_run \<Rightarrow> bool" where
  tr_start: "task_step R (R\<lparr>tk := snd (task_start (tk R))\<rparr>)"
| tr_await: "\<not> task_await_ready (tk R) \<Longrightarrow> task_await_suspend h lp (tk R) = Inr (as, t) \<Longrightarrow>
    task_step R (R\<lparr>tk := t, parked := Some h\<rparr>)"
| tr_first_resume: "frame (tk R) = Queued \<Longrightarrow> \<not> suspended (tk R) \<Longrightarrow> task_step R (R\<lparr>tk := (tk R)\<lparr>frame := Running\<rparr>\<rparr>)"
| tr_wait_over: "frame (tk R) = Waiting \<Longrightarrow> task_step R (R\<lparr>tk := (tk R)\<lparr>frame := Queued\<rparr>\<rparr>)"
| tr_resume: "frame (tk R) = Queued \<Longrightarrow> suspended (tk R) \<Longrightarrow> wrap_resume (kind_of (tk R)) (inner :: unit result) (tk R) = (r, t) \<Longrightarrow>
    task_step R (R\<lparr>tk := t, asked := False\<rparr>)"
| tr_no_wait: "frame (tk R) = Running \<Longrightarrow> wrap_ready b (tk R) \<Longrightarrow> wrap_resume k (inner :: unit result) (tk R) = (r, t) \<Longrightarrow>
    task_step R (R\<lparr>tk := t\<rparr>)"
| tr_suspend: "frame (tk R) = Running \<Longrightarrow> \<not> wrap_ready False (tk R) \<Longrightarrow> task_step R (R\<lparr>tk := wrap_suspend k (tk R)\<rparr>)"
| tr_declined: "frame (tk R) = Running \<Longrightarrow> \<not> wrap_ready False (tk R) \<Longrightarrow>
    wrap_resume k (inner :: unit result) (wrap_not_suspended k (wrap_suspend k (tk R))) = (r, t) \<Longrightarrow> task_step R (R\<lparr>tk := t\<rparr>)"
| tr_threw: "frame (tk R) = Running \<Longrightarrow> \<not> wrap_ready False (tk R) \<Longrightarrow>
    task_step R (R\<lparr>tk := wrap_threw (wrap_suspend k (tk R))\<rparr>)"
| tr_return: "frame (tk R) = Running \<Longrightarrow> task_step R (end_body (return_value v (tk R)) R)"
| tr_escape: "frame (tk R) = Running \<Longrightarrow> task_step R (end_body (unhandled_exception e (tk R)) R)"
| tr_cancel: "task_cancel d (tk R) = (as, t) \<Longrightarrow> task_step R (R\<lparr>tk := t, asked := asked R \<or> asks as\<rparr>)"
| tr_waiter_gone: "parked R = Some h \<Longrightarrow> task_step R (R\<lparr>tk := task_on_waiter_destroyed h (tk R), parked := None\<rparr>)"
| tr_take: "task_await_ready (tk R) \<Longrightarrow> take_result (tk R) = (r, t) \<Longrightarrow> task_step R (R\<lparr>tk := t\<rparr>)"
| tr_detach: "has_handle (tk R) \<or> ready (tk R) \<Longrightarrow> task_step R (R\<lparr>tk := task_detach (tk R)\<rparr>)"
| tr_destroy: "parked R = None \<Longrightarrow> frame (tk R) \<noteq> Running \<Longrightarrow> task_step R (R\<lparr>tk := snd (task_destroy (tk R))\<rparr>)"
| tr_reap: "frame (tk R) = Doomed \<Longrightarrow> task_step R (R\<lparr>tk := (tk R)\<lparr>frame := Gone\<rparr>\<rparr>)"

definition task_begin :: "'a task_run \<Rightarrow> bool" where
  "task_begin R \<longleftrightarrow> R = \<lparr>tk = task_new, parked = None, woken = [], asked = False\<rparr>"


subsection \<open>The invariant\<close>

text \<open>The handle of a task is set exactly while its frame is alive (unless the task was detached); the
  flags follow the state of the frame; a completed task has an outcome.\<close>

definition live :: "'a task \<Rightarrow> bool" where
  "live t \<longleftrightarrow> frame t \<noteq> Doomed \<and> frame t \<noteq> Gone"

definition handle_ok :: "'a task \<Rightarrow> bool" where
  "handle_ok t \<longleftrightarrow>
    (has_handle t \<longleftrightarrow> pr_attached t \<and> live t) \<and> (has_handle t \<longrightarrow> \<not> ready t) \<and>
    (live t \<longrightarrow> (started t \<longleftrightarrow> frame t \<noteq> Fresh) \<and> pr_exception t = None) \<and>
    (pr_attached t \<and> ready t \<longrightarrow> result t \<noteq> None \<or> exception t \<noteq> None)"

definition flags_ok :: "'a task \<Rightarrow> bool" where
  "flags_ok t \<longleftrightarrow>
    (frame t = Waiting \<longrightarrow> suspended t) \<and> (frame t = Running \<or> frame t = Fresh \<longrightarrow> \<not> suspended t) \<and>
    (pending_io t \<or> defer_cancel t \<longrightarrow> suspended t) \<and> (pending_io t \<longrightarrow> cancel_hook t \<and> \<not> defer_cancel t)"

text \<open>The awaiting coroutine is registered with a task that runs; a wait in progress knows of every
  cancellation.\<close>

definition awaiter_ok :: "'a task_run \<Rightarrow> bool" where
  "awaiter_ok R \<longleftrightarrow>
    (\<forall>h. parked R = Some h \<longrightarrow> map_option fst (continuation (tk R)) = Some h \<and> live (tk R) \<and> started (tk R)) \<and>
    (has_handle (tk R) \<longrightarrow> map_option fst (continuation (tk R)) = parked R) \<and>
    length (woken R) \<le> 1 \<and> (live (tk R) \<longrightarrow> woken R = [])"

definition cancel_ok :: "'a task_run \<Rightarrow> bool" where
  "cancel_ok R \<longleftrightarrow>
    (cancelled (tk R) \<and> frame (tk R) = Waiting \<longrightarrow> asked R) \<and> (asked R \<longrightarrow> suspended (tk R)) \<and> (frame (tk R) = Doomed \<longrightarrow> woken R = [])"

definition task_inv :: "'a task_run \<Rightarrow> bool" where
  "task_inv R \<longleftrightarrow> handle_ok (tk R) \<and> flags_ok (tk R) \<and> awaiter_ok R \<and> cancel_ok R"

lemmas task_inv_defs = task_inv_def handle_ok_def flags_ok_def awaiter_ok_def cancel_ok_def live_def

lemmas task_op_defs = task_start_def task_await_suspend_def wrap_ready_def wrap_suspend_def wrap_not_suspended_def
  wrap_threw_def task_on_waiter_destroyed_def task_detach_def task_destroy_def task_await_ready_def Let_def

lemmas task_end_defs = end_body_def return_value_def unhandled_exception_def final_suspend_def task_cancel_def asks_def
  release_handle_def store_result_def Let_def

text \<open>Resumption leaves no flag of the wait and no cancellation behind, whatever it gives the body.\<close>

lemma wrap_resume_state:
  "wrap_resume k inner t = (r, t') \<Longrightarrow>
   t' = t\<lparr>suspended := False, pending_io := False, defer_cancel := False, frame := Running, cancelled := False\<rparr>"
  by (cases t) (auto simp: wrap_resume_def Let_def split: if_splits sum.splits)

lemma await_suspend_state:
  "task_await_suspend h lp t = Inr (as, t') \<Longrightarrow>
   has_handle t \<and> continuation t = None \<and>
   t' = t\<lparr>continuation := Some (h, lp), started := True, frame := (if started t then frame t else Queued)\<rparr>"
  by (cases t; cases "continuation t") (auto simp: task_await_suspend_def Let_def split: if_splits)

lemma take_result_state: "take_result t = (r, t') \<Longrightarrow> t' = t \<or> t' = t\<lparr>result_consumed := True\<rparr>"
  by (auto simp: take_result_def split: option.splits if_splits)

lemma store_result_state:
  "pr_attached t \<Longrightarrow>
   fst (store_result t) = t\<lparr>ready := True, pr_exception := None,
     result := (if cancelled t then result t else case pr_result t of Some v \<Rightarrow> Some v | None \<Rightarrow> result t),
     exception := (case pr_exception t of Some e \<Rightarrow> Some e | None \<Rightarrow> if cancelled t then Some CancelledError else exception t)\<rparr>"
  by (cases t) (auto simp: store_result_def Let_def split: option.splits)

lemma result_consumed_inv: "task_inv (R\<lparr>tk := (tk R)\<lparr>result_consumed := b\<rparr>\<rparr>) = task_inv R"
  by (simp add: task_inv_defs)

lemma task_cancel_started:
  assumes "task_cancel d t = (as, t')" "has_handle t" "\<not> ready t" "started t" "flags_ok t" "live t"
  shows "\<exists>f. t' = t\<lparr>cancelled := True, frame := f\<rparr> \<and> (f = frame t \<or> f = Queued \<and> suspended t) \<and>
           (f = Waiting \<longrightarrow> asks as) \<and> (asks as \<longrightarrow> suspended t)"
proof -
  let ?Q = "t\<lparr>cancelled := True, frame := Queued\<rparr>"
  have f: "frame t = Waiting \<longrightarrow> suspended t" "pending_io t \<longrightarrow> suspended t \<and> cancel_hook t" "defer_cancel t \<longrightarrow> suspended t"
    using assms(5) by (simp_all add: flags_ok_def)
  consider "pending_io t" | "\<not> pending_io t" "defer_cancel t" "d" | "\<not> pending_io t" "defer_cancel t" "\<not> d"
    | "\<not> pending_io t" "\<not> defer_cancel t" "suspended t" | "\<not> suspended t" by blast
  then show ?thesis
  proof cases
    case 1
    then have "as = [Cancel_IO]" "t' = t\<lparr>cancelled := True\<rparr>" using assms(1-4) f by (simp_all add: task_cancel_def)
    with 1 f show ?thesis by (intro exI [of _ "frame t"]) (auto simp: asks_def)
  next
    case 2
    then have "as = [Ask_Deferred]" "t' = t\<lparr>cancelled := True\<rparr>" using assms(1-4) f by (simp_all add: task_cancel_def)
    with 2 f show ?thesis by (intro exI [of _ "frame t"]) (auto simp: asks_def)
  next
    case 3
    then have "as = [Ask_Deferred, Schedule_Self]" "t' = ?Q" using assms(1-4) f by (simp_all add: task_cancel_def)
    with 3 f show ?thesis by (intro exI [of _ Queued]) (auto simp: asks_def)
  next
    case 4
    then have "as = [Schedule_Self]" "t' = ?Q" using assms(1-4) f by (simp_all add: task_cancel_def)
    with 4 f show ?thesis by (intro exI [of _ Queued]) (auto simp: asks_def)
  next
    case 5
    then have "as = []" "t' = t\<lparr>cancelled := True\<rparr>" using assms(1-4) f by (auto simp: task_cancel_def)
    with 5 f show ?thesis by (intro exI [of _ "frame t"]) (auto simp: asks_def)
  qed
qed

lemma task_cancel_inv:
  assumes "task_cancel d (tk R) = (as, t)" "task_inv R"
  shows "task_inv (R\<lparr>tk := t, asked := asked R \<or> asks as\<rparr>)"
proof (cases "has_handle (tk R) \<and> \<not> ready (tk R)")
  case False
  have "as = [] \<and> t = tk R" using assms(1) unfolding task_cancel_def if_not_P [OF False] by simp
  then show ?thesis using assms(2) by (simp add: asks_def)
next
  case True
  note inv = assms(2) [unfolded task_inv_def]
  show ?thesis
  proof (cases "started (tk R)")
    case False
    have i: "pr_attached (tk R)" "pr_exception (tk R) = None" "\<not> suspended (tk R)" "\<not> pending_io (tk R)" "\<not> defer_cancel (tk R)"
      "parked R = None" "length (woken R) \<le> 1" "\<not> asked R"
      using inv True False by (auto simp: handle_ok_def flags_ok_def awaiter_ok_def cancel_ok_def)
    have "t = (tk R)\<lparr>cancelled := True, exception := Some CancelledError, ready := True, has_handle := False, frame := Gone\<rparr>" "as = []"
      using assms(1) True False i by (auto simp: task_cancel_def release_handle_def store_result_def Let_def)
    then show ?thesis using i by (simp add: task_inv_defs asks_def)
  next
    case started: True
    have "flags_ok (tk R)" "live (tk R)" using inv True by (auto simp: handle_ok_def)
    from task_cancel_started [OF assms(1) _ _ started this]
    obtain f where t: "t = (tk R)\<lparr>cancelled := True, frame := f\<rparr>" and f: "f = frame (tk R) \<or> f = Queued \<and> suspended (tk R)"
      and ask: "f = Waiting \<longrightarrow> asks as" "asks as \<longrightarrow> suspended (tk R)" using True by blast
    have l: "live t" and h: "handle_ok t"
      using f inv started \<open>live (tk R)\<close> by (auto simp: t live_def handle_ok_def)
    have fl: "flags_ok t" using f inv by (auto simp: t flags_ok_def)
    have "awaiter_ok (R\<lparr>tk := t, asked := asked R \<or> asks as\<rparr>)"
      using inv l \<open>live (tk R)\<close> by (simp add: t awaiter_ok_def)
    moreover have "cancel_ok (R\<lparr>tk := t, asked := asked R \<or> asks as\<rparr>)"
      using inv l ask by (auto simp: t cancel_ok_def live_def)
    ultimately show ?thesis using h fl by (simp add: task_inv_def)
  qed
qed

lemma task_step_inv: "task_step R S \<Longrightarrow> task_inv R \<Longrightarrow> task_inv S"
proof (induction rule: task_step.induct)
  case (tr_start R)
  then show ?case unfolding task_inv_def
    by ((elim conjE; intro conjI; cases "frame (tk R)"), (simp_all add: task_inv_defs task_op_defs split: if_splits option.splits)?, auto?)
next
  case (tr_await R h lp as t)
  then show ?case unfolding task_inv_def using await_suspend_state [OF tr_await.hyps(2)]
    by ((elim conjE; intro conjI; cases "frame (tk R)"), (simp_all add: task_inv_defs)?, auto?)
next
  case (tr_first_resume R)
  then show ?case unfolding task_inv_def
    by ((elim conjE; intro conjI; cases "frame (tk R)"), (simp_all add: task_inv_defs task_op_defs split: if_splits option.splits)?, auto?)
next
  case (tr_wait_over R)
  then show ?case unfolding task_inv_def
    by ((elim conjE; intro conjI; cases "frame (tk R)"), (simp_all add: task_inv_defs task_op_defs split: if_splits option.splits)?, auto?)
next
  case (tr_resume R inner r t)
  then show ?case unfolding task_inv_def using wrap_resume_state [OF tr_resume.hyps(3)]
    by ((elim conjE; intro conjI; cases "frame (tk R)"), (simp_all add: task_inv_defs task_op_defs split: if_splits option.splits)?, auto?)
next
  case (tr_no_wait R b k inner r t)
  then show ?case unfolding task_inv_def using wrap_resume_state [OF tr_no_wait.hyps(3)]
    by ((elim conjE; intro conjI; cases "frame (tk R)"), (simp_all add: task_inv_defs task_op_defs split: if_splits option.splits)?, auto?)
next
  case (tr_suspend R k)
  then show ?case unfolding task_inv_def
    by ((elim conjE; intro conjI; cases "frame (tk R)"), (simp_all add: task_inv_defs task_op_defs split: if_splits option.splits)?, auto?)
next
  case (tr_declined R k inner r t)
  then show ?case unfolding task_inv_def using wrap_resume_state [OF tr_declined.hyps(3)]
    by ((elim conjE; intro conjI; cases "frame (tk R)"), (simp_all add: task_inv_defs task_op_defs split: if_splits option.splits)?, auto?)
next
  case (tr_threw R k)
  then show ?case unfolding task_inv_def
    by ((elim conjE; intro conjI; cases "frame (tk R)"), (simp_all add: task_inv_defs task_op_defs split: if_splits option.splits)?, auto?)
next
  case (tr_return R v)
  then show ?case unfolding task_inv_def
    by ((elim conjE; intro conjI; cases "frame (tk R)"), (simp_all add: task_inv_defs task_end_defs split: if_splits option.splits)?, auto?)
next
  case (tr_escape R e)
  then show ?case unfolding task_inv_def
    by ((elim conjE; intro conjI; cases "frame (tk R)"), (simp_all add: task_inv_defs task_end_defs split: if_splits option.splits)?, auto?)
next
  case (tr_cancel d R as t)
  then show ?case by (rule task_cancel_inv)
next
  case (tr_waiter_gone R h)
  then show ?case unfolding task_inv_def
    by ((elim conjE; intro conjI; cases "frame (tk R)"), (simp_all add: task_inv_defs task_op_defs split: if_splits option.splits)?, auto?)
next
  case (tr_take R r t)
  then show ?case using take_result_state [OF tr_take.hyps(2)] by (auto simp: result_consumed_inv)
next
  case (tr_detach R)
  then show ?case unfolding task_inv_def
    by ((elim conjE; intro conjI; cases "frame (tk R)"), (simp_all add: task_inv_defs task_op_defs split: if_splits option.splits)?, auto?)
next
  case (tr_destroy R)
  then show ?case unfolding task_inv_def
    by ((elim conjE; intro conjI; cases "frame (tk R)"), (simp_all add: task_inv_defs task_op_defs split: if_splits option.splits)?, auto?)
next
  case (tr_reap R)
  then show ?case unfolding task_inv_def
    by ((elim conjE; intro conjI; cases "frame (tk R)"), (simp_all add: task_inv_defs task_op_defs split: if_splits option.splits)?, auto?)
qed

interpretation tasks: inductive_invariant task_begin task_step task_inv
proof unfold_locales
  show "task_begin R \<Longrightarrow> task_inv R" for R :: "'a task_run"
    by (simp add: task_begin_def task_inv_defs task_new_def)
qed (simp add: task_step_inv)


subsection \<open>Properties\<close>

text \<open>C3. A cancellation is never lost. In every run of a task that is not finished, \<open>cancel\<close> either ends a
  task that has not started, with \<open>CancelledError\<close>, or leaves it in the ready queue or running, or
  has told the I/O or the deferring wait it is suspended in; a task with a pending cancellation is
  suspended only after its wait has been told. The next await point of a task with a pending
  cancellation does not suspend and throws, with the flag cleared, so that it is thrown once; and a
  body that returns before that does not deliver a value but \<open>CancelledError\<close>.\<close>

theorem cancellation_delivered:
  assumes "reachable task_begin task_step R" "has_handle (tk R)"
  shows "(case task_cancel d (tk R) of (as, t) \<Rightarrow>
            if started (tk R) then cancelled t \<and> (frame t = Waiting \<longrightarrow> asks as) \<and> live t
            else frame t = Gone \<and> ready t \<and> \<not> has_handle t \<and> exception t = Some CancelledError) \<and>
         (cancelled (tk R) \<and> frame (tk R) = Waiting \<longrightarrow> asked R) \<and>
         (cancelled (tk R) \<longrightarrow>
            wrap_ready b (tk R) \<and> isl (fst (wrap_resume k (inner :: unit result) (tk R))) \<and>
            \<not> cancelled (snd (wrap_resume k inner (tk R))) \<and>
            (k \<noteq> Await_Deferring \<longrightarrow> fst (wrap_resume k inner (tk R)) = Inl CancelledError) \<and>
            exception (tk (end_body (return_value v (tk R)) R)) = Some CancelledError)"
proof -
  have inv: "task_inv R" using tasks.invariant_reachable [OF assms(1)] .
  then have "live (tk R)" "pr_attached (tk R)" "\<not> ready (tk R)" "pr_exception (tk R) = None" "frame (tk R) = Waiting \<longrightarrow> suspended (tk R)"
    using assms(2) by (simp_all add: task_inv_def handle_ok_def flags_ok_def)
  with assms(2) have "case task_cancel d (tk R) of (as, t) \<Rightarrow>
            if started (tk R) then cancelled t \<and> (frame t = Waiting \<longrightarrow> asks as) \<and> live t
            else frame t = Gone \<and> ready t \<and> \<not> has_handle t \<and> exception t = Some CancelledError"
    by (auto simp: task_cancel_def asks_def live_def release_handle_def store_result_def Let_def split: option.split)
  moreover have "cancelled (tk R) \<and> frame (tk R) = Waiting \<longrightarrow> asked R"
    using inv by (simp add: task_inv_def cancel_ok_def)
  moreover have "cancelled (tk R) \<longrightarrow>
            wrap_ready b (tk R) \<and> isl (fst (wrap_resume k inner (tk R))) \<and> \<not> cancelled (snd (wrap_resume k inner (tk R))) \<and>
            (k \<noteq> Await_Deferring \<longrightarrow> fst (wrap_resume k inner (tk R)) = Inl CancelledError)"
    by (auto simp: wrap_ready_def wrap_resume_def Let_def split: sum.splits)
  moreover have "cancelled (tk R) \<longrightarrow>
     exception (tk (end_body (return_value v (tk R)) R)) = Some CancelledError"
    using \<open>pr_attached (tk R)\<close> \<open>pr_exception (tk R) = None\<close>
    by (simp add: end_body_def return_value_def final_suspend_def release_handle_def store_result_def Let_def)
  ultimately show ?thesis by blast
qed

definition suspended_run :: "nat task_run" where
  "suspended_run = \<lparr>tk = wrap_suspend Await_IO ((snd (task_start task_new))\<lparr>frame := Running\<rparr>), parked = None, woken = [], asked = False\<rparr>"

lemma suspended_run_reachable: "reachable task_begin task_step suspended_run"
proof -
  let ?R0 = "\<lparr>tk = task_new, parked = None, woken = [], asked = False\<rparr> :: nat task_run"
  have "reachable task_begin task_step ?R0" by (rule reachable.reachable_init) (simp add: task_begin_def)
  from reachable.reachable_step [OF this tr_start]
  have 1: "reachable task_begin task_step (?R0\<lparr>tk := snd (task_start task_new)\<rparr>)" by simp
  have "task_step (?R0\<lparr>tk := snd (task_start task_new)\<rparr>) (?R0\<lparr>tk := (snd (task_start task_new))\<lparr>frame := Running\<rparr>\<rparr>)"
    using tr_first_resume [of "?R0\<lparr>tk := snd (task_start task_new)\<rparr>"] by (simp add: task_start_def task_new_def)
  with 1 have 2: "reachable task_begin task_step (?R0\<lparr>tk := (snd (task_start task_new))\<lparr>frame := Running\<rparr>\<rparr>)"
    by (rule reachable.reachable_step)
  have "task_step (?R0\<lparr>tk := (snd (task_start task_new))\<lparr>frame := Running\<rparr>\<rparr>) suspended_run"
    using tr_suspend [of "?R0\<lparr>tk := (snd (task_start task_new))\<lparr>frame := Running\<rparr>\<rparr>" Await_IO]
    by (simp add: suspended_run_def task_start_def task_new_def wrap_ready_def)
  with 2 show ?thesis by (rule reachable.reachable_step)
qed

theorem cancellation_delivered_witness:
  "has_handle (tk suspended_run) \<and> frame (snd (task_cancel True (tk suspended_run))) = Waiting \<and>
   fst (task_cancel True (tk suspended_run)) = [Cancel_IO] \<and> asks (fst (task_cancel True (tk suspended_run)))"
  using cancellation_delivered [OF suspended_run_reachable, of True]
  by (simp add: suspended_run_def task_start_def task_new_def wrap_suspend_def task_cancel_def)



text \<open>The two forms of a task differ when the body fails while a cancellation is pending: the exception
  of the body reaches the coroutine that awaits a \<open>Task<T>\<close> and is lost in a \<open>Task<void>\<close>.\<close>

theorem void_task_hides_failure:
  assumes "pr_attached t" "cancelled t" "pr_exception t = Some e"
  shows "exception (fst (store_result t)) = Some e \<and> exception (fst (store_result_void t)) = Some CancelledError"
  using assms by (simp add: store_result_def store_result_void_def Let_def split: option.split)

end
