(* ===== verification/Task_Group.thy ===== *)
theory Task_Group
  imports Coro_Prelude
begin

section \<open>The task group\<close>

text \<open>
  task_group.hpp: the state shared by a group and the monitors of its children, its operations, and
  the group at work: children that end in their own time, monitors that await them and are
  cancelled, the coroutine that waits for the group. A task is known by its number. A call of
  \<open>EventLoop::schedule\<close> is an entry (handle, loop) of the list an operation returns.

  From task.hpp the monitors use this: \<open>cancel\<close> sets the flag of an unfinished task, and the next
  resumption at a \<open>co_await\<close> clears the flag and throws \<open>CancelledError\<close> there, before looking at
  what was awaited.
\<close>

subsection \<open>Shared state\<close>

datatype group_phase = Open | Closing | Finished

record task_group_state =
  remaining :: nat
  waiter :: "(handle \<times> nat) option"
  exceptions :: "coro_error list"
  monitors :: "nat list"
  cancel_requested :: bool
  parent_cancelled :: bool
  phase :: group_phase
  wait_used :: bool

definition group_new :: task_group_state where
  "group_new = \<lparr>remaining = 0, waiter = None, exceptions = [], monitors = [], cancel_requested = False,
     parent_cancelled = False, phase = Open, wait_used = False\<rparr>"

definition waiter_ready :: "task_group_state \<Rightarrow> bool" where
  "waiter_ready g = (remaining g = 0)"

definition install_waiter :: "handle \<Rightarrow> nat \<Rightarrow> task_group_state \<Rightarrow> (handle \<times> nat) list \<times> task_group_state" where
  "install_waiter h lp g = (if remaining g = 0 then ([(h, lp)], g) else ([], g\<lparr>waiter := Some (h, lp)\<rparr>))"

definition abandon_waiter :: "task_group_state \<Rightarrow> task_group_state" where
  "abandon_waiter g = g\<lparr>waiter := None\<rparr>"

text \<open>\<open>is_ready\<close> says which monitors have finished; the result are the monitors to cancel.\<close>

definition record_failure :: "coro_error \<Rightarrow> nat \<Rightarrow> (nat \<Rightarrow> bool) \<Rightarrow> task_group_state \<Rightarrow> nat list \<times> task_group_state" where
  "record_failure e self is_ready g =
    (let g = g\<lparr>exceptions := exceptions g @ [e], phase := (if phase g = Open then Closing else phase g)\<rparr>
     in if \<not> cancel_requested g
        then (filter (\<lambda>m. m \<noteq> self \<and> \<not> is_ready m) (monitors g), g\<lparr>cancel_requested := True\<rparr>)
        else ([], g))"

definition record_exception :: "coro_error \<Rightarrow> task_group_state \<Rightarrow> task_group_state" where
  "record_exception e g = g\<lparr>exceptions := exceptions g @ [e]\<rparr>"

definition group_complete :: "task_group_state \<Rightarrow> (handle \<times> nat) list \<times> task_group_state" where
  "group_complete g =
    (let g = g\<lparr>remaining := remaining g - 1\<rparr>
     in if remaining g = 0 then
          (case waiter g of
             Some w \<Rightarrow> ([w], g\<lparr>monitors := [], waiter := None\<rparr>)
           | None \<Rightarrow> ([], g\<lparr>monitors := []\<rparr>))
        else ([], g))"

definition pending_count :: "task_group_state \<Rightarrow> nat" where
  "pending_count g = remaining g"

subsection \<open>Operations of the group\<close>

text \<open>Registration of a child's monitor; the second result says whether the group was closed in
  between (only a call from another thread can do that).\<close>

definition group_spawn :: "nat \<Rightarrow> task_group_state \<Rightarrow> task_group_state result" where
  "group_spawn i g =
    (if phase g \<noteq> Open then Inl StructuredConcurrencyError
     else Inr (g\<lparr>monitors := monitors g @ [i], remaining := remaining g + 1\<rparr>))"

definition group_wait :: "task_group_state \<Rightarrow> task_group_state result" where
  "group_wait g =
    (if wait_used g then Inl StructuredConcurrencyError else Inr (g\<lparr>wait_used := True, phase := Closing\<rparr>))"

definition group_cancel :: "(nat \<Rightarrow> bool) \<Rightarrow> task_group_state \<Rightarrow> nat list \<times> task_group_state" where
  "group_cancel is_ready g =
    (let g = g\<lparr>phase := (if phase g = Open then Closing else phase g)\<rparr>
     in (filter (\<lambda>m. \<not> is_ready m) (monitors g), g))"

definition group_destroy :: "(nat \<Rightarrow> bool) \<Rightarrow> task_group_state \<Rightarrow> nat list" where
  "group_destroy is_ready g = filter (\<lambda>m. \<not> is_ready m) (monitors g)"

definition accepts_new_tasks :: "task_group_state \<Rightarrow> bool" where
  "accepts_new_tasks g = (phase g = Open)"

definition group_done :: "task_group_state \<Rightarrow> bool" where
  "group_done g = (pending_count g = 0)"

subsection \<open>The awaiter of \<open>wait\<close>\<close>

definition group_await_resume :: "task_group_state \<Rightarrow> coro_error list \<times> task_group_state" where
  "group_await_resume g =
    (let g = abandon_waiter g in (exceptions g, g\<lparr>exceptions := [], phase := Finished\<rparr>))"

definition group_on_cancel_requested :: "(nat \<Rightarrow> bool) \<Rightarrow> task_group_state \<Rightarrow> nat list \<times> task_group_state" where
  "group_on_cancel_requested is_ready g =
    (let g = g\<lparr>parent_cancelled := True, phase := (if phase g = Open then Closing else phase g)\<rparr>
     in (filter (\<lambda>m. \<not> is_ready m) (monitors g), g))"

definition group_on_waiter_destroyed :: "handle \<Rightarrow> (nat \<Rightarrow> bool) \<Rightarrow> task_group_state \<Rightarrow> nat list \<times> task_group_state" where
  "group_on_waiter_destroyed h is_ready g =
    (let g = (if map_option fst (waiter g) = Some h then g\<lparr>waiter := None\<rparr> else g)
     in (filter (\<lambda>m. \<not> is_ready m) (monitors g), g))"

subsection \<open>The group at work\<close>

text \<open>A monitor awaits its child, or has been cancelled, has passed the cancellation on and awaits the
  child again, or has finished. \<open>flagged\<close>: monitors with their cancel flag set. \<open>ended\<close>: the children
  that have ended, with their exception. \<open>asked\<close>: children asked to cancel. \<open>cut\<close>: children
  whose monitor finished on a cancellation that came while it awaited the child again.
  \<open>parked\<close>, \<open>runnable\<close>: the coroutine waiting for the group; \<open>delivered\<close>: what \<open>wait\<close> gave.\<close>

datatype mon_phase = Awaiting | Forwarding | Ended

record group_run =
  gs :: task_group_state
  mon :: "nat \<Rightarrow> mon_phase option"
  flagged :: "nat set"
  ended :: "nat \<Rightarrow> coro_error option option"
  asked :: "nat set"
  cut :: "nat set"
  parked :: bool
  runnable :: bool
  delivered :: "coro_error list"

definition is_ready :: "group_run \<Rightarrow> nat \<Rightarrow> bool" where
  "is_ready R m = (mon R m = Some Ended)"

definition cancel_all :: "nat list \<Rightarrow> group_run \<Rightarrow> group_run" where
  "cancel_all ms R = R\<lparr>flagged := flagged R \<union> set ms\<rparr>"

text \<open>The end of a monitor.\<close>

definition mon_end :: "nat \<Rightarrow> group_run \<Rightarrow> group_run" where
  "mon_end i R =
    (case group_complete (gs R) of (ws, g) \<Rightarrow>
       R\<lparr>gs := g, mon := (mon R)(i \<mapsto> Ended), runnable := runnable R \<or> ws \<noteq> []\<rparr>)"

text \<open>The first \<open>co_await\<close> of the monitor is over.\<close>

definition mon_awaited :: "nat \<Rightarrow> group_run \<Rightarrow> group_run" where
  "mon_awaited i R =
    (if i \<in> flagged R
     then R\<lparr>flagged := flagged R - {i}, mon := (mon R)(i \<mapsto> Forwarding), asked := insert i (asked R)\<rparr>
     else case ended R i of
       None \<Rightarrow> R
     | Some None \<Rightarrow> mon_end i R
     | Some (Some CancelledError) \<Rightarrow> R\<lparr>mon := (mon R)(i \<mapsto> Forwarding), asked := insert i (asked R)\<rparr>
     | Some (Some e) \<Rightarrow>
         (case record_failure e i (is_ready R) (gs R) of (ms, g) \<Rightarrow> mon_end i (cancel_all ms (R\<lparr>gs := g\<rparr>))))"

text \<open>The second one is over: any \<open>CancelledError\<close> is taken for the child's.\<close>

definition mon_forwarded :: "nat \<Rightarrow> group_run \<Rightarrow> group_run" where
  "mon_forwarded i R =
    (if i \<in> flagged R
     then mon_end i (R\<lparr>flagged := flagged R - {i}, cut := insert i (cut R)\<rparr>)
     else case ended R i of
       None \<Rightarrow> R
     | Some None \<Rightarrow> mon_end i R
     | Some (Some CancelledError) \<Rightarrow> mon_end i R
     | Some (Some e) \<Rightarrow> mon_end i (R\<lparr>gs := record_exception e (gs R)\<rparr>))"

inductive group_step :: "group_run \<Rightarrow> group_run \<Rightarrow> bool" where
  gr_spawn: "mon R i = None \<Longrightarrow> group_spawn i (gs R) = Inr g \<Longrightarrow> group_step R (R\<lparr>gs := g, mon := (mon R)(i \<mapsto> Awaiting)\<rparr>)"
| gr_child: "mon R i \<noteq> None \<Longrightarrow> ended R i = None \<Longrightarrow> group_step R (R\<lparr>ended := (ended R)(i \<mapsto> r)\<rparr>)"
| gr_awaited: "mon R i = Some Awaiting \<Longrightarrow> i \<in> flagged R \<or> ended R i \<noteq> None \<Longrightarrow> group_step R (mon_awaited i R)"
| gr_forwarded: "mon R i = Some Forwarding \<Longrightarrow> i \<in> flagged R \<or> ended R i \<noteq> None \<Longrightarrow> group_step R (mon_forwarded i R)"
| gr_cancel: "group_cancel (is_ready R) (gs R) = (ms, g) \<Longrightarrow> group_step R (cancel_all ms (R\<lparr>gs := g\<rparr>))"
| gr_destroy: "group_step R (cancel_all (group_destroy (is_ready R) (gs R)) R)"
| gr_wait: "group_wait (gs R) = Inr g \<Longrightarrow> install_waiter h lp g = (ws, g') \<Longrightarrow>
    group_step R (R\<lparr>gs := g', parked := True, runnable := ws \<noteq> []\<rparr>)"
| gr_parent: "parked R \<Longrightarrow> group_on_cancel_requested (is_ready R) (gs R) = (ms, g) \<Longrightarrow> group_step R (cancel_all ms (R\<lparr>gs := g\<rparr>))"
| gr_resume: "parked R \<Longrightarrow> runnable R \<Longrightarrow> group_await_resume (gs R) = (es, g) \<Longrightarrow>
    group_step R (R\<lparr>gs := g, parked := False, runnable := False, delivered := es\<rparr>)"
| gr_gone: "parked R \<Longrightarrow> waiter (gs R) = Some (h, lp) \<Longrightarrow> group_on_waiter_destroyed h (is_ready R) (gs R) = (ms, g) \<Longrightarrow>
    group_step R (cancel_all ms (R\<lparr>gs := g, parked := False, runnable := False\<rparr>))"

definition group_start :: "group_run \<Rightarrow> bool" where
  "group_start R \<longleftrightarrow> R = \<lparr>gs = group_new, mon = Map.empty, flagged = {}, ended = Map.empty, asked = {}, cut = {},
     parked = False, runnable = False, delivered = []\<rparr>"

subsection \<open>The barrier\<close>

definition active :: "group_run \<Rightarrow> nat set" where
  "active R = {i. mon R i = Some Awaiting \<or> mon R i = Some Forwarding}"

definition errors :: "group_run \<Rightarrow> coro_error set" where
  "errors R = set (exceptions (gs R)) \<union> set (delivered R)"

text \<open>The count and the table follow the monitors; the waiting coroutine is registered or scheduled,
  and scheduled only when nothing is left; what the monitors saw is kept.\<close>

definition count_ok :: "group_run \<Rightarrow> bool" where
  "count_ok R \<longleftrightarrow> finite (active R) \<and> remaining (gs R) = card (active R) \<and> active R \<subseteq> set (monitors (gs R))"

definition waiter_ok :: "group_run \<Rightarrow> bool" where
  "waiter_ok R \<longleftrightarrow>
    (waiter (gs R) \<noteq> None \<longrightarrow> parked R \<and> remaining (gs R) > 0) \<and> (parked R \<longrightarrow> wait_used (gs R) \<and> (waiter (gs R) \<noteq> None \<or> runnable R)) \<and>
    (runnable R \<longrightarrow> parked R \<and> remaining (gs R) = 0) \<and> (wait_used (gs R) \<longrightarrow> phase (gs R) \<noteq> Open) \<and>
    (parked R \<or> \<not> wait_used (gs R) \<longrightarrow> delivered R = [])"

definition outcome_ok :: "group_run \<Rightarrow> bool" where
  "outcome_ok R \<longleftrightarrow>
    (\<forall>i. mon R i = Some Ended \<longrightarrow> ended R i \<noteq> None \<or> i \<in> cut R) \<and>
    (\<forall>i e. mon R i = Some Ended \<longrightarrow> i \<notin> cut R \<longrightarrow> ended R i = Some (Some e) \<longrightarrow> e \<noteq> CancelledError \<longrightarrow> e \<in> errors R) \<and>
    (\<forall>e \<in> errors R. e \<noteq> CancelledError \<and> (\<exists>i. ended R i = Some (Some e)))"

definition group_inv :: "group_run \<Rightarrow> bool" where
  "group_inv R \<longleftrightarrow> count_ok R \<and> waiter_ok R \<and> outcome_ok R"

lemma cancel_all_simps [simp]:
  "gs (cancel_all ms R) = gs R" "mon (cancel_all ms R) = mon R" "ended (cancel_all ms R) = ended R" "cut (cancel_all ms R) = cut R"
  "parked (cancel_all ms R) = parked R" "runnable (cancel_all ms R) = runnable R" "delivered (cancel_all ms R) = delivered R"
  "active (cancel_all ms R) = active R" "errors (cancel_all ms R) = errors R"
  by (simp_all add: cancel_all_def active_def errors_def)

lemma group_inv_cancel_all [simp]: "group_inv (cancel_all ms R) = group_inv R"
  by (simp add: group_inv_def count_ok_def waiter_ok_def outcome_ok_def)

lemma mon_end_simps:
  "mon (mon_end i R) = (mon R)(i \<mapsto> Ended)" "ended (mon_end i R) = ended R" "cut (mon_end i R) = cut R"
  "parked (mon_end i R) = parked R" "delivered (mon_end i R) = delivered R" "errors (mon_end i R) = errors R"
  "active (mon_end i R) = active R - {i}"
  by (auto simp: mon_end_def group_complete_def active_def errors_def Let_def split: prod.splits option.splits)

lemma mon_end_inv:
  assumes inv: "group_inv R" and i: "i \<in> active R" and seen: "ended R i \<noteq> None \<or> i \<in> cut R"
    and kept: "\<And>e. i \<notin> cut R \<Longrightarrow> ended R i = Some (Some e) \<Longrightarrow> e \<noteq> CancelledError \<Longrightarrow> e \<in> errors R"
  shows "group_inv (mon_end i R)"
proof -
  have c: "finite (active R)" "remaining (gs R) = card (active R)" "active R \<subseteq> set (monitors (gs R))"
    using inv by (simp_all add: group_inv_def count_ok_def)
  have rem: "remaining (gs (mon_end i R)) = card (active R) - 1" and
    mons: "monitors (gs (mon_end i R)) = (if card (active R) - 1 = 0 then [] else monitors (gs R))"
    using c(2) by (auto simp: mon_end_def group_complete_def Let_def split: prod.splits option.splits)
  have "card (active R - {i}) = card (active R) - 1" using i c(1) by simp
  moreover have "active R - {i} = {}" if "card (active R) - 1 = 0"
    using that calculation c(1) by (metis card_0_eq finite_Diff)
  ultimately have "count_ok (mon_end i R)"
    using c rem mons by (auto simp: count_ok_def mon_end_simps)
  moreover have "waiter_ok (mon_end i R)"
  proof -
    have "card (active R) > 0" using i c(1) by (auto simp: card_gt_0_iff)
    then have w: "waiter_ok R" "\<not> runnable R" "remaining (gs R) > 0"
      using inv c(2) by (auto simp: group_inv_def waiter_ok_def)
    show ?thesis
      using w by (cases "remaining (gs R) = 1"; cases "waiter (gs R)")
        (simp_all add: waiter_ok_def mon_end_def group_complete_def Let_def)
  qed
  moreover have "outcome_ok (mon_end i R)"
  proof -
    have o: "outcome_ok R" using inv by (simp add: group_inv_def)
    show ?thesis unfolding outcome_ok_def mon_end_simps
    proof (intro conjI allI impI)
      show "ended R j \<noteq> None \<or> j \<in> cut R" if "((mon R)(i \<mapsto> Ended)) j = Some Ended" for j
        using that seen o by (cases "j = i") (simp_all add: outcome_ok_def)
      show "e \<in> errors R" if "((mon R)(i \<mapsto> Ended)) j = Some Ended" "j \<notin> cut R" "ended R j = Some (Some e)" "e \<noteq> CancelledError" for j e
        using that kept o by (cases "j = i") (auto simp: outcome_ok_def)
    qed (use o in \<open>simp add: outcome_ok_def\<close>)
  qed
  ultimately show ?thesis by (simp add: group_inv_def)
qed

lemma record_inv:
  assumes "group_inv R" "gs R' = (gs R)\<lparr>exceptions := exceptions (gs R) @ [e], phase := p, cancel_requested := c\<rparr>"
    and "p \<noteq> Open \<or> p = phase (gs R)" "ended R i = Some (Some e)" "e \<noteq> CancelledError" "active R \<noteq> {}"
    and same: "mon R' = mon R" "ended R' = ended R" "cut R' = cut R" "parked R' = parked R" "runnable R' = runnable R" "delivered R' = delivered R"
  shows "group_inv R'" "e \<in> errors R'"
proof -
  have "errors R' = insert e (errors R)" "active R' = active R" using assms(2) same by (auto simp: errors_def active_def)
  then show "group_inv R'" "e \<in> errors R'"
    using assms by (auto simp: group_inv_def count_ok_def waiter_ok_def outcome_ok_def)
qed


lemma count_ok_frame: "gs R' = gs R \<Longrightarrow> active R' = active R \<Longrightarrow> count_ok R \<Longrightarrow> count_ok R'"
  by (simp add: count_ok_def)

lemma waiter_ok_frame:
  "gs R' = gs R \<Longrightarrow> parked R' = parked R \<Longrightarrow> runnable R' = runnable R \<Longrightarrow> delivered R' = delivered R \<Longrightarrow>
    waiter_ok R \<Longrightarrow> waiter_ok R'"
  by (simp add: waiter_ok_def)

lemma group_inv_frame:
  assumes "group_inv R" "gs R' = gs R" "active R' = active R" "parked R' = parked R" "runnable R' = runnable R" "delivered R' = delivered R"
    and "outcome_ok R \<Longrightarrow> outcome_ok R'"
  shows "group_inv R'"
  using assms count_ok_frame [of R' R] waiter_ok_frame [of R' R] by (simp add: group_inv_def)

lemma forwarding_inv:
  assumes "group_inv R" "mon R i = Some Awaiting"
  shows "group_inv (R\<lparr>flagged := F, mon := (mon R)(i \<mapsto> Forwarding), asked := A\<rparr>)"
proof -
  let ?R = "R\<lparr>flagged := F, mon := (mon R)(i \<mapsto> Forwarding), asked := A\<rparr>"
  have a: "active ?R = active R" using assms(2) by (auto simp: active_def)
  moreover have "errors ?R = errors R" by (simp add: errors_def)
  moreover have "mon ?R j = Some Ended \<longleftrightarrow> mon R j = Some Ended" for j using assms(2) by simp
  ultimately show ?thesis
    by (intro group_inv_frame [OF assms(1)]) (auto simp: outcome_ok_def)
qed

lemma awaited_inv:
  assumes inv: "group_inv R" and i: "mon R i = Some Awaiting" and e: "i \<in> flagged R \<or> ended R i \<noteq> None"
  shows "group_inv (mon_awaited i R)"
proof (cases "i \<in> flagged R")
  case True
  then show ?thesis using forwarding_inv [OF inv i] by (simp add: mon_awaited_def)
next
  case nf: False
  have act: "i \<in> active R" using i by (simp add: active_def)
  obtain r where r: "ended R i = Some r" using e nf by auto
  show ?thesis
  proof (cases "r = None \<or> r = Some CancelledError")
    case True
    then show ?thesis
      using nf r mon_end_inv [OF inv act] forwarding_inv [OF inv i, of "insert i (asked R)" "flagged R"]
      by (auto simp: mon_awaited_def)
  next
    case False
    then obtain er where er: "r = Some er" "er \<noteq> CancelledError" by auto
    obtain ms g where f: "record_failure er i (is_ready R) (gs R) = (ms, g)" by fastforce
    have g: "g = (gs R)\<lparr>exceptions := exceptions (gs R) @ [er], phase := (if phase (gs R) = Open then Closing else phase (gs R)),
        cancel_requested := True\<rparr>"
      using f by (cases "cancel_requested (gs R)") (auto simp: record_failure_def Let_def)
    have "gs (R\<lparr>gs := g\<rparr>) = (gs R)\<lparr>exceptions := exceptions (gs R) @ [er],
        phase := (if phase (gs R) = Open then Closing else phase (gs R)), cancel_requested := True\<rparr>"
      using g by simp
    note rec = record_inv [OF inv this _ _ er(2), of i]
    have "(if phase (gs R) = Open then Closing else phase (gs R)) \<noteq> Open" "active R \<noteq> {}" using act by auto
    then have "group_inv (cancel_all ms (R\<lparr>gs := g\<rparr>))" "er \<in> errors (cancel_all ms (R\<lparr>gs := g\<rparr>))"
      using rec r er(1) by auto
    then have "group_inv (mon_end i (cancel_all ms (R\<lparr>gs := g\<rparr>)))"
      using act r er by (intro mon_end_inv) (auto simp: active_def)
    then show ?thesis
      using nf r er f by (cases er) (simp_all add: mon_awaited_def)
  qed
qed

lemma forwarded_inv:
  assumes inv: "group_inv R" and i: "mon R i = Some Forwarding" and e: "i \<in> flagged R \<or> ended R i \<noteq> None"
  shows "group_inv (mon_forwarded i R)"
proof (cases "i \<in> flagged R")
  case True
  let ?R = "R\<lparr>flagged := flagged R - {i}, cut := insert i (cut R)\<rparr>"
  have "active ?R = active R" "errors ?R = errors R" by (simp_all add: active_def errors_def)
  then have "group_inv ?R" by (intro group_inv_frame [OF inv]) (auto simp: outcome_ok_def)
  then have "group_inv (mon_end i ?R)" using i by (intro mon_end_inv) (simp_all add: active_def)
  then show ?thesis using True by (simp add: mon_forwarded_def)
next
  case nf: False
  have act: "i \<in> active R" using i by (simp add: active_def)
  obtain r where r: "ended R i = Some r" using e nf by auto
  show ?thesis
  proof (cases "r = None \<or> r = Some CancelledError")
    case True
    then show ?thesis using nf r mon_end_inv [OF inv act] by (auto simp: mon_forwarded_def)
  next
    case False
    then obtain er where er: "r = Some er" "er \<noteq> CancelledError" by auto
    let ?R = "R\<lparr>gs := record_exception er (gs R)\<rparr>"
    have "gs ?R = (gs R)\<lparr>exceptions := exceptions (gs R) @ [er], phase := phase (gs R), cancel_requested := cancel_requested (gs R)\<rparr>"
      by (simp add: record_exception_def)
    from record_inv [OF inv this _ _ er(2)] have "group_inv ?R" "er \<in> errors ?R" using r er(1) act by auto
    then have "group_inv (mon_end i ?R)" using act r er by (intro mon_end_inv) (auto simp: active_def)
    then show ?thesis using nf r er by (cases er) (simp_all add: mon_forwarded_def)
  qed
qed

text \<open>A change of the shared state that touches neither the count nor what was recorded.\<close>

lemma gs_inv:
  assumes "group_inv R" "gs R' = (gs R)\<lparr>parent_cancelled := c, phase := p\<rparr>" "p \<noteq> Open \<or> p = phase (gs R)"
    and "mon R' = mon R" "ended R' = ended R" "cut R' = cut R" "parked R' = parked R" "runnable R' = runnable R" "delivered R' = delivered R"
  shows "group_inv R'"
proof -
  have "active R' = active R" "errors R' = errors R" using assms(2,4-9) by (simp_all add: active_def errors_def)
  then show ?thesis
    using assms unfolding group_inv_def count_ok_def waiter_ok_def outcome_ok_def by auto
qed

lemma group_step_inv: "group_step R R' \<Longrightarrow> group_inv R \<Longrightarrow> group_inv R'"
proof (induction rule: group_step.induct)
  case (gr_spawn R i g)
  let ?R = "R\<lparr>gs := g, mon := (mon R)(i \<mapsto> Awaiting)\<rparr>"
  have op: "phase (gs R) = Open" and g: "g = (gs R)\<lparr>monitors := monitors (gs R) @ [i], remaining := remaining (gs R) + 1\<rparr>"
    using gr_spawn(2) by (auto simp: group_spawn_def split: if_splits)
  have a: "active ?R = insert i (active R)" "i \<notin> active R" using gr_spawn(1) by (auto simp: active_def)
  have e: "errors ?R = errors R" by (simp add: errors_def g)
  have o: "outcome_ok ?R" using gr_spawn(1,3) by (auto simp: group_inv_def outcome_ok_def e)
  have "count_ok ?R" using gr_spawn(3) a by (auto simp: group_inv_def count_ok_def g)
  moreover have "waiter_ok ?R" using gr_spawn(3) op by (auto simp: group_inv_def waiter_ok_def g)
  ultimately show ?case using o by (simp add: group_inv_def)
next
  case (gr_child R i r)
  let ?R = "R\<lparr>ended := (ended R)(i \<mapsto> r)\<rparr>"
  have s: "active ?R = active R" "errors ?R = errors R" by (simp_all add: active_def errors_def)
  have o: "outcome_ok R" using gr_child(3) by (simp add: group_inv_def)
  have "outcome_ok ?R"
    using o gr_child(2) unfolding outcome_ok_def s by (auto split: if_splits) (metis option.distinct(1))
  then show ?case by (intro group_inv_frame [OF gr_child(3)]) (simp_all add: s)
next
  case (gr_wait R g h lp ws g')
  let ?R = "R\<lparr>gs := g', parked := True, runnable := ws \<noteq> []\<rparr>"
  have g: "\<not> wait_used (gs R)" "g = (gs R)\<lparr>wait_used := True, phase := Closing\<rparr>"
    using gr_wait(1) by (auto simp: group_wait_def split: if_splits)
  have s: "active ?R = active R" "errors ?R = errors R"
    using gr_wait(2) g(2) by (auto simp: active_def errors_def install_waiter_def split: if_splits)
  have "waiter_ok ?R"
    using gr_wait(2,3) g by (auto simp: group_inv_def waiter_ok_def install_waiter_def split: if_splits)
  moreover have "count_ok ?R"
    using gr_wait(2,3) g(2) s(1) by (auto simp: group_inv_def count_ok_def install_waiter_def split: if_splits)
  moreover have "outcome_ok ?R" using gr_wait(3) unfolding group_inv_def outcome_ok_def s by simp
  ultimately show ?case by (simp add: group_inv_def)
next
  case (gr_resume R es g)
  let ?R = "R\<lparr>gs := g, parked := False, runnable := False, delivered := es\<rparr>"
  have g: "g = (gs R)\<lparr>waiter := None, exceptions := [], phase := Finished\<rparr>" "es = exceptions (gs R)"
    using gr_resume(3) by (auto simp: group_await_resume_def abandon_waiter_def Let_def)
  have d: "delivered R = []" "wait_used (gs R)" using gr_resume(1,4) by (auto simp: group_inv_def waiter_ok_def)
  then have s: "active ?R = active R" "errors ?R = errors R" by (simp_all add: active_def errors_def g)
  have "waiter_ok ?R" using d by (simp add: waiter_ok_def g)
  then show ?case using gr_resume(4) s unfolding group_inv_def count_ok_def outcome_ok_def by (simp add: g)
next
  case (gr_gone R h lp ms g)
  have g: "g = (gs R)\<lparr>waiter := None\<rparr>" using gr_gone(2,3) by (simp add: group_on_waiter_destroyed_def Let_def)
  let ?R = "R\<lparr>gs := g, parked := False, runnable := False\<rparr>"
  have s: "active ?R = active R" "errors ?R = errors R" by (simp_all add: active_def errors_def g)
  have "waiter_ok ?R" using gr_gone(1,4) by (auto simp: group_inv_def waiter_ok_def g)
  then have "group_inv ?R" using gr_gone(4) s unfolding group_inv_def count_ok_def outcome_ok_def by (simp add: g)
  then show ?case by simp
next
  case (gr_cancel R ms g)
  have "gs (R\<lparr>gs := g\<rparr>) = (gs R)\<lparr>parent_cancelled := parent_cancelled (gs R), phase := (if phase (gs R) = Open then Closing else phase (gs R))\<rparr>"
    using gr_cancel(1) by (auto simp: group_cancel_def Let_def)
  then have "group_inv (R\<lparr>gs := g\<rparr>)" by (rule gs_inv [OF gr_cancel(2)]) auto
  then show ?case by simp
next
  case (gr_parent R ms g)
  have "gs (R\<lparr>gs := g\<rparr>) = (gs R)\<lparr>parent_cancelled := True, phase := (if phase (gs R) = Open then Closing else phase (gs R))\<rparr>"
    using gr_parent(2) by (auto simp: group_on_cancel_requested_def Let_def)
  then have "group_inv (R\<lparr>gs := g\<rparr>)" by (rule gs_inv [OF gr_parent(3)]) auto
  then show ?case by simp
qed (simp_all add: awaited_inv forwarded_inv)

interpretation groups: inductive_invariant group_start group_step group_inv
proof unfold_locales
  show "group_start R \<Longrightarrow> group_inv R" for R
    by (simp add: group_start_def group_inv_def count_ok_def waiter_ok_def outcome_ok_def active_def errors_def group_new_def)
qed (rule group_step_inv)


text \<open>C6. Structured concurrency, for every interleaving of children, monitors, cancellations and the
  waiting coroutine: the coroutine that waits for the group is scheduled or still registered with
  some monitor unfinished, so it is not stranded; when it is scheduled every monitor has finished and
  every child has ended, except a child whose monitor was cancelled a second time while it awaited
  the child again; \<open>wait\<close> then gives only failures of children that are not cancellations, and
  gives the failure of every child but those; and after \<open>wait\<close> the group takes no more children
  and no second \<open>wait\<close>.\<close>

theorem group_barrier:
  assumes "reachable group_start group_step R"
  shows "(parked R \<longrightarrow> runnable R \<or> waiter (gs R) \<noteq> None \<and> active R \<noteq> {}) \<and>
    (runnable R \<longrightarrow> (\<forall>i. mon R i \<noteq> None \<longrightarrow> mon R i = Some Ended \<and> (i \<notin> cut R \<longrightarrow> ended R i \<noteq> None)) \<and>
       (\<forall>e. e \<in> set (fst (group_await_resume (gs R))) \<longrightarrow> e \<noteq> CancelledError \<and> (\<exists>i. ended R i = Some (Some e))) \<and>
       (\<forall>i e. mon R i \<noteq> None \<longrightarrow> i \<notin> cut R \<longrightarrow> ended R i = Some (Some e) \<longrightarrow> e \<noteq> CancelledError \<longrightarrow>
          e \<in> set (fst (group_await_resume (gs R))))) \<and>
    (wait_used (gs R) \<longrightarrow> group_spawn i (gs R) = Inl StructuredConcurrencyError \<and> group_wait (gs R) = Inl StructuredConcurrencyError)"
proof -
  have inv: "group_inv R" using groups.invariant_reachable [OF assms] .
  then have c: "remaining (gs R) = card (active R)" "finite (active R)" and w: "waiter_ok R" and o: "outcome_ok R"
    by (simp_all add: group_inv_def count_ok_def)
  have all: "mon R j = Some Ended" if "runnable R" "mon R j \<noteq> None" for j
  proof -
    have "active R = {}" using that(1) w c by (simp add: waiter_ok_def)
    then show ?thesis using that(2) by (cases "mon R j"; cases "the (mon R j)") (auto simp: active_def)
  qed
  have es: "set (fst (group_await_resume (gs R))) = errors R" if "runnable R"
    using that w by (simp add: group_await_resume_def abandon_waiter_def errors_def waiter_ok_def Let_def)
  have "parked R \<longrightarrow> runnable R \<or> waiter (gs R) \<noteq> None \<and> active R \<noteq> {}" using w c by (auto simp: waiter_ok_def)
  moreover have "wait_used (gs R) \<longrightarrow> group_spawn i (gs R) = Inl StructuredConcurrencyError \<and> group_wait (gs R) = Inl StructuredConcurrencyError"
    using w by (simp add: waiter_ok_def group_spawn_def group_wait_def)
  ultimately show ?thesis using all es o unfolding outcome_ok_def by blast
qed

text \<open>The first failure of a child asks every other unfinished monitor to cancel.\<close>

lemma failure_cancels_siblings:
  assumes "group_inv R" "mon R i = Some Awaiting" "i \<notin> flagged R" "ended R i = Some (Some e)" "e \<noteq> CancelledError" "\<not> cancel_requested (gs R)"
  shows "active R - {i} \<subseteq> flagged (mon_awaited i R)" "phase (gs (mon_awaited i R)) \<noteq> Open"
proof -
  let ?ms = "filter (\<lambda>m. m \<noteq> i \<and> \<not> is_ready R m) (monitors (gs R))"
  have "fst (record_failure e i (is_ready R) (gs R)) = ?ms" "phase (snd (record_failure e i (is_ready R) (gs R))) \<noteq> Open"
    using assms(6) by (simp_all add: record_failure_def Let_def)
  then obtain g where f: "record_failure e i (is_ready R) (gs R) = (?ms, g)" "phase g \<noteq> Open" by (metis prod.collapse)
  then have m: "mon_awaited i R = mon_end i (cancel_all ?ms (R\<lparr>gs := g\<rparr>))"
    using assms(3-5) by (cases e) (simp_all add: mon_awaited_def)
  have "active R - {i} \<subseteq> set ?ms" using assms(1) by (auto simp: group_inv_def count_ok_def active_def is_ready_def)
  then show "active R - {i} \<subseteq> flagged (mon_awaited i R)"
    by (auto simp: m mon_end_def cancel_all_def split: prod.splits)
  show "phase (gs (mon_awaited i R)) \<noteq> Open"
    using f(2) by (simp add: m mon_end_def group_complete_def Let_def split: prod.splits option.splits)
qed

text \<open>A group of one child: it fails, and the coroutine that waits for the group is scheduled.\<close>

definition demo_group :: group_run where
  "demo_group = \<lparr>gs = \<lparr>remaining = 0, waiter = None, exceptions = [RuntimeError], monitors = [], cancel_requested = True,
      parent_cancelled = False, phase = Closing, wait_used = True\<rparr>,
     mon = [1 \<mapsto> Ended], flagged = {}, ended = [1 \<mapsto> Some RuntimeError], asked = {}, cut = {}, parked = True, runnable = True, delivered = []\<rparr>"

lemmas group_ops = group_new_def group_spawn_def group_wait_def install_waiter_def mon_awaited_def mon_forwarded_def
  record_failure_def mon_end_def group_complete_def cancel_all_def group_on_cancel_requested_def group_cancel_def is_ready_def

lemma one_child_reachable:
  "reachable group_start group_step
    \<lparr>gs = group_new\<lparr>remaining := 1, monitors := [1]\<rparr>, mon = [1 \<mapsto> Awaiting], flagged = {}, ended = Map.empty, asked = {}, cut = {},
     parked = False, runnable = False, delivered = []\<rparr>"
  (is "reachable _ _ ?R1")
proof -
  let ?R0 = "\<lparr>gs = group_new, mon = Map.empty, flagged = {}, ended = Map.empty, asked = {}, cut = {},
     parked = False, runnable = False, delivered = []\<rparr>"
  have "reachable group_start group_step ?R0" by (rule reachable_init) (simp add: group_start_def)
  moreover have "group_step ?R0 ?R1"
    using gr_spawn [of ?R0 1 "group_new\<lparr>remaining := 1, monitors := [1]\<rparr>"] by (simp add: group_ops)
  ultimately show ?thesis by (rule reachable_step)
qed

lemma demo_group_reachable: "reachable group_start group_step demo_group"
proof -
  let ?R1 = "\<lparr>gs = group_new\<lparr>remaining := 1, monitors := [1]\<rparr>, mon = [1 \<mapsto> Awaiting], flagged = {}, ended = Map.empty, asked = {},
    cut = {}, parked = False, runnable = False, delivered = []\<rparr>"
  let ?g = "group_new\<lparr>remaining := 1, monitors := [1], wait_used := True, phase := Closing\<rparr>"
  let ?R2 = "?R1\<lparr>gs := ?g\<lparr>waiter := Some (9, 1)\<rparr>, parked := True\<rparr>"
  let ?R3 = "?R2\<lparr>ended := [1 \<mapsto> Some RuntimeError]\<rparr>"
  have "group_step ?R1 ?R2" using gr_wait [of ?R1 ?g 9 1 "[]"] by (simp add: group_ops)
  moreover have "group_step ?R2 ?R3" using gr_child [of ?R2 1 "Some RuntimeError"] by simp
  moreover have "group_step ?R3 demo_group" using gr_awaited [of ?R3 1] by (simp add: group_ops demo_group_def)
  ultimately show ?thesis using one_child_reachable by (meson reachable_step)
qed

lemma group_barrier_witness: "runnable demo_group \<and> RuntimeError \<in> set (fst (group_await_resume (gs demo_group)))"
  using group_barrier [OF demo_group_reachable] by (auto simp: demo_group_def)

text \<open>The barrier does not hold when a monitor is cancelled twice: with one child that still runs
  its cleanup after the group was cancelled, a cancellation of the waiting coroutine's task is passed
  to the monitor again, which takes it for the end of the child; the waiting coroutine is scheduled
  while the child has not ended.\<close>

theorem second_cancel_breaks_barrier:
  "\<exists>R. reachable group_start group_step R \<and> runnable R \<and> mon R 1 = Some Ended \<and> ended R 1 = None \<and> 1 \<in> asked R \<and>
    waiter_ready (gs R) \<and> fst (group_await_resume (gs R)) = []"
proof -
  let ?R1 = "\<lparr>gs = group_new\<lparr>remaining := 1, monitors := [1]\<rparr>, mon = [1 \<mapsto> Awaiting], flagged = {}, ended = Map.empty, asked = {},
    cut = {}, parked = False, runnable = False, delivered = []\<rparr>"
  let ?g2 = "group_new\<lparr>remaining := 1, monitors := [1], phase := Closing\<rparr>"
  let ?R2 = "?R1\<lparr>gs := ?g2, flagged := {1}\<rparr>"
  let ?R3 = "?R2\<lparr>flagged := {}, mon := [1 \<mapsto> Forwarding], asked := {1}\<rparr>"
  let ?R4 = "?R3\<lparr>gs := ?g2\<lparr>wait_used := True, waiter := Some (9, 1)\<rparr>, parked := True\<rparr>"
  let ?R5 = "?R4\<lparr>gs := ?g2\<lparr>wait_used := True, waiter := Some (9, 1), parent_cancelled := True\<rparr>, flagged := {1}\<rparr>"
  have "group_step ?R1 ?R2" using gr_cancel [of ?R1 "[1]" ?g2] by (simp add: group_ops)
  moreover have "group_step ?R2 ?R3" using gr_awaited [of ?R2 1] by (simp add: group_ops)
  moreover have "group_step ?R3 ?R4"
    using gr_wait [of ?R3 "?g2\<lparr>wait_used := True\<rparr>" 9 1 "[]"] by (simp add: group_ops)
  moreover have "group_step ?R4 ?R5"
    using gr_parent [of ?R4 "[1]" "?g2\<lparr>wait_used := True, waiter := Some (9, 1), parent_cancelled := True\<rparr>"] by (simp add: group_ops)
  moreover have "group_step ?R5 (mon_forwarded 1 ?R5)" by (rule gr_forwarded) simp_all
  ultimately have "reachable group_start group_step (mon_forwarded 1 ?R5)" using one_child_reachable by (meson reachable_step)
  then show ?thesis
    by (intro exI [of _ "mon_forwarded 1 ?R5"] conjI) (simp_all add: group_ops waiter_ready_def group_await_resume_def abandon_waiter_def)
qed


end
