(* ===== verification/Wait_Tasks.thy ===== *)
theory Wait_Tasks
  imports Coro_Prelude
begin

section \<open>Waiting for several tasks\<close>

text \<open>
  wait.hpp and gather.hpp: the state that the monitors of the awaited tasks share with the waiting
  coroutine. A monitor awaits its task and reports a value or an exception with \<open>complete\<close>; the
  coroutine is registered by \<open>install\<close> after the monitors were started, and scheduled when the mode
  is satisfied. A call of \<open>EventLoop::schedule\<close> is an entry (handle, loop) of the list an operation
  returns. \<open>wait_any\<close>, \<open>gather_all\<close> and \<open>gather_void\<close> only call these.
\<close>

subsection \<open>Model\<close>

datatype WaitMode = FirstCompleted | FirstException | AllCompleted

record 'a wait_tasks_state =
  results :: "'a option list"
  first_exception :: "coro_error option"
  first_completed_exception :: "coro_error option"
  remaining :: nat
  caller :: "(handle \<times> nat) option"
  mode :: WaitMode
  early_done :: bool
  first_done_index :: nat
  cont_dead :: bool

definition wait_tasks_new :: "nat \<Rightarrow> WaitMode \<Rightarrow> 'a wait_tasks_state" where
  "wait_tasks_new n m = \<lparr>results = replicate n None, first_exception = None, first_completed_exception = None, remaining = n,
     caller = None, mode = m, early_done = False, first_done_index = 0, cont_dead = False\<rparr>"

definition wt_install :: "handle \<Rightarrow> nat \<Rightarrow> 'a wait_tasks_state \<Rightarrow> (handle \<times> nat) list \<times> 'a wait_tasks_state" where
  "wt_install h lp s =
    (if remaining s = 0 \<or> mode s \<noteq> AllCompleted \<and> early_done s \<or> cont_dead s then ([(h, lp)], s)
     else ([], s\<lparr>caller := Some (h, lp)\<rparr>))"

definition wt_abandon :: "'a wait_tasks_state \<Rightarrow> 'a wait_tasks_state" where
  "wt_abandon s = s\<lparr>cont_dead := True, caller := None\<rparr>"

text \<open>The decision of \<open>complete\<close>: whether the coroutine is to be notified, with the marks of the
  \<open>First\<close> modes.\<close>

definition wt_decide :: "nat \<Rightarrow> bool \<Rightarrow> coro_error option \<Rightarrow> 'a wait_tasks_state \<Rightarrow> bool \<times> 'a wait_tasks_state" where
  "wt_decide index task_failed error s =
    (let is_last = (remaining s = 0)
     in if mode s = FirstCompleted \<or> mode s = FirstException then
          (let wants_notify = (if mode s = FirstCompleted then True else task_failed)
           in if is_last \<or> wants_notify then
                (let should_notify = \<not> early_done s;
                     s = s\<lparr>early_done := True\<rparr>
                 in (should_notify,
                     if should_notify \<and> mode s = FirstCompleted
                     then s\<lparr>first_done_index := index, first_completed_exception := error\<rparr> else s))
              else (False, s))
        else (is_last, s))"

definition wt_complete ::
    "nat \<Rightarrow> bool \<Rightarrow> 'a option \<Rightarrow> coro_error option \<Rightarrow> 'a wait_tasks_state \<Rightarrow> (handle \<times> nat) list \<times> 'a wait_tasks_state" where
  "wt_complete index task_failed value error s =
    (let s = (case value of None \<Rightarrow> s | Some v \<Rightarrow> s\<lparr>results := (results s)[index := Some v]\<rparr>);
         s = (if error \<noteq> None \<and> first_exception s = None then s\<lparr>first_exception := error\<rparr> else s);
         s = s\<lparr>remaining := remaining s - 1\<rparr>
     in case wt_decide index task_failed error s of (should_notify, s) \<Rightarrow>
          (case caller s of
             Some w \<Rightarrow> if should_notify \<and> \<not> cont_dead s then ([w], s\<lparr>caller := None\<rparr>) else ([], s)
           | None \<Rightarrow> ([], s)))"

text \<open>The monitor of one task.\<close>

definition wt_monitor :: "nat \<Rightarrow> 'a result \<Rightarrow> 'a wait_tasks_state \<Rightarrow> (handle \<times> nat) list \<times> 'a wait_tasks_state" where
  "wt_monitor index res s =
    (case res of
       Inr v \<Rightarrow> wt_complete index False (Some v) None s
     | Inl e \<Rightarrow> wt_complete index True None (Some e) s)"

definition take_first_completed :: "'a wait_tasks_state \<Rightarrow> 'a list result" where
  "take_first_completed s =
    (case first_completed_exception s of
       Some e \<Rightarrow> Inl e
     | None \<Rightarrow> Inr [the (results s ! first_done_index s)])"

definition take_all_results :: "'a wait_tasks_state \<Rightarrow> 'a list" where
  "take_all_results s = map the (results s)"

text \<open>The end of \<open>wait_tasks_impl\<close>, after the coroutine was resumed.\<close>

definition wt_outcome :: "'a wait_tasks_state \<Rightarrow> 'a list result" where
  "wt_outcome s =
    (if mode s = FirstCompleted then take_first_completed s
     else case first_exception s of Some e \<Rightarrow> Inl e | None \<Rightarrow> Inr (take_all_results s))"

subsection \<open>Runs\<close>

text \<open>\<open>log\<close>: what the tasks gave, in the order in which they completed.\<close>

record 'a wait_run =
  ws :: "'a wait_tasks_state"
  log :: "(nat \<times> 'a result) list"
  parked :: bool
  runnable :: bool

inductive wait_step :: "'a wait_run \<Rightarrow> 'a wait_run \<Rightarrow> bool" where
  wt_task: "i < length (results (ws R)) \<Longrightarrow> i \<notin> fst ` set (log R) \<Longrightarrow> wt_monitor i res (ws R) = (ss, s) \<Longrightarrow>
    wait_step R (R\<lparr>ws := s, log := log R @ [(i, res)], runnable := runnable R \<or> ss \<noteq> []\<rparr>)"
| wt_suspend: "\<not> parked R \<Longrightarrow> \<not> cont_dead (ws R) \<Longrightarrow> wt_install h lp (ws R) = (ss, s) \<Longrightarrow>
    wait_step R (R\<lparr>ws := s, parked := True, runnable := ss \<noteq> []\<rparr>)"
| wt_gone: "wait_step R (R\<lparr>ws := wt_abandon (ws R), parked := False, runnable := False\<rparr>)"

definition wait_tasks_start :: "'a wait_run \<Rightarrow> bool" where
  "wait_tasks_start R \<longleftrightarrow> (\<exists>n m. R = \<lparr>ws = wait_tasks_new (Suc n) m, log = [], parked = False, runnable = False\<rparr>)"

text \<open>When a mode is satisfied, and what it gives.\<close>

definition failed :: "nat \<times> 'a result \<Rightarrow> bool" where
  "failed p = isl (snd p)"

definition satisfied :: "WaitMode \<Rightarrow> nat \<Rightarrow> (nat \<times> 'a result) list \<Rightarrow> bool" where
  "satisfied m n l =
    (case m of FirstCompleted \<Rightarrow> l \<noteq> [] | FirstException \<Rightarrow> (\<exists>p \<in> set l. failed p) \<or> length l = n | AllCompleted \<Rightarrow> length l = n)"

definition first_error :: "(nat \<times> 'a result) list \<Rightarrow> coro_error option" where
  "first_error l = map_option (\<lambda>p. projl (snd p)) (find failed l)"

definition values_of :: "nat \<Rightarrow> (nat \<times> 'a result) list \<Rightarrow> 'a list" where
  "values_of n l = map (\<lambda>i. projr (the (map_of l i))) [0..<n]"

definition promised :: "WaitMode \<Rightarrow> nat \<Rightarrow> (nat \<times> 'a result) list \<Rightarrow> 'a list result" where
  "promised m n l =
    (if m = FirstCompleted then map_sum id (\<lambda>v. [v]) (snd (hd l))
     else case first_error l of Some e \<Rightarrow> Inl e | None \<Rightarrow> Inr (values_of n l))"

text \<open>What the state knows of the log, and where the coroutine stands.\<close>

definition core :: "'a wait_tasks_state \<Rightarrow> (nat \<times> 'a result) list \<Rightarrow> bool" where
  "core s l \<longleftrightarrow>
    (let n = length (results s)
     in 0 < n \<and> distinct (map fst l) \<and> fst ` set l \<subseteq> {..<n} \<and> remaining s = n - length l \<and>
        (\<forall>i < n. results s ! i = (case map_of l i of Some (Inr v) \<Rightarrow> Some v | _ \<Rightarrow> None)) \<and>
        first_exception s = first_error l \<and>
        (mode s \<noteq> AllCompleted \<longrightarrow> early_done s = satisfied (mode s) n l) \<and>
        (mode s = FirstCompleted \<longrightarrow> l \<noteq> [] \<longrightarrow> first_done_index s = fst (hd l) \<and>
           first_completed_exception s = (case snd (hd l) of Inl e \<Rightarrow> Some e | Inr _ \<Rightarrow> None)))"

definition wait_inv :: "'a wait_run \<Rightarrow> bool" where
  "wait_inv R \<longleftrightarrow>
    (let s = ws R; now = satisfied (mode s) (length (results s)) (log R)
     in core s (log R) \<and> (caller s \<noteq> None \<longrightarrow> parked R \<and> \<not> now) \<and> (parked R \<longrightarrow> \<not> cont_dead s \<and> (caller s \<noteq> None \<or> runnable R)) \<and>
        (runnable R \<longrightarrow> parked R \<and> now))"

lemma core_length: "core s l \<Longrightarrow> length l \<le> length (results s)"
proof -
  assume "core s l"
  then have "distinct (map fst l)" "set (map fst l) \<subseteq> {..<length (results s)}" by (simp_all add: core_def Let_def)
  then have "card (set (map fst l)) \<le> card {..<length (results s)}" by (intro card_mono) auto
  then show ?thesis using distinct_card [OF \<open>distinct (map fst l)\<close>] by simp
qed

lemma first_error_snoc: "first_error (l @ [p]) = (case first_error l of Some e \<Rightarrow> Some e | None \<Rightarrow> if failed p then Some (projl (snd p)) else None)"
  by (induction l) (auto simp: first_error_def)

lemma first_error_None: "first_error l = None \<longleftrightarrow> (\<forall>p \<in> set l. \<not> failed p)"
  by (auto simp: first_error_def find_None_iff)

text \<open>The effect of a monitor: the log grows, and the coroutine is notified exactly when the mode
  becomes satisfied.\<close>

lemma monitor_effect:
  fixes res :: "'a result"
  assumes c: "core s l" and i: "i < length (results s)" "i \<notin> fst ` set l"
  defines "l' \<equiv> l @ [(i, res)]" and "n \<equiv> length (results s)"
  shows "\<exists>s'. wt_monitor i res s = ((if satisfied (mode s) n l' \<and> \<not> satisfied (mode s) n l \<and> \<not> cont_dead s
        then (case caller s of None \<Rightarrow> [] | Some w \<Rightarrow> [w]) else []), s') \<and>
      core s' l' \<and> mode s' = mode s \<and> cont_dead s' = cont_dead s \<and> length (results s') = n \<and>
      caller s' = (if satisfied (mode s) n l' \<and> \<not> satisfied (mode s) n l \<and> \<not> cont_dead s then None else caller s)"
proof -
  define f where "f = isl res"
  define er where "er = (case res of Inl e \<Rightarrow> Some e | Inr _ \<Rightarrow> None)"
  define s1 where "s1 = s\<lparr>results := (case res of Inr v \<Rightarrow> (results s)[i := Some v] | Inl _ \<Rightarrow> results s),
    first_exception := first_error l', remaining := remaining s - 1\<rparr>"
  have fe: "first_exception s = first_error l" using c by (simp add: core_def Let_def)
  have dist: "distinct (map fst l')" using c i by (simp add: core_def l'_def Let_def)
  have "card (insert i (fst ` set l)) \<le> card {..<n}" using c i by (intro card_mono) (auto simp: core_def Let_def n_def)
  moreover have "card (fst ` set l) = length l" using c distinct_card [of "map fst l"] by (simp add: core_def Let_def)
  ultimately have len: "length l < n" using i(2) by simp
  have rem: "remaining s = n - length l" using c by (simp add: core_def Let_def n_def)
  have m: "wt_monitor i res s = (case wt_decide i f er s1 of (b, s2) \<Rightarrow>
      (case caller s2 of Some w \<Rightarrow> if b \<and> \<not> cont_dead s2 then ([w], s2\<lparr>caller := None\<rparr>) else ([], s2) | None \<Rightarrow> ([], s2)))"
    using fe by (cases s; cases res) (simp_all add: wt_monitor_def wt_complete_def s1_def f_def er_def l'_def first_error_snoc failed_def Let_def split: option.splits)
  let ?sat = "satisfied (mode s) n l" and ?sat' = "satisfied (mode s) n l'"
  have last: "remaining s1 = 0 \<longleftrightarrow> length l' = n" using rem len by (auto simp: s1_def l'_def)
  have ed: "mode s \<noteq> AllCompleted \<Longrightarrow> early_done s = ?sat" using c by (simp add: core_def Let_def n_def)
  have sat': "mode s = FirstException \<Longrightarrow> ?sat' = (?sat \<or> f \<or> length l' = n)"
    using len by (auto simp: satisfied_def l'_def failed_def f_def)
  define s2 where "s2 = s1\<lparr>early_done := (if mode s = AllCompleted then early_done s else ?sat'),
    first_done_index := (if mode s = FirstCompleted \<and> l = [] then i else first_done_index s),
    first_completed_exception := (if mode s = FirstCompleted \<and> l = [] then er else first_completed_exception s)\<rparr>"
  have s1: "mode s1 = mode s" "early_done s1 = early_done s" "first_done_index s1 = first_done_index s"
    "first_completed_exception s1 = first_completed_exception s" "caller s1 = caller s" "cont_dead s1 = cont_dead s"
    by (simp_all add: s1_def)
  have d: "wt_decide i f er s1 = (?sat' \<and> \<not> ?sat, s2)"
  proof (cases "mode s")
    case FirstCompleted
    then have e: "early_done s = (l \<noteq> [])" "?sat = (l \<noteq> [])" "?sat' = True" using ed by (simp_all add: satisfied_def l'_def)
    show ?thesis
    proof (cases "l = []")
      case True
      then show ?thesis using FirstCompleted e by (simp add: wt_decide_def s2_def s1)
    next
      case False
      then have "s2 = s1\<lparr>early_done := True\<rparr>" using e FirstCompleted by (simp add: s2_def flip: s1)
      then show ?thesis using FirstCompleted e False by (simp add: wt_decide_def s1)
    qed
  next
    case FirstException
    then have e: "early_done s = ?sat" "?sat' = (?sat \<or> f \<or> remaining s1 = 0)" using ed sat' last by simp_all
    have s2: "s2 = s1\<lparr>early_done := ?sat'\<rparr>" using FirstException by (simp add: s2_def flip: s1)
    show ?thesis
    proof (cases "remaining s1 = 0 \<or> f")
      case True
      then have "?sat'" using e by blast
      then show ?thesis using True FirstException e(1) s2 by (simp add: wt_decide_def s1)
    next
      case False
      then have "s2 = s1" using e s2 by (simp flip: s1)
      then show ?thesis using FirstException e False by (simp add: wt_decide_def s1)
    qed
  next
    case AllCompleted
    then have "s2 = s1" by (simp add: s2_def flip: s1)
    then show ?thesis using AllCompleted last len by (simp add: wt_decide_def s1 satisfied_def)
  qed
  have res: "results s2 ! j = (case map_of l' j of Some (Inr v) \<Rightarrow> Some v | _ \<Rightarrow> None)" if "j < n" for j
  proof -
    have "results s ! j = (case map_of l j of Some (Inr v) \<Rightarrow> Some v | _ \<Rightarrow> None)" using c that by (simp add: core_def Let_def n_def)
    moreover have "map_of l i = None" using i(2) by (simp add: map_of_eq_None_iff)
    moreover have "map_of l' j = (if j = i then Some res else map_of l j)"
      using \<open>map_of l i = None\<close> by (simp add: l'_def map_add_def split: option.splits)
    ultimately show ?thesis using that by (cases res) (auto simp: s2_def s1_def n_def)
  qed
  have n2: "length (results s2) = n" by (cases res) (simp_all add: s2_def s1_def n_def)
  have hd: "l \<noteq> [] \<Longrightarrow> hd l' = hd l" by (simp add: l'_def)
  have "core s2 l'"
    unfolding core_def Let_def n2
  proof (intro conjI)
    show "0 < n" "distinct (map fst l')" "fst ` set l' \<subseteq> {..<n}" using len dist c i by (auto simp: core_def Let_def l'_def n_def)
    show "\<forall>i<n. results s2 ! i = (case map_of l' i of Some (Inr v) \<Rightarrow> Some v | _ \<Rightarrow> None)" using res by blast
    show "mode s2 = FirstCompleted \<longrightarrow> l' \<noteq> [] \<longrightarrow> first_done_index s2 = fst (hd l') \<and>
           first_completed_exception s2 = (case snd (hd l') of Inl e \<Rightarrow> Some e | Inr _ \<Rightarrow> None)"
      using c by (cases "l = []") (auto simp: s2_def s1_def hd core_def Let_def l'_def er_def)
  qed (use rem len in \<open>simp_all add: s2_def s1_def l'_def\<close>)
  then have "core (s2\<lparr>caller := x\<rparr>) l'" for x by (simp add: core_def Let_def)
  with \<open>core s2 l'\<close> show ?thesis
    unfolding m d by (cases "caller s") (auto simp: s2_def s1_def n_def split: sum.splits)
qed

lemma satisfied_grows: "satisfied m n l \<Longrightarrow> length (l @ [p]) \<le> n \<Longrightarrow> satisfied m n (l @ [p])"
  by (auto simp: satisfied_def split: WaitMode.splits)

lemma wait_step_inv: "wait_step R R' \<Longrightarrow> wait_inv R \<Longrightarrow> wait_inv R'"
proof (induction rule: wait_step.induct)
  case (wt_task i R res ss s)
  have c: "core (ws R) (log R)" using wt_task(4) by (simp add: wait_inv_def Let_def)
  let ?n = "length (results (ws R))" and ?m = "mode (ws R)" and ?l' = "log R @ [(i, res)]"
  obtain s' where s': "wt_monitor i res (ws R) = ((if satisfied ?m ?n ?l' \<and> \<not> satisfied ?m ?n (log R) \<and> \<not> cont_dead (ws R)
        then (case caller (ws R) of None \<Rightarrow> [] | Some w \<Rightarrow> [w]) else []), s')" "core s' ?l'" "mode s' = ?m"
      "cont_dead s' = cont_dead (ws R)" "length (results s') = ?n"
      "caller s' = (if satisfied ?m ?n ?l' \<and> \<not> satisfied ?m ?n (log R) \<and> \<not> cont_dead (ws R) then None else caller (ws R))"
    using monitor_effect [OF c wt_task(1,2), of res] by blast
  have s: "s = s'" "ss = (if satisfied ?m ?n ?l' \<and> \<not> satisfied ?m ?n (log R) \<and> \<not> cont_dead (ws R)
        then (case caller (ws R) of None \<Rightarrow> [] | Some w \<Rightarrow> [w]) else [])"
    using wt_task(3) s'(1) by simp_all
  have mono: "satisfied ?m ?n ?l'" if "satisfied ?m ?n (log R)"
    using satisfied_grows [OF that] core_length [OF s'(2)] s'(5) by simp
  show ?case
    using wt_task(4) s'(2-6) s mono by (cases "caller (ws R)") (auto simp: wait_inv_def Let_def)
next
  case (wt_suspend R h lp ss s)
  let ?n = "length (results (ws R))" and ?m = "mode (ws R)"
  have c: "core (ws R) (log R)" using wt_suspend(4) by (simp add: wait_inv_def Let_def)
  have none: "caller (ws R) = None"
    using wt_suspend(1,4) by (cases "caller (ws R)") (auto simp: wait_inv_def Let_def)
  note dead = wt_suspend(2) none
  have "length (log R) \<le> ?n" "remaining (ws R) = ?n - length (log R)" using core_length [OF c] c by (simp_all add: core_def Let_def)
  then have "remaining (ws R) = 0 \<longleftrightarrow> length (log R) = ?n" by auto
  moreover have "?m \<noteq> AllCompleted \<Longrightarrow> early_done (ws R) = satisfied ?m ?n (log R)" "0 < ?n" using c by (simp_all add: core_def Let_def)
  ultimately have sat: "remaining (ws R) = 0 \<or> ?m \<noteq> AllCompleted \<and> early_done (ws R) \<longleftrightarrow> satisfied ?m ?n (log R)"
    by (cases ?m) (auto simp: satisfied_def)
  show ?case
  proof (cases "satisfied ?m ?n (log R)")
    case True
    then have "s = ws R" "ss = [(h, lp)]" using wt_suspend(3) sat by (auto simp: wt_install_def)
    then show ?thesis using True c dead by (simp add: wait_inv_def Let_def)
  next
    case False
    then have "s = (ws R)\<lparr>caller := Some (h, lp)\<rparr>" "ss = []" using wt_suspend(3) sat dead(1) by (auto simp: wt_install_def)
    then show ?thesis using False c dead(1) by (simp add: wait_inv_def core_def Let_def)
  qed
next
  case (wt_gone R)
  then show ?case by (simp add: wait_inv_def wt_abandon_def core_def Let_def)
qed

interpretation waits: inductive_invariant wait_tasks_start wait_step wait_inv
proof unfold_locales
  show "wait_tasks_start R \<Longrightarrow> wait_inv R" for R :: "'a wait_run"
    by (auto simp: wait_tasks_start_def wait_inv_def core_def wait_tasks_new_def first_error_def satisfied_def Let_def
        simp del: replicate_Suc split: WaitMode.splits)
qed (rule wait_step_inv)

lemma all_reported:
  assumes "core s l" "length l = length (results s)" "i < length (results s)"
  obtains r where "map_of l i = Some r" "(i, r) \<in> set l"
proof -
  have d: "distinct (map fst l)" "fst ` set l \<subseteq> {..<length (results s)}" using assms(1) by (simp_all add: core_def Let_def)
  have "card (fst ` set l) = length l" using distinct_card [OF d(1)] by simp
  then have "fst ` set l = {..<length (results s)}" using card_subset_eq [OF _ d(2)] assms(2) by simp
  then have "map_of l i \<noteq> None" using assms(3) by (simp add: map_of_eq_None_iff)
  then show ?thesis using that map_of_SomeD by fastforce
qed

lemma outcome_promised:
  assumes c: "core s l" and sat: "satisfied (mode s) (length (results s)) l"
  shows "wt_outcome s = promised (mode s) (length (results s)) l"
proof (cases "mode s = FirstCompleted")
  case True
  then obtain i r l1 where l: "l = (i, r) # l1" using sat by (cases l) (auto simp: satisfied_def)
  have r: "i < length (results s)" "first_done_index s = i" "first_completed_exception s = (case r of Inl e \<Rightarrow> Some e | Inr _ \<Rightarrow> None)"
    using c True l by (auto simp: core_def Let_def)
  have "results s ! i = (case r of Inr v \<Rightarrow> Some v | _ \<Rightarrow> None)" using c r(1) l by (auto simp: core_def Let_def)
  then show ?thesis
    using True r l by (cases r) (simp_all add: wt_outcome_def promised_def take_first_completed_def)
next
  case m: False
  have fe: "first_exception s = first_error l" using c by (simp add: core_def Let_def)
  show ?thesis
  proof (cases "first_error l")
    case None
    then have nf: "\<And>p. p \<in> set l \<Longrightarrow> \<not> failed p" by (simp add: first_error_None)
    then have len: "length l = length (results s)" using sat m by (cases "mode s") (auto simp: satisfied_def)
    have "the (results s ! i) = projr (the (map_of l i))" if i: "i < length (results s)" for i
    proof -
      obtain r where r: "map_of l i = Some r" "(i, r) \<in> set l" using all_reported [OF c len i] .
      then obtain v where "r = Inr v" using nf [OF r(2)] by (cases r) (auto simp: failed_def)
      then show ?thesis using c i r(1) by (auto simp: core_def Let_def)
    qed
    then have "take_all_results s = values_of (length (results s)) l"
      by (intro nth_equalityI) (simp_all add: take_all_results_def values_of_def)
    then show ?thesis using m None fe by (simp add: wt_outcome_def promised_def)
  qed (use m fe in \<open>simp add: wt_outcome_def promised_def\<close>)
qed


text \<open>Two tasks: the second fails first, the coroutine suspends before it and resumes after both.\<close>

definition demo_wait :: "nat wait_run" where
  "demo_wait = \<lparr>ws = \<lparr>results = [Some 7, None], first_exception = Some TimeoutError, first_completed_exception = None, remaining = 0,
      caller = None, mode = FirstException, early_done = True, first_done_index = 0, cont_dead = False\<rparr>,
     log = [(1, Inl TimeoutError), (0, Inr 7)], parked = True, runnable = True\<rparr>"

lemma demo_wait_reachable: "reachable wait_tasks_start wait_step demo_wait"
proof -
  let ?s0 = "wait_tasks_new 2 FirstException :: nat wait_tasks_state"
  let ?R0 = "\<lparr>ws = ?s0, log = [], parked = False, runnable = False\<rparr>"
  let ?s1 = "?s0\<lparr>caller := Some (9, 1)\<rparr>"
  let ?R1 = "?R0\<lparr>ws := ?s1, parked := True\<rparr>"
  let ?s2 = "?s0\<lparr>first_exception := Some TimeoutError, remaining := 1, early_done := True\<rparr>"
  let ?R2 = "?R1\<lparr>ws := ?s2, log := [(1, Inl TimeoutError)], runnable := True\<rparr>"
  have two: "(2 :: nat) = Suc (Suc 0)" by simp
  have "reachable wait_tasks_start wait_step ?R0" by (rule reachable_init) (auto simp: wait_tasks_start_def two)
  moreover have "wait_step ?R0 ?R1"
    using wt_suspend [of ?R0 9 1 "[]" ?s1] by (simp add: wt_install_def wait_tasks_new_def)
  moreover have "wait_step ?R1 ?R2"
    using wt_task [of 1 ?R1 "Inl TimeoutError" "[(9, 1)]" ?s2]
    by (simp add: wt_monitor_def wt_complete_def wt_decide_def wait_tasks_new_def)
  moreover have "wait_step ?R2 demo_wait"
    using wt_task [of 0 ?R2 "Inr 7" "[]" "ws demo_wait"]
    by (simp add: wt_monitor_def wt_complete_def wt_decide_def wait_tasks_new_def demo_wait_def two)
  ultimately show ?thesis by (meson reachable_step)
qed



subsection \<open>Gather\<close>

record 'a gather_shared_state =
  g_results :: "'a option list"
  g_remaining :: nat
  g_caller :: "(handle \<times> nat) option"
  g_first_exception :: "coro_error option"
  g_cont_dead :: bool

definition gather_new :: "nat \<Rightarrow> 'a gather_shared_state" where
  "gather_new n = \<lparr>g_results = replicate n None, g_remaining = n, g_caller = None, g_first_exception = None, g_cont_dead = False\<rparr>"

definition gather_install :: "handle \<Rightarrow> nat \<Rightarrow> 'a gather_shared_state \<Rightarrow> (handle \<times> nat) list \<times> 'a gather_shared_state" where
  "gather_install h lp g =
    (if g_remaining g = 0 \<or> g_cont_dead g then ([(h, lp)], g) else ([], g\<lparr>g_caller := Some (h, lp)\<rparr>))"

definition gather_abandon :: "'a gather_shared_state \<Rightarrow> 'a gather_shared_state" where
  "gather_abandon g = g\<lparr>g_cont_dead := True, g_caller := None\<rparr>"

definition gather_complete :: "coro_error option \<Rightarrow> 'a gather_shared_state \<Rightarrow> (handle \<times> nat) list \<times> 'a gather_shared_state" where
  "gather_complete error g =
    (let g = (if error \<noteq> None \<and> g_first_exception g = None then g\<lparr>g_first_exception := error\<rparr> else g);
         g = g\<lparr>g_remaining := g_remaining g - 1\<rparr>
     in case g_caller g of
          Some w \<Rightarrow> if g_remaining g = 0 \<and> \<not> g_cont_dead g then ([w], g\<lparr>g_caller := None\<rparr>) else ([], g)
        | None \<Rightarrow> ([], g))"

definition gather_monitor :: "nat \<Rightarrow> 'a result \<Rightarrow> 'a gather_shared_state \<Rightarrow> (handle \<times> nat) list \<times> 'a gather_shared_state" where
  "gather_monitor i res g =
    (case res of
       Inr v \<Rightarrow> gather_complete None (g\<lparr>g_results := (g_results g)[i := Some v]\<rparr>)
     | Inl e \<Rightarrow> gather_complete (Some e) g)"

definition gather_resume :: "'a gather_shared_state \<Rightarrow> 'a option list result" where
  "gather_resume g = (case g_first_exception g of Some e \<Rightarrow> Inl e | None \<Rightarrow> Inr (g_results g))"

text \<open>A state of \<open>wait_tasks\<close> in the mode that waits for all, as a state of \<open>gather\<close>.\<close>

definition gather_of :: "'a wait_tasks_state \<Rightarrow> 'a gather_shared_state" where
  "gather_of s = \<lparr>g_results = results s, g_remaining = remaining s, g_caller = caller s,
     g_first_exception = first_exception s, g_cont_dead = cont_dead s\<rparr>"

text \<open>\<open>gather\<close> is \<open>wait_tasks\<close> in the mode that waits for all: from the same tasks, every
  operation (registration of the caller, completion of a task with a value or an exception,
  destruction of the caller) schedules the same coroutine and leads to the same state, and the
  results are the same, so that what holds of \<open>wait_tasks\<close> holds of \<open>gather\<close>.\<close>

theorem gather_is_wait_all:
  assumes "mode s = AllCompleted"
  shows "gather_of (wait_tasks_new n AllCompleted) = gather_new n \<and>
    gather_install h lp (gather_of s) = apsnd gather_of (wt_install h lp s) \<and>
    gather_monitor i res (gather_of s) = apsnd gather_of (wt_monitor i res s) \<and>
    gather_abandon (gather_of s) = gather_of (wt_abandon s) \<and>
    map_sum id (map the) (gather_resume (gather_of s)) = wt_outcome s \<and>
    mode (snd (wt_install h lp s)) = AllCompleted \<and> mode (snd (wt_monitor i res s)) = AllCompleted \<and> mode (wt_abandon s) = AllCompleted"
proof (intro conjI)
  show "gather_monitor i res (gather_of s) = apsnd gather_of (wt_monitor i res s)"
    using assms by (cases res; cases "caller s"; cases "first_exception s")
      (simp_all add: gather_monitor_def gather_complete_def gather_of_def wt_monitor_def wt_complete_def wt_decide_def Let_def)
  show "mode (snd (wt_monitor i res s)) = AllCompleted"
    using assms by (cases res; cases "caller s") (simp_all add: wt_monitor_def wt_complete_def wt_decide_def Let_def)
  show "map_sum id (map the) (gather_resume (gather_of s)) = wt_outcome s"
    using assms by (cases "first_exception s") (simp_all add: gather_resume_def gather_of_def wt_outcome_def take_all_results_def)
qed (use assms in \<open>simp_all add: gather_of_def wait_tasks_new_def gather_new_def gather_install_def wt_install_def gather_abandon_def wt_abandon_def\<close>)

lemma gather_is_wait_all_witness:
  "gather_monitor 1 (Inr 8) (gather_of (wait_tasks_new 2 AllCompleted)) = apsnd gather_of (wt_monitor 1 (Inr (8 :: nat)) (wait_tasks_new 2 AllCompleted)) \<and>
   gather_of (wait_tasks_new 2 AllCompleted) = (gather_new 2 :: nat gather_shared_state)"
proof -
  have "mode (wait_tasks_new 2 AllCompleted :: nat wait_tasks_state) = AllCompleted" by (simp add: wait_tasks_new_def)
  from gather_is_wait_all [OF this, of 2 0 0 1 "Inr 8"] show ?thesis by blast
qed


end
