(* ===== verification/Http_Url.thy ===== *)
theory Http_Url
  imports Http_Message
begin

section \<open>Requests of the HTTP client\<close>

text \<open>
  The first half of http_client.cpp: reading a URL and writing a request. A thrown
  \<open>invalid_argument\<close> is \<open>Inl InvalidArgument\<close>. A position that \<open>find\<close> gives is modelled by the two
  parts of the string it separates. The port of an endpoint is kept as a number, its range is
  part of what is shown.
\<close>

subsection \<open>Reading a URL\<close>

definition ascii_lower :: "char \<Rightarrow> char" where
  "ascii_lower c = (if in_range c 65 90 then char_of (of_char c + 32 :: nat) else c)"

fun equal_field :: "string \<Rightarrow> string \<Rightarrow> bool" where
  "equal_field [] [] = True"
| "equal_field (a # as) (b # bs) = (ascii_lower a = ascii_lower b \<and> equal_field as bs)"
| "equal_field _ _ = False"

record endpoint =
  host :: string
  authority :: string
  target :: string
  port :: nat
  secure :: bool

text \<open>\<open>find("://")\<close>: what is before and after its first occurrence.\<close>

fun split_scheme :: "string \<Rightarrow> (string \<times> string) option" where
  "split_scheme [] = None"
| "split_scheme (c # s) =
    (if take 3 (c # s) = ''://'' then Some ([], drop 3 (c # s)) else map_option (apfst (Cons c)) (split_scheme s))"

text \<open>\<open>std::from_chars\<close> for a 32-bit unsigned number: the value and what follows the digits.\<close>

definition from_chars :: "string \<Rightarrow> (nat \<times> string) option" where
  "from_chars s =
    (let d = takeWhile isdigit s
     in if d = [] then None
     else if parse_nat d \<ge> 2 ^ 32 then None
     else Some (parse_nat d, dropWhile isdigit s))"

definition host_char :: "char \<Rightarrow> bool" where
  "host_char c = (in_range c 97 122 \<or> in_range c 65 90 \<or> in_range c 48 57 \<or> c = CHR ''-'' \<or> c = CHR ''.'')"

definition default_port :: "bool \<Rightarrow> nat" where
  "default_port sec = (if sec then 443 else 80)"

definition parse_port :: "bool \<Rightarrow> string \<Rightarrow> nat result" where
  "parse_port sec auth =
    (if CHR '':'' \<in> set auth then
       (case from_chars (tl (dropWhile (\<lambda>c. c \<noteq> CHR '':'') auth)) of
          None \<Rightarrow> Inl InvalidArgument
        | Some (p, rest) \<Rightarrow> if rest \<noteq> [] \<or> p = 0 \<or> p > 65535 then Inl InvalidArgument else Inr p)
     else Inr (default_port sec))"

definition url_target :: "string \<Rightarrow> string" where
  "url_target rest =
    (let t = takeWhile (\<lambda>c. c \<noteq> CHR ''#'') rest
     in if t = [] \<or> hd t = CHR ''?'' then ''/'' @ t else t)"

definition url_char :: "char \<Rightarrow> bool" where
  "url_char c = (\<not> (of_char c \<le> (0x20 :: nat) \<or> of_char c \<ge> (0x7f :: nat) \<or> c = CHR 0x5C))"

definition path_start :: "char \<Rightarrow> bool" where
  "path_start c = (c = CHR ''/'' \<or> c = CHR ''?'' \<or> c = CHR ''#'')"

definition parse_url :: "string \<Rightarrow> endpoint result" where
  "parse_url url =
    (if length url > 8192 then Inl InvalidArgument
     else if \<not> list_all url_char url then Inl InvalidArgument
     else case split_scheme url of
       None \<Rightarrow> Inl InvalidArgument
     | Some (scheme, remainder) \<Rightarrow>
         if \<not> equal_field scheme ''http'' \<and> \<not> equal_field scheme ''https'' then Inl InvalidArgument
         else let sec = equal_field scheme ''https'';
                  auth = takeWhile (\<lambda>c. \<not> path_start c) remainder;
                  rest = dropWhile (\<lambda>c. \<not> path_start c) remainder
         in if auth = [] \<or> list_ex (\<lambda>c. c \<in> set ''@[]'') auth then Inl InvalidArgument
         else let h = takeWhile (\<lambda>c. c \<noteq> CHR '':'') auth
         in if h = [] then Inl InvalidArgument
         else if \<not> list_all host_char h then Inl InvalidArgument
         else case parse_port sec auth of
           Inl e \<Rightarrow> Inl e
         | Inr p \<Rightarrow>
             let h = map ascii_lower h
             in Inr \<lparr>host = h,
                  authority = h @ (if p \<noteq> default_port sec then '':'' @ to_string p else []),
                  target = url_target rest, port = p, secure = sec\<rparr>)"

subsection \<open>Writing a request\<close>

record client_request =
  cr_method :: string
  cr_url :: string
  cr_headers :: header_list
  cr_body :: string
  cr_keep_alive :: bool

definition owned_fields :: "string list" where
  "owned_fields = [''Host'', ''Content-Length'', ''Transfer-Encoding'', ''Connection'', ''Expect'', ''Upgrade'', ''Trailer'', ''Proxy-Connection'']"

fun add_user_headers :: "header_list \<Rightarrow> http_protocol \<Rightarrow> http_protocol result" where
  "add_user_headers [] p = Inr p"
| "add_user_headers (h # hs) p =
    (if list_ex (equal_field (fst h)) owned_fields then Inl InvalidArgument
     else case p_header (fst h) (snd h) False p of Inl e \<Rightarrow> Inl e | Inr p \<Rightarrow> add_user_headers hs p)"

definition serialize :: "client_request \<Rightarrow> endpoint \<Rightarrow> string result" where
  "serialize r e =
    (if NUL \<in> set (cr_method r) \<or> cr_method r = ''CONNECT'' then Inl InvalidArgument
     else case request_line (cr_method r) (target e) ''HTTP/1.1'' p_new of Inl x \<Rightarrow> Inl x
     | Inr p \<Rightarrow> (case p_header ''Host'' (authority e) False p of Inl x \<Rightarrow> Inl x
     | Inr p \<Rightarrow> (case p_header ''Connection'' (if cr_keep_alive r then ''keep-alive'' else ''close'') False p of Inl x \<Rightarrow> Inl x
     | Inr p \<Rightarrow> (case add_user_headers (cr_headers r) p of Inl x \<Rightarrow> Inl x
     | Inr p \<Rightarrow> Inr (p_build True (set_body (cr_body r) p))))))"


subsection \<open>A URL that is accepted\<close>

text \<open>What the rest of the client relies on, and the text of an endpoint.\<close>

definition lower_host_char :: "char \<Rightarrow> bool" where
  "lower_host_char c = (in_range c 97 122 \<or> in_range c 48 57 \<or> c = CHR ''-'' \<or> c = CHR ''.'')"

definition endpoint_ok :: "endpoint \<Rightarrow> bool" where
  "endpoint_ok e \<longleftrightarrow>
    host e \<noteq> [] \<and> list_all lower_host_char (host e) \<and> 1 \<le> port e \<and> port e \<le> 65535 \<and>
    authority e = host e @ (if port e \<noteq> default_port (secure e) then '':'' @ to_string (port e) else []) \<and>
    target e \<noteq> [] \<and> hd (target e) = CHR ''/'' \<and> CHR ''#'' \<notin> set (target e) \<and> list_all url_char (target e)"

definition url_text :: "endpoint \<Rightarrow> string" where
  "url_text e = (if secure e then ''https'' else ''http'') @ ''://'' @ authority e @ target e"

lemma ascii_lower_host: "host_char c \<Longrightarrow> lower_host_char (ascii_lower c)"
  by (auto simp: host_char_def lower_host_char_def ascii_lower_def in_range_def)

lemma ascii_lower_id: "lower_host_char c \<Longrightarrow> ascii_lower c = c"
  by (auto simp: lower_host_char_def ascii_lower_def in_range_def)

lemma lower_host_charD:
  assumes "lower_host_char c"
  shows "host_char c" "url_char c" "\<not> path_start c" "c \<noteq> CHR '':''" "c \<notin> set ''@[]''"
  using assms by (auto simp: lower_host_char_def host_char_def url_char_def path_start_def in_range_def)

lemma digitD:
  assumes "isdigit c"
  shows "url_char c" "\<not> path_start c" "c \<notin> set ''@[]''"
  using assms by (auto simp: isdigit_def url_char_def path_start_def in_range_def)

lemma set_split_scheme:
  "split_scheme s = Some (a, b) \<Longrightarrow> set a \<union> set b \<subseteq> set s \<and> length s = length a + 3 + length b"
proof (induction s arbitrary: a)
  case (Cons c s)
  show ?case
  proof (cases "take 3 (c # s) = ''://''")
    case True
    then have "length (take 3 (c # s)) = 3" by simp
    then have "length (c # s) \<ge> 3" by (cases "length (c # s) \<ge> 3") auto
    then show ?thesis using True Cons.prems set_drop_subset [of 3 "c # s"] by auto
  next
    case False
    then obtain a' where "split_scheme s = Some (a', b)" "a = c # a'" using Cons.prems by auto
    then show ?thesis using Cons.IH by auto
  qed
qed simp

lemma path_starts: "rest = dropWhile (\<lambda>c. \<not> path_start c) r \<Longrightarrow> rest = [] \<or> path_start (hd rest)"
  using hd_dropWhile [of "\<lambda>c. \<not> path_start c" r] by auto

lemma url_target_ok:
  assumes "rest = [] \<or> path_start (hd rest)" "list_all url_char rest"
  shows "url_target rest \<noteq> []" "hd (url_target rest) = CHR ''/''" "CHR ''#'' \<notin> set (url_target rest)"
    "list_all url_char (url_target rest)" "length (url_target rest) \<le> length rest + 1"
proof -
  let ?t = "takeWhile (\<lambda>c. c \<noteq> CHR ''#'') rest"
  have t: "CHR ''#'' \<notin> set ?t" "set ?t \<subseteq> set rest" "length ?t \<le> length rest"
    using set_takeWhileD by (fastforce simp: length_takeWhile_le)+
  have hd: "?t \<noteq> [] \<Longrightarrow> hd ?t = CHR ''/'' \<or> hd ?t = CHR ''?''"
    using assms(1) by (cases rest) (auto simp: path_start_def split: if_splits)
  have "url_char (CHR ''/'')" by code_simp
  then show "list_all url_char (url_target rest)"
    using assms(2) t(2) by (auto simp: url_target_def Let_def list_all_iff)
  show "url_target rest \<noteq> []" "hd (url_target rest) = CHR ''/''" "CHR ''#'' \<notin> set (url_target rest)"
    "length (url_target rest) \<le> length rest + 1"
    using t hd by (auto simp: url_target_def Let_def)
qed

lemma parse_port_range: "parse_port s a = Inr p \<Longrightarrow> 1 \<le> p \<and> p \<le> 65535"
  by (auto simp: parse_port_def default_port_def split: if_splits option.splits)

lemma parse_url_cases:
  assumes "parse_url u = Inr e"
  obtains scheme rem where
    "length u \<le> 8192" "list_all url_char u" "split_scheme u = Some (scheme, rem)"
    "equal_field scheme ''http'' \<or> equal_field scheme ''https''" "secure e = equal_field scheme ''https''"
    "list_all host_char (takeWhile (\<lambda>c. c \<noteq> CHR '':'') (takeWhile (\<lambda>c. \<not> path_start c) rem))"
    "host e \<noteq> []" "host e = map ascii_lower (takeWhile (\<lambda>c. c \<noteq> CHR '':'') (takeWhile (\<lambda>c. \<not> path_start c) rem))"
    "parse_port (secure e) (takeWhile (\<lambda>c. \<not> path_start c) rem) = Inr (port e)"
    "authority e = host e @ (if port e \<noteq> default_port (secure e) then '':'' @ to_string (port e) else [])"
    "target e = url_target (dropWhile (\<lambda>c. \<not> path_start c) rem)"
  using assms unfolding parse_url_def Let_def
  by (auto split: if_splits option.splits prod.splits sum.splits)

lemma parse_url_ok: "parse_url u = Inr e \<Longrightarrow> endpoint_ok e"
proof (erule parse_url_cases)
  fix scheme rem
  assume u: "list_all url_char u" "split_scheme u = Some (scheme, rem)"
    and h: "list_all host_char (takeWhile (\<lambda>c. c \<noteq> CHR '':'') (takeWhile (\<lambda>c. \<not> path_start c) rem))" "host e \<noteq> []"
      "host e = map ascii_lower (takeWhile (\<lambda>c. c \<noteq> CHR '':'') (takeWhile (\<lambda>c. \<not> path_start c) rem))"
    and p: "parse_port (secure e) (takeWhile (\<lambda>c. \<not> path_start c) rem) = Inr (port e)"
    and a: "authority e = host e @ (if port e \<noteq> default_port (secure e) then '':'' @ to_string (port e) else [])"
    and t: "target e = url_target (dropWhile (\<lambda>c. \<not> path_start c) rem)"
  have "list_all url_char (dropWhile (\<lambda>c. \<not> path_start c) rem)"
    using u set_split_scheme [of u scheme rem] set_dropWhileD by (fastforce simp: list_all_iff)
  from url_target_ok [OF path_starts [OF refl] this] t
  have "target e \<noteq> []" "hd (target e) = CHR ''/''" "CHR ''#'' \<notin> set (target e)" "list_all url_char (target e)" by simp_all
  moreover have "list_all lower_host_char (host e)" using h ascii_lower_host by (auto simp: list_all_iff)
  ultimately show "endpoint_ok e" using h(2) a parse_port_range [OF p] by (simp add: endpoint_ok_def)
qed


lemma parse_nat_snoc: "parse_nat (s @ [c]) = 10 * parse_nat s + (of_char c - 48)"
  by (simp add: parse_nat_def)

lemma length_to_string: "list_all isdigit s \<Longrightarrow> s \<noteq> [] \<Longrightarrow> length (to_string (parse_nat s)) \<le> length s"
proof (induction s rule: rev_induct)
  case (snoc c s)
  have d: "of_char c - 48 < (10 :: nat)" using snoc.prems by (auto simp: isdigit_def in_range_def)
  let ?n = "parse_nat (s @ [c])"
  show ?case
  proof (cases "?n < 10")
    case True
    then show ?thesis by (subst to_string.simps) simp
  next
    case False
    have "?n div 10 = parse_nat s" using d by (simp add: parse_nat_snoc)
    moreover have "s \<noteq> []" using False d by (auto simp: parse_nat_def)
    ultimately show ?thesis using snoc False by (subst to_string.simps) simp
  qed
qed simp

lemma from_chars_to_string: "n < 2 ^ 32 \<Longrightarrow> from_chars (to_string n) = Some (n, [])"
proof -
  have "takeWhile isdigit (to_string n) = to_string n" "dropWhile isdigit (to_string n) = []"
    using to_string_digits [of n] by (auto simp: list_all_iff)
  then show "n < 2 ^ 32 \<Longrightarrow> ?thesis" unfolding from_chars_def Let_def by (simp only: parse_to_string) simp
qed

lemma equal_field_length: "equal_field a b \<Longrightarrow> length a = length b"
  by (induction a b rule: equal_field.induct) auto

lemma from_chars_whole:
  assumes "from_chars s = Some (n, [])"
  shows "list_all isdigit s \<and> s \<noteq> [] \<and> n = parse_nat s"
proof -
  have w: "takeWhile isdigit s = s"
    using assms takeWhile_dropWhile_id [of isdigit s] by (auto simp: from_chars_def Let_def split: if_splits)
  have "s \<noteq> [] \<and> n = parse_nat s" using assms unfolding from_chars_def Let_def w by (auto split: if_splits)
  moreover have "\<forall>c \<in> set s. isdigit c" using w set_takeWhileD [of _ isdigit s] by metis
  ultimately show ?thesis by (simp add: list_all_iff)
qed

lemma port_text_length:
  assumes "parse_port s a = Inr p" "p \<noteq> default_port s"
  shows "length (takeWhile (\<lambda>c. c \<noteq> CHR '':'') a) + 1 + length (to_string p) \<le> length a"
proof -
  let ?t = "dropWhile (\<lambda>c. c \<noteq> CHR '':'') a"
  have c: "CHR '':'' \<in> set a" and f: "from_chars (tl ?t) = Some (p, [])"
    using assms by (auto simp: parse_port_def split: if_splits option.splits)
  have "length (to_string p) \<le> length (tl ?t)" using from_chars_whole [OF f] length_to_string [of "tl ?t"] by (simp only: simp_thms)
  moreover have "?t \<noteq> []" using c by (auto simp: dropWhile_eq_Nil_conv)
  moreover have "length a = length (takeWhile (\<lambda>c. c \<noteq> CHR '':'') a) + length ?t"
    by (metis length_append takeWhile_dropWhile_id)
  moreover have "length ?t = length (tl ?t) + 1" using \<open>?t \<noteq> []\<close> by (cases ?t) simp_all
  ultimately show ?thesis by linarith
qed

lemma url_text_length: "parse_url u = Inr e \<Longrightarrow> length (url_text e) \<le> length u + 1"
proof (erule parse_url_cases)
  fix scheme rem
  let ?a = "takeWhile (\<lambda>c. \<not> path_start c) rem"
  let ?r = "dropWhile (\<lambda>c. \<not> path_start c) rem"
  let ?h = "takeWhile (\<lambda>c. c \<noteq> CHR '':'') ?a"
  assume u: "list_all url_char u" "split_scheme u = Some (scheme, rem)"
      "equal_field scheme ''http'' \<or> equal_field scheme ''https''" "secure e = equal_field scheme ''https''"
    and h: "host e = map ascii_lower ?h"
    and p: "parse_port (secure e) ?a = Inr (port e)"
    and a: "authority e = host e @ (if port e \<noteq> default_port (secure e) then '':'' @ to_string (port e) else [])"
    and t: "target e = url_target ?r"
  have "list_all url_char ?r"
    using u set_split_scheme [of u scheme rem] set_dropWhileD by (fastforce simp: list_all_iff)
  then have "length (target e) \<le> length ?r + 1" using t url_target_ok(5) [OF path_starts [OF refl]] by simp
  moreover have "length (authority e) \<le> length ?a"
    using a h port_text_length [OF p] length_takeWhile_le [of "\<lambda>c. c \<noteq> CHR '':''" ?a] by auto
  moreover have "length scheme = (if secure e then 5 else 4)"
    using u(3,4) equal_field_length [of scheme "''http''"] equal_field_length [of scheme "''https''"] by auto
  moreover have "length rem = length ?a + length ?r" by (metis length_append takeWhile_dropWhile_id)
  ultimately show ?thesis using set_split_scheme [OF u(2)] by (auto simp: url_text_def)
qed

lemma split_scheme_text:
  "split_scheme (''http'' @ ''://'' @ r) = Some (''http'', r)" "split_scheme (''https'' @ ''://'' @ r) = Some (''https'', r)"
  by simp_all

lemma parse_url_text:
  assumes ok: "endpoint_ok e" and len: "length (url_text e) \<le> 8192"
  shows "parse_url (url_text e) = Inr e"
proof -
  let ?s = "if secure e then ''https'' else ''http''"
  note e = ok [unfolded endpoint_ok_def]
  have dig: "list_all isdigit (to_string (port e))" by (rule to_string_digits)
  have auth: "c \<in> set (authority e) \<Longrightarrow> lower_host_char c \<or> c = CHR '':'' \<or> isdigit c" for c
    using e dig by (auto simp: list_all_iff split: if_splits)
  have col: "url_char (CHR '':'')" "\<not> path_start (CHR '':'')" "url_char (CHR ''/'')" by code_simp+
  have authD: "c \<in> set (authority e) \<Longrightarrow> url_char c \<and> \<not> path_start c \<and> c \<notin> set ''@[]''" for c
    using auth [of c] lower_host_charD [of c] digitD [of c] col by auto
  have split: "takeWhile (\<lambda>c. \<not> path_start c) (authority e @ target e) = authority e"
    "dropWhile (\<lambda>c. \<not> path_start c) (authority e @ target e) = target e"
  proof -
    have "path_start (hd (target e))" "target e \<noteq> []" using e by (simp_all add: path_start_def)
    then show "takeWhile (\<lambda>c. \<not> path_start c) (authority e @ target e) = authority e"
      "dropWhile (\<lambda>c. \<not> path_start c) (authority e @ target e) = target e"
      using authD by (cases "target e"; simp add: takeWhile_append dropWhile_append)+
  qed
  have host: "takeWhile (\<lambda>c. c \<noteq> CHR '':'') (authority e) = host e"
    "tl (dropWhile (\<lambda>c. c \<noteq> CHR '':'') (authority e)) = (if port e \<noteq> default_port (secure e) then to_string (port e) else [])"
    "CHR '':'' \<in> set (authority e) \<longleftrightarrow> port e \<noteq> default_port (secure e)"
  proof -
    have "\<forall>c \<in> set (host e). c \<noteq> CHR '':''" using e lower_host_charD(4) by (auto simp: list_all_iff)
    then show "takeWhile (\<lambda>c. c \<noteq> CHR '':'') (authority e) = host e"
      "tl (dropWhile (\<lambda>c. c \<noteq> CHR '':'') (authority e)) = (if port e \<noteq> default_port (secure e) then to_string (port e) else [])"
      "CHR '':'' \<in> set (authority e) \<longleftrightarrow> port e \<noteq> default_port (secure e)"
      using e by (auto simp: takeWhile_append dropWhile_append)
  qed
  have port: "parse_port (secure e) (authority e) = Inr (port e)"
    using e from_chars_to_string [of "port e"] unfolding parse_port_def host(2,3) by simp
  have chars: "list_all url_char (url_text e)"
  proof -
    have "list_all url_char (?s @ ''://'')" by (cases "secure e"; simp; code_simp)
    then show ?thesis using authD e by (auto simp: url_text_def list_all_iff)
  qed
  have sch: "split_scheme (url_text e) = Some (?s, authority e @ target e)"
    using split_scheme_text [of "authority e @ target e"] by (auto simp: url_text_def)
  have low: "map ascii_lower (host e) = host e" "list_all host_char (host e)"
    using e ascii_lower_id lower_host_charD(1) by (auto simp: list_all_iff map_idI)
  have tgt: "url_target (target e) = target e"
  proof -
    have w: "takeWhile (\<lambda>c. c \<noteq> CHR ''#'') (target e) = target e" using e by (auto simp: takeWhile_eq_all_conv)
    show ?thesis using e unfolding url_target_def Let_def w by simp
  qed
  have "\<not> list_ex (\<lambda>c. c \<in> set ''@[]'') (authority e)" "authority e \<noteq> []" using authD e by (auto simp: list_ex_iff)
  moreover have "equal_field ?s ''https'' = secure e" "equal_field ?s ''http'' \<or> equal_field ?s ''https''"
    by (cases "secure e"; simp)+
  moreover have "\<lparr>host = host e, authority = host e @ (if port e \<noteq> default_port (secure e) then '':'' @ to_string (port e) else []),
      target = target e, port = port e, secure = secure e\<rparr> = e" "host e \<noteq> []" using e by (cases e; simp)+
  ultimately show ?thesis
    using len chars sch split host(1) low port tgt unfolding parse_url_def Let_def by simp
qed


subsection \<open>A request that is written\<close>

definition owned :: "string \<times> string \<Rightarrow> bool" where
  "owned h = list_ex (equal_field (fst h)) owned_fields"

lemma equal_field_iequals: "equal_field a b = iequals a b"
  by (induction a b rule: equal_field.induct) (auto simp: iequals_def ascii_lower_def tolower_def)

lemma add_user_headers_eq:
  "add_user_headers hs p =
    (if list_all (\<lambda>h. \<not> owned h \<and> field_ok h) hs then Inr (p\<lparr>p_headers := p_headers p @ hs\<rparr>) else Inl InvalidArgument)"
  by (induction hs arbitrary: p) (auto simp: owned_def p_header_eq)

lemma not_owned_length: "\<not> owned h \<Longrightarrow> \<not> iequals (fst h) ''Content-Length''"
  by (simp add: owned_def owned_fields_def flip: equal_field_iequals)

definition request_text :: "string \<Rightarrow> endpoint \<Rightarrow> string" where
  "request_text m e = m @ '' '' @ target e @ '' '' @ ''HTTP/1.1''"

definition method_ok :: "string \<Rightarrow> bool" where
  "method_ok m \<longleftrightarrow> is_token m \<and> m \<noteq> ''CONNECT''"

lemma endpoint_safe:
  assumes "endpoint_ok e"
  shows "is_safe_target (target e)" "is_safe_text (authority e)"
proof -
  have "url_char c \<Longrightarrow> c \<notin> set [CHR '' '', CHR 0x09, CRC, LFC, NUL]" for c by (auto simp: url_char_def)
  then show "is_safe_target (target e)" using assms by (auto simp: endpoint_ok_def is_safe_target_def list_all_iff)
  have "lower_host_char c \<Longrightarrow> c \<notin> set [CRC, LFC, NUL]" for c by (auto simp: lower_host_char_def in_range_def)
  then have "is_safe_text (host e)" using assms by (auto simp: endpoint_ok_def is_safe_text_def list_all_iff)
  then show "is_safe_text (authority e)"
    using assms to_string_safe [of "port e"] by (auto simp: endpoint_ok_def is_safe_text_def)
qed

lemma request_line_eq:
  "is_safe_target t \<Longrightarrow> request_line m t ''HTTP/1.1'' p_new =
    (if is_token m then Inr (p_new\<lparr>start_line := (m @ '' '' @ t @ '' '' @ ''HTTP/1.1'') @ crlf\<rparr>) else Inl InvalidArgument)"
proof -
  have "is_version ''HTTP/1.1''" by code_simp
  then show "is_safe_target t \<Longrightarrow> ?thesis" by (simp add: request_line_def p_clear_def p_new_def)
qed

lemma fixed_fields:
  "is_token ''Host''" "is_token ''Connection''" "is_safe_text ''keep-alive''" "is_safe_text ''close''"
  "\<not> iequals ''Host'' ''Content-Length''" "\<not> iequals ''Connection'' ''Content-Length''"
  by code_simp+

lemma serialize_eq:
  assumes "endpoint_ok e"
  shows "serialize r e =
    (let hs = (''Host'', authority e) # (''Connection'', if cr_keep_alive r then ''keep-alive'' else ''close'') # cr_headers r
     in if method_ok (cr_method r) \<and> list_all (\<lambda>h. \<not> owned h \<and> field_ok h) (cr_headers r)
        then Inr (request_text (cr_method r) e @ crlf @ concat (map header_line hs)
                  @ field_text (''Content-Length'', to_string (length (cr_body r))) @ crlf @ crlf @ cr_body r)
        else Inl InvalidArgument)"
proof -
  let ?c = "if cr_keep_alive r then ''keep-alive'' else ''close''"
  have nul: "is_token m \<Longrightarrow> NUL \<notin> set m" for m by (auto simp: is_token_def list_all_iff is_tchar_def in_range_def)
  have "\<not> has_header ((''Host'', authority e) # (''Connection'', ?c) # cr_headers r) ''Content-Length''"
    if "list_all (\<lambda>h. \<not> owned h \<and> field_ok h) (cr_headers r)"
    using that fixed_fields not_owned_length by (auto simp: has_header_def list_ex_iff list_all_iff)
  then show ?thesis
    using endpoint_safe [OF assms] fixed_fields nul [of "cr_method r"]
    by (auto simp: serialize_def request_line_eq p_header_eq field_ok_def add_user_headers_eq p_build_def set_body_def
        method_ok_def request_text_def Let_def field_text_def)
qed



text \<open>A written request has one reading. For an accepted endpoint, \<open>serialize\<close> fails with
  \<open>invalid_argument\<close> exactly when the method is not a token or is CONNECT, or a field of the user is
  one the client manages, has a name that is not a token or a value with a line end or a NUL.
  Otherwise the message, cut at its line ends, is the request line, one Host, one Connection, the
  fields of the user in their order, one Content-Length with the length of the body, an empty line
  and the body: no input can add a line or a second request.\<close>

theorem request_framing:
  assumes "parse_url u = Inr e"
  shows "case serialize r e of
     Inl x \<Rightarrow> x = InvalidArgument \<and>
       (\<not> method_ok (cr_method r) \<or> list_ex (\<lambda>h. owned h \<or> \<not> field_ok h) (cr_headers r))
   | Inr msg \<Rightarrow> method_ok (cr_method r) \<and>
       read_head msg =
         (request_text (cr_method r) e
            # map field_text ((''Host'', authority e) # (''Connection'', if cr_keep_alive r then ''keep-alive'' else ''close'') # cr_headers r)
            @ [''Content-Length: '' @ to_string (length (cr_body r))],
          cr_body r)"
proof (cases "method_ok (cr_method r) \<and> list_all (\<lambda>h. \<not> owned h \<and> field_ok h) (cr_headers r)")
  case False
  then have "serialize r e = Inl InvalidArgument"
    unfolding serialize_eq [OF parse_url_ok [OF assms]] Let_def by (simp only: if_False)
  moreover have "\<not> method_ok (cr_method r) \<or> list_ex (\<lambda>h. owned h \<or> \<not> field_ok h) (cr_headers r)"
    using False by (auto simp: list_all_iff list_ex_iff)
  ultimately show ?thesis by simp
next
  case True
  have ok: "endpoint_ok e" using assms by (rule parse_url_ok)
  define c where "c = (if cr_keep_alive r then ''keep-alive'' else ''close'')"
  define hs where "hs = (''Host'', authority e) # (''Connection'', c) # cr_headers r"
  define len where "len = (''Content-Length'', to_string (length (cr_body r)))"
  let ?ls = "request_text (cr_method r) e # map field_text (hs @ [len])"
  have "field_ok len" unfolding len_def by (rule content_length_ok)
  from field_line [OF this] have "field_text len \<noteq> [] \<and> CRC \<notin> set (field_text len)" .
  moreover have "list_all field_ok hs"
    using True fixed_fields(1-4) endpoint_safe [OF ok] by (auto simp: hs_def c_def field_ok_def list_all_iff)
  ultimately have fields: "l \<noteq> [] \<and> CRC \<notin> set l" if "l \<in> set (map field_text (hs @ [len]))" for l
    using that field_line by (auto simp: list_all_iff)
  have "request_text (cr_method r) e \<noteq> [] \<and> CRC \<notin> set (request_text (cr_method r) e)"
    using True endpoint_safe(1) [OF ok] safe_no_cr(2) [of "cr_method r"]
    by (auto simp: request_text_def method_ok_def is_safe_target_def list_all_iff)
  with fields have "l \<noteq> [] \<and> CRC \<notin> set l" if "l \<in> set ?ls" for l
    using that unfolding list.set by (elim insertE) (simp, rule fields)
  then have "read_head (concat (map (\<lambda>l. l @ crlf) ?ls) @ crlf @ cr_body r) = (?ls, cr_body r)" by (rule read_head_lines)
  moreover have "serialize r e = Inr (concat (map (\<lambda>l. l @ crlf) ?ls) @ crlf @ cr_body r)"
    unfolding serialize_eq [OF ok] Let_def if_P [OF True] c_def [symmetric] hs_def [symmetric] len_def [symmetric] header_lines by simp
  moreover have "field_text len = ''Content-Length: '' @ to_string (length (cr_body r))" by (simp add: len_def field_text_def)
  ultimately show ?thesis using True by (simp add: hs_def c_def)
qed

theorem request_framing_witness:
  "case serialize \<lparr>cr_method = ''GET'', cr_url = ''http://a/'', cr_headers = [(''X'', CRC # ''evil'')], cr_body = [], cr_keep_alive = True\<rparr>
          \<lparr>host = ''a'', authority = ''a'', target = ''/'', port = 80, secure = False\<rparr> of
     Inl x \<Rightarrow> x = InvalidArgument | Inr _ \<Rightarrow> False"
proof -
  have *: "parse_url ''http://a/'' = Inr \<lparr>host = ''a'', authority = ''a'', target = ''/'', port = 80, secure = False\<rparr>"
    by code_simp
  have "isl (serialize \<lparr>cr_method = ''GET'', cr_url = ''http://a/'', cr_headers = [(''X'', CRC # ''evil'')], cr_body = [], cr_keep_alive = True\<rparr>
          \<lparr>host = ''a'', authority = ''a'', target = ''/'', port = 80, secure = False\<rparr>)" by code_simp
  then show ?thesis
    using request_framing [OF *, of "\<lparr>cr_method = ''GET'', cr_url = ''http://a/'', cr_headers = [(''X'', CRC # ''evil'')], cr_body = [], cr_keep_alive = True\<rparr>"]
    by (auto split: sum.splits)
qed

end
