(* ===== verification/Http_Parse.thy ===== *)
theory Http_Parse
  imports Http_Message
begin

section \<open>The HTTP parser\<close>

text \<open>
  \<open>http_parse\<close> (src/thirdparty/http/src/http_parse.cpp), the class around the C parser llhttp: the
  callbacks that collect the message and enforce the limits, \<open>feed\<close>, \<open>finish\<close> and \<open>resume\<close>. The C
  parser itself is a parameter, a value of \<open>llhttp\<close>: for some input it says which callbacks it
  would make, each with the number of bytes before it and its state at that point, and how the
  input ends; it stops at the first callback that does not return success, as documented. Its
  answer may depend on whether \<open>on_headers_complete\<close> reports that no body follows (a response to
  HEAD). The callbacks of the user do not throw; they are the list of events \<open>feed\<close> gives back.
\<close>

subsection \<open>Model\<close>

datatype ll_event =
    On_Message_Begin
  | On_Url string
  | On_Header_Field string
  | On_Header_Value string
  | On_Header_Value_Complete bool
  | On_Headers_Complete string int
  | On_Body string
  | On_Message_Complete string int

record 'l llhttp =
  ll_init :: 'l
  ll_execute :: "bool \<Rightarrow> 'l \<Rightarrow> string \<Rightarrow> (ll_event \<times> nat \<times> 'l) list \<times> bool \<times> nat \<times> 'l"
  ll_finish :: "bool \<Rightarrow> 'l \<Rightarrow> (ll_event \<times> nat \<times> 'l) list \<times> bool \<times> nat \<times> 'l"
  ll_resume :: "'l \<Rightarrow> 'l"
  ll_keep_alive :: "'l \<Rightarrow> bool"

record parse_limits =
  body_limit :: nat
  url_limit :: nat
  header_bytes_limit :: nat
  header_count_limit :: nat

record 'l http_parse =
  ll :: 'l
  http_url :: string
  http_version :: string
  status_code :: int
  http_body :: string
  http_headers :: "string \<rightharpoonup> string"
  header_fields :: header_list
  trailer_fields :: header_list
  current_field :: string
  current_value :: string
  header_bytes :: nat
  header_count :: nat
  consumed_bytes :: nat
  completed :: bool
  paused :: bool
  failed :: bool
  limits :: parse_limits
  pause_after_message :: bool
  response_to_head :: bool

definition exceeds :: "nat \<Rightarrow> nat \<Rightarrow> nat \<Rightarrow> bool" where
  "exceeds used added limit = (limit \<noteq> 0 \<and> (used > limit \<or> added > limit - used))"

definition clear_result :: "'l http_parse \<Rightarrow> 'l http_parse" where
  "clear_result p = p\<lparr>http_url := [], http_version := [], http_body := [], http_headers := Map.empty, header_fields := [],
     trailer_fields := [], status_code := 0, completed := False, header_bytes := 0, header_count := 0,
     current_field := [], current_value := []\<rparr>"

datatype callback_result = Cb_Ok | Cb_Failed | Cb_Paused

fun on_event :: "ll_event \<Rightarrow> 'l http_parse \<Rightarrow> callback_result \<times> 'l http_parse" where
  "on_event On_Message_Begin p = (Cb_Ok, clear_result p)"
| "on_event (On_Url s) p =
    (if exceeds (length (http_url p)) (length s) (url_limit (limits p)) then (Cb_Failed, p)
     else (Cb_Ok, p\<lparr>http_url := http_url p @ s\<rparr>))"
| "on_event (On_Header_Field s) p =
    (if exceeds (header_bytes p) (length s) (header_bytes_limit (limits p)) then (Cb_Failed, p)
     else (Cb_Ok, p\<lparr>header_bytes := header_bytes p + length s, current_field := current_field p @ s\<rparr>))"
| "on_event (On_Header_Value s) p =
    (if exceeds (header_bytes p) (length s) (header_bytes_limit (limits p)) then (Cb_Failed, p)
     else (Cb_Ok, p\<lparr>header_bytes := header_bytes p + length s, current_value := current_value p @ s\<rparr>))"
| "on_event (On_Header_Value_Complete trailing) p =
    (if header_count_limit (limits p) \<noteq> 0 \<and> header_count p \<ge> header_count_limit (limits p) then (Cb_Failed, p)
     else let p = p\<lparr>header_count := header_count p + 1\<rparr>;
              p = (if trailing then p\<lparr>trailer_fields := trailer_fields p @ [(current_field p, current_value p)]\<rparr>
                   else p\<lparr>http_headers := (http_headers p)(current_field p \<mapsto> current_value p),
                          header_fields := header_fields p @ [(current_field p, current_value p)]\<rparr>)
     in (Cb_Ok, p\<lparr>current_field := [], current_value := []\<rparr>))"
| "on_event (On_Headers_Complete v st) p = (Cb_Ok, p\<lparr>http_version := v, status_code := st\<rparr>)"
| "on_event (On_Body s) p =
    (if exceeds (length (http_body p)) (length s) (body_limit (limits p)) then (Cb_Failed, p)
     else (Cb_Ok, p\<lparr>http_body := http_body p @ s\<rparr>))"
| "on_event (On_Message_Complete v st) p =
    (if pause_after_message p then Cb_Paused else Cb_Ok, p\<lparr>http_version := v, status_code := st, completed := True\<rparr>)"

text \<open>The C parser calls the callbacks in turn and stops at the first that does not succeed. The result:
  the callbacks that were made, how it ended, the position and the state.\<close>

fun run_callbacks ::
  "(ll_event \<times> nat \<times> 'l) list \<Rightarrow> callback_result \<Rightarrow> nat \<Rightarrow> 'l \<Rightarrow> 'l http_parse \<Rightarrow> ll_event list \<times> callback_result \<times> nat \<times> 'l http_parse"
where
  "run_callbacks [] r n l p = ([], r, n, p\<lparr>ll := l\<rparr>)"
| "run_callbacks ((ev, m, l') # evs) r n l p =
    (case on_event ev p of
       (Cb_Ok, p) \<Rightarrow> (case run_callbacks evs r n l p of (es, x) \<Rightarrow> (ev # es, x))
     | (Cb_Failed, p) \<Rightarrow> ([], Cb_Failed, m, p\<lparr>ll := l'\<rparr>)
     | (Cb_Paused, p) \<Rightarrow> ([ev], Cb_Paused, m, p\<lparr>ll := l'\<rparr>))"

definition parse_new :: "'l llhttp \<Rightarrow> parse_limits \<Rightarrow> bool \<Rightarrow> bool \<Rightarrow> 'l http_parse" where
  "parse_new L lim pause head = \<lparr>ll = ll_init L, http_url = [], http_version = [], status_code = 0, http_body = [],
     http_headers = Map.empty, header_fields = [], trailer_fields = [], current_field = [], current_value = [],
     header_bytes = 0, header_count = 0, consumed_bytes = 0, completed = False, paused = False, failed = False,
     limits = lim, pause_after_message = pause, response_to_head = head\<rparr>"

definition parse_reset :: "'l llhttp \<Rightarrow> 'l http_parse \<Rightarrow> 'l http_parse" where
  "parse_reset L p = p\<lparr>failed := False, current_field := [], current_value := [], header_bytes := 0, header_count := 0,
     consumed_bytes := 0, completed := False, paused := False, ll := ll_init L\<rparr>"

definition accept_result :: "callback_result \<Rightarrow> 'l http_parse \<Rightarrow> bool \<times> 'l http_parse" where
  "accept_result r p =
    (if r = Cb_Ok \<or> (r = Cb_Paused \<and> completed p) then (True, p\<lparr>paused := (r = Cb_Paused)\<rparr>)
     else (False, p\<lparr>failed := True\<rparr>))"

definition feed :: "'l llhttp \<Rightarrow> string \<Rightarrow> 'l http_parse \<Rightarrow> ll_event list \<times> bool \<times> 'l http_parse" where
  "feed L data p =
    (let p = p\<lparr>consumed_bytes := 0\<rparr>
     in if paused p then ([], True, p)
     else if failed p then ([], False, p)
     else if data = [] then ([], True, p)
     else case ll_execute L (response_to_head p) (ll p) data of (evs, ok, n, l) \<Rightarrow>
       (case run_callbacks evs (if ok then Cb_Ok else Cb_Failed) n l p of (es, r, pos, p) \<Rightarrow>
          (es, accept_result r (p\<lparr>consumed_bytes := (if r = Cb_Ok then length data else pos)\<rparr>))))"

definition parse_finish :: "'l llhttp \<Rightarrow> 'l http_parse \<Rightarrow> ll_event list \<times> bool \<times> 'l http_parse" where
  "parse_finish L p =
    (if failed p then ([], False, p)
     else if paused p \<and> completed p then ([], True, p)
     else case ll_finish L (response_to_head p) (ll p) of (evs, ok, n, l) \<Rightarrow>
       (case run_callbacks evs (if ok then Cb_Ok else Cb_Failed) n l p of (es, r, pos, p) \<Rightarrow> (es, accept_result r p)))"

definition parse_resume :: "'l llhttp \<Rightarrow> 'l http_parse \<Rightarrow> 'l http_parse" where
  "parse_resume L p = (if paused p then p\<lparr>ll := ll_resume L (ll p), paused := False, completed := False\<rparr> else p)"

definition feed_all :: "'l llhttp \<Rightarrow> string \<Rightarrow> 'l http_parse \<Rightarrow> ll_event list \<times> bool \<times> 'l http_parse" where
  "feed_all L data p = feed L data (parse_reset L p)"

definition parse_keep_alive :: "'l llhttp \<Rightarrow> 'l http_parse \<Rightarrow> bool" where
  "parse_keep_alive L p = (completed p \<and> ll_keep_alive L (ll p))"

subsection \<open>Limits\<close>

text \<open>What has been collected never exceeds a limit that is set.\<close>

definition within :: "nat \<Rightarrow> nat \<Rightarrow> bool" where
  "within n limit \<longleftrightarrow> limit = 0 \<or> n \<le> limit"

definition parse_inv :: "'l http_parse \<Rightarrow> bool" where
  "parse_inv p \<longleftrightarrow>
    within (length (http_url p)) (url_limit (limits p)) \<and>
    within (length (http_body p)) (body_limit (limits p)) \<and>
    within (header_bytes p) (header_bytes_limit (limits p)) \<and>
    within (header_count p) (header_count_limit (limits p)) \<and>
    length (header_fields p) + length (trailer_fields p) \<le> header_count p"

lemma within_0 [simp]: "within 0 l"
  by (simp add: within_def)

lemma exceeds_within: "\<not> exceeds a b l \<Longrightarrow> within (a + b) l"
  by (auto simp: exceeds_def within_def)

lemma within_Suc: "within n l \<Longrightarrow> l = 0 \<or> n < l \<Longrightarrow> within (Suc n) l"
  by (auto simp: within_def)

lemma on_event_frame: "limits (snd (on_event ev p)) = limits p" "pause_after_message (snd (on_event ev p)) = pause_after_message p"
  by (cases ev; simp add: clear_result_def Let_def)+

lemma on_event_inv: "parse_inv p \<Longrightarrow> parse_inv (snd (on_event ev p))"
proof (cases ev)
  case (On_Header_Value_Complete b)
  then show "parse_inv p \<Longrightarrow> ?thesis"
    using within_Suc [of "header_count p" "header_count_limit (limits p)"]
    by (cases b) (auto simp: parse_inv_def Let_def)
qed (simp_all add: parse_inv_def clear_result_def exceeds_within)

lemma run_callbacks_inv:
  "run_callbacks evs r n l p = (es, r', m, q) \<Longrightarrow> parse_inv p \<Longrightarrow>
   parse_inv q \<and> limits q = limits p \<and> pause_after_message q = pause_after_message p"
proof (induction evs arbitrary: p es)
  case Nil
  then show ?case by (auto simp: parse_inv_def)
next
  case (Cons e evs)
  obtain ev k l' where e: "e = (ev, k, l')" by (cases e) auto
  obtain c p' where o: "on_event ev p = (c, p')" by fastforce
  have p': "parse_inv p' \<and> limits p' = limits p \<and> pause_after_message p' = pause_after_message p"
    using on_event_inv [OF Cons.prems(2), of ev] on_event_frame [of ev p] o by simp
  show ?case
  proof (cases c)
    case Cb_Ok
    then obtain es' where "run_callbacks evs r n l p' = (es', r', m, q)"
      using Cons.prems(1) o e by (auto split: prod.splits)
    then show ?thesis using Cons.IH [of p' es'] p' by simp
  qed (use Cons.prems(1) o e p' in \<open>auto simp: parse_inv_def\<close>)
qed


lemma parse_inv_upd [simp]:
  "parse_inv (p\<lparr>consumed_bytes := n\<rparr>) = parse_inv p" "parse_inv (p\<lparr>paused := b\<rparr>) = parse_inv p"
  "parse_inv (p\<lparr>failed := b\<rparr>) = parse_inv p" "parse_inv (p\<lparr>ll := l\<rparr>) = parse_inv p"
  "parse_inv (p\<lparr>completed := b\<rparr>) = parse_inv p"
  by (simp_all add: parse_inv_def)

definition same_setup :: "'l http_parse \<Rightarrow> 'l http_parse \<Rightarrow> bool" where
  "same_setup q p \<longleftrightarrow> limits q = limits p \<and> pause_after_message q = pause_after_message p"

lemma accept_result_inv:
  "parse_inv p \<Longrightarrow> parse_inv (snd (accept_result r p)) \<and> same_setup (snd (accept_result r p)) p"
  by (simp add: accept_result_def same_setup_def)

lemma parse_inv_new: "parse_inv (parse_new L lim pause head)"
  by (simp add: parse_inv_def parse_new_def)

lemma parse_resume_inv: "parse_inv p \<Longrightarrow> parse_inv (parse_resume L p) \<and> same_setup (parse_resume L p) p"
  by (simp add: parse_resume_def same_setup_def)

lemma feed_inv:
  assumes "parse_inv p" "feed L data p = (es, ok, q)"
  shows "parse_inv q \<and> same_setup q p"
proof (cases "paused p \<or> failed p \<or> data = []")
  case True
  then show ?thesis using assms by (auto simp: feed_def same_setup_def Let_def split: if_splits)
next
  case False
  obtain evs c n l where x: "ll_execute L (response_to_head p) (ll p) data = (evs, c, n, l)" by (metis surj_pair)
  obtain es' r pos q' where y: "run_callbacks evs (if c then Cb_Ok else Cb_Failed) n l (p\<lparr>consumed_bytes := 0\<rparr>) = (es', r, pos, q')"
    by (metis surj_pair)
  have "parse_inv q'" "same_setup q' p" using run_callbacks_inv [OF y] assms(1) by (simp_all add: same_setup_def)
  moreover have "(ok, q) = accept_result r (q'\<lparr>consumed_bytes := (if r = Cb_Ok then length data else pos)\<rparr>)"
    using assms(2) False x y by (simp add: feed_def)
  ultimately show ?thesis
    using accept_result_inv [of "q'\<lparr>consumed_bytes := (if r = Cb_Ok then length data else pos)\<rparr>" r]
    by (auto simp: same_setup_def dest: arg_cong [of _ _ snd])
qed

lemma finish_inv:
  assumes "parse_inv p" "parse_finish L p = (es, ok, q)"
  shows "parse_inv q \<and> same_setup q p"
proof (cases "failed p \<or> paused p \<and> completed p")
  case True
  then show ?thesis using assms by (auto simp: parse_finish_def same_setup_def split: if_splits)
next
  case False
  obtain evs c n l where x: "ll_finish L (response_to_head p) (ll p) = (evs, c, n, l)" by (metis surj_pair)
  obtain es' r pos q' where y: "run_callbacks evs (if c then Cb_Ok else Cb_Failed) n l p = (es', r, pos, q')"
    by (metis surj_pair)
  have "parse_inv q'" "same_setup q' p" using run_callbacks_inv [OF y] assms(1) by (simp_all add: same_setup_def)
  moreover have "(ok, q) = accept_result r q'" using assms(2) False x y by (auto simp: parse_finish_def)
  ultimately show ?thesis using accept_result_inv [of q' r] by (metis same_setup_def snd_conv)
qed


text \<open>With a pause after each message, completion is always a pause.\<close>

lemma run_callbacks_completed:
  "run_callbacks evs r n l p = (es, r', m, q) \<Longrightarrow> pause_after_message p \<Longrightarrow> \<not> completed p \<Longrightarrow> completed q \<Longrightarrow> r' = Cb_Paused"
proof (induction evs arbitrary: p es)
  case (Cons e evs)
  obtain ev k l' where e: "e = (ev, k, l')" by (cases e) auto
  obtain c p' where o: "on_event ev p = (c, p')" by fastforce
  have p': "pause_after_message p'" using on_event_frame(2) [of ev p] o Cons.prems(2) by simp
  have c: "c = Cb_Paused \<or> \<not> completed p'"
    using o Cons.prems(2,3) by (cases ev) (auto simp: clear_result_def Let_def split: if_splits)
  show ?case
  proof (cases c)
    case Cb_Ok
    then obtain es' where "run_callbacks evs r n l p' = (es', r', m, q)"
      using Cons.prems(1) o e by (auto split: prod.splits)
    then show ?thesis using Cons.IH p' c Cb_Ok Cons.prems(4) by blast
  qed (use Cons.prems o e c in \<open>auto\<close>)
qed auto

lemma feed_completed:
  assumes "feed L data p = (es, True, q)" "pause_after_message p" "\<not> completed p" "completed q"
  shows "paused q"
proof (cases "paused p \<or> failed p \<or> data = []")
  case True
  then show ?thesis using assms by (auto simp: feed_def Let_def split: if_splits)
next
  case False
  obtain evs c n l where x: "ll_execute L (response_to_head p) (ll p) data = (evs, c, n, l)" by (metis surj_pair)
  obtain es' r pos q' where y: "run_callbacks evs (if c then Cb_Ok else Cb_Failed) n l (p\<lparr>consumed_bytes := 0\<rparr>) = (es', r, pos, q')"
    by (metis surj_pair)
  have a: "(True, q) = accept_result r (q'\<lparr>consumed_bytes := (if r = Cb_Ok then length data else pos)\<rparr>)"
    using assms(1) False x y by (simp add: feed_def)
  then have "completed q'" using assms(4) by (auto simp: accept_result_def split: if_splits)
  then have "r = Cb_Paused" using run_callbacks_completed [OF y] assms(2,3) by simp
  then show ?thesis using a by (auto simp: accept_result_def split: if_splits)
qed

end
