(* ===== verification/Http_Client.thy ===== *)
theory Http_Client
  imports Http_Url Http_Parse "HOL-Library.Char_ord" "HOL-Library.List_Lexorder" "HOL-Library.Product_Lexorder"
begin

section \<open>The HTTP client\<close>

text \<open>
  The second half of http_client.cpp: reading a response, streamed responses, the pools of the
  origins and the count of the requests in flight. What the transport gives is a list of read
  results; the list may end before the coroutine does, which is then still waiting (\<open>None\<close>). The C
  parser is the parameter \<open>L\<close> (see the HTTP parser). An \<open>HttpError\<close> or a system error is
  \<open>RuntimeError\<close>. Connecting, TLS, timeouts and the clock are not modelled; the connection pool has
  its own theory.
\<close>

subsection \<open>Options\<close>

record client_options =
  request_timeout :: int
  shutdown_timeout :: int
  idle_timeout :: int
  max_connections_per_origin :: nat
  max_idle_per_origin :: nat
  max_origins :: nat
  max_total_requests :: nat
  max_body_bytes :: nat
  max_request_wire_bytes :: nat
  max_header_bytes :: nat
  max_header_count :: nat
  max_response_wire_bytes :: nat

definition default_options :: client_options where
  "default_options = \<lparr>request_timeout = 30000, shutdown_timeout = 1000, idle_timeout = 30000, max_connections_per_origin = 8,
     max_idle_per_origin = 4, max_origins = 64, max_total_requests = 256, max_body_bytes = 8388608,
     max_request_wire_bytes = 16777216, max_header_bytes = 65536, max_header_count = 100, max_response_wire_bytes = 16777216\<rparr>"

definition check_options :: "client_options \<Rightarrow> unit result" where
  "check_options o' =
    (if request_timeout o' < 0 \<or> shutdown_timeout o' \<le> 0 \<or> idle_timeout o' \<le> 0 \<or> max_origins o' = 0 \<or>
        max_connections_per_origin o' = 0 \<or> max_body_bytes o' = 0 \<or> max_request_wire_bytes o' = 0 \<or>
        max_header_bytes o' = 0 \<or> max_header_count o' = 0 \<or> max_response_wire_bytes o' = 0
     then Inl InvalidArgument else Inr ())"

subsection \<open>Reading a response\<close>

datatype net_read = Read_Error | Read_Eof | Read_Data string

record client_response =
  r_status :: int
  r_version :: string
  r_headers :: header_list
  r_trailers :: header_list
  r_body :: string
  r_keep_alive :: bool

definition response_parser :: "'l llhttp \<Rightarrow> bool \<Rightarrow> client_options \<Rightarrow> 'l http_parse" where
  "response_parser L head o' =
    parse_new L \<lparr>body_limit = max_body_bytes o', url_limit = 8192, header_bytes_limit = max_header_bytes o',
      header_count_limit = max_header_count o'\<rparr> True head"

text \<open>The inner loop over the bytes of one read: the parser, the number of informational responses.\<close>

function feed_response :: "'l llhttp \<Rightarrow> string \<Rightarrow> 'l http_parse \<Rightarrow> nat \<Rightarrow> ('l http_parse \<times> nat) result" where
  "feed_response L data p info =
    (if data = [] then Inr (p, info)
     else case feed L data p of (es, ok, p) \<Rightarrow>
       if \<not> ok then Inl RuntimeError
       else if consumed_bytes p = 0 then Inl RuntimeError
       else let rest = drop (consumed_bytes p) data
       in if completed p then
            (if status_code p = 101 then Inl RuntimeError
             else if status_code p < 200 then
               (if info + 1 > 8 then Inl RuntimeError else feed_response L rest (parse_resume L p) (info + 1))
             else if rest \<noteq> [] then Inl RuntimeError
             else Inr (p, info))
          else feed_response L rest p info)"
  by auto
termination by (relation "measure (\<lambda>(L, data, p, info). length data)") auto

declare feed_response.simps [simp del]

definition make_response :: "'l llhttp \<Rightarrow> 'l http_parse \<Rightarrow> client_response" where
  "make_response L p = \<lparr>r_status = status_code p, r_version = http_version p, r_headers = header_fields p,
     r_trailers = trailer_fields p, r_body = http_body p, r_keep_alive = parse_keep_alive L p\<rparr>"

fun read_loop ::
  "'l llhttp \<Rightarrow> client_options \<Rightarrow> net_read list \<Rightarrow> nat \<Rightarrow> nat \<Rightarrow> 'l http_parse \<Rightarrow> client_response result option"
where
  "read_loop L o' [] wire info p = None"
| "read_loop L o' (Read_Error # rs) wire info p = Some (Inl RuntimeError)"
| "read_loop L o' (Read_Eof # rs) wire info p =
    (case parse_finish L p of (es, ok, p) \<Rightarrow>
       Some (if \<not> ok \<or> \<not> completed p \<or> status_code p < 200 then Inl RuntimeError else Inr (make_response L p)))"
| "read_loop L o' (Read_Data d # rs) wire info p =
    (if length d > max_response_wire_bytes o' - wire then Some (Inl RuntimeError)
     else case feed_response L d p info of
       Inl e \<Rightarrow> Some (Inl e)
     | Inr (p, info) \<Rightarrow>
         if completed p then Some (Inr (make_response L p)) else read_loop L o' rs (wire + length d) info p)"

definition read_response :: "'l llhttp \<Rightarrow> bool \<Rightarrow> client_options \<Rightarrow> net_read list \<Rightarrow> client_response result option" where
  "read_response L head o' rs = read_loop L o' rs 0 0 (response_parser L head o')"


subsection \<open>What a response is\<close>

definition parser_ok :: "client_options \<Rightarrow> 'l http_parse \<Rightarrow> bool" where
  "parser_ok o' p \<longleftrightarrow> parse_inv p \<and> pause_after_message p \<and> body_limit (limits p) = max_body_bytes o' \<and>
     header_count_limit (limits p) = max_header_count o' \<and> header_bytes_limit (limits p) = max_header_bytes o'"

lemma parser_ok_same: "parser_ok o' p \<Longrightarrow> parse_inv q \<and> same_setup q p \<Longrightarrow> parser_ok o' q"
  by (simp add: parser_ok_def same_setup_def)

lemma feed_response_ok:
  "feed_response L data p info = Inr (q, info') \<Longrightarrow> parser_ok o' p \<Longrightarrow> \<not> completed p \<Longrightarrow>
   parser_ok o' q \<and> (completed q \<longrightarrow> 200 \<le> status_code q) \<and> info' \<le> max info 8"
proof (induction L data p info rule: feed_response.induct)
  case (1 L data p info)
  show ?case
  proof (cases "data = []")
    case True
    then show ?thesis using 1 by (simp add: feed_response.simps)
  next
    case False
    obtain es ok p1 where f: "feed L data p = (es, ok, p1)" by (metis surj_pair)
    let ?rest = "drop (consumed_bytes p1) data"
    from 1(3) False f have ok: "ok" "consumed_bytes p1 \<noteq> 0" by (auto simp: feed_response.simps [of L data] split: if_splits)
    have p1: "parser_ok o' p1" using 1(4) feed_inv [OF _ f] by (auto simp: parser_ok_def same_setup_def)
    consider "completed p1" "status_code p1 < 200 \<and> status_code p1 \<noteq> 101" "info < 8" "feed_response L ?rest (parse_resume L p1) (info + 1) = Inr (q, info')"
      | "completed p1" "\<not> status_code p1 < 200" "q = p1" "info' = info"
      | "\<not> completed p1" "feed_response L ?rest p1 info = Inr (q, info')"
      using 1(3) False f ok by (auto simp: feed_response.simps [of L data] Let_def split: if_splits)
    then show ?thesis
    proof cases
      case 1
      have "paused p1" using feed_completed [of L data p es p1] f ok \<open>parser_ok o' p\<close> \<open>\<not> completed p\<close> 1(1)
        by (simp add: parser_ok_def)
      then have "\<not> completed (parse_resume L p1)" by (simp add: parse_resume_def)
      moreover have "parser_ok o' (parse_resume L p1)"
        using p1 parse_resume_inv [of p1 L] by (auto simp: parser_ok_def same_setup_def)
      ultimately show ?thesis
        using "1.IH"(1) [OF False f [symmetric] refl _ ok(2) refl 1(1)] 1 ok
        by (simp add: max_def split: if_splits)
    next
      case 2
      then show ?thesis using p1 by simp
    next
      case 3
      then show ?thesis using "1.IH"(2) [OF False f [symmetric] refl _ ok(2) refl 3(1)] p1 ok by simp
    qed
  qed
qed


fun read_size :: "net_read \<Rightarrow> nat" where
  "read_size (Read_Data d) = length d"
| "read_size _ = 0"

definition response_bounds :: "client_options \<Rightarrow> client_response \<Rightarrow> bool" where
  "response_bounds o' r \<longleftrightarrow> 200 \<le> r_status r \<and> within (length (r_body r)) (max_body_bytes o') \<and>
     within (length (r_headers r) + length (r_trailers r)) (max_header_count o')"

lemma make_response_bounds: "parser_ok o' p \<Longrightarrow> 200 \<le> status_code p \<Longrightarrow> response_bounds o' (make_response L p)"
  by (auto simp: parser_ok_def parse_inv_def response_bounds_def make_response_def within_def)

lemma read_loop_ok:
  "read_loop L o' rs wire info p = Some (Inr r) \<Longrightarrow> parser_ok o' p \<Longrightarrow> \<not> completed p \<Longrightarrow> wire \<le> max_response_wire_bytes o' \<Longrightarrow>
   response_bounds o' r \<and>
   (\<exists>used rest. rs = used @ rest \<and> wire + sum_list (map read_size used) \<le> max_response_wire_bytes o' \<and>
      read_loop L o' used wire info p = Some (Inr r))"
proof (induction rs arbitrary: wire info p)
  case (Cons x rs)
  show ?case
  proof (cases x)
    case Read_Error
    then show ?thesis using Cons.prems by simp
  next
    case Read_Eof
    obtain es ok q where f: "parse_finish L p = (es, ok, q)" by (metis surj_pair)
    then have r: "r = make_response L q" "200 \<le> status_code q" using Cons.prems(1) Read_Eof by (auto split: if_splits)
    have "parser_ok o' q" using Cons.prems(2) finish_inv [OF _ f] by (auto simp: parser_ok_def same_setup_def)
    then have "response_bounds o' r" using r make_response_bounds by blast
    moreover have "x # rs = [x] @ rs" "wire + sum_list (map read_size [x]) \<le> max_response_wire_bytes o'"
      "read_loop L o' [x] wire info p = Some (Inr r)"
      using Cons.prems(1,4) Read_Eof by simp_all
    ultimately show ?thesis by blast
  next
    case (Read_Data d)
    have len: "length d \<le> max_response_wire_bytes o' - wire" using Cons.prems(1) Read_Data by (auto split: if_splits)
    then obtain q info' where f: "feed_response L d p info = Inr (q, info')"
      using Cons.prems(1) Read_Data by (auto split: sum.splits)
    note q = feed_response_ok [OF f Cons.prems(2,3)]
    show ?thesis
    proof (cases "completed q")
      case True
      then have "r = make_response L q" using Cons.prems(1) Read_Data f len by simp
      then have "response_bounds o' r" using q True make_response_bounds by blast
      moreover have "x # rs = [x] @ rs" "wire + sum_list (map read_size [x]) \<le> max_response_wire_bytes o'"
        "read_loop L o' [x] wire info p = Some (Inr r)"
        using Cons.prems(1,4) Read_Data len f True by simp_all
      ultimately show ?thesis by blast
    next
      case False
      have "read_loop L o' rs (wire + length d) info' q = Some (Inr r)" using Cons.prems(1) Read_Data f len False by simp
      moreover have "wire + length d \<le> max_response_wire_bytes o'" using len Cons.prems(4) by linarith
      ultimately obtain used rest where
        u: "response_bounds o' r" "rs = used @ rest" "wire + length d + sum_list (map read_size used) \<le> max_response_wire_bytes o'"
        "read_loop L o' used (wire + length d) info' q = Some (Inr r)" using Cons.IH False q by blast
      have "x # rs = (x # used) @ rest" "wire + sum_list (map read_size (x # used)) \<le> max_response_wire_bytes o'"
        "read_loop L o' (x # used) wire info p = Some (Inr r)"
        using u Read_Data f len False by simp_all
      then show ?thesis using u(1) by blast
    qed
  qed
qed simp

lemma read_loop_ends:
  "wire + sum_list (map read_size rs) > max_response_wire_bytes o' \<Longrightarrow> wire \<le> max_response_wire_bytes o' \<Longrightarrow>
   read_loop L o' rs wire info p \<noteq> None"
proof (induction rs arbitrary: wire info p)
  case (Cons x rs)
  then show ?case by (cases x) (auto split: prod.splits sum.splits)
qed simp

lemma response_parser_ok: "parser_ok o' (response_parser L head o')" "\<not> completed (response_parser L head o')"
  using parse_inv_new by (auto simp: parser_ok_def response_parser_def parse_new_def parse_inv_def)

text \<open>Reading a response is bounded, whatever the peer sends and whatever the parser does with it. A
  response that is returned is final (its status is at least 200), its body and the number of its
  fields are within the configured limits, and it was decided by a prefix of the reads that holds
  at most \<open>max_response_wire_bytes\<close> bytes. A peer that goes on sending does not keep the client
  waiting: once more bytes have arrived than the limit, the read has ended.\<close>

theorem response_bounded:
  "(read_response L head o' rs = Some (Inr r) \<longrightarrow>
      200 \<le> r_status r \<and> within (length (r_body r)) (max_body_bytes o') \<and>
      within (length (r_headers r) + length (r_trailers r)) (max_header_count o') \<and>
      (\<exists>used rest. rs = used @ rest \<and> sum_list (map read_size used) \<le> max_response_wire_bytes o' \<and>
         read_response L head o' used = Some (Inr r))) \<and>
   (sum_list (map read_size rs) > max_response_wire_bytes o' \<longrightarrow> read_response L head o' rs \<noteq> None)"
  using read_loop_ok [OF _ response_parser_ok, of L o' rs 0 0 L head r] read_loop_ends [of o' 0 rs L 0]
  by (simp add: read_response_def response_bounds_def)

text \<open>A parser for the witnesses: every piece of input is one message with that body.\<close>

definition one_piece :: "unit llhttp" where
  "one_piece = \<lparr>ll_init = (),
     ll_execute = (\<lambda>head l d. ([(On_Message_Begin, 0, ()), (On_Headers_Complete ''1.1'' 200, 0, ()), (On_Body d, length d, ()),
        (On_Message_Complete ''1.1'' 200, length d, ())], True, length d, ())),
     ll_finish = (\<lambda>head l. ([], False, 0, ())), ll_resume = id, ll_keep_alive = (\<lambda>l. True)\<rparr>"

theorem response_bounded_witness:
  "(case read_response one_piece False (default_options\<lparr>max_body_bytes := 4\<rparr>) [Read_Data ''ok''] of
      Some (Inr r) \<Rightarrow> r_status r = 200 \<and> r_body r = ''ok'' | _ \<Rightarrow> False) \<and>
   read_response one_piece False (default_options\<lparr>max_response_wire_bytes := 1\<rparr>) [Read_Data ''ok''] \<noteq> None"
  using response_bounded [of one_piece False "default_options\<lparr>max_response_wire_bytes := 1\<rparr>" "[Read_Data ''ok'']"]
  by (simp add: read_response_def response_parser_def parse_new_def feed_response.simps feed_def one_piece_def default_options_def
      clear_result_def exceeds_def accept_result_def make_response_def)

end
