(* ===== verification/Http_Pools.thy ===== *)
theory Http_Pools
  imports Http_Client Pool
begin

section \<open>Origins and requests in flight\<close>

text \<open>
  The state of an \<open>HttpClient\<close> (http_client.cpp, \<open>HttpClient::impl\<close>): the pools of its origins, the
  number of requests and streams in flight, and closing. A pool is shared between the map and the
  requests that use it, so pools are kept in a store and the map has their names; the steps of a
  pool are those of the pool theory. A request or a stream is named by a number; \<open>cl_active\<close> are those
  that count as in flight, \<open>cl_uses\<close> the pool each has got. The map is kept in the order of its keys.
  \<open>TLS\<close> says whether the client is built with TLS and whether its trust anchors load.
\<close>

subsection \<open>Model\<close>

type_synonym origin = "bool \<times> string \<times> nat"

datatype aclose_phase = Not_Called | Parked | Runnable | Returned

record 'r http_client =
  cl_closed :: bool
  cl_tls :: bool
  cl_pools :: "(origin \<times> nat) list"
  cl_store :: "nat \<Rightarrow> 'r pool_state"
  cl_next :: nat
  cl_in_flight :: nat
  cl_event :: "bool option"
  cl_aclose :: aclose_phase
  cl_active :: "nat set"
  cl_uses :: "nat \<rightharpoonup> nat"

definition client_new :: "'r http_client" where
  "client_new = \<lparr>cl_closed = False, cl_tls = False, cl_pools = [], cl_store = (\<lambda>_. pool_new 0 0), cl_next = 0, cl_in_flight = 0,
     cl_event = None, cl_aclose = Not_Called, cl_active = {}, cl_uses = Map.empty\<rparr>"

definition origin_of :: "endpoint \<Rightarrow> origin" where
  "origin_of e = (secure e, host e, port e)"

definition close_one :: "nat \<Rightarrow> 'r http_client \<Rightarrow> 'r http_client" where
  "close_one i c = c\<lparr>cl_store := (cl_store c)(i := pool_close (cl_store c i))\<rparr>"

definition close_pools :: "'r http_client \<Rightarrow> 'r http_client" where
  "close_pools c = (fold (\<lambda>(k, i). close_one i) (cl_pools c) c)\<lparr>cl_pools := []\<rparr>"

text \<open>\<open>Event::set\<close> and \<open>clear\<close> of the idle event; the only coroutines that wait for it are those in
  \<open>aclose\<close>, of which one stands for all.\<close>

definition set_idle :: "'r http_client \<Rightarrow> 'r http_client" where
  "set_idle c = c\<lparr>cl_event := Some True, cl_aclose := (if cl_aclose c = Parked then Runnable else cl_aclose c)\<rparr>"

definition release_inflight :: "'r http_client \<Rightarrow> 'r http_client" where
  "release_inflight c =
    (if cl_in_flight c > 0
     then let c = c\<lparr>cl_in_flight := cl_in_flight c - 1\<rparr>
          in if cl_in_flight c = 0 \<and> cl_event c \<noteq> None then set_idle c else c
     else c)"

text \<open>A pool that no lease and no waiting coroutine uses.\<close>

definition unused :: "'r pool_state \<Rightarrow> bool" where
  "unused st \<longleftrightarrow> in_use st = 0 \<and> length (waiters st) = 0"

text \<open>The eviction of an unused pool when the number of origins is at its limit.\<close>

definition make_room :: "client_options \<Rightarrow> 'r http_client \<Rightarrow> 'r http_client result" where
  "make_room o' c =
    (if length (cl_pools c) = max_origins o' then
       (case find (\<lambda>(k, i). unused (cl_store c i)) (cl_pools c) of
          None \<Rightarrow> Inl RuntimeError
        | Some (k, i) \<Rightarrow> Inr ((close_one i c)\<lparr>cl_pools := filter (\<lambda>(k', _). k' \<noteq> k) (cl_pools c)\<rparr>))
     else Inr c)"

definition pool_for :: "client_options \<Rightarrow> bool \<Rightarrow> endpoint \<Rightarrow> 'r http_client \<Rightarrow> nat result \<times> 'r http_client" where
  "pool_for o' trust e c =
    (case map_of (cl_pools c) (origin_of e) of
       Some i \<Rightarrow> (Inr i, c)
     | None \<Rightarrow>
         (case make_room o' c of
            Inl x \<Rightarrow> (Inl x, c)
          | Inr c \<Rightarrow>
              if secure e \<and> \<not> cl_tls c \<and> \<not> trust then (Inl RuntimeError, c)
              else let c = c\<lparr>cl_tls := cl_tls c \<or> secure e\<rparr>; i = cl_next c
              in (Inr i, c\<lparr>cl_next := i + 1,
                           cl_store := (cl_store c)(i := pool_new (max_connections_per_origin o') (max_idle_per_origin o')),
                           cl_pools := insort_key fst (origin_of e, i) (cl_pools c)\<rparr>)))"

text \<open>The start of \<open>perform\<close>, up to the first suspension; the scope that counts the request is left
  when the start fails. \<open>stream_open\<close> starts in the same way.\<close>

definition perform_start ::
  "client_options \<Rightarrow> bool \<Rightarrow> bool \<Rightarrow> nat \<Rightarrow> client_request \<Rightarrow> 'r http_client \<Rightarrow> (string \<times> nat) result \<times> 'r http_client" where
  "perform_start o' has_tls trust rid r c =
    (if cl_closed c then (Inl RuntimeError, c)
     else if max_total_requests o' \<noteq> 0 \<and> cl_in_flight c \<ge> max_total_requests o' then (Inl OverloadError, c)
     else let c = c\<lparr>cl_in_flight := cl_in_flight c + 1\<rparr>
     in case parse_url (cr_url r) of
          Inl x \<Rightarrow> (Inl x, release_inflight c)
        | Inr e \<Rightarrow>
            if secure e \<and> \<not> has_tls then (Inl RuntimeError, release_inflight c)
            else case serialize r e of
              Inl x \<Rightarrow> (Inl x, release_inflight c)
            | Inr wire \<Rightarrow>
                if length wire > max_request_wire_bytes o' then (Inl RuntimeError, release_inflight c)
                else case pool_for o' trust e c of
                  (Inl x, c) \<Rightarrow> (Inl x, release_inflight c)
                | (Inr i, c) \<Rightarrow> (Inr (wire, i), c\<lparr>cl_active := insert rid (cl_active c), cl_uses := (cl_uses c)(rid \<mapsto> i)\<rparr>))"

text \<open>A request or a stream ends, in any way.\<close>

definition request_end :: "nat \<Rightarrow> 'r http_client \<Rightarrow> 'r http_client" where
  "request_end rid c = release_inflight (c\<lparr>cl_active := cl_active c - {rid}, cl_uses := (cl_uses c)(rid := None)\<rparr>)"

text \<open>\<open>close\<close> on the loop of the client; from another thread the pools are closed by a posted call.\<close>

definition client_close :: "bool \<Rightarrow> 'r http_client \<Rightarrow> bool \<times> 'r http_client" where
  "client_close same_loop c =
    (if cl_closed c then (False, c)
     else let c = c\<lparr>cl_closed := True\<rparr>
     in if same_loop then (False, close_pools c) else (True, c))"

text \<open>\<open>aclose\<close>: from the top of its loop, its start and what it does when the event wakes it.\<close>

definition aclose_loop :: "'r http_client \<Rightarrow> 'r http_client" where
  "aclose_loop c =
    (if cl_in_flight c > 0 then c\<lparr>cl_event := Some False, cl_aclose := Parked\<rparr> else c\<lparr>cl_aclose := Returned\<rparr>)"

definition aclose_start :: "'r http_client \<Rightarrow> 'r http_client" where
  "aclose_start c =
    (let c = snd (client_close True c);
         c = (if cl_event c = None then c\<lparr>cl_event := Some False\<rparr> else c)
     in aclose_loop c)"

text \<open>Which connection goes back to its pool after a response.\<close>

definition keeps_connection :: "bool \<Rightarrow> client_request \<Rightarrow> client_response \<Rightarrow> 'r http_client \<Rightarrow> bool" where
  "keeps_connection reusable r resp c = (cr_keep_alive r \<and> r_keep_alive resp \<and> reusable \<and> \<not> cl_closed c)"

subsection \<open>Runs of a client\<close>

inductive client_step :: "client_options \<Rightarrow> 'r http_client \<Rightarrow> 'r http_client \<Rightarrow> bool" for o' where
  cs_start: "rid \<notin> cl_active c \<Longrightarrow> perform_start o' tls trust rid r c = (x, c') \<Longrightarrow> client_step o' c c'"
| cs_pool: "rid \<in> cl_active c \<Longrightarrow> cl_uses c rid = Some i \<Longrightarrow> pool_step (cl_store c i) st \<Longrightarrow>
    client_step o' c (c\<lparr>cl_store := (cl_store c)(i := st)\<rparr>)"
| cs_end: "rid \<in> cl_active c \<Longrightarrow> client_step o' c (request_end rid c)"
| cs_close: "client_close same c = (posted, c') \<Longrightarrow> client_step o' c c'"
| cs_posted: "cl_closed c \<Longrightarrow> client_step o' c (close_pools c)"
| cs_aclose: "cl_aclose c = Not_Called \<Longrightarrow> client_step o' c (aclose_start c)"
| cs_aclose_resume: "cl_aclose c = Runnable \<Longrightarrow> client_step o' c (aclose_loop c)"

text \<open>A client exists only with options its constructor accepts.\<close>

definition client_start :: "client_options \<Rightarrow> 'r http_client \<Rightarrow> bool" where
  "client_start o' c \<longleftrightarrow> check_options o' = Inr () \<and> c = client_new"


subsection \<open>The invariant\<close>

definition pool_good :: "client_options \<Rightarrow> 'r pool_state \<Rightarrow> bool" where
  "pool_good o' st \<longleftrightarrow> pool_ok st \<and> exclusive st \<and> max_agents st = max_connections_per_origin o'"

definition origins_ok :: "client_options \<Rightarrow> 'r http_client \<Rightarrow> bool" where
  "origins_ok o' c \<longleftrightarrow>
    distinct (map fst (cl_pools c)) \<and> length (cl_pools c) \<le> max_origins o' \<and>
    (\<forall>(k, i) \<in> set (cl_pools c). i < cl_next c) \<and> (\<forall>i < cl_next c. pool_good o' (cl_store c i))"

definition flight_ok :: "client_options \<Rightarrow> 'r http_client \<Rightarrow> bool" where
  "flight_ok o' c \<longleftrightarrow>
    finite (cl_active c) \<and> cl_in_flight c = card (cl_active c) \<and>
    (max_total_requests o' \<noteq> 0 \<longrightarrow> cl_in_flight c \<le> max_total_requests o') \<and>
    (\<forall>rid i. cl_uses c rid = Some i \<longrightarrow> i < cl_next c)"

definition aclose_ok :: "'r http_client \<Rightarrow> bool" where
  "aclose_ok c \<longleftrightarrow>
    (cl_aclose c \<noteq> Not_Called \<longrightarrow> cl_closed c \<and> cl_event c \<noteq> None) \<and>
    (cl_aclose c = Parked \<longrightarrow> cl_in_flight c > 0) \<and> (cl_aclose c = Returned \<longrightarrow> cl_in_flight c = 0)"

definition client_inv :: "client_options \<Rightarrow> 'r http_client \<Rightarrow> bool" where
  "client_inv o' c \<longleftrightarrow> origins_ok o' c \<and> flight_ok o' c \<and> aclose_ok c"

lemma wake_all_max: "max_agents (wake_all st) = max_agents st"
  by (induction st rule: wake_all.induct) (auto simp: wake_all.simps)

lemma pool_step_max: "pool_step st st' \<Longrightarrow> max_agents st' = max_agents st"
  by (induction rule: pool_step.induct)
    (auto simp: acquire_loop_def pool_await_suspend_def pool_resume_def pool_awaiter_destroy_def pool_drop_def pool_cancel_def
      built_def reservation_destroy_def build_failed_def lease_release_def lease_discard_def pool_close_def wake_all_max Let_def
      split: option.splits agent.splits)

lemma pool_good_step: "pool_good o' st \<Longrightarrow> pool_step st st' \<Longrightarrow> pool_good o' st'"
  using pools.inv_step [of st st'] pool_step_max [of st st'] by (auto simp: pool_good_def)

lemma pool_good_new: "pool_good o' (pool_new (max_connections_per_origin o') n)"
  using pools.inv_init [of "pool_new (max_connections_per_origin o') n"] by (auto simp: pool_good_def pool_new_def)

lemma pool_good_close: "pool_good o' st \<Longrightarrow> pool_good o' (pool_close st)"
  using pool_good_step ps_close by blast

lemma close_one_frame [simp]:
  "cl_pools (close_one i c) = cl_pools c" "cl_next (close_one i c) = cl_next c" "cl_in_flight (close_one i c) = cl_in_flight c"
  "cl_active (close_one i c) = cl_active c" "cl_uses (close_one i c) = cl_uses c" "cl_closed (close_one i c) = cl_closed c"
  "cl_event (close_one i c) = cl_event c" "cl_aclose (close_one i c) = cl_aclose c" "cl_tls (close_one i c) = cl_tls c"
  by (simp_all add: close_one_def)

lemma origins_close_one: "origins_ok o' c \<Longrightarrow> origins_ok o' (close_one i c)"
  using pool_good_close by (auto simp: origins_ok_def close_one_def)

lemma fold_close:
  "origins_ok o' c \<Longrightarrow> c' = fold (\<lambda>(k, i). close_one i) ps c \<Longrightarrow>
   origins_ok o' c' \<and> cl_in_flight c' = cl_in_flight c \<and> cl_active c' = cl_active c \<and> cl_uses c' = cl_uses c \<and>
   cl_closed c' = cl_closed c \<and> cl_event c' = cl_event c \<and> cl_aclose c' = cl_aclose c \<and> cl_next c' = cl_next c"
  by (induction ps arbitrary: c) (auto simp: origins_close_one)

lemma close_pools_inv: "client_inv o' c \<Longrightarrow> client_inv o' (close_pools c)"
proof -
  assume inv: "client_inv o' c"
  define d where "d = fold (\<lambda>(k, i). close_one i) (cl_pools c) c"
  have d: "origins_ok o' d" "cl_in_flight d = cl_in_flight c" "cl_active d = cl_active c" "cl_uses d = cl_uses c"
    "cl_closed d = cl_closed c" "cl_event d = cl_event c" "cl_aclose d = cl_aclose c" "cl_next d = cl_next c"
    using fold_close [OF _ d_def] inv by (auto simp: client_inv_def)
  then show ?thesis
    using inv unfolding close_pools_def d_def [symmetric]
    by (auto simp: client_inv_def origins_ok_def flight_ok_def aclose_ok_def)
qed

lemma fold_close_frame:
  fixes c :: "'r http_client"
  shows "cl_closed (fold (\<lambda>(k, i). close_one i) ps c) = cl_closed c" "cl_event (fold (\<lambda>(k, i). close_one i) ps c) = cl_event c"
    "cl_in_flight (fold (\<lambda>(k, i). close_one i) ps c) = cl_in_flight c" "cl_aclose (fold (\<lambda>(k, i). close_one i) ps c) = cl_aclose c"
  by (induction ps arbitrary: c) (auto split: prod.splits)

lemma close_pools_closed: "cl_closed (close_pools c) = cl_closed c" "cl_event (close_pools c) = cl_event c"
  "cl_in_flight (close_pools c) = cl_in_flight c" "cl_aclose (close_pools c) = cl_aclose c"
  by (simp_all add: close_pools_def fold_close_frame)

text \<open>Releasing a request: the count goes down by one and a parked \<open>aclose\<close> is woken by the last.\<close>

definition flight_but_one :: "client_options \<Rightarrow> 'r http_client \<Rightarrow> bool" where
  "flight_but_one o' c \<longleftrightarrow>
    finite (cl_active c) \<and> cl_in_flight c = card (cl_active c) + 1 \<and>
    (max_total_requests o' \<noteq> 0 \<longrightarrow> cl_in_flight c \<le> max_total_requests o') \<and>
    (\<forall>rid i. cl_uses c rid = Some i \<longrightarrow> i < cl_next c)"

lemma release_inv:
  assumes "origins_ok o' c" "flight_but_one o' c" "aclose_ok c"
  shows "client_inv o' (release_inflight c)"
  using assms
  by (auto simp: client_inv_def release_inflight_def set_idle_def origins_ok_def flight_but_one_def flight_ok_def aclose_ok_def Let_def card_gt_0_iff)


text \<open>What looking up a pool leaves alone.\<close>

definition same_flight :: "'r http_client \<Rightarrow> 'r http_client \<Rightarrow> bool" where
  "same_flight c' c \<longleftrightarrow> cl_in_flight c' = cl_in_flight c \<and> cl_active c' = cl_active c \<and> cl_uses c' = cl_uses c \<and>
     cl_closed c' = cl_closed c \<and> cl_event c' = cl_event c \<and> cl_aclose c' = cl_aclose c \<and> cl_next c \<le> cl_next c'"

lemma same_flight_refl [simp]: "same_flight c c"
  by (simp add: same_flight_def)

lemma make_room_inv:
  assumes "origins_ok o' c" "0 < max_origins o'" "make_room o' c = Inr c'"
  shows "origins_ok o' c' \<and> same_flight c' c \<and> length (cl_pools c') < max_origins o' \<and> set (cl_pools c') \<subseteq> set (cl_pools c) \<and>
     cl_next c' = cl_next c"
proof (cases "length (cl_pools c) = max_origins o'")
  case True
  then obtain k i where f: "find (\<lambda>(k, i). unused (cl_store c i)) (cl_pools c) = Some (k, i)"
    and c': "c' = (close_one i c)\<lparr>cl_pools := filter (\<lambda>(k', _). k' \<noteq> k) (cl_pools c)\<rparr>"
    using assms(3) by (auto simp: make_room_def split: option.splits)
  have "(k, i) \<in> set (cl_pools c)" using f by (auto simp: find_Some_iff in_set_conv_nth)
  then have "length (filter (\<lambda>(k', _). k' \<noteq> k) (cl_pools c)) < length (cl_pools c)"
    by (intro length_filter_less) auto
  moreover have "distinct (map fst (filter (\<lambda>(k', _). k' \<noteq> k) (cl_pools c)))"
    using assms(1) by (simp add: origins_ok_def distinct_map_filter)
  ultimately show ?thesis
    using True origins_close_one [OF assms(1), of i] c' by (auto simp: origins_ok_def same_flight_def)
next
  case False
  then have "c' = c" using assms(3) by (simp add: make_room_def)
  then show ?thesis using assms(1) False by (simp add: origins_ok_def same_flight_def)
qed

lemma distinct_insort_fst:
  "distinct (map fst xs) \<Longrightarrow> fst x \<notin> fst ` set xs \<Longrightarrow> distinct (map fst (insort_key fst x xs))"
  by (induction xs) (auto simp: set_insort_key)

lemma pool_for_inv:
  assumes "origins_ok o' c" "0 < max_origins o'" "pool_for o' trust e c = (x, c')"
  shows "origins_ok o' c' \<and> same_flight c' c \<and> (\<forall>i. x = Inr i \<longrightarrow> i < cl_next c')"
proof (cases "map_of (cl_pools c) (origin_of e)")
  case (Some i)
  then have "(origin_of e, i) \<in> set (cl_pools c)" by (rule map_of_SomeD)
  then show ?thesis using Some assms by (auto simp: pool_for_def origins_ok_def)
next
  case None
  show ?thesis
  proof (cases "make_room o' c")
    case (Inl y)
    then show ?thesis using None assms by (auto simp: pool_for_def)
  next
    case (Inr d)
    note d = make_room_inv [OF assms(1,2) Inr]
    show ?thesis
    proof (cases "secure e \<and> \<not> cl_tls d \<and> \<not> trust")
      case True
      then show ?thesis using None Inr assms(3) d by (auto simp: pool_for_def)
    next
      case False
      have c': "c' = d\<lparr>cl_tls := cl_tls d \<or> secure e, cl_next := cl_next d + 1,
          cl_store := (cl_store d)(cl_next d := pool_new (max_connections_per_origin o') (max_idle_per_origin o')),
          cl_pools := insort_key fst (origin_of e, cl_next d) (cl_pools d)\<rparr>" and x: "x = Inr (cl_next d)"
        using False None Inr assms(3) unfolding pool_for_def Let_def by auto
      have "origin_of e \<notin> fst ` set (cl_pools d)" using None d by (auto simp: map_of_eq_None_iff)
      then have "distinct (map fst (insort_key fst (origin_of e, cl_next d) (cl_pools d)))"
        using d by (simp add: origins_ok_def distinct_insort_fst)
      then show ?thesis
        using d pool_good_new [of o' "max_idle_per_origin o'"] unfolding c' x
        by (auto simp: origins_ok_def same_flight_def set_insort_key less_Suc_eq)
    qed
  qed
qed


lemma flight_ok_same: "flight_ok o' c \<Longrightarrow> same_flight c' c \<Longrightarrow> flight_ok o' c'"
  by (auto simp: flight_ok_def same_flight_def intro: order_less_le_trans)

lemma perform_start_inv:
  assumes inv: "client_inv o' c" and max: "0 < max_origins o'" and new: "rid \<notin> cl_active c"
    and start: "perform_start o' tls trust rid r c = (x, c')"
  shows "client_inv o' c'"
proof (cases "cl_closed c \<or> (max_total_requests o' \<noteq> 0 \<and> cl_in_flight c \<ge> max_total_requests o')")
  case True
  then have "c' = c" using start by (cases "cl_closed c") (simp_all add: perform_start_def)
  then show ?thesis using inv by simp
next
  case False
  define d where "d = c\<lparr>cl_in_flight := cl_in_flight c + 1\<rparr>"
  have aclose: "cl_aclose c = Not_Called" using inv False by (auto simp: client_inv_def aclose_ok_def)
  have d: "origins_ok o' d" "flight_but_one o' d" "aclose_ok d"
    using inv False aclose
    by (simp_all add: d_def client_inv_def origins_ok_def flight_ok_def flight_but_one_def aclose_ok_def) linarith
  have rel: "client_inv o' (release_inflight d)" using release_inv [OF d] .
  have eq: "perform_start o' tls trust rid r c =
    (case parse_url (cr_url r) of
          Inl x \<Rightarrow> (Inl x, release_inflight d)
        | Inr e \<Rightarrow>
            if secure e \<and> \<not> tls then (Inl RuntimeError, release_inflight d)
            else case serialize r e of
              Inl x \<Rightarrow> (Inl x, release_inflight d)
            | Inr wire \<Rightarrow>
                if length wire > max_request_wire_bytes o' then (Inl RuntimeError, release_inflight d)
                else case pool_for o' trust e d of
                  (Inl x, c) \<Rightarrow> (Inl x, release_inflight c)
                | (Inr i, c) \<Rightarrow> (Inr (wire, i), c\<lparr>cl_active := insert rid (cl_active c), cl_uses := (cl_uses c)(rid \<mapsto> i)\<rparr>))"
    using False unfolding perform_start_def Let_def d_def [symmetric] by (simp only: de_Morgan_disj if_False simp_thms)
  consider "c' = release_inflight d"
    | e y b where "pool_for o' trust e d = (Inl y, b)" "c' = release_inflight b"
    | e i b where "pool_for o' trust e d = (Inr i, b)" "c' = b\<lparr>cl_active := insert rid (cl_active b), cl_uses := (cl_uses b)(rid \<mapsto> i)\<rparr>"
    using start unfolding eq by (auto split: sum.splits if_splits prod.splits)
  then show ?thesis
  proof cases
    case 1
    then show ?thesis using rel by simp
  next
    case 2
    have b: "origins_ok o' b" "same_flight b d" using pool_for_inv [OF d(1) max 2(1)] by auto
    then have "flight_but_one o' b" "aclose_ok b"
      using d by (auto simp: flight_but_one_def same_flight_def aclose_ok_def intro: order_less_le_trans)
    then show ?thesis using release_inv b(1) 2(2) by blast
  next
    case 3
    have b: "origins_ok o' b" "same_flight b d" "i < cl_next b" using pool_for_inv [OF d(1) max 3(1)] by auto
    have "rid \<notin> cl_active b" using b(2) new by (simp add: same_flight_def d_def)
    moreover have "origins_ok o' c'" using b(1) 3(2) by (simp add: origins_ok_def)
    moreover have "cl_active b = cl_active d" "cl_in_flight b = cl_in_flight d" "cl_uses b = cl_uses d" "cl_next d \<le> cl_next b"
      using b(2) by (simp_all add: same_flight_def)
    then have "flight_ok o' c'"
      using d(2) b(3) 3(2) \<open>rid \<notin> cl_active b\<close> by (fastforce simp: flight_ok_def flight_but_one_def)
    moreover have "aclose_ok c'" using d(3) b(2) 3(2) aclose by (simp add: aclose_ok_def same_flight_def d_def)
    ultimately show ?thesis by (simp add: client_inv_def)
  qed
qed

lemma request_end_inv: "client_inv o' c \<Longrightarrow> rid \<in> cl_active c \<Longrightarrow> client_inv o' (request_end rid c)"
proof -
  assume inv: "client_inv o' c" and r: "rid \<in> cl_active c"
  have "card (cl_active c) = card (cl_active c - {rid}) + 1"
    using inv r card.remove [of "cl_active c" rid] by (auto simp: client_inv_def flight_ok_def)
  then have "flight_but_one o' (c\<lparr>cl_active := cl_active c - {rid}, cl_uses := (cl_uses c)(rid := None)\<rparr>)"
    using inv by (auto simp: client_inv_def flight_ok_def flight_but_one_def)
  then show ?thesis
    unfolding request_end_def using inv by (intro release_inv) (auto simp: client_inv_def origins_ok_def aclose_ok_def)
qed

lemma client_close_inv: "client_inv o' c \<Longrightarrow> client_close same c = (b, c') \<Longrightarrow> client_inv o' c' \<and> cl_closed c' \<and> cl_aclose c' = cl_aclose c"
proof -
  have "client_inv o' c \<Longrightarrow> client_inv o' (c\<lparr>cl_closed := True\<rparr>)"
    by (auto simp: client_inv_def origins_ok_def flight_ok_def aclose_ok_def)
  then show "client_inv o' c \<Longrightarrow> client_close same c = (b, c') \<Longrightarrow> ?thesis"
    using close_pools_inv by (auto simp: client_close_def close_pools_closed Let_def split: if_splits)
qed

lemma aclose_loop_inv:
  "client_inv o' c \<Longrightarrow> cl_closed c \<Longrightarrow> cl_event c \<noteq> None \<Longrightarrow> client_inv o' (aclose_loop c)"
  by (auto simp: client_inv_def aclose_loop_def origins_ok_def flight_ok_def aclose_ok_def)

lemma client_step_inv: "client_step o' c c' \<Longrightarrow> 0 < max_origins o' \<Longrightarrow> client_inv o' c \<Longrightarrow> client_inv o' c'"
proof (induction rule: client_step.induct)
  case (cs_start rid c tls trust r x c')
  then show ?case using perform_start_inv by blast
next
  case (cs_pool rid c i st)
  then have "i < cl_next c" by (auto simp: client_inv_def flight_ok_def)
  then have "pool_good o' (cl_store c i)" using cs_pool by (simp add: client_inv_def origins_ok_def)
  then have "pool_good o' st" using pool_good_step cs_pool by blast
  then show ?case using cs_pool by (auto simp: client_inv_def origins_ok_def flight_ok_def aclose_ok_def)
next
  case (cs_end rid c)
  then show ?case using request_end_inv by blast
next
  case (cs_close same c posted c')
  then show ?case using client_close_inv by blast
next
  case (cs_posted c)
  then show ?case using close_pools_inv by blast
next
  case (cs_aclose c)
  obtain b d where d: "client_close True c = (b, d)" by fastforce
  note i = client_close_inv [OF cs_aclose.prems(2) d]
  let ?e = "if cl_event d = None then d\<lparr>cl_event := Some False\<rparr> else d"
  have "client_inv o' ?e" using i by (auto simp: client_inv_def origins_ok_def flight_ok_def aclose_ok_def)
  moreover have "cl_closed ?e" "cl_event ?e \<noteq> None" using i by auto
  ultimately show ?case unfolding aclose_start_def Let_def d snd_conv by (rule aclose_loop_inv)
next
  case (cs_aclose_resume c)
  then show ?case by (intro aclose_loop_inv) (auto simp: client_inv_def aclose_ok_def)
qed

lemma client_inv_new: "client_inv o' client_new"
  by (auto simp: client_inv_def client_new_def origins_ok_def flight_ok_def aclose_ok_def)

interpretation clients: inductive_invariant "client_start o'" "client_step o'" "\<lambda>c. check_options o' = Inr () \<and> client_inv o' c"
  for o'
proof
  show "check_options o' = Inr () \<and> client_inv o' c" if "client_start o' c" for c :: "'r http_client"
    using that by (auto simp: client_start_def client_inv_new)
  show "check_options o' = Inr () \<and> client_inv o' c'" if "check_options o' = Inr () \<and> client_inv o' c" "client_step o' c c'"
    for c c' :: "'r http_client"
    using that client_step_inv [of o' c c'] by (auto simp: check_options_def split: if_splits)
qed


subsection \<open>Properties\<close>

text \<open>C33. In every run of a client the requests and streams in flight are counted exactly, within
  \<open>max_total_requests\<close>; there are at most \<open>max_origins\<close> pools, one for an origin, and no pool ever has
  more connections in use or idle than \<open>max_connections_per_origin\<close>. The coroutine in \<open>aclose\<close> is never
  stranded: while it is parked some request is in flight, and the end of the last one wakes it;
  when it returns nothing is in flight and the client takes no more requests.\<close>

theorem client_limits:
  assumes "reachable (client_start o') (client_step o') c"
  shows "cl_in_flight c = card (cl_active c) \<and>
    (max_total_requests o' \<noteq> 0 \<longrightarrow> cl_in_flight c \<le> max_total_requests o') \<and>
    length (cl_pools c) \<le> max_origins o' \<and> distinct (map fst (cl_pools c)) \<and>
    (\<forall>i < cl_next c. in_use (cl_store c i) + length (idle (cl_store c i)) \<le> max_connections_per_origin o') \<and>
    (cl_aclose c = Parked \<longrightarrow> cl_active c \<noteq> {} \<and>
       (\<forall>rid. cl_active c = {rid} \<longrightarrow> cl_aclose (request_end rid c) = Runnable)) \<and>
    (cl_aclose c = Returned \<longrightarrow> cl_active c = {} \<and> perform_start o' tls trust rid r c = (Inl RuntimeError, c))"
proof -
  have ok: "check_options o' = Inr ()" "client_inv o' c" using clients.invariant_reachable [OF assms] by auto
  then have f: "flight_ok o' c" and p: "origins_ok o' c" and a: "aclose_ok c" by (auto simp: client_inv_def)
  have "in_use (cl_store c i) + length (idle (cl_store c i)) \<le> max_connections_per_origin o'" if "i < cl_next c" for i
    using p ok(1) that by (auto simp: origins_ok_def pool_good_def pool_ok_def pool_core_def check_options_def split: if_splits)
  moreover have "cl_active c \<noteq> {}" if "cl_aclose c = Parked" using a f that by (auto simp: aclose_ok_def flight_ok_def)
  moreover have "cl_aclose (request_end rid c) = Runnable" if "cl_aclose c = Parked" "cl_active c = {rid}" for rid
    using a f that by (auto simp: aclose_ok_def flight_ok_def request_end_def release_inflight_def set_idle_def)
  moreover have "cl_active c = {} \<and> perform_start o' tls trust rid r c = (Inl RuntimeError, c)" if "cl_aclose c = Returned"
    using a f that by (auto simp: aclose_ok_def flight_ok_def perform_start_def)
  ultimately show ?thesis using f p by (auto simp: flight_ok_def origins_ok_def)
qed

definition get_from :: "string \<Rightarrow> client_request" where
  "get_from u = \<lparr>cr_method = ''GET'', cr_url = u, cr_headers = [], cr_body = [], cr_keep_alive = True\<rparr>"

theorem client_limits_witness:
  "reachable (client_start default_options) (client_step default_options) (aclose_start (client_new :: nat http_client)) \<and>
   cl_aclose (aclose_start (client_new :: nat http_client)) = Returned \<and> cl_active (aclose_start (client_new :: nat http_client)) = {}"
proof -
  let ?c = "client_new :: nat http_client"
  have "reachable (client_start default_options) (client_step default_options) ?c"
    by (rule reachable.reachable_init) (simp add: client_start_def check_options_def default_options_def)
  then have r: "reachable (client_start default_options) (client_step default_options) (aclose_start ?c)"
    by (rule reachable.reachable_step) (rule cs_aclose, simp add: client_new_def)
  moreover have "cl_aclose (aclose_start ?c) = Returned"
    by (simp add: aclose_start_def aclose_loop_def client_close_def close_pools_def client_new_def)
  ultimately show ?thesis using client_limits [OF r] by blast
qed


text \<open>A request that has its pool but has not yet begun to acquire a connection (\<open>acquire\<close> is a lazy task)
  does not count as a user of the pool. A request to another origin can then evict and close the
  pool, and the first request fails with a closed pool although the client is open.\<close>

definition one_origin :: client_options where
  "one_origin = default_options\<lparr>max_origins := 1, max_request_wire_bytes := 200\<rparr>"

definition first_request :: "nat http_client" where
  "first_request = snd (perform_start one_origin False True 1 (get_from ''http://a/'') client_new)"

definition second_request :: "nat http_client" where
  "second_request = snd (perform_start one_origin False True 2 (get_from ''http://b/'') first_request)"

definition plain_endpoint :: "string \<Rightarrow> endpoint" where
  "plain_endpoint h = \<lparr>host = h, authority = h, target = ''/'', port = 80, secure = False\<rparr>"

lemma get_from_ok:
  "parse_url (cr_url (get_from ''http://a/'')) = Inr (plain_endpoint ''a'')" "parse_url (cr_url (get_from ''http://b/'')) = Inr (plain_endpoint ''b'')"
  by code_simp+

lemma wire_ok:
  "\<exists>w. serialize (get_from ''http://a/'') (plain_endpoint ''a'') = Inr w \<and> \<not> length w > 200"
  "\<exists>w. serialize (get_from ''http://b/'') (plain_endpoint ''b'') = Inr w \<and> \<not> length w > 200"
proof -
  have "case serialize (get_from ''http://a/'') (plain_endpoint ''a'') of Inr w \<Rightarrow> \<not> length w > 200 | Inl _ \<Rightarrow> False"
    "case serialize (get_from ''http://b/'') (plain_endpoint ''b'') of Inr w \<Rightarrow> \<not> length w > 200 | Inl _ \<Rightarrow> False" by code_simp+
  then show "\<exists>w. serialize (get_from ''http://a/'') (plain_endpoint ''a'') = Inr w \<and> \<not> length w > 200"
    "\<exists>w. serialize (get_from ''http://b/'') (plain_endpoint ''b'') = Inr w \<and> \<not> length w > 200" by (auto split: sum.splits)
qed

lemma first_request_eq:
  "first_request = client_new\<lparr>cl_in_flight := 1, cl_next := 1, cl_store := (\<lambda>_. pool_new 0 0)(0 := pool_new 8 4),
     cl_pools := [((False, ''a'', 80), 0)], cl_active := {1}, cl_uses := [1 \<mapsto> 0]\<rparr>"
  using wire_ok(1) get_from_ok(1)
  by (auto simp: first_request_def perform_start_def one_origin_def default_options_def client_new_def pool_for_def make_room_def
      origin_of_def plain_endpoint_def)

lemma second_request_eq:
  "second_request = first_request\<lparr>cl_in_flight := 2, cl_next := 2,
     cl_store := (\<lambda>_. pool_new 0 0)(0 := pool_close (pool_new 8 4), 1 := pool_new 8 4),
     cl_pools := [((False, ''b'', 80), 1)], cl_active := {1, 2}, cl_uses := [1 \<mapsto> 0, 2 \<mapsto> 1]\<rparr>"
  using wire_ok(2) get_from_ok(2) unfolding second_request_def first_request_eq
  by (auto simp: perform_start_def one_origin_def default_options_def client_new_def pool_for_def make_room_def
      origin_of_def plain_endpoint_def unused_def pool_new_def close_one_def fun_eq_iff)

lemma step_start: "rid \<notin> cl_active c \<Longrightarrow> client_step o' c (snd (perform_start o' tls trust rid r c))"
  using cs_start [OF _ surjective_pairing] .

text \<open>There is a run of a client with one origin allowed in which the pool of a request in flight has
  been evicted and closed, although the client is open: the request's \<open>acquire\<close> gives no connection,
  where the code means to refuse the second origin while all pools are in use.\<close>

theorem eviction_fails_request:
  "reachable (client_start one_origin) (client_step one_origin) second_request \<and> \<not> cl_closed second_request \<and>
   1 \<in> cl_active second_request \<and> cl_uses second_request 1 = Some 0 \<and>
   agents (acquire_loop h (cl_store second_request 0)) h = None"
proof -
  have "reachable (client_start one_origin) (client_step one_origin) (client_new :: nat http_client)"
    by (rule reachable.reachable_init) (simp add: client_start_def check_options_def one_origin_def default_options_def)
  then have "reachable (client_start one_origin) (client_step one_origin) first_request"
    unfolding first_request_def by (rule reachable.reachable_step) (rule step_start, simp add: client_new_def)
  then have "reachable (client_start one_origin) (client_step one_origin) second_request"
    unfolding second_request_def by (rule reachable.reachable_step) (rule step_start, simp add: first_request_eq client_new_def)
  moreover have "closed (pool_close (pool_new 8 4 :: nat pool_state))"
    by (simp add: pool_close_def pool_new_def wake_all.simps)
  ultimately show ?thesis
    by (simp add: second_request_eq first_request_eq client_new_def acquire_loop_def set_agent_def)
qed

end
