(* ===== verification/Http_Stream.thy ===== *)
theory Http_Stream
  imports Http_Client
begin

section \<open>Streamed responses\<close>

text \<open>
  \<open>HttpResponseStream\<close> of http_client.cpp: opening a stream up to the end of the response head,
  reading the body in chunks, and giving the connection back. Reads are given as in the client. The
  connection of the stream is held, back in its pool or discarded. \<open>received\<close> and \<open>delivered\<close> record
  the body bytes the parser has reported and the caller has got; the code does not have them.
  \<open>usable\<close> stands for \<open>transport.reusable()\<close> and an open client at that moment.
\<close>

subsection \<open>Model\<close>

datatype stream_lease = No_Lease | Held | Pooled | Discarded

record 'l response_stream =
  parser :: "'l http_parse"
  chunks :: "string list"
  s_headers :: header_list
  s_trailers :: header_list
  body_bytes :: nat
  wire_bytes :: nat
  max_body :: nat
  max_wire :: nat
  s_status :: int
  want_keep_alive :: bool
  headers_ready :: bool
  s_done :: bool
  finished :: bool
  lease :: stream_lease
  received :: string
  delivered :: string

text \<open>The state \<open>stream_open\<close> sets up, with the connection it has acquired. \<open>response_to_head\<close> is not set.\<close>

definition stream_new :: "'l llhttp \<Rightarrow> client_options \<Rightarrow> client_request \<Rightarrow> 'l response_stream" where
  "stream_new L o' r = \<lparr>parser = response_parser L False o', chunks = [], s_headers = [], s_trailers = [], body_bytes = 0,
     wire_bytes = 0, max_body = max_body_bytes o', max_wire = max_response_wire_bytes o', s_status = 0,
     want_keep_alive = cr_keep_alive r, headers_ready = False, s_done = False, finished = False, lease = Held,
     received = [], delivered = []\<rparr>"

text \<open>The callbacks \<open>headers_complete\<close> and \<open>body\<close>.\<close>

fun on_parser_event :: "ll_event \<Rightarrow> 'l response_stream \<Rightarrow> 'l response_stream" where
  "on_parser_event (On_Headers_Complete v st) s = s\<lparr>headers_ready := True\<rparr>"
| "on_parser_event (On_Body d) s =
    (let s = s\<lparr>body_bytes := body_bytes s + length d, received := received s @ d\<rparr>
     in if body_bytes s \<le> max_body s then s\<lparr>chunks := chunks s @ [d]\<rparr> else s)"
| "on_parser_event _ s = s"

definition stream_feed :: "'l llhttp \<Rightarrow> string \<Rightarrow> 'l response_stream \<Rightarrow> bool \<times> 'l response_stream" where
  "stream_feed L d s =
    (case feed L d (parser s) of (es, ok, p) \<Rightarrow> (ok, fold on_parser_event es (s\<lparr>parser := p\<rparr>)))"

definition stream_eof :: "'l llhttp \<Rightarrow> 'l response_stream \<Rightarrow> bool \<times> 'l response_stream" where
  "stream_eof L s =
    (case parse_finish L (parser s) of (es, ok, p) \<Rightarrow> (ok, fold on_parser_event es (s\<lparr>parser := p\<rparr>)))"

definition clear_body :: "'l response_stream \<Rightarrow> 'l response_stream" where
  "clear_body s = s\<lparr>parser := (parser s)\<lparr>http_body := []\<rparr>\<rparr>"

definition stream_finish :: "'l llhttp \<Rightarrow> bool \<Rightarrow> bool \<Rightarrow> 'l response_stream \<Rightarrow> 'l response_stream" where
  "stream_finish L usable reusable s =
    (if finished s then s
     else let s = s\<lparr>finished := True, s_done := True\<rparr>
     in if lease s \<noteq> Held then s
     else if reusable \<and> want_keep_alive s \<and> parse_keep_alive L (parser s) \<and> usable then s\<lparr>lease := Pooled\<rparr>
     else s\<lparr>lease := Discarded\<rparr>)"

text \<open>The destructor of the shared state.\<close>

definition stream_destroy :: "'l response_stream \<Rightarrow> 'l response_stream" where
  "stream_destroy s = (if \<not> finished s \<and> lease s = Held then s\<lparr>lease := Discarded\<rparr> else s)"

text \<open>The loop of \<open>stream_open\<close> that reads the head, and what follows it.\<close>

definition stream_opened :: "'l llhttp \<Rightarrow> bool \<Rightarrow> 'l response_stream \<Rightarrow> 'l response_stream result" where
  "stream_opened L usable s =
    (let s = clear_body s
     in if status_code (parser s) = 101 then Inl RuntimeError
     else if status_code (parser s) < 200 then Inl RuntimeError
     else let s = s\<lparr>s_status := status_code (parser s), s_headers := header_fields (parser s)\<rparr>
     in Inr (if completed (parser s) then stream_finish L usable True (s\<lparr>s_trailers := trailer_fields (parser s)\<rparr>) else s))"

fun open_loop ::
  "'l llhttp \<Rightarrow> bool \<Rightarrow> net_read list \<Rightarrow> 'l response_stream \<Rightarrow> ('l response_stream result \<times> net_read list) option" where
  "open_loop L usable rs s =
    (if headers_ready s \<or> completed (parser s) then Some (stream_opened L usable s, rs)
     else case rs of
       [] \<Rightarrow> None
     | Read_Error # rs \<Rightarrow> Some (Inl RuntimeError, rs)
     | Read_Eof # rs \<Rightarrow>
         (case stream_eof L s of (ok, s) \<Rightarrow>
            Some (if \<not> ok \<or> \<not> completed (parser s) then Inl RuntimeError else stream_opened L usable s, rs))
     | Read_Data d # rs \<Rightarrow>
         let s = s\<lparr>wire_bytes := wire_bytes s + length d\<rparr>
         in if wire_bytes s > max_wire s then Some (Inl RuntimeError, rs)
         else case stream_feed L d s of (ok, s) \<Rightarrow> if \<not> ok then Some (Inl RuntimeError, rs) else open_loop L usable rs s)"

declare open_loop.simps [simp del]

text \<open>\<open>read_stream_chunk\<close>: what it returns or throws, the state and the reads that are left.\<close>

fun read_chunk ::
  "'l llhttp \<Rightarrow> bool \<Rightarrow> net_read list \<Rightarrow> 'l response_stream \<Rightarrow> (string option result \<times> 'l response_stream \<times> net_read list) option" where
  "read_chunk L usable rs s =
    (case chunks s of
       c # cs \<Rightarrow> Some (Inr (Some c), s\<lparr>chunks := cs, delivered := delivered s @ c\<rparr>, rs)
     | [] \<Rightarrow>
         if s_done s then Some (Inr None, s, rs)
         else case rs of
           [] \<Rightarrow> None
         | Read_Error # rs \<Rightarrow> Some (Inl RuntimeError, stream_finish L usable False s, rs)
         | Read_Eof # rs \<Rightarrow>
             (case stream_eof L s of (ok, s) \<Rightarrow>
                if \<not> ok \<or> \<not> completed (parser s) then Some (Inl RuntimeError, s, rs)
                else Some (Inr None, stream_finish L usable True (s\<lparr>s_trailers := trailer_fields (parser s)\<rparr>), rs))
         | Read_Data d # rs \<Rightarrow>
             let s = s\<lparr>wire_bytes := wire_bytes s + length d\<rparr>
             in if wire_bytes s > max_wire s then Some (Inl RuntimeError, s, rs)
             else case stream_feed L d s of (ok, s) \<Rightarrow>
               if \<not> ok then Some (Inl RuntimeError, s, rs)
               else let s = clear_body s
               in if body_bytes s > max_body s then Some (Inl RuntimeError, s, rs)
               else if completed (parser s) then
                 (let s = stream_finish L usable True (s\<lparr>s_trailers := trailer_fields (parser s)\<rparr>)
                  in if chunks s = [] then Some (Inr None, s, rs) else read_chunk L usable rs s)
               else read_chunk L usable rs s)"

declare read_chunk.simps [simp del]

text \<open>\<open>aclose\<close> of the stream.\<close>

definition stream_aclose :: "'l llhttp \<Rightarrow> 'l response_stream \<Rightarrow> 'l response_stream" where
  "stream_aclose L s = stream_destroy (if lease s = Held then stream_finish L False False s else s)"


subsection \<open>The invariant of a stream\<close>

text \<open>What the caller has got and what is queued is the body the parser has reported, cut where the limit
  was passed; the parser's own copy and the count stay within their limits; a connection that was
  given back belongs to a stream that is done.\<close>

definition stream_inv :: "'l response_stream \<Rightarrow> bool" where
  "stream_inv s \<longleftrightarrow>
    body_bytes s = length (received s) \<and>
    (body_bytes s \<le> max_body s \<longrightarrow> delivered s @ concat (chunks s) = received s) \<and>
    length (delivered s @ concat (chunks s)) \<le> max_body s \<and>
    (\<exists>rest. received s = delivered s @ concat (chunks s) @ rest) \<and>
    (finished s \<longrightarrow> s_done s \<and> lease s \<noteq> Held) \<and> (s_done s \<longrightarrow> finished s) \<and> (lease s = Pooled \<longrightarrow> finished s)"

lemma stream_inv_new: "stream_inv (stream_new L o' r)"
  by (simp add: stream_inv_def stream_new_def)

definition frame_only :: "'l response_stream \<Rightarrow> 'l response_stream \<Rightarrow> bool" where
  "frame_only t s \<longleftrightarrow> body_bytes t = body_bytes s \<and> received t = received s \<and> delivered t = delivered s \<and> chunks t = chunks s \<and>
     max_body t = max_body s \<and> max_wire t = max_wire s \<and> want_keep_alive t = want_keep_alive s"

lemma stream_inv_frame:
  "stream_inv s \<Longrightarrow> frame_only t s \<Longrightarrow> (finished t \<longrightarrow> s_done t \<and> lease t \<noteq> Held) \<and> (s_done t \<longrightarrow> finished t) \<and> (lease t = Pooled \<longrightarrow> finished t) \<Longrightarrow>
   stream_inv t"
  by (auto simp: stream_inv_def frame_only_def)

lemma on_parser_event_inv:
  assumes "stream_inv s"
  shows "stream_inv (on_parser_event e s)"
proof (cases e)
  case (On_Body d)
  show ?thesis
  proof (cases "body_bytes s + length d \<le> max_body s")
    case True
    then show ?thesis using assms On_Body by (auto simp: stream_inv_def Let_def)
  next
    case False
    then show ?thesis using assms On_Body by (auto simp: stream_inv_def Let_def)
  qed
qed (use assms in \<open>auto simp: stream_inv_def\<close>)

lemma on_parser_event_frame:
  "max_body (on_parser_event e s) = max_body s" "max_wire (on_parser_event e s) = max_wire s" "parser (on_parser_event e s) = parser s"
  "wire_bytes (on_parser_event e s) = wire_bytes s" "delivered (on_parser_event e s) = delivered s"
  "finished (on_parser_event e s) = finished s" "lease (on_parser_event e s) = lease s" "s_done (on_parser_event e s) = s_done s"
  "want_keep_alive (on_parser_event e s) = want_keep_alive s"
  by (cases e; simp add: Let_def)+

lemma fold_events:
  "stream_inv s \<Longrightarrow> stream_inv (fold on_parser_event es s) \<and> parser (fold on_parser_event es s) = parser s \<and>
   wire_bytes (fold on_parser_event es s) = wire_bytes s \<and> max_wire (fold on_parser_event es s) = max_wire s \<and>
   max_body (fold on_parser_event es s) = max_body s \<and> finished (fold on_parser_event es s) = finished s \<and>
   delivered (fold on_parser_event es s) = delivered s"
  by (induction es arbitrary: s) (simp_all add: on_parser_event_inv on_parser_event_frame)

lemma stream_finish_inv:
  assumes "stream_inv s"
  shows "stream_inv (stream_finish L u b s)" "finished (stream_finish L u b s)" "frame_only (stream_finish L u b s) s"
proof -
  show f: "frame_only (stream_finish L u b s) s" by (simp add: stream_finish_def frame_only_def Let_def)
  show "finished (stream_finish L u b s)" by (simp add: stream_finish_def Let_def)
  show "stream_inv (stream_finish L u b s)"
    by (rule stream_inv_frame [OF assms f]) (use assms in \<open>auto simp: stream_finish_def stream_inv_def Let_def\<close>)
qed

lemma stream_inv_upd [simp]:
  "stream_inv (s\<lparr>parser := p\<rparr>) = stream_inv s" "stream_inv (s\<lparr>wire_bytes := n\<rparr>) = stream_inv s"
  "stream_inv (s\<lparr>s_trailers := t\<rparr>) = stream_inv s" "stream_inv (s\<lparr>s_headers := t\<rparr>) = stream_inv s"
  "stream_inv (s\<lparr>s_status := n'\<rparr>) = stream_inv s" "stream_inv (clear_body s) = stream_inv s"
  by (simp_all add: stream_inv_def clear_body_def)

lemma stream_feed_inv:
  "stream_inv s \<Longrightarrow> stream_feed L d s = (ok, t) \<Longrightarrow> stream_inv t \<and> wire_bytes t = wire_bytes s \<and> max_wire t = max_wire s \<and> max_body t = max_body s"
  by (auto simp: stream_feed_def fold_events split: prod.splits)

lemma stream_eof_inv: "stream_inv s \<Longrightarrow> stream_eof L s = (ok, t) \<Longrightarrow> stream_inv t \<and> max_body t = max_body s"
  by (auto simp: stream_eof_def fold_events split: prod.splits)

lemma stream_opened_inv: "stream_inv s \<Longrightarrow> stream_opened L u s = Inr t \<Longrightarrow> stream_inv t \<and> max_body t = max_body s"
proof -
  have "max_body (stream_finish L u b s) = max_body s" for b s by (simp add: stream_finish_def Let_def)
  then show "stream_inv s \<Longrightarrow> stream_opened L u s = Inr t \<Longrightarrow> ?thesis"
    by (auto simp: stream_opened_def Let_def stream_finish_inv clear_body_def split: if_splits)
qed

lemma open_loop_inv: "open_loop L u rs s = Some (Inr t, rs') \<Longrightarrow> stream_inv s \<Longrightarrow> stream_inv t \<and> max_body t = max_body s"
proof (induction rs arbitrary: s)
  case Nil
  then show ?case using stream_opened_inv by (auto simp: open_loop.simps [of _ _ "[]"] split: if_splits)
next
  case (Cons x rs)
  show ?case
  proof (cases "headers_ready s \<or> completed (parser s)")
    case True
    then show ?thesis using Cons.prems stream_opened_inv by (auto simp: open_loop.simps [of _ _ "x # rs"])
  next
    case False
    show ?thesis
    proof (cases x)
      case Read_Eof
      then show ?thesis using False Cons.prems stream_opened_inv stream_eof_inv [of s L]
        by (auto simp: open_loop.simps [of _ _ "Read_Eof # rs"] split: prod.splits if_splits)
    next
      case (Read_Data d)
      then obtain ok s' where f: "stream_feed L d (s\<lparr>wire_bytes := wire_bytes s + length d\<rparr>) = (ok, s')" by fastforce
      have "open_loop L u rs s' = Some (Inr t, rs')"
        using False Cons.prems(1) Read_Data f by (auto simp: open_loop.simps [of _ _ "Read_Data d # rs"] Let_def split: if_splits)
      then show ?thesis using Cons.IH [of s'] stream_feed_inv [OF _ f] Cons.prems(2) by simp
    qed (use False Cons.prems in \<open>simp add: open_loop.simps [of _ _ "Read_Error # rs"]\<close>)
  qed
qed


text \<open>What one call of \<open>read_chunk\<close> gives.\<close>

lemma read_chunk_queued:
  "chunks s = c # cs \<Longrightarrow> read_chunk L u rs s = Some (Inr (Some c), s\<lparr>chunks := cs, delivered := delivered s @ c\<rparr>, rs)"
  by (subst read_chunk.simps) simp

lemma read_chunk_done: "chunks s = [] \<Longrightarrow> s_done s \<Longrightarrow> read_chunk L u rs s = Some (Inr None, s, rs)"
  by (subst read_chunk.simps) simp

lemma stream_inv_pop: "stream_inv s \<Longrightarrow> chunks s = c # cs \<Longrightarrow> stream_inv (s\<lparr>chunks := cs, delivered := delivered s @ c\<rparr>)"
  by (simp add: stream_inv_def)

lemma read_chunk_ok:
  "read_chunk L u rs s = Some (x, t, rs') \<Longrightarrow> stream_inv s \<Longrightarrow>
   stream_inv t \<and> (case x of Inr (Some c) \<Rightarrow> delivered t = delivered s @ c | _ \<Rightarrow> delivered t = delivered s) \<and>
   max_body t = max_body s \<and> (x = Inr None \<and> chunks t = [] \<longrightarrow> finished t)"
proof (induction rs arbitrary: s)
  case Nil
  then show ?case
    by (cases "chunks s") (auto simp: read_chunk_queued stream_inv_pop read_chunk.simps [of L u "[]" s] stream_inv_def split: if_splits)
next
  case (Cons y rs)
  show ?case
  proof (cases "chunks s \<noteq> [] \<or> s_done s")
    case True
    show ?thesis
    proof (cases "chunks s")
      case (Cons c cs)
      then show ?thesis using Cons.prems read_chunk_queued [OF Cons, of L u "y # rs"] stream_inv_pop by auto
    next
      case Nil
      then show ?thesis using Cons.prems read_chunk_done [OF Nil, of L u "y # rs"] True by (auto simp: stream_inv_def)
    qed
  next
    case False
    show ?thesis
    proof (cases y)
      case Read_Error
      then show ?thesis
        using False Cons.prems stream_finish_inv [of s L u False] by (auto simp: read_chunk.simps [of L u "Read_Error # rs" s] frame_only_def)
    next
      case Read_Eof
      obtain ok s' where e: "stream_eof L s = (ok, s')" by fastforce
      have s': "stream_inv s'" "delivered s' = delivered s" "max_body s' = max_body s"
        using e Cons.prems(2) by (auto simp: stream_eof_def fold_events split: prod.splits)
      then show ?thesis
        using False Cons.prems(1) Read_Eof e stream_finish_inv [of "s'\<lparr>s_trailers := trailer_fields (parser s')\<rparr>" L u True]
        by (auto simp: read_chunk.simps [of L u "Read_Eof # rs" s] frame_only_def split: if_splits)
    next
      case (Read_Data d)
      let ?w = "s\<lparr>wire_bytes := wire_bytes s + length d\<rparr>"
      obtain ok s' where f: "stream_feed L d ?w = (ok, s')" by fastforce
      have s': "stream_inv s'" "delivered s' = delivered s" "max_body s' = max_body s"
        using f Cons.prems(2) by (auto simp: stream_feed_def fold_events split: prod.splits)
      define c where "c = clear_body s'"
      define g where "g = stream_finish L u True (c\<lparr>s_trailers := trailer_fields (parser c)\<rparr>)"
      have c: "stream_inv c" "delivered c = delivered s" "max_body c = max_body s" using s' by (simp_all add: c_def) (simp_all add: clear_body_def)
      have g: "stream_inv g" "finished g" "delivered g = delivered s" "max_body g = max_body s"
        using stream_finish_inv [of "c\<lparr>s_trailers := trailer_fields (parser c)\<rparr>" L u True] c
        by (auto simp: frame_only_def g_def)
      consider "x = Inl RuntimeError" "t = ?w \<or> t = s' \<or> t = c"
        | "x = Inr None" "t = g" "chunks g = []"
        | "read_chunk L u rs g = Some (x, t, rs')" | "read_chunk L u rs c = Some (x, t, rs')"
        using False Cons.prems(1) Read_Data f
        by (simp add: read_chunk.simps [of L u "Read_Data d # rs" s] Let_def c_def [symmetric] g_def [symmetric] split: if_splits; blast)
      then show ?thesis
      proof cases
        case 1
        then show ?thesis using s' c Cons.prems(2) by auto
      next
        case 2
        then show ?thesis using g by simp
      next
        case 3
        then show ?thesis using Cons.IH [OF 3 g(1)] unfolding g(3,4) by simp
      next
        case 4
        then show ?thesis using Cons.IH [OF 4 c(1)] unfolding c(2,3) by simp
      qed
    qed
  qed
qed

subsection \<open>Properties\<close>

text \<open>Any number of calls of \<open>read_chunk\<close>, each with the reads it finds.\<close>

inductive stream_run :: "'l llhttp \<Rightarrow> 'l response_stream \<Rightarrow> 'l response_stream \<Rightarrow> bool" for L where
  sr_refl: "stream_run L s s"
| sr_read: "stream_run L s t \<Longrightarrow> read_chunk L u rs t = Some (x, t', rs') \<Longrightarrow> stream_run L s t'"

lemma stream_run_inv: "stream_run L s t \<Longrightarrow> stream_inv s \<Longrightarrow> stream_inv t \<and> max_body t = max_body s"
  by (induction rule: stream_run.induct) (auto dest: read_chunk_ok)

text \<open>A stream gives the body of the response in order and within the limit. After a stream has been
  opened, and after any calls of \<open>read_chunk\<close>, the bytes the caller has got are a prefix of the body
  the parser has reported, no longer than \<open>max_body_bytes\<close>; a call that returns a chunk appends it,
  and any other call gives no bytes; when a call reports the end with nothing queued and the body
  is within the limit, the caller has got the whole body that was reported, the stream is done and
  has given its connection back to the pool or discarded it.\<close>

theorem stream_in_order:
  assumes "open_loop L u rs (stream_new L o' r) = Some (Inr s, rs')" "stream_run L s t"
  shows "(\<exists>rest. received t = delivered t @ rest) \<and> length (delivered t) \<le> max_body_bytes o' \<and>
    (case read_chunk L u' rs'' t of
       Some (Inr (Some c), t', _) \<Rightarrow> delivered t' = delivered t @ c
     | Some (_, t', _) \<Rightarrow> delivered t' = delivered t
     | None \<Rightarrow> True) \<and>
    (read_chunk L u' rs'' t = Some (Inr None, t', ys) \<and> chunks t' = [] \<and> body_bytes t' \<le> max_body_bytes o' \<longrightarrow>
       delivered t' = received t' \<and> finished t' \<and> lease t' \<noteq> Held)"
proof -
  have s: "stream_inv s" "max_body s = max_body_bytes o'"
    using open_loop_inv [OF assms(1) stream_inv_new] by (simp_all add: stream_new_def)
  have t: "stream_inv t" "max_body t = max_body_bytes o'" using stream_run_inv [OF assms(2) s(1)] s(2) by auto
  have "\<exists>rest. received t = delivered t @ rest" "length (delivered t) \<le> max_body_bytes o'"
    using t by (auto simp: stream_inv_def)
  moreover have "case read_chunk L u' rs'' t of
       Some (Inr (Some c), t', _) \<Rightarrow> delivered t' = delivered t @ c
     | Some (_, t', _) \<Rightarrow> delivered t' = delivered t
     | None \<Rightarrow> True"
  proof (cases "read_chunk L u' rs'' t")
    case (Some y)
    obtain x t1 ys where y: "y = (x, t1, ys)" by (cases y) auto
    show ?thesis using read_chunk_ok [of L u' rs'' t x t1 ys] Some t(1) unfolding y by (auto split: sum.splits option.splits)
  qed simp
  moreover have "delivered t' = received t' \<and> finished t' \<and> lease t' \<noteq> Held"
    if "read_chunk L u' rs'' t = Some (Inr None, t', ys)" "chunks t' = []" "body_bytes t' \<le> max_body_bytes o'"
    using read_chunk_ok [OF that(1) t(1)] that(2,3) t(2) by (auto simp: stream_inv_def)
  ultimately show ?thesis by blast
qed

text \<open>A parser that ends a message after two bytes.\<close>

definition two_bytes :: "unit llhttp" where
  "two_bytes = \<lparr>ll_init = (),
     ll_execute = (\<lambda>head l d. ([(On_Message_Begin, 0, ()), (On_Headers_Complete ''1.1'' 200, 0, ()), (On_Body (take 2 d), 2, ()),
        (On_Message_Complete ''1.1'' 200, 2, ())], True, length d, ())),
     ll_finish = (\<lambda>head l. ([], False, 0, ())), ll_resume = id, ll_keep_alive = (\<lambda>l. True)\<rparr>"

definition small_options :: client_options where
  "small_options = default_options\<lparr>max_body_bytes := 8, max_response_wire_bytes := 8\<rparr>"

definition plain_get :: client_request where
  "plain_get = \<lparr>cr_method = ''GET'', cr_url = ''http://a/'', cr_headers = [], cr_body = [], cr_keep_alive = True\<rparr>"

definition opened :: "unit response_stream" where
  "opened = (case open_loop two_bytes True [Read_Data ''ok!''] (stream_new two_bytes small_options plain_get) of
     Some (Inr s, _) \<Rightarrow> s | _ \<Rightarrow> stream_new two_bytes small_options plain_get)"

lemmas stream_eval = stream_new_def response_parser_def parse_new_def stream_feed_def feed_def two_bytes_def small_options_def
  default_options_def plain_get_def clear_result_def exceeds_def accept_result_def stream_opened_def clear_body_def
  stream_finish_def parse_keep_alive_def open_loop.simps

lemma opened_ok: "open_loop two_bytes True [Read_Data ''ok!''] (stream_new two_bytes small_options plain_get) = Some (Inr opened, [])"
  unfolding opened_def by (simp add: stream_eval)

theorem stream_in_order_witness:
  "delivered opened = [] \<and> chunks opened = [''ok''] \<and> length (delivered opened) \<le> 8"
  using stream_in_order [OF opened_ok sr_refl]
  by (simp add: opened_def stream_eval)

text \<open>Bytes after the end of the response: \<open>request\<close> refuses the response, \<open>stream\<close> accepts it and gives the
  connection back to the pool, although what follows on it is not known.\<close>

theorem stream_keeps_dirty_connection:
  "read_response two_bytes False small_options [Read_Data ''ok!''] = Some (Inl RuntimeError) \<and>
   open_loop two_bytes True [Read_Data ''ok!''] (stream_new two_bytes small_options plain_get) = Some (Inr opened, []) \<and>
   lease opened = Pooled"
proof -
  have "read_response two_bytes False small_options [Read_Data ''ok!''] = Some (Inl RuntimeError)"
    by (simp add: read_response_def feed_response.simps stream_eval)
  then show ?thesis using opened_ok by (simp add: opened_def stream_eval)
qed

end
