(* ===== verification/Scheduler.thy ===== *)
theory Scheduler
  imports Coro_Prelude
begin

section \<open>The scheduler\<close>

text \<open>
  scheduler.hpp: tasks are handed to the worker with the fewest active coroutines; \<open>join\<close> and
  \<open>wait_all\<close> wait for their end. The threads interleave at the accesses to shared state: each step
  below is one access of \<open>spawn_any\<close>, of the call posted to a worker, of the end of a task, of a
  \<open>join\<close> or of \<open>wait_all\<close>. The idle event is its flag; a coroutine that waits for it is parked and
  \<open>set\<close> makes it go on (see the event theory). Worker threads have started, so every worker has its
  loop; the counts of a loop are those of the event loop.
\<close>

subsection \<open>Choice of a worker\<close>

definition size_max :: nat where
  "size_max = 2 ^ 64 - 1"

fun pick_from :: "(nat \<Rightarrow> nat option) \<Rightarrow> (nat \<Rightarrow> nat) \<Rightarrow> nat list \<Rightarrow> nat \<times> nat \<times> nat \<Rightarrow> nat" where
  "pick_from active assigned [] (best_i, _, _) = best_i"
| "pick_from active assigned (i # is) (best_i, best_active, best_assigned) =
    (case active i of
       None \<Rightarrow> pick_from active assigned is (best_i, best_active, best_assigned)
     | Some a \<Rightarrow>
         if a < best_active \<or> (a = best_active \<and> assigned i < best_assigned)
         then pick_from active assigned is (i, a, assigned i)
         else pick_from active assigned is (best_i, best_active, best_assigned))"

definition pick_least_loaded_index :: "nat \<Rightarrow> (nat \<Rightarrow> nat option) \<Rightarrow> (nat \<Rightarrow> nat) \<Rightarrow> nat" where
  "pick_least_loaded_index n active assigned = pick_from active assigned [0..<n] (0, size_max, size_max)"

subsection \<open>Model\<close>

datatype task_phase =
    Checked | Counted | Dispatched nat | Started nat | Running nat | Notifying nat | Leaving nat | Ended nat

datatype join_pc = J_Idle | J_Check | J_Clear | J_Recheck | J_Wait | J_Parked | J_Done

datatype wait_pc = W_Idle | W_Pending | W_Scan nat | W_Done

record scheduler =
  workers :: nat
  stopped :: bool
  running :: nat
  pending_dispatches :: nat
  active :: "nat \<Rightarrow> nat"
  assigned :: "nat \<Rightarrow> nat"
  idle_event :: "bool option"
  tasks :: "nat \<Rightarrow> task_phase option"
  joiners :: "nat \<Rightarrow> join_pc"
  waiter :: wait_pc

definition scheduler_new :: "nat \<Rightarrow> scheduler" where
  "scheduler_new n = \<lparr>workers = (if n = 0 then 1 else n), stopped = False, running = 0, pending_dispatches = 0, active = (\<lambda>_. 0),
     assigned = (\<lambda>_. 0), idle_event = None, tasks = Map.empty, joiners = (\<lambda>_. J_Idle), waiter = W_Idle\<rparr>"

definition accepting :: "scheduler \<Rightarrow> bool" where
  "accepting s = (\<not> stopped s)"

definition stop_accepting :: "scheduler \<Rightarrow> scheduler" where
  "stop_accepting s = s\<lparr>stopped := True\<rparr>"

definition set_phase :: "nat \<Rightarrow> task_phase \<Rightarrow> scheduler \<Rightarrow> scheduler" where
  "set_phase t p s = s\<lparr>tasks := (tasks s)(t \<mapsto> p)\<rparr>"

text \<open>\<open>spawn_any\<close>: the check, the counts, the choice and the dispatch; and the dispatch that throws.\<close>

definition spawn_count :: "nat \<Rightarrow> scheduler \<Rightarrow> scheduler" where
  "spawn_count t s = set_phase t Counted (s\<lparr>pending_dispatches := pending_dispatches s + 1, running := running s + 1\<rparr>)"

definition spawn_dispatch :: "nat \<Rightarrow> scheduler \<Rightarrow> scheduler" where
  "spawn_dispatch t s =
    (let best = pick_least_loaded_index (workers s) (\<lambda>i. Some (active s i)) (assigned s)
     in set_phase t (Dispatched best) (s\<lparr>assigned := (assigned s)(best := assigned s best + 1)\<rparr>))"

definition spawn_failed :: "nat \<Rightarrow> scheduler \<Rightarrow> scheduler" where
  "spawn_failed t s =
    (let best = pick_least_loaded_index (workers s) (\<lambda>i. Some (active s i)) (assigned s);
         s1 = s\<lparr>assigned := (assigned s)(best := assigned s best + 1)\<rparr>
     in s1\<lparr>assigned := (assigned s1)(best := assigned s1 best - 1), pending_dispatches := pending_dispatches s1 - 1,
          running := running s1 - 1, tasks := (tasks s1)(t := None)\<rparr>)"

text \<open>The posted call on the worker, and the end of the task: \<open>run_factory\<close>'s scope, then the loop's count.\<close>

definition worker_start :: "nat \<Rightarrow> nat \<Rightarrow> scheduler \<Rightarrow> scheduler" where
  "worker_start t w s = set_phase t (Started w) (s\<lparr>active := (active s)(w := active s w + 1)\<rparr>)"

definition worker_started :: "nat \<Rightarrow> nat \<Rightarrow> scheduler \<Rightarrow> scheduler" where
  "worker_started t w s = set_phase t (Running w) (s\<lparr>pending_dispatches := pending_dispatches s - 1\<rparr>)"

definition task_sub :: "nat \<Rightarrow> nat \<Rightarrow> scheduler \<Rightarrow> scheduler" where
  "task_sub t w s =
    (if running s = 1 then set_phase t (Notifying w) (s\<lparr>running := 0\<rparr>)
     else set_phase t (Leaving w) (s\<lparr>running := running s - 1\<rparr>))"

definition wake_parked :: "(nat \<Rightarrow> join_pc) \<Rightarrow> nat \<Rightarrow> join_pc" where
  "wake_parked js j = (if js j = J_Parked then J_Check else js j)"

definition task_notify :: "nat \<Rightarrow> nat \<Rightarrow> scheduler \<Rightarrow> scheduler" where
  "task_notify t w s =
    set_phase t (Leaving w)
      (case idle_event s of None \<Rightarrow> s | Some _ \<Rightarrow> s\<lparr>idle_event := Some True, joiners := wake_parked (joiners s)\<rparr>)"

definition task_leave :: "nat \<Rightarrow> nat \<Rightarrow> scheduler \<Rightarrow> scheduler" where
  "task_leave t w s = set_phase t (Ended w) (s\<lparr>active := (active s)(w := active s w - 1)\<rparr>)"

text \<open>\<open>join\<close>, one access at a time.\<close>

definition set_joiner :: "nat \<Rightarrow> join_pc \<Rightarrow> scheduler \<Rightarrow> scheduler" where
  "set_joiner j p s = s\<lparr>joiners := (joiners s)(j := p)\<rparr>"

definition join_start :: "nat \<Rightarrow> scheduler \<Rightarrow> scheduler" where
  "join_start j s = set_joiner j J_Check (if idle_event s = None then s\<lparr>idle_event := Some False\<rparr> else s)"

definition join_next :: "nat \<Rightarrow> scheduler \<Rightarrow> scheduler" where
  "join_next j s =
    (case joiners s j of
       J_Check \<Rightarrow> set_joiner j (if running s > 0 then J_Clear else J_Done) s
     | J_Clear \<Rightarrow> set_joiner j J_Recheck (s\<lparr>idle_event := Some False\<rparr>)
     | J_Recheck \<Rightarrow> set_joiner j (if running s = 0 then J_Done else J_Wait) s
     | J_Wait \<Rightarrow> set_joiner j (if idle_event s = Some True then J_Check else J_Parked) s
     | _ \<Rightarrow> s)"

text \<open>\<open>wait_all\<close>: its polls.\<close>

definition wait_next :: "scheduler \<Rightarrow> scheduler" where
  "wait_next s =
    (case waiter s of
       W_Pending \<Rightarrow>
         if pending_dispatches s > 0 then s
         else s\<lparr>waiter := W_Scan 0\<rparr>
     | W_Scan i \<Rightarrow>
         if i < workers s then s\<lparr>waiter := (if active s i > 0 then W_Pending else W_Scan (i + 1))\<rparr>
         else s\<lparr>waiter := W_Done\<rparr>
     | _ \<Rightarrow> s)"

inductive sched_step :: "scheduler \<Rightarrow> scheduler \<Rightarrow> bool" where
  ss_check: "tasks s t = None \<Longrightarrow> accepting s \<Longrightarrow> sched_step s (set_phase t Checked s)"
| ss_count: "tasks s t = Some Checked \<Longrightarrow> sched_step s (spawn_count t s)"
| ss_dispatch: "tasks s t = Some Counted \<Longrightarrow> sched_step s (spawn_dispatch t s)"
| ss_start: "tasks s t = Some (Dispatched w) \<Longrightarrow> sched_step s (worker_start t w s)"
| ss_started: "tasks s t = Some (Started w) \<Longrightarrow> sched_step s (worker_started t w s)"
| ss_sub: "tasks s t = Some (Running w) \<Longrightarrow> sched_step s (task_sub t w s)"
| ss_notify: "tasks s t = Some (Notifying w) \<Longrightarrow> sched_step s (task_notify t w s)"
| ss_leave: "tasks s t = Some (Leaving w) \<Longrightarrow> sched_step s (task_leave t w s)"
| ss_stop: "sched_step s (stop_accepting s)"
| ss_join: "joiners s j = J_Idle \<Longrightarrow> sched_step s (join_start j s)"
| ss_join_next: "sched_step s (join_next j s)"
| ss_wait: "waiter s = W_Idle \<Longrightarrow> sched_step s (s\<lparr>waiter := W_Pending\<rparr>)"
| ss_wait_next: "sched_step s (wait_next s)"

definition sched_start :: "scheduler \<Rightarrow> bool" where
  "sched_start s \<longleftrightarrow> (\<exists>n. s = scheduler_new n)"


subsection \<open>The counters\<close>

fun counted :: "task_phase \<Rightarrow> bool" where
  "counted Checked = False"
| "counted Counted = True"
| "counted (Dispatched w) = True"
| "counted (Started w) = True"
| "counted (Running w) = True"
| "counted _ = False"

fun undelivered :: "task_phase \<Rightarrow> bool" where
  "undelivered Counted = True"
| "undelivered (Dispatched w) = True"
| "undelivered (Started w) = True"
| "undelivered _ = False"

fun alive_on :: "nat \<Rightarrow> task_phase \<Rightarrow> bool" where
  "alive_on w (Started v) = (w = v)"
| "alive_on w (Running v) = (w = v)"
| "alive_on w (Notifying v) = (w = v)"
| "alive_on w (Leaving v) = (w = v)"
| "alive_on w _ = False"

fun worker_of :: "task_phase \<Rightarrow> nat option" where
  "worker_of Checked = None"
| "worker_of Counted = None"
| "worker_of (Dispatched w) = Some w"
| "worker_of (Started w) = Some w"
| "worker_of (Running w) = Some w"
| "worker_of (Notifying w) = Some w"
| "worker_of (Leaving w) = Some w"
| "worker_of (Ended w) = Some w"

definition counts_ok :: "scheduler \<Rightarrow> bool" where
  "counts_ok s \<longleftrightarrow>
    finite (dom (tasks s)) \<and> running s = card (marked counted (tasks s)) \<and>
    pending_dispatches s = card (marked undelivered (tasks s)) \<and>
    (\<forall>w. active s w = card (marked (alive_on w) (tasks s))) \<and>
    (\<forall>t p w. tasks s t = Some p \<longrightarrow> worker_of p = Some w \<longrightarrow> w < workers s) \<and> 0 < workers s"

lemma pick_from_in: "pick_from a g is (b, x, y) \<in> insert b (set is)"
proof (induction "is" arbitrary: b x y)
  case (Cons i "is")
  then show ?case by (auto split: option.split)
qed simp

lemma pick_bound: "0 < n \<Longrightarrow> pick_least_loaded_index n a g < n"
  using pick_from_in [of a g "[0..<n]" 0 size_max size_max] by (auto simp: pick_least_loaded_index_def)

lemma counts_ok_phase:
  assumes "counts_ok s" "tasks s' = (tasks s)(t \<mapsto> p)" "workers s' = workers s"
    and "\<And>w. worker_of p = Some w \<Longrightarrow> w < workers s"
    and "running s' + (case tasks s t of Some q \<Rightarrow> if counted q then 1 else 0 | None \<Rightarrow> 0) = running s + (if counted p then 1 else 0)"
    and "pending_dispatches s' + (case tasks s t of Some q \<Rightarrow> if undelivered q then 1 else 0 | None \<Rightarrow> 0)
         = pending_dispatches s + (if undelivered p then 1 else 0)"
    and "\<And>w. active s' w + (case tasks s t of Some q \<Rightarrow> if alive_on w q then 1 else 0 | None \<Rightarrow> 0) = active s w + (if alive_on w p then 1 else 0)"
  shows "counts_ok s'"
proof -
  have fin: "finite (dom (tasks s))" using assms(1) by (simp add: counts_ok_def)
  have r: "running s' = card (marked counted (tasks s'))"
    using card_marked_upd [OF fin, of counted t p] assms(1,2,5) by (simp add: counts_ok_def split: option.splits)
  have p: "pending_dispatches s' = card (marked undelivered (tasks s'))"
    using card_marked_upd [OF fin, of undelivered t p] assms(1,2,6) by (simp add: counts_ok_def split: option.splits)
  have a: "active s' w = card (marked (alive_on w) (tasks s'))" for w
    using card_marked_upd [OF fin, of "alive_on w" t p] assms(1,2) assms(7) [of w] by (simp add: counts_ok_def split: option.splits)
  have f: "finite (dom (tasks s'))" using fin assms(2) by simp
  have w: "w < workers s'" if "tasks s' u = Some q" "worker_of q = Some w" for u q w
    using that assms(1-4) by (auto simp: counts_ok_def split: if_splits)
  show ?thesis unfolding counts_ok_def
    using r p f a w assms(1,3) by (intro conjI allI impI) (auto simp: counts_ok_def)
qed

lemma counts_ok_same:
  "counts_ok s \<Longrightarrow> tasks s' = tasks s \<Longrightarrow> workers s' = workers s \<Longrightarrow> running s' = running s \<Longrightarrow>
   pending_dispatches s' = pending_dispatches s \<Longrightarrow> active s' = active s \<Longrightarrow> counts_ok s'"
  by (simp add: counts_ok_def)

lemma join_next_frame:
  "tasks (join_next j s) = tasks s" "workers (join_next j s) = workers s" "running (join_next j s) = running s"
  "pending_dispatches (join_next j s) = pending_dispatches s" "active (join_next j s) = active s" "stopped (join_next j s) = stopped s"
  "waiter (join_next j s) = waiter s"
  by (cases "joiners s j"; simp add: join_next_def set_joiner_def)+

lemma wait_next_frame:
  "tasks (wait_next s) = tasks s" "workers (wait_next s) = workers s" "running (wait_next s) = running s"
  "pending_dispatches (wait_next s) = pending_dispatches s" "active (wait_next s) = active s" "stopped (wait_next s) = stopped s"
  "joiners (wait_next s) = joiners s" "idle_event (wait_next s) = idle_event s"
  by (cases "waiter s"; simp add: wait_next_def)+

lemma marked_pos: "counts_ok s \<Longrightarrow> tasks s t = Some p \<Longrightarrow>
   (counted p \<longrightarrow> 0 < running s) \<and> (undelivered p \<longrightarrow> 0 < pending_dispatches s) \<and> (alive_on w p \<longrightarrow> 0 < active s w)"
  using finite_marked [of "tasks s"] by (auto simp: counts_ok_def card_gt_0_iff marked_def)

lemma counts_step: "sched_step s s' \<Longrightarrow> counts_ok s \<Longrightarrow> counts_ok s'"
proof (induction rule: sched_step.induct)
  case (ss_check s t)
  show ?case
    by (rule counts_ok_phase [OF ss_check.prems, where t = t and p = Checked]) (use ss_check in \<open>simp_all add:  set_phase_def\<close>)
next
  case (ss_count s t)
  show ?case
    by (rule counts_ok_phase [OF ss_count.prems, where t = t and p = Counted]) (use ss_count in \<open>simp_all add: spawn_count_def set_phase_def\<close>)
next
  case (ss_dispatch s t)
  have b: "pick_least_loaded_index (workers s) (\<lambda>i. Some (active s i)) (assigned s) < workers s"
    using ss_dispatch pick_bound by (simp add: counts_ok_def)
  show ?case
    by (rule counts_ok_phase [OF ss_dispatch.prems, where t = t and p = "Dispatched (pick_least_loaded_index (workers s) (\<lambda>i. Some (active s i)) (assigned s))"]) (use ss_dispatch b in \<open>simp_all add: spawn_dispatch_def Let_def set_phase_def\<close>)
next
  case (ss_start s t w)
  have w: "w < workers s" using ss_start by (auto simp: counts_ok_def)
  show ?case
    by (rule counts_ok_phase [OF ss_start.prems, where t = t and p = "Started w"]) (use ss_start w in \<open>simp_all add: worker_start_def set_phase_def\<close>)
next
  case (ss_started s t w)
  have w: "w < workers s" "0 < pending_dispatches s"
    using ss_started marked_pos [of s t "Started w"] by (auto simp: counts_ok_def)
  show ?case
    by (rule counts_ok_phase [OF ss_started.prems, where t = t and p = "Running w"]) (use ss_started w in \<open>simp_all add: worker_started_def set_phase_def\<close>)
next
  case (ss_sub s t w)
  have w: "w < workers s" "0 < running s" using ss_sub marked_pos [of s t "Running w"] by (auto simp: counts_ok_def)
  show ?case
  proof (cases "running s = 1")
    case True
    show ?thesis
      by (rule counts_ok_phase [OF ss_sub.prems, where t = t and p = "Notifying w"]) (use ss_sub w True in \<open>simp_all add: task_sub_def set_phase_def\<close>)
  next
    case False
    show ?thesis
      by (rule counts_ok_phase [OF ss_sub.prems, where t = t and p = "Leaving w"]) (use ss_sub w False in \<open>simp_all add: task_sub_def set_phase_def\<close>)
  qed
next
  case (ss_notify s t w)
  have w: "w < workers s" using ss_notify by (auto simp: counts_ok_def)
  show ?case
    by (rule counts_ok_phase [OF ss_notify.prems, where t = t and p = "Leaving w"]) (use ss_notify w in \<open>simp_all add: task_notify_def set_phase_def split: option.split\<close>)
next
  case (ss_leave s t w)
  have w: "w < workers s" "0 < active s w" using ss_leave marked_pos [of s t "Leaving w" w] by (auto simp: counts_ok_def)
  show ?case
    by (rule counts_ok_phase [OF ss_leave.prems, where t = t and p = "Ended w"]) (use ss_leave w in \<open>simp_all add: task_leave_def set_phase_def\<close>)
next
  case (ss_join_next s j)
  show ?case by (rule counts_ok_same [OF ss_join_next.prems]) (simp_all add: join_next_frame)
next
  case (ss_wait_next s)
  show ?case by (rule counts_ok_same [OF ss_wait_next.prems]) (simp_all add: wait_next_frame)
qed (simp_all add: counts_ok_def stop_accepting_def join_start_def set_joiner_def)


subsection \<open>One coroutine in \<open>join\<close>\<close>

definition notifying :: "scheduler \<Rightarrow> bool" where
  "notifying s \<longleftrightarrow> (\<exists>t w. tasks s t = Some (Notifying w))"

definition joined_alone :: "nat \<Rightarrow> scheduler \<Rightarrow> bool" where
  "joined_alone k s \<longleftrightarrow> (\<forall>j. j \<noteq> k \<longrightarrow> joiners s j = J_Idle)"

definition join_ok :: "nat \<Rightarrow> scheduler \<Rightarrow> bool" where
  "join_ok k s \<longleftrightarrow> (joined_alone k s \<longrightarrow>
    (joiners s k \<noteq> J_Idle \<longrightarrow> idle_event s \<noteq> None) \<and>
    (joiners s k = J_Wait \<longrightarrow> 0 < running s \<or> notifying s \<or> idle_event s = Some True) \<and>
    (joiners s k = J_Parked \<longrightarrow> 0 < running s \<or> notifying s))"

lemma join_ok_phase:
  assumes "join_ok k s" "tasks s' = (tasks s)(t \<mapsto> p)" "joiners s' = joiners s" "idle_event s' = idle_event s"
    and "\<And>w. tasks s t \<noteq> Some (Notifying w)" "0 < running s \<longrightarrow> 0 < running s' \<or> (\<exists>w. p = Notifying w)"
  shows "join_ok k s'"
proof -
  have "notifying s \<Longrightarrow> notifying s'" using assms(2,5) by (metis fun_upd_other notifying_def)
  moreover have "0 < running s \<Longrightarrow> 0 < running s' \<or> notifying s'" using assms(2,6) by (auto simp: notifying_def)
  ultimately show ?thesis using assms(1,3,4) by (auto simp: join_ok_def joined_alone_def)
qed

lemma join_ok_same:
  "join_ok k s \<Longrightarrow> tasks s' = tasks s \<Longrightarrow> joiners s' = joiners s \<Longrightarrow> idle_event s' = idle_event s \<Longrightarrow> running s' = running s \<Longrightarrow> join_ok k s'"
  by (simp add: join_ok_def joined_alone_def notifying_def)

lemma join_start_ok: "join_ok k s \<Longrightarrow> joiners s j = J_Idle \<Longrightarrow> join_ok k (join_start j s)"
  by (auto simp: join_ok_def join_start_def set_joiner_def joined_alone_def notifying_def)

lemma join_next_ok: "join_ok k s \<Longrightarrow> join_ok k (join_next j s)"
proof (cases "j = k")
  case True
  then show "join_ok k s \<Longrightarrow> ?thesis"
    by (cases "joiners s k") (auto simp: join_ok_def join_next_def set_joiner_def joined_alone_def notifying_def)
next
  case False
  then show "join_ok k s \<Longrightarrow> ?thesis"
    by (cases "joiners s j") (auto simp: join_ok_def join_next_def set_joiner_def joined_alone_def notifying_def)
qed

lemma notify_ok:
  assumes "join_ok k s" "tasks s t = Some (Notifying w)"
  shows "join_ok k (task_notify t w s)"
proof (cases "idle_event s")
  case None
  then show ?thesis using assms
    by (auto simp: join_ok_def joined_alone_def task_notify_def set_phase_def)
next
  case (Some b)
  have "joined_alone k (task_notify t w s) \<Longrightarrow> joined_alone k s"
    using Some by (auto simp: joined_alone_def task_notify_def set_phase_def wake_parked_def split: if_splits)
  then show ?thesis using assms(1) Some
    by (auto simp: join_ok_def task_notify_def set_phase_def wake_parked_def)
qed

lemma join_step: "sched_step s s' \<Longrightarrow> counts_ok s \<Longrightarrow> join_ok k s \<Longrightarrow> join_ok k s'"
proof (induction rule: sched_step.induct)
  case (ss_sub s t w)
  have r: "0 < running s" using marked_pos [of s t "Running w"] ss_sub by simp
  show ?case
  proof (cases "running s = 1")
    case True
    show ?thesis
      by (rule join_ok_phase [OF ss_sub.prems(2), where t = t and p = "Notifying w"])
        (use ss_sub True in \<open>simp_all add: task_sub_def set_phase_def\<close>)
  next
    case False
    show ?thesis
      by (rule join_ok_phase [OF ss_sub.prems(2), where t = t and p = "Leaving w"])
        (use ss_sub False r in \<open>simp_all add: task_sub_def set_phase_def\<close>)
  qed
next
  case (ss_check s t)
  show ?case by (rule join_ok_phase [OF ss_check.prems(2), where t = t]) (use ss_check in \<open>simp_all add: set_phase_def\<close>)
next
  case (ss_count s t)
  show ?case by (rule join_ok_phase [OF ss_count.prems(2), where t = t]) (use ss_count in \<open>simp_all add: spawn_count_def set_phase_def\<close>)
next
  case (ss_dispatch s t)
  show ?case
    by (rule join_ok_phase [OF ss_dispatch.prems(2), where t = t]) (use ss_dispatch in \<open>simp_all add: spawn_dispatch_def set_phase_def Let_def\<close>)
next
  case (ss_start s t w)
  show ?case by (rule join_ok_phase [OF ss_start.prems(2), where t = t]) (use ss_start in \<open>simp_all add: worker_start_def set_phase_def\<close>)
next
  case (ss_started s t w)
  show ?case by (rule join_ok_phase [OF ss_started.prems(2), where t = t]) (use ss_started in \<open>simp_all add: worker_started_def set_phase_def\<close>)
next
  case (ss_leave s t w)
  show ?case by (rule join_ok_phase [OF ss_leave.prems(2), where t = t]) (use ss_leave in \<open>simp_all add: task_leave_def set_phase_def\<close>)
next
  case (ss_notify s t w)
  then show ?case using notify_ok by blast
next
  case (ss_stop s)
  show ?case by (rule join_ok_same [OF ss_stop.prems(2)]) (simp_all add: stop_accepting_def)
next
  case (ss_join s j)
  then show ?case using join_start_ok by blast
next
  case (ss_join_next s j)
  then show ?case using join_next_ok by blast
next
  case (ss_wait s)
  show ?case by (rule join_ok_same [OF ss_wait.prems(2)]) simp_all
next
  case (ss_wait_next s)
  show ?case by (rule join_ok_same [OF ss_wait_next.prems(2)]) (simp_all add: wait_next_frame)
qed

interpretation schedulers: inductive_invariant sched_start sched_step "\<lambda>s. counts_ok s \<and> join_ok k s"
  for k
proof
  show "counts_ok s \<and> join_ok k s" if "sched_start s" for s
    using that by (auto simp: sched_start_def scheduler_new_def counts_ok_def join_ok_def marked_upd)
qed (blast intro: counts_step join_step)

subsection \<open>Waiting after the stop\<close>

definition settled :: "scheduler \<Rightarrow> bool" where
  "settled s \<longleftrightarrow> stopped s \<and> (\<forall>t. tasks s t \<noteq> Some Checked \<and> tasks s t \<noteq> Some Counted) \<and>
    (\<forall>i. waiter s = W_Scan i \<longrightarrow> marked undelivered (tasks s) = {} \<and> (\<forall>w < i. active s w = 0)) \<and>
    (waiter s = W_Done \<longrightarrow> marked undelivered (tasks s) = {} \<and> (\<forall>w < workers s. active s w = 0))"

lemma settled_phase:
  assumes "settled s" "tasks s' = (tasks s)(t \<mapsto> p)" "stopped s' = stopped s" "waiter s' = waiter s" "workers s' = workers s"
    and "p \<noteq> Checked" "p \<noteq> Counted" "\<not> undelivered p \<or> (\<exists>q. tasks s t = Some q \<and> undelivered q)"
    and "\<And>w. active s' w \<le> active s w \<or> (\<exists>q. tasks s t = Some q \<and> undelivered q)"
  shows "settled s'"
proof -
  have u: "marked undelivered (tasks s') = {}" if "marked undelivered (tasks s) = {}"
    using that assms(2,8) by (auto simp: marked_def)
  have a: "active s' w = 0" if "marked undelivered (tasks s) = {}" "active s w = 0" for w
    using that assms(9) [of w] by (auto simp: marked_def)
  show ?thesis
    using assms(1-7) u a unfolding settled_def by simp
qed

lemma wait_settled:
  assumes "settled s" "counts_ok s"
  shows "settled (wait_next s)"
proof (cases "waiter s")
  case W_Pending
  have "marked undelivered (tasks s) = {}" if "pending_dispatches s = 0"
    using that assms(2) finite_marked [of "tasks s" undelivered] by (simp add: counts_ok_def)
  then show ?thesis using assms(1) W_Pending by (auto simp: settled_def wait_next_def)
next
  case (W_Scan i)
  then show ?thesis using assms(1) by (auto simp: settled_def wait_next_def less_Suc_eq)
qed (use assms(1) in \<open>auto simp: wait_next_def\<close>)

lemma settled_step: "sched_step s s' \<Longrightarrow> counts_ok s \<Longrightarrow> settled s \<Longrightarrow> settled s'"
proof (induction rule: sched_step.induct)
  case (ss_start s t w)
  show ?case by (rule settled_phase [OF ss_start.prems(2), where t = t and p = "Started w"]) (use ss_start in \<open>simp_all add: worker_start_def set_phase_def\<close>)
next
  case (ss_started s t w)
  show ?case by (rule settled_phase [OF ss_started.prems(2), where t = t and p = "Running w"]) (use ss_started in \<open>simp_all add: worker_started_def set_phase_def\<close>)
next
  case (ss_sub s t w)
  show ?case
    by (rule settled_phase [OF ss_sub.prems(2), where t = t and p = "if running s = 1 then Notifying w else Leaving w"])
      (use ss_sub in \<open>simp_all add: task_sub_def set_phase_def\<close>)
next
  case (ss_notify s t w)
  show ?case
    by (rule settled_phase [OF ss_notify.prems(2), where t = t and p = "Leaving w"])
      (use ss_notify in \<open>simp_all add: task_notify_def set_phase_def split: option.split\<close>)
next
  case (ss_leave s t w)
  show ?case by (rule settled_phase [OF ss_leave.prems(2), where t = t and p = "Ended w"]) (use ss_leave in \<open>simp_all add: task_leave_def set_phase_def\<close>)
next
  case (ss_wait_next s)
  then show ?case using wait_settled by blast
qed (auto simp: settled_def accepting_def stop_accepting_def join_start_def set_joiner_def join_next_frame)


subsection \<open>Runs as lists of moves\<close>

datatype sched_move =
    M_Check nat | M_Count nat | M_Dispatch nat | M_Start nat | M_Started nat | M_Sub nat | M_Notify nat | M_Leave nat
  | M_Join nat | M_Next nat | M_Wait | M_Poll | M_Stop

fun move :: "sched_move \<Rightarrow> scheduler \<Rightarrow> scheduler option" where
  "move (M_Check t) s = (if tasks s t = None \<and> accepting s then Some (set_phase t Checked s) else None)"
| "move (M_Count t) s = (if tasks s t = Some Checked then Some (spawn_count t s) else None)"
| "move (M_Dispatch t) s = (if tasks s t = Some Counted then Some (spawn_dispatch t s) else None)"
| "move (M_Start t) s = (case tasks s t of Some (Dispatched w) \<Rightarrow> Some (worker_start t w s) | _ \<Rightarrow> None)"
| "move (M_Started t) s = (case tasks s t of Some (Started w) \<Rightarrow> Some (worker_started t w s) | _ \<Rightarrow> None)"
| "move (M_Sub t) s = (case tasks s t of Some (Running w) \<Rightarrow> Some (task_sub t w s) | _ \<Rightarrow> None)"
| "move (M_Notify t) s = (case tasks s t of Some (Notifying w) \<Rightarrow> Some (task_notify t w s) | _ \<Rightarrow> None)"
| "move (M_Leave t) s = (case tasks s t of Some (Leaving w) \<Rightarrow> Some (task_leave t w s) | _ \<Rightarrow> None)"
| "move (M_Join j) s = (if joiners s j = J_Idle then Some (join_start j s) else None)"
| "move (M_Next j) s = Some (join_next j s)"
| "move M_Wait s = (if waiter s = W_Idle then Some (s\<lparr>waiter := W_Pending\<rparr>) else None)"
| "move M_Poll s = Some (wait_next s)"
| "move M_Stop s = Some (stop_accepting s)"

fun run_moves :: "sched_move list \<Rightarrow> scheduler \<Rightarrow> scheduler option" where
  "run_moves [] s = Some s"
| "run_moves (m # ms) s = (case move m s of Some s' \<Rightarrow> run_moves ms s' | None \<Rightarrow> None)"

lemma move_step: "move m s = Some s' \<Longrightarrow> sched_step s s'"
  by (cases m) (auto split: if_splits option.splits task_phase.splits intro: sched_step.intros)

lemma run_moves_steps: "run_moves ms s = Some s' \<Longrightarrow> sched_step\<^sup>*\<^sup>* s s'"
  by (induction ms arbitrary: s) (auto split: option.splits dest!: move_step intro: converse_rtranclp_into_rtranclp)

lemma run_moves_reachable: "run_moves ms (scheduler_new n) = Some s \<Longrightarrow> reachable sched_start sched_step s"
  using reachable_steps [OF run_moves_steps] reachable.reachable_init [of sched_start "scheduler_new n" sched_step]
  by (auto simp: sched_start_def)

lemmas scheduler_defs =
  set_phase_def spawn_count_def spawn_dispatch_def spawn_failed_def worker_start_def worker_started_def task_sub_def task_notify_def
  task_leave_def join_start_def join_next_def set_joiner_def wake_parked_def wait_next_def stop_accepting_def accepting_def
  scheduler_new_def

subsection \<open>Properties\<close>

definition load :: "(nat \<Rightarrow> nat) \<Rightarrow> (nat \<Rightarrow> nat) \<Rightarrow> nat \<Rightarrow> nat \<times> nat" where
  "load a g i = (a i, g i)"

definition lighter :: "nat \<times> nat \<Rightarrow> nat \<times> nat \<Rightarrow> bool" where
  "lighter x y \<longleftrightarrow> fst x < fst y \<or> (fst x = fst y \<and> snd x < snd y)"

lemma lighter_asym: "lighter x y \<Longrightarrow> \<not> lighter y x" "\<not> lighter x x"
  by (auto simp: lighter_def)

lemma pick_from_lightest:
  assumes "pick_from (\<lambda>i. Some (a i)) g is (b, x, y) = r"
  shows "(r = b \<and> (\<forall>i \<in> set is. \<not> lighter (load a g i) (x, y))) \<or>
    (\<exists>us vs. is = us @ r # vs \<and> lighter (load a g r) (x, y) \<and> (\<forall>i \<in> set us. lighter (load a g r) (load a g i)) \<and>
      (\<forall>i \<in> set vs. \<not> lighter (load a g i) (load a g r)))"
  using assms
proof (induction "is" arbitrary: b x y)
  case Nil
  then show ?case by simp
next
  case (Cons i "is")
  show ?case
  proof (cases "lighter (load a g i) (x, y)")
    case True
    then have "pick_from (\<lambda>i. Some (a i)) g is (i, a i, g i) = r"
      using Cons.prems by (simp add: lighter_def load_def)
    from Cons.IH [OF this] show ?thesis
    proof (elim disjE exE conjE)
      assume "r = i" "\<forall>j \<in> set is. \<not> lighter (load a g j) (a i, g i)"
      then show ?thesis using True by (intro disjI2 exI [of _ "[]"] exI [of _ "is"]) (simp add: load_def)
    next
      fix us vs
      assume H: "is = us @ r # vs" "lighter (load a g r) (a i, g i)" "\<forall>j \<in> set us. lighter (load a g r) (load a g j)"
        "\<forall>j \<in> set vs. \<not> lighter (load a g j) (load a g r)"
      have "lighter (load a g r) (x, y)" using H(2) True by (auto simp: lighter_def load_def)
      then show ?thesis using H by (intro disjI2 exI [of _ "i # us"] exI [of _ vs]) (simp add: load_def)
    qed
  next
    case False
    then have "\<not> (a i < x \<or> a i = x \<and> g i < y)" by (simp add: lighter_def load_def)
    then have "pick_from (\<lambda>i. Some (a i)) g is (b, x, y) = r"
      using Cons.prems by (simp only: pick_from.simps option.case if_False)
    from Cons.IH [OF this] show ?thesis
    proof (elim disjE exE conjE)
      fix us vs
      assume H: "is = us @ r # vs" "lighter (load a g r) (x, y)" "\<forall>j \<in> set us. lighter (load a g r) (load a g j)"
        "\<forall>j \<in> set vs. \<not> lighter (load a g j) (load a g r)"
      have "lighter (load a g r) (load a g i)" using H(2) False by (auto simp: lighter_def load_def)
      then show ?thesis using H by (intro disjI2 exI [of _ "i # us"] exI [of _ vs]) simp
    qed (use False in simp)
  qed
qed


lemma upt_split:
  assumes "[0..<n] = us @ r # vs"
  shows "us = [0..<r] \<and> vs = [Suc r..<n] \<and> r < n"
proof -
  have l: "n = length us + Suc (length vs)" using arg_cong [OF assms, of length] by simp
  have e: "(us @ r # vs) ! length us = [0..<n] ! length us" unfolding assms ..
  have r: "r = length us" using e nth_upt [of 0 "length us" n] l by simp
  have "take r (us @ r # vs) = us" "drop (Suc r) (us @ r # vs) = vs" using r by simp_all
  then have u: "take r [0..<n] = us" and v: "drop (Suc r) [0..<n] = vs" unfolding assms by simp_all
  have n: "r < n" using l r by simp
  have "take r [0..<n] = [0..<r]" "drop (Suc r) [0..<n] = [Suc r..<n]" using n by simp_all
  then show ?thesis using u v n by simp
qed

text \<open>The scheduler gives a task to the worker with the fewest active coroutines; among those, to
  the one that has been given the fewest tasks so far, and among those to the first. The counts are
  below the largest \<open>size_t\<close> and every worker has published its loop.\<close>

theorem least_loaded_chosen:
  assumes "0 < n" and bounds: "\<And>i. i < n \<Longrightarrow> a i < size_max \<and> g i < size_max"
    and "r = pick_least_loaded_index n (\<lambda>i. Some (a i)) g"
  shows "r < n \<and> (\<forall>i < n. \<not> lighter (load a g i) (load a g r)) \<and> (\<forall>i < r. lighter (load a g r) (load a g i))"
proof -
  have r: "pick_from (\<lambda>i. Some (a i)) g [0..<n] (0, size_max, size_max) = r"
    using assms(3) by (simp add: pick_least_loaded_index_def)
  have "lighter (load a g 0) (size_max, size_max)" using bounds [OF assms(1)] by (simp add: lighter_def load_def)
  moreover have "0 \<in> set [0..<n]" using assms(1) by simp
  ultimately have "\<not> (\<forall>i \<in> set [0..<n]. \<not> lighter (load a g i) (size_max, size_max))" by blast
  then obtain us vs where H: "[0..<n] = us @ r # vs" "\<forall>i \<in> set us. lighter (load a g r) (load a g i)"
      "\<forall>i \<in> set vs. \<not> lighter (load a g i) (load a g r)"
    using pick_from_lightest [OF r] by blast
  have n: "us = [0..<r] \<and> vs = [Suc r..<n] \<and> r < n" by (rule upt_split [OF H(1)])
  have "\<not> lighter (load a g i) (load a g r)" if i: "i < n" for i
  proof -
    consider "i < r" | "i = r" | "r < i" by (rule linorder_cases)
    then consider "i \<in> set us" | "i = r" | "i \<in> set vs" using i n by cases simp_all
    then show ?thesis by cases (use H(2,3) lighter_asym in blast)+
  qed
  then show ?thesis using H(2) n by simp
qed

theorem least_loaded_chosen_witness:
  "pick_least_loaded_index 3 (\<lambda>i. Some ([2, 1, 1] ! i)) (\<lambda>i. [0, 5, 4] ! i) = 2 \<and>
   (\<forall>i < 3. \<not> lighter (load ((!) [2, 1, 1]) ((!) [0, 5, 4]) i) (load ((!) [2, 1, 1]) ((!) [0, 5, 4]) 2))"
proof -
  have p: "2 = pick_least_loaded_index 3 (\<lambda>i. Some ([2, 1, 1] ! i)) ((!) [0, 5, 4])"
    by (simp add: pick_least_loaded_index_def size_max_def upt_rec)
  have b: "[2, 1, 1] ! i < size_max \<and> [0, 5, 4] ! i < size_max" if "i < 3" for i :: nat
    using that by (auto simp: size_max_def numeral_3_eq_3 less_Suc_eq)
  show ?thesis using least_loaded_chosen [OF _ b p] p by simp
qed



definition one_task :: "sched_move list" where
  "one_task = [M_Check 0, M_Count 0, M_Dispatch 0, M_Start 0, M_Started 0]"

lemma pick_one: "pick_least_loaded_index (Suc 0) a g = 0"
  using pick_bound [of "Suc 0" a g] by simp


text \<open>C13. \<open>wait_all\<close> as the destructor calls it: once the scheduler takes no more tasks and no call of
  \<open>spawn_any\<close> is between its check and its dispatch, a \<open>wait_all\<close> that starts then returns only after
  every task has ended.\<close>

theorem wait_all_after_stop:
  assumes "reachable sched_start sched_step s" "stopped s"
    and "\<And>t. tasks s t \<noteq> Some Checked \<and> tasks s t \<noteq> Some Counted"
    and "waiter s \<in> {W_Idle, W_Pending}" "sched_step\<^sup>*\<^sup>* s s'" "waiter s' = W_Done"
  shows "(\<forall>t p. tasks s' t = Some p \<longrightarrow> (\<exists>w. p = Ended w)) \<and> running s' = 0 \<and> pending_dispatches s' = 0 \<and>
    (\<forall>w < workers s'. active s' w = 0)"
proof -
  have inv: "counts_ok s" using schedulers.invariant_reachable [OF assms(1)] by simp
  have "settled s" using assms(2-4) by (auto simp: settled_def)
  from assms(5) inv this have fin: "counts_ok s' \<and> settled s'"
    by (induction rule: rtranclp_induct) (auto intro: counts_step settled_step)
  then have u: "marked undelivered (tasks s') = {}" and a: "\<forall>w < workers s'. active s' w = 0"
    and c: "\<forall>t. tasks s' t \<noteq> Some Checked \<and> tasks s' t \<noteq> Some Counted"
    using assms(6) by (simp_all add: settled_def)
  have e: "\<exists>w. p = Ended w" if "tasks s' t = Some p" for t p
    using that fin u a c marked_pos [of s' t p] unfolding marked_def
    by (cases p) (fastforce simp: counts_ok_def)+
  then have "marked counted (tasks s') = {}" by (force simp: marked_def)
  then show ?thesis using e u a fin by (auto simp: counts_ok_def)
qed


theorem wait_all_after_stop_witness:
  "\<exists>s s'. run_moves (one_task @ [M_Stop, M_Wait]) (scheduler_new 1) = Some s \<and>
    run_moves [M_Poll, M_Poll, M_Sub 0, M_Notify 0, M_Leave 0, M_Poll, M_Poll, M_Poll] s = Some s' \<and>
    waiter s' = W_Done \<and> (\<forall>t p. tasks s' t = Some p \<longrightarrow> (\<exists>w. p = Ended w)) \<and> running s' = 0"
proof -
  obtain s where s: "run_moves (one_task @ [M_Stop, M_Wait]) (scheduler_new 1) = Some s"
    and f: "stopped s" "tasks s = [0 \<mapsto> Running 0]" "waiter s = W_Pending" "workers s = 1" "pending_dispatches s = 0"
      "running s = 1" "active s = (\<lambda>_. 0)(0 := 1)" "idle_event s = None"
    by (simp add: one_task_def scheduler_defs pick_one Let_def)
  obtain s' where s': "run_moves [M_Poll, M_Poll, M_Sub 0, M_Notify 0, M_Leave 0, M_Poll, M_Poll, M_Poll] s = Some s'"
    and d: "waiter s' = W_Done"
    using f by (simp add: scheduler_defs)
  show ?thesis
    using wait_all_after_stop [OF run_moves_reachable [OF s] f(1) _ _ run_moves_steps [OF s'] d] f(2,3) s s' d by simp
qed

subsection \<open>Where the waits fall short\<close>

text \<open>Two coroutines in \<open>join\<close> on different threads: one clears the event after the last task has set it
  and before the other waits; the other is parked with no task left to wake it.\<close>

lemma two_joins_strand_one:
  "\<exists>s. reachable sched_start sched_step s \<and> joiners s 0 = J_Parked \<and> joiners s 1 = J_Done \<and> running s = 0 \<and>
    (\<forall>t p. tasks s t = Some p \<longrightarrow> (\<exists>w. p = Ended w))"
proof -
  obtain s where "run_moves (one_task @ [M_Join 0, M_Next 0, M_Next 0, M_Next 0, M_Join 1, M_Next 1, M_Sub 0, M_Notify 0, M_Leave 0,
      M_Next 1, M_Next 0, M_Next 1]) (scheduler_new 1) = Some s"
    "joiners s 0 = J_Parked" "joiners s 1 = J_Done" "running s = 0" "tasks s = [0 \<mapsto> Ended 0]"
    by (simp add: one_task_def scheduler_defs pick_one Let_def)
  then show ?thesis using run_moves_reachable by (intro exI [of _ s]) auto
qed

text \<open>A dispatch that throws takes the last count back without setting the idle event.\<close>

lemma failed_dispatch_strands_join:
  "\<exists>s. reachable sched_start sched_step s \<and> tasks s = [0 \<mapsto> Counted] \<and> joiners s 0 = J_Parked \<and>
    running (spawn_failed 0 s) = 0 \<and> joiners (spawn_failed 0 s) 0 = J_Parked \<and> tasks (spawn_failed 0 s) = Map.empty"
proof -
  obtain s where s: "run_moves [M_Check 0, M_Count 0, M_Join 0, M_Next 0, M_Next 0, M_Next 0, M_Next 0] (scheduler_new 1) = Some s"
    and f: "joiners s 0 = J_Parked" "running s = 1" "tasks s = [0 \<mapsto> Counted]"
    by (simp add: scheduler_defs)
  show ?thesis using run_moves_reachable [OF s] f by (intro exI [of _ s]) (simp add: spawn_failed_def Let_def)
qed

text \<open>While tasks may still spawn tasks, \<open>wait_all\<close> can pass a worker that is given a task afterwards and
  return while that task runs.\<close>

lemma pick_two: "pick_least_loaded_index 2 (\<lambda>i. Some (a i)) g =
   (if a 0 < size_max \<or> a 0 = size_max \<and> g 0 < size_max
    then if a 1 < a 0 \<or> a 1 = a 0 \<and> g 1 < g 0 then 1 else 0
    else if a 1 < size_max \<or> a 1 = size_max \<and> g 1 < size_max then 1 else 0)"
  by (simp add: pick_least_loaded_index_def upt_rec)

lemma wait_all_misses_task:
  "\<exists>s s'. reachable sched_start sched_step s \<and> waiter s = W_Pending \<and> tasks s = [0 \<mapsto> Ended 0, 1 \<mapsto> Running 1] \<and>
    sched_step\<^sup>*\<^sup>* s s' \<and> waiter s' = W_Done \<and> tasks s' 2 = Some (Running 0)"
proof -
  obtain s where s: "run_moves (one_task @ [M_Sub 0, M_Notify 0, M_Leave 0, M_Check 1, M_Count 1, M_Dispatch 1, M_Start 1, M_Started 1, M_Wait])
      (scheduler_new 2) = Some s"
    and f: "stopped s = False" "tasks s = [0 \<mapsto> Ended 0, 1 \<mapsto> Running 1]" "waiter s = W_Pending" "workers s = 2"
      "pending_dispatches s = 0" "running s = 1" "active s 0 = 0" "active s (Suc 0) = 1" "idle_event s = None"
    by (simp add: one_task_def scheduler_defs pick_two Let_def size_max_def)
  obtain s' where s': "run_moves [M_Poll, M_Poll, M_Check 2, M_Count 2, M_Dispatch 2, M_Start 2, M_Started 2, M_Sub 1, M_Leave 1, M_Poll, M_Poll]
      s = Some s'"
    and d: "waiter s' = W_Done" "tasks s' 2 = Some (Running 0)"
    using f by (simp add: scheduler_defs pick_two Let_def size_max_def)
  show ?thesis using run_moves_reachable [OF s] run_moves_steps [OF s'] f(2,3) d by blast
qed

end
