(* ===== verification/Wait_For.thy ===== *)
theory Wait_For
  imports Task_Core
begin

section \<open>Waiting with a timeout\<close>

text \<open>
  \<open>wait_for\<close> and \<open>wait_until\<close> of wait.hpp on one loop, with \<open>sleep\<close>: the coroutine starts a second task that
  sleeps and then cancels the task that is awaited. Three frames run interleaved: the awaited task, the
  timer task and \<open>wait_for\<close> itself, each with the operations of the task theory; the timer holds a plain
  pointer to the awaited task, which is a parameter of the frame of \<open>wait_for\<close>. Time is in nanoseconds.
  \<open>wf_begun_at\<close>, \<open>wf_cancel_asked\<close> and \<open>wf_late\<close> are not in the code: when the body began, whether the owner
  has called \<open>cancel\<close>, and whether the timer has used its pointer after the end of the frame.
\<close>

subsection \<open>Model\<close>

definition round_up_ms :: "int \<Rightarrow> int" where
  "round_up_ms d = - ((- d) div 1000000)"

definition sleep :: "time \<Rightarrow> int \<Rightarrow> time" where
  "sleep now d = now + d"

record 'a wait_for_run =
  wf_me :: handle
  wf_loop :: nat
  wf_now :: time
  wf_timeout_ms :: int
  wf_timed_out :: bool
  wf_task :: "'a task_run"
  wf_timer :: "unit task"
  wf_due :: "time option"
  wf_self :: "'a task"
  wf_result :: "'a result option"
  wf_begun_at :: "time option"
  wf_cancel_asked :: bool
  wf_late :: bool

definition wait_for :: "handle \<Rightarrow> nat \<Rightarrow> time \<Rightarrow> 'a task_run \<Rightarrow> int \<Rightarrow> 'a wait_for_run" where
  "wait_for h lp now R timeout = \<lparr>wf_me = h, wf_loop = lp, wf_now = now, wf_timeout_ms = round_up_ms timeout, wf_timed_out = False,
     wf_task = R, wf_timer = task_new, wf_due = None, wf_self = task_new, wf_result = None, wf_begun_at = None,
     wf_cancel_asked = False, wf_late = False\<rparr>"

definition wait_until :: "handle \<Rightarrow> nat \<Rightarrow> time \<Rightarrow> 'a task_run \<Rightarrow> time \<Rightarrow> 'a wait_for_run" where
  "wait_until h lp now R deadline =
    (if deadline \<le> now then wait_for h lp now R 0 else wait_for h lp now R (deadline - now))"

text \<open>Destruction of the task that was passed in, after the wrapper of the \<open>co_await\<close> has taken the coroutine
  out of it if it is still registered.\<close>

definition drop_task :: "handle \<Rightarrow> 'a task_run \<Rightarrow> 'a task_run" where
  "drop_task h R =
    (let R = (if parked R = Some h then R\<lparr>tk := task_on_waiter_destroyed h (tk R), parked := None\<rparr> else R)
     in R\<lparr>tk := snd (task_destroy (tk R))\<rparr>)"

definition drop_timer :: "'a wait_for_run \<Rightarrow> 'a wait_for_run" where
  "drop_timer s = s\<lparr>wf_timer := snd (task_destroy (wf_timer s)), wf_due := None\<rparr>"

text \<open>The end of the body: the catch clause, the local objects, the result, the parameter.\<close>

definition wf_finish :: "'a result \<Rightarrow> 'a wait_for_run \<Rightarrow> 'a wait_for_run" where
  "wf_finish r s =
    (let s = (case r of
                Inr _ \<Rightarrow> s\<lparr>wf_timer := task_detach (snd (task_cancel False (wf_timer s)))\<rparr>
              | Inl _ \<Rightarrow> drop_timer s);
         r = (if r = Inl CancelledError \<and> wf_timed_out s then Inl TimeoutError else r);
         self = (case r of Inr v \<Rightarrow> return_value v (wf_self s) | Inl e \<Rightarrow> unhandled_exception e (wf_self s))
     in s\<lparr>wf_self := snd (final_suspend self), wf_result := Some r, wf_task := drop_task (wf_me s) (wf_task s)\<rparr>)"

definition wf_await_resume :: "'a wait_for_run \<Rightarrow> 'a wait_for_run" where
  "wf_await_resume s =
    (case wrap_resume Await_Plain (fst (take_result (tk (wf_task s)))) (wf_self s) of
       (r, self) \<Rightarrow>
         (let R = (if cancelled (wf_self s) then wf_task s
                   else (wf_task s)\<lparr>tk := snd (take_result (tk (wf_task s)))\<rparr>)
          in wf_finish r (s\<lparr>wf_self := self, wf_task := R\<rparr>)))"

text \<open>The first resumption, up to the suspension.\<close>

definition wf_begin :: "'a wait_for_run \<Rightarrow> 'a wait_for_run" where
  "wf_begin s =
    (let s = s\<lparr>wf_self := (wf_self s)\<lparr>frame := Running\<rparr>, wf_timer := snd (task_start task_new), wf_begun_at := Some (wf_now s)\<rparr>
     in if wrap_ready (task_await_ready (tk (wf_task s))) (wf_self s) then wf_await_resume s
        else let s = s\<lparr>wf_self := wrap_suspend Await_Plain (wf_self s)\<rparr>
        in case task_await_suspend (wf_me s) (wf_loop s) (tk (wf_task s)) of
             Inl e \<Rightarrow> wf_finish (Inl e) (s\<lparr>wf_self := wrap_threw (wf_self s)\<rparr>)
           | Inr (_, t) \<Rightarrow> s\<lparr>wf_task := (wf_task s)\<lparr>tk := t, parked := Some (wf_me s)\<rparr>\<rparr>)"

text \<open>The timer task.\<close>

definition timer_end :: "unit task \<Rightarrow> unit task" where
  "timer_end t = (release_handle (fst (store_result_void t)))\<lparr>frame := Gone\<rparr>"

definition timer_fire :: "bool \<Rightarrow> unit task \<Rightarrow> 'a wait_for_run \<Rightarrow> 'a wait_for_run" where
  "timer_fire defers t s =
    (case task_cancel defers (tk (wf_task s)) of
       (as, u) \<Rightarrow> s\<lparr>wf_timed_out := True, wf_task := (wf_task s)\<lparr>tk := u, asked := asked (wf_task s) \<or> asks as\<rparr>,
                   wf_timer := timer_end t, wf_late := (wf_late s \<or> frame (wf_self s) = Gone)\<rparr>)"

definition timer_resume :: "bool \<Rightarrow> 'a wait_for_run \<Rightarrow> 'a wait_for_run" where
  "timer_resume defers s =
    (case wrap_resume Await_Plain (Inr ()) (wf_timer s) of
       (Inl e, t) \<Rightarrow> s\<lparr>wf_timer := timer_end (unhandled_exception e t), wf_due := None\<rparr>
     | (Inr _, t) \<Rightarrow> timer_fire defers t (s\<lparr>wf_due := None\<rparr>))"

definition timer_begin :: "bool \<Rightarrow> 'a wait_for_run \<Rightarrow> 'a wait_for_run" where
  "timer_begin defers s =
    (let t = (wf_timer s)\<lparr>frame := Running\<rparr>
     in if wrap_ready False t then timer_resume defers (s\<lparr>wf_timer := t\<rparr>)
        else s\<lparr>wf_timer := wrap_suspend Await_Plain t, wf_due := Some (sleep (wf_now s) (wf_timeout_ms s * 1000000))\<rparr>)"

text \<open>The frame of \<open>wait_for\<close> is destroyed without being resumed: its owner has destroyed or cancelled it.\<close>

definition wf_unwind :: "'a wait_for_run \<Rightarrow> 'a wait_for_run" where
  "wf_unwind s =
    (let s = (if wf_begun_at s = None then s else drop_timer s)
     in s\<lparr>wf_task := drop_task (wf_me s) (wf_task s)\<rparr>)"

definition wf_set_self :: "'a task \<Rightarrow> 'a wait_for_run \<Rightarrow> 'a wait_for_run" where
  "wf_set_self t s =
    (let s' = s\<lparr>wf_self := t\<rparr> in if frame t = Gone \<and> frame (wf_self s) \<noteq> Gone then wf_unwind s' else s')"

text \<open>What the body of the awaited task does, between a resumption and the next suspension.\<close>

inductive body_step :: "'a task_run \<Rightarrow> 'a task_run \<Rightarrow> bool" where
  bs_first: "frame (tk R) = Queued \<Longrightarrow> \<not> suspended (tk R) \<Longrightarrow> body_step R (R\<lparr>tk := (tk R)\<lparr>frame := Running\<rparr>\<rparr>)"
| bs_over: "frame (tk R) = Waiting \<Longrightarrow> body_step R (R\<lparr>tk := (tk R)\<lparr>frame := Queued\<rparr>\<rparr>)"
| bs_resume: "frame (tk R) = Queued \<Longrightarrow> suspended (tk R) \<Longrightarrow> wrap_resume (kind_of (tk R)) (inner :: unit result) (tk R) = (r, t) \<Longrightarrow>
    body_step R (R\<lparr>tk := t, asked := False\<rparr>)"
| bs_no_wait: "frame (tk R) = Running \<Longrightarrow> wrap_ready b (tk R) \<Longrightarrow> wrap_resume k (inner :: unit result) (tk R) = (r, t) \<Longrightarrow>
    body_step R (R\<lparr>tk := t\<rparr>)"
| bs_suspend: "frame (tk R) = Running \<Longrightarrow> \<not> wrap_ready False (tk R) \<Longrightarrow> body_step R (R\<lparr>tk := wrap_suspend k (tk R)\<rparr>)"
| bs_return: "frame (tk R) = Running \<Longrightarrow> body_step R (end_body (return_value v (tk R)) R)"
| bs_escape: "frame (tk R) = Running \<Longrightarrow> body_step R (end_body (unhandled_exception e (tk R)) R)"
| bs_reap: "frame (tk R) = Doomed \<Longrightarrow> body_step R (R\<lparr>tk := (tk R)\<lparr>frame := Gone\<rparr>\<rparr>)"

definition wf_body :: "'a task_run \<Rightarrow> 'a wait_for_run \<Rightarrow> 'a wait_for_run" where
  "wf_body R s =
    s\<lparr>wf_task := R,
      wf_self := (if parked (wf_task s) \<noteq> None \<and> parked R = None \<and> frame (wf_self s) = Waiting
        then (wf_self s)\<lparr>frame := Queued\<rparr> else wf_self s)\<rparr>"

text \<open>All frames are on one loop: \<open>wait_for\<close> and the timer go on only while the body of the task is not running,
  and that body neither destroys the frame that owns its task nor cancels it before it has started.\<close>

inductive wf_step :: "'a wait_for_run \<Rightarrow> 'a wait_for_run \<Rightarrow> bool" where
  wf_tick: "wf_now s \<le> n \<Longrightarrow> wf_step s (s\<lparr>wf_now := n\<rparr>)"
| wf_body: "body_step (wf_task s) R \<Longrightarrow> wf_step s (wf_body R s)"
| wf_own_start: "wf_step s (s\<lparr>wf_self := snd (task_start (wf_self s))\<rparr>)"
| wf_own_cancel: "frame (tk (wf_task s)) \<noteq> Running \<or> started (wf_self s) \<Longrightarrow>
    wf_step s (wf_set_self (snd (task_cancel False (wf_self s))) (s\<lparr>wf_cancel_asked := True\<rparr>))"
| wf_own_destroy: "frame (tk (wf_task s)) \<noteq> Running \<Longrightarrow> wf_step s (wf_set_self (snd (task_destroy (wf_self s))) s)"
| wf_reap: "frame (tk (wf_task s)) \<noteq> Running \<Longrightarrow> frame (wf_self s) = Doomed \<Longrightarrow> wf_step s (wf_set_self ((wf_self s)\<lparr>frame := Gone\<rparr>) s)"
| wf_first: "frame (tk (wf_task s)) \<noteq> Running \<Longrightarrow> frame (wf_self s) = Queued \<Longrightarrow> \<not> suspended (wf_self s) \<Longrightarrow> wf_step s (wf_begin s)"
| wf_resumed: "frame (tk (wf_task s)) \<noteq> Running \<Longrightarrow> frame (wf_self s) = Queued \<Longrightarrow> suspended (wf_self s) \<Longrightarrow> wf_step s (wf_await_resume s)"
| wf_timer_first: "frame (tk (wf_task s)) \<noteq> Running \<Longrightarrow> frame (wf_timer s) = Queued \<Longrightarrow> \<not> suspended (wf_timer s) \<Longrightarrow> wf_step s (timer_begin d s)"
| wf_timer_due: "frame (wf_timer s) = Waiting \<Longrightarrow> wf_due s = Some t \<Longrightarrow> t \<le> wf_now s \<Longrightarrow>
    wf_step s (s\<lparr>wf_timer := (wf_timer s)\<lparr>frame := Queued\<rparr>, wf_due := None\<rparr>)"
| wf_timer_resumed: "frame (tk (wf_task s)) \<noteq> Running \<Longrightarrow> frame (wf_timer s) = Queued \<Longrightarrow> suspended (wf_timer s) \<Longrightarrow> wf_step s (timer_resume d s)"
| wf_timer_reap: "frame (wf_timer s) = Doomed \<Longrightarrow> wf_step s (s\<lparr>wf_timer := (wf_timer s)\<lparr>frame := Gone\<rparr>\<rparr>)"

definition wf_start :: "'a wait_for_run \<Rightarrow> bool" where
  "wf_start s \<longleftrightarrow> (\<exists>h lp now R d. s = wait_for h lp now R d \<and> reachable task_begin task_step R \<and> parked R = None)"


subsection \<open>The awaited task\<close>

lemma body_task: "body_step R S \<Longrightarrow> task_step R S"
  by (induction rule: body_step.induct) (auto intro: task_step.intros)

lemma body_keeps:
  assumes "body_step R S" "task_inv R" "\<not> has_handle (tk R)"
  shows "\<not> has_handle (tk S) \<and> ready (tk S) = ready (tk R) \<and> result (tk S) = result (tk R) \<and>
    exception (tk S) = exception (tk R) \<and> (parked R = None \<longrightarrow> parked S = None)"
  using assms
proof (induction rule: body_step.induct)
  case (bs_resume R inner r t)
  then show ?case using wrap_resume_state [OF bs_resume.hyps(3)] by simp
next
  case (bs_no_wait R b k inner r t)
  then show ?case using wrap_resume_state [OF bs_no_wait.hyps(3)] by simp
next
  case (bs_return R v)
  then have "\<not> pr_attached (tk R)" by (simp add: task_inv_def handle_ok_def live_def)
  then show ?case using bs_return by (simp add: task_end_defs split: option.split)
next
  case (bs_escape R e)
  then have "\<not> pr_attached (tk R)" by (simp add: task_inv_def handle_ok_def live_def)
  then show ?case using bs_escape by (simp add: task_end_defs split: option.split)
qed (auto simp: wrap_suspend_def Let_def)

lemma body_awaited:
  assumes "body_step R S" "task_inv R" "has_handle (tk R)"
  shows "parked S = parked R \<and> has_handle (tk S) \<or> parked S = None \<and> ready (tk S)"
  using assms
proof (induction rule: body_step.induct)
  case (bs_resume R inner r t)
  then show ?case using wrap_resume_state [OF bs_resume.hyps(3)] by simp
next
  case (bs_no_wait R b k inner r t)
  then show ?case using wrap_resume_state [OF bs_no_wait.hyps(3)] by simp
next
  case (bs_return R v)
  then have "pr_attached (tk R)" "continuation (tk R) = None \<longrightarrow> parked R = None"
    by (auto simp: task_inv_def handle_ok_def live_def awaiter_ok_def)
  then show ?case using bs_return by (auto simp: task_end_defs split: option.split)
next
  case (bs_escape R e)
  then have "pr_attached (tk R)" "continuation (tk R) = None \<longrightarrow> parked R = None"
    by (auto simp: task_inv_def handle_ok_def live_def awaiter_ok_def)
  then show ?case using bs_escape by (auto simp: task_end_defs split: option.split)
qed (auto simp: wrap_suspend_def Let_def)

lemma drop_task_inv:
  assumes "task_inv R" "frame (tk R) \<noteq> Running" "parked R = None \<or> parked R = Some h"
  shows "task_inv (drop_task h R) \<and> \<not> has_handle (tk (drop_task h R)) \<and> parked (drop_task h R) = None \<and>
    result (tk (drop_task h R)) = result (tk R) \<and> exception (tk (drop_task h R)) = exception (tk R)"
proof -
  define Q where "Q = (if parked R = Some h then R\<lparr>tk := task_on_waiter_destroyed h (tk R), parked := None\<rparr> else R)"
  have d: "drop_task h R = Q\<lparr>tk := snd (task_destroy (tk Q))\<rparr>" by (simp add: drop_task_def Q_def Let_def)
  have "task_inv Q" unfolding Q_def using assms(1) task_step_inv [OF tr_waiter_gone, of R h] by simp
  moreover have q: "parked Q = None" "frame (tk Q) \<noteq> Running" "result (tk Q) = result (tk R)" "exception (tk Q) = exception (tk R)"
    using assms by (auto simp: Q_def task_on_waiter_destroyed_def)
  ultimately have "task_inv (drop_task h R)" unfolding d by (intro task_step_inv [OF tr_destroy])
  moreover have "\<not> has_handle (snd (task_destroy t)) \<and> result (snd (task_destroy t)) = result t \<and> exception (snd (task_destroy t)) = exception t"
    for t :: "'a task" by (simp add: task_destroy_def)
  ultimately show ?thesis using q by (simp add: d)
qed


subsection \<open>The invariant\<close>

definition self_ok :: "'a wait_for_run \<Rightarrow> bool" where
  "self_ok s \<longleftrightarrow>
    (let f = frame (wf_self s); t = wf_self s
     in pr_attached t \<and> \<not> pending_io t \<and> \<not> defer_cancel t \<and> f \<noteq> Running \<and>
        (f = Fresh \<longleftrightarrow> has_handle t \<and> \<not> started t) \<and> (has_handle t \<longrightarrow> f \<noteq> Doomed \<and> f \<noteq> Gone) \<and> (f = Queued \<or> f = Waiting \<longrightarrow> has_handle t \<and> started t) \<and>
        (f \<noteq> Gone \<longrightarrow> (suspended t \<longleftrightarrow> wf_begun_at s \<noteq> None) \<and> \<not> ready t) \<and> (f = Fresh \<longrightarrow> \<not> suspended t) \<and>
        (cancelled t \<longrightarrow> wf_cancel_asked s))"

definition waits_ok :: "'a wait_for_run \<Rightarrow> bool" where
  "waits_ok s \<longleftrightarrow>
    (frame (wf_self s) = Waiting \<longrightarrow> parked (wf_task s) \<noteq> None \<and> \<not> cancelled (wf_self s)) \<and>
    (frame (wf_self s) = Queued \<and> suspended (wf_self s) \<longrightarrow>
       (if parked (wf_task s) = None then ready (tk (wf_task s)) else cancelled (wf_self s)))"

definition awaited_ok :: "'a wait_for_run \<Rightarrow> bool" where
  "awaited_ok s \<longleftrightarrow>
    (let R = wf_task s
     in task_inv R \<and> (parked R = None \<or> parked R = Some (wf_me s)) \<and>
        (parked R \<noteq> None \<longrightarrow> has_handle (tk R) \<and> frame (wf_self s) \<noteq> Gone \<and> wf_begun_at s \<noteq> None) \<and>
        (frame (wf_self s) = Gone \<longrightarrow> \<not> has_handle (tk R)))"

definition timer_ok :: "'a wait_for_run \<Rightarrow> bool" where
  "timer_ok s \<longleftrightarrow>
    (let t = wf_timer s; f = frame t
     in case wf_begun_at s of
          None \<Rightarrow> t = task_new \<and> \<not> wf_timed_out s \<and> frame (wf_self s) \<noteq> Waiting \<and> wf_result s = None
        | Some b \<Rightarrow>
            b \<le> wf_now s \<and> \<not> pending_io t \<and> \<not> defer_cancel t \<and> started t \<and> f \<noteq> Running \<and> f \<noteq> Fresh \<and>
            (f = Waiting \<longrightarrow> suspended t \<and> (\<exists>d. wf_due s = Some d \<and> b + wf_timeout_ms s * 1000000 \<le> d)) \<and>
            (f = Queued \<and> suspended t \<and> \<not> cancelled t \<longrightarrow> b + wf_timeout_ms s * 1000000 \<le> wf_now s) \<and>
            (wf_timed_out s \<longrightarrow> b + wf_timeout_ms s * 1000000 \<le> wf_now s) \<and>
            (if frame (wf_self s) = Gone then f = Doomed \<or> f = Gone \<or> f = Queued \<and> cancelled t
             else if wf_timed_out s then f = Gone \<and> \<not> has_handle t
             else (f = Queued \<or> f = Waiting) \<and> has_handle t \<and> pr_attached t \<and> \<not> ready t \<and> \<not> cancelled t))"

text \<open>What the result says.\<close>

definition result_fits :: "'a wait_for_run \<Rightarrow> 'a result \<Rightarrow> bool" where
  "result_fits s r \<longleftrightarrow>
    (case r of
       Inr v \<Rightarrow> result (tk (wf_task s)) = Some v \<and> exception (tk (wf_task s)) = None
     | Inl e \<Rightarrow>
         e = TimeoutError \<and> wf_timed_out s \<or> e = CancelledError \<and> wf_cancel_asked s \<and> \<not> wf_timed_out s \<or>
         exception (tk (wf_task s)) = Some e \<and> (e = CancelledError \<longrightarrow> \<not> wf_timed_out s) \<or> e = RuntimeError \<or> e = LogicError)"

definition result_ok :: "'a wait_for_run \<Rightarrow> bool" where
  "result_ok s \<longleftrightarrow> \<not> wf_late s \<and> (\<forall>r. wf_result s = Some r \<longrightarrow> frame (wf_self s) = Gone \<and> result_fits s r)"

definition wf_inv :: "'a wait_for_run \<Rightarrow> bool" where
  "wf_inv s \<longleftrightarrow> self_ok s \<and> awaited_ok s \<and> timer_ok s \<and> result_ok s \<and> waits_ok s"

lemmas wf_inv_defs = wf_inv_def self_ok_def waits_ok_def awaited_ok_def timer_ok_def result_ok_def result_fits_def Let_def

lemma wf_inv_init:
  assumes "wf_start s"
  shows "wf_inv s"
  using assms tasks.invariant_reachable by (auto simp: wf_start_def wait_for_def wf_inv_defs task_new_def)

lemma wf_invI: "self_ok s \<Longrightarrow> awaited_ok s \<Longrightarrow> timer_ok s \<Longrightarrow> result_ok s \<Longrightarrow> waits_ok s \<Longrightarrow> wf_inv s"
  by (simp add: wf_inv_def)

lemma wf_invD: "wf_inv s \<Longrightarrow> self_ok s" "wf_inv s \<Longrightarrow> awaited_ok s" "wf_inv s \<Longrightarrow> timer_ok s" "wf_inv s \<Longrightarrow> result_ok s" "wf_inv s \<Longrightarrow> waits_ok s"
  by (simp_all add: wf_inv_def)

lemma wf_awaited_inv: "wf_inv s \<Longrightarrow> task_inv (wf_task s)"
  by (simp add: wf_inv_def awaited_ok_def Let_def)

lemma result_ok_same:
  assumes "result_ok s" "wf_late s' = wf_late s" "wf_result s' = wf_result s"
    "wf_result s \<noteq> None \<Longrightarrow> frame (wf_self s) = Gone \<Longrightarrow> frame (wf_self s') = Gone \<and> wf_timed_out s' = wf_timed_out s \<and> (wf_cancel_asked s \<longrightarrow> wf_cancel_asked s') \<and>
      result (tk (wf_task s')) = result (tk (wf_task s)) \<and> exception (tk (wf_task s')) = exception (tk (wf_task s))"
  shows "result_ok s'"
proof (cases "wf_result s")
  case None
  then show ?thesis using assms(1-3) by (simp add: result_ok_def)
next
  case (Some r)
  then have "frame (wf_self s) = Gone" "result_fits s r" using assms(1) by (simp_all add: result_ok_def)
  moreover from this have "result_fits s' r" using assms(4) Some by (cases r) (auto simp: result_fits_def)
  ultimately show ?thesis using assms Some by (simp add: result_ok_def)
qed

lemma tick_inv: "wf_inv s \<Longrightarrow> wf_now s \<le> n \<Longrightarrow> wf_inv (s\<lparr>wf_now := n\<rparr>)"
proof (rule wf_invI)
  assume "wf_inv s" "wf_now s \<le> n"
  then show "timer_ok (s\<lparr>wf_now := n\<rparr>)" using wf_invD(3) [of s] by (cases "wf_begun_at s") (auto simp: timer_ok_def Let_def)
  show "result_ok (s\<lparr>wf_now := n\<rparr>)" using wf_invD(4) [OF \<open>wf_inv s\<close>] by (rule result_ok_same) simp_all
qed (simp_all add: wf_inv_def self_ok_def waits_ok_def awaited_ok_def)

lemma own_start_inv: "wf_inv s \<Longrightarrow> wf_inv (s\<lparr>wf_self := snd (task_start (wf_self s))\<rparr>)"
proof (cases "\<not> started (wf_self s) \<and> has_handle (wf_self s)")
  case True
  assume inv: "wf_inv s"
  from True have e: "snd (task_start (wf_self s)) = (wf_self s)\<lparr>started := True, frame := Queued\<rparr>" by (simp add: task_start_def)
  have f: "frame (wf_self s) = Fresh" using wf_invD(1) [OF inv] True by (simp add: self_ok_def Let_def)
  then have "wf_begun_at s = None" using wf_invD(1) [OF inv] by (auto simp: self_ok_def Let_def)
  with f show ?thesis using inv unfolding e by (auto simp: wf_inv_defs)
next
  case False
  assume "wf_inv s"
  then show ?thesis using False by (auto simp: task_start_def)
qed

lemma body_result:
  assumes "wf_inv s" "body_step (wf_task s) R"
  shows "parked R = parked (wf_task s) \<and> ready (tk R) = ready (tk (wf_task s)) \<or> parked R = None \<and> ready (tk R)"
    "has_handle (tk R) \<longrightarrow> has_handle (tk (wf_task s))" "parked R \<noteq> None \<longrightarrow> has_handle (tk R) \<and> parked R = parked (wf_task s)"
proof -
  have t: "task_inv (wf_task s)" "task_inv R"
    using wf_awaited_inv [OF assms(1)] task_step_inv [OF body_task [OF assms(2)]] by simp_all
  have r: "has_handle (tk (wf_task s)) \<longrightarrow> \<not> ready (tk (wf_task s))" "has_handle (tk R) \<longrightarrow> \<not> ready (tk R)"
    "parked (wf_task s) \<noteq> None \<longrightarrow> has_handle (tk (wf_task s))"
    using t wf_invD(2) [OF assms(1)] by (simp_all add: task_inv_def handle_ok_def awaited_ok_def Let_def)
  note k = body_keeps [OF assms(2) t(1)] and a = body_awaited [OF assms(2) t(1)]
  show "parked R = parked (wf_task s) \<and> ready (tk R) = ready (tk (wf_task s)) \<or> parked R = None \<and> ready (tk R)"
    using k a r by fastforce
  show "has_handle (tk R) \<longrightarrow> has_handle (tk (wf_task s))" using k by blast
  show "parked R \<noteq> None \<longrightarrow> has_handle (tk R) \<and> parked R = parked (wf_task s)" using k a r by metis
qed

lemma body_inv:
  assumes inv: "wf_inv s" and st: "body_step (wf_task s) R"
  shows "wf_inv (wf_body R s)"
proof -
  note t = wf_awaited_inv [OF inv] and b = body_result [OF assms]
  have R: "task_inv R" by (rule task_step_inv [OF body_task [OF st] t])
  have g: "frame (wf_self (wf_body R s)) = Gone \<longleftrightarrow> frame (wf_self s) = Gone" by (simp add: wf_body_def)
  show ?thesis
  proof (rule wf_invI)
    show "self_ok (wf_body R s)" using wf_invD(1) [OF inv] by (auto simp: self_ok_def Let_def wf_body_def)
    show "waits_ok (wf_body R s)" using wf_invD(5) [OF inv] b(1)
      by (cases "parked (wf_task s)") (auto simp: waits_ok_def wf_body_def)
    show "awaited_ok (wf_body R s)" using wf_invD(2) [OF inv] b R g by (auto simp: awaited_ok_def Let_def wf_body_def)
    show "timer_ok (wf_body R s)" using wf_invD(3) [OF inv] g
      by (cases "wf_begun_at s") (simp_all add: timer_ok_def Let_def wf_body_def)
    have "\<not> has_handle (tk (wf_task s))" if "frame (wf_self s) = Gone" using that wf_invD(2) [OF inv] by (simp add: awaited_ok_def Let_def)
    then show "result_ok (wf_body R s)" using body_keeps [OF st t] g
      by (intro result_ok_same [OF wf_invD(4) [OF inv]]) (auto simp: wf_body_def)
  qed
qed

text \<open>A step of the timer that leaves its flags as they have to be.\<close>

lemma timer_frame_inv:
  assumes "wf_inv s" "timer_ok (s\<lparr>wf_timer := t, wf_due := d\<rparr>)"
  shows "wf_inv (s\<lparr>wf_timer := t, wf_due := d\<rparr>)"
proof (rule wf_invI)
  show "result_ok (s\<lparr>wf_timer := t, wf_due := d\<rparr>)" using wf_invD(4) [OF assms(1)] by (rule result_ok_same) simp_all
qed (use assms in \<open>simp_all add: wf_inv_def self_ok_def waits_ok_def awaited_ok_def\<close>)

lemma timer_due_inv:
  assumes "wf_inv s" "frame (wf_timer s) = Waiting" "wf_due s = Some t" "t \<le> wf_now s"
  shows "wf_inv (s\<lparr>wf_timer := (wf_timer s)\<lparr>frame := Queued\<rparr>, wf_due := None\<rparr>)"
  using assms(1)
proof (rule timer_frame_inv)
  show "timer_ok (s\<lparr>wf_timer := (wf_timer s)\<lparr>frame := Queued\<rparr>, wf_due := None\<rparr>)"
    using wf_invD(3) [OF assms(1)] assms(2-4)
    by (cases "wf_begun_at s") (auto simp: timer_ok_def Let_def task_new_def split: if_splits)
qed

lemma timer_reap_inv:
  assumes "wf_inv s" "frame (wf_timer s) = Doomed"
  shows "wf_inv (s\<lparr>wf_timer := (wf_timer s)\<lparr>frame := Gone\<rparr>\<rparr>)"
proof -
  have "timer_ok (s\<lparr>wf_timer := (wf_timer s)\<lparr>frame := Gone\<rparr>, wf_due := wf_due s\<rparr>)"
    using wf_invD(3) [OF assms(1)] assms(2)
    by (cases "wf_begun_at s") (auto simp: timer_ok_def Let_def task_new_def split: if_splits)
  from timer_frame_inv [OF assms(1) this] show ?thesis by simp
qed

text \<open>The timer fires only while \<open>wait_for\<close> is alive, for otherwise it has been cancelled.\<close>

lemma cancel_awaited:
  assumes "task_cancel d (tk R) = (as, u)" "task_inv R"
  shows "parked R \<noteq> None \<longrightarrow> has_handle (tk R) \<longrightarrow> has_handle u" "has_handle u \<longrightarrow> has_handle (tk R)" "ready (tk R) \<longrightarrow> u = tk R"
proof -
  have "parked R \<noteq> None \<longrightarrow> started (tk R)" using assms(2) by (auto simp: task_inv_def awaiter_ok_def)
  then show "parked R \<noteq> None \<longrightarrow> has_handle (tk R) \<longrightarrow> has_handle u"
    using assms(1) by (auto simp: task_cancel_def Let_def split: if_splits)
  show "has_handle u \<longrightarrow> has_handle (tk R)" "ready (tk R) \<longrightarrow> u = tk R"
    using assms(1) by (auto simp: task_cancel_def Let_def release_handle_def store_result_def split: if_splits option.splits)
qed

lemma timer_end_state: "frame (timer_end t) = Gone" "pr_attached t \<Longrightarrow> \<not> has_handle (timer_end t)"
  "pending_io (timer_end t) = pending_io t" "defer_cancel (timer_end t) = defer_cancel t" "started (timer_end t) = started t"
  by (auto simp: timer_end_def release_handle_def store_result_void_def Let_def split: option.split)

lemma fire_inv:
  assumes inv: "wf_inv s" and f: "frame (wf_timer s) = Queued" "suspended (wf_timer s)" "\<not> cancelled (wf_timer s)"
    and t: "t = (wf_timer s)\<lparr>suspended := False, pending_io := False, defer_cancel := False, frame := Running\<rparr>"
  shows "wf_inv (timer_fire d t (s\<lparr>wf_due := None\<rparr>))"
proof -
  obtain b where b: "wf_begun_at s = Some b" using wf_invD(3) [OF inv] f(1)
    by (cases "wf_begun_at s") (auto simp: timer_ok_def task_new_def)
  have T: "b \<le> wf_now s" "started (wf_timer s)" "b + wf_timeout_ms s * 1000000 \<le> wf_now s" "frame (wf_self s) \<noteq> Gone" "pr_attached (wf_timer s)"
    using wf_invD(3) [OF inv] f by (auto simp: timer_ok_def Let_def b split: if_splits)
  obtain as u where u: "task_cancel d (tk (wf_task s)) = (as, u)" by force
  note c = cancel_awaited [OF u wf_awaited_inv [OF inv]] and R = task_cancel_inv [OF u wf_awaited_inv [OF inv]]
  have e: "timer_fire d t (s\<lparr>wf_due := None\<rparr>) = s\<lparr>wf_due := None, wf_timed_out := True,
      wf_task := (wf_task s)\<lparr>tk := u, asked := asked (wf_task s) \<or> asks as\<rparr>, wf_timer := timer_end t, wf_late := wf_late s\<rparr>"
    using T(4) by (simp add: timer_fire_def u)
  show ?thesis unfolding e
  proof (rule wf_invI, goal_cases)
    case 1 show ?case using wf_invD(1) [OF inv] by (simp add: self_ok_def)
  next
    case 2 show ?case using wf_invD(2) [OF inv] c R by (auto simp: awaited_ok_def Let_def)
  next
    case 3 show ?case using T t by (simp add: timer_ok_def b timer_end_state)
  next
    case 4 show ?case using wf_invD(4) [OF inv] T(4) by (auto simp: result_ok_def)
  next
    case 5 show ?case using wf_invD(5) [OF inv] c(3) by (auto simp: waits_ok_def split: if_splits)
  qed
qed

lemma timer_resume_inv:
  assumes inv: "wf_inv s" and f: "frame (wf_timer s) = Queued" "suspended (wf_timer s) \<or> cancelled (wf_timer s)"
  shows "wf_inv (timer_resume d s)"
proof (cases "cancelled (wf_timer s)")
  case True
  let ?t = "(wf_timer s)\<lparr>suspended := False, pending_io := False, defer_cancel := False, frame := Running, cancelled := False\<rparr>"
  have e: "timer_resume d s = s\<lparr>wf_timer := timer_end (unhandled_exception CancelledError ?t), wf_due := None\<rparr>"
    using True by (simp add: timer_resume_def wrap_resume_def Let_def)
  obtain b where b: "wf_begun_at s = Some b" using wf_invD(3) [OF inv] f(1)
    by (cases "wf_begun_at s") (auto simp: timer_ok_def task_new_def)
  have "timer_ok (s\<lparr>wf_timer := timer_end (unhandled_exception CancelledError ?t), wf_due := None\<rparr>)"
    using wf_invD(3) [OF inv] f True by (auto simp: timer_ok_def Let_def b timer_end_state unhandled_exception_def split: if_splits)
  then show ?thesis unfolding e by (rule timer_frame_inv [OF inv])
next
  case False
  then have "timer_resume d s = timer_fire d ((wf_timer s)\<lparr>suspended := False, pending_io := False, defer_cancel := False, frame := Running\<rparr>) (s\<lparr>wf_due := None\<rparr>)"
    by (simp add: timer_resume_def wrap_resume_def Let_def)
  then show ?thesis using fire_inv [OF inv f(1) _ False refl] f False by simp
qed

lemma timer_begin_inv:
  assumes inv: "wf_inv s" and f: "frame (wf_timer s) = Queued" "\<not> suspended (wf_timer s)"
  shows "wf_inv (timer_begin d s)"
proof (cases "cancelled (wf_timer s)")
  case True
  then have "timer_begin d s = timer_resume d s"
    by (simp add: timer_begin_def timer_resume_def wrap_ready_def wrap_resume_def Let_def)
  then show ?thesis using timer_resume_inv [OF inv f(1)] True by simp
next
  case False
  let ?t = "wrap_suspend Await_Plain ((wf_timer s)\<lparr>frame := Running\<rparr>)"
  let ?d = "Some (sleep (wf_now s) (wf_timeout_ms s * 1000000))"
  have e: "timer_begin d s = s\<lparr>wf_timer := ?t, wf_due := ?d\<rparr>" using False by (simp add: timer_begin_def wrap_ready_def Let_def)
  have "timer_ok (s\<lparr>wf_timer := ?t, wf_due := ?d\<rparr>)" using wf_invD(3) [OF inv] f False
    by (cases "wf_begun_at s") (auto simp: timer_ok_def Let_def task_new_def wrap_suspend_def sleep_def split: if_splits)
  then show ?thesis unfolding e by (rule timer_frame_inv [OF inv])
qed

text \<open>The end of the body.\<close>

definition result_due :: "'a wait_for_run \<Rightarrow> 'a result \<Rightarrow> bool" where
  "result_due s r \<longleftrightarrow>
    (case r of
       Inr v \<Rightarrow> result (tk (wf_task s)) = Some v \<and> exception (tk (wf_task s)) = None
     | Inl e \<Rightarrow> e = CancelledError \<and> wf_cancel_asked s \<or> exception (tk (wf_task s)) = Some e \<or> e = RuntimeError \<or> e = LogicError)"

definition ending :: "'a wait_for_run \<Rightarrow> bool" where
  "ending s \<longleftrightarrow>
    frame (wf_self s) = Running \<and> pr_attached (wf_self s) \<and> \<not> pending_io (wf_self s) \<and> \<not> defer_cancel (wf_self s) \<and>
    (cancelled (wf_self s) \<longrightarrow> wf_cancel_asked s) \<and> wf_begun_at s \<noteq> None \<and> timer_ok s \<and> \<not> wf_late s \<and>
    task_inv (wf_task s) \<and> frame (tk (wf_task s)) \<noteq> Running \<and> (parked (wf_task s) = None \<or> parked (wf_task s) = Some (wf_me s))"

lemma final_suspend_state:
  "pr_attached t \<Longrightarrow> \<not> has_handle (snd (final_suspend t)) \<and> frame (snd (final_suspend t)) = Gone \<and> pr_attached (snd (final_suspend t)) \<and>
   pending_io (snd (final_suspend t)) = pending_io t \<and> defer_cancel (snd (final_suspend t)) = defer_cancel t \<and>
   cancelled (snd (final_suspend t)) = cancelled t"
  by (auto simp: final_suspend_def release_handle_def store_result_def Let_def split: option.split)

lemma timer_stopped:
  assumes "timer_ok s" "frame (wf_self s) \<noteq> Gone" "wf_begun_at s = Some b" "frame x = Gone"
  shows "timer_ok (s\<lparr>wf_timer := task_detach (snd (task_cancel False (wf_timer s))), wf_self := x, wf_result := r, wf_task := R\<rparr>)"
    "timer_ok (s\<lparr>wf_timer := snd (task_destroy (wf_timer s)), wf_due := None, wf_self := x, wf_result := r, wf_task := R\<rparr>)"
proof -
  have t: "b \<le> wf_now s" "\<not> pending_io (wf_timer s)" "\<not> defer_cancel (wf_timer s)" "started (wf_timer s)"
    "frame (wf_timer s) = Waiting \<longrightarrow> suspended (wf_timer s)" "wf_timed_out s \<longrightarrow> b + wf_timeout_ms s * 1000000 \<le> wf_now s"
    using assms(1,3) by (simp_all add: timer_ok_def Let_def)
  have c: "if wf_timed_out s then frame (wf_timer s) = Gone \<and> \<not> has_handle (wf_timer s)
    else (frame (wf_timer s) = Queued \<or> frame (wf_timer s) = Waiting) \<and> has_handle (wf_timer s) \<and> \<not> ready (wf_timer s)"
    using assms(1-3) by (simp add: timer_ok_def Let_def split: if_splits)
  show "timer_ok (s\<lparr>wf_timer := task_detach (snd (task_cancel False (wf_timer s))), wf_self := x, wf_result := r, wf_task := R\<rparr>)"
    using t c assms(3,4) by (auto simp: timer_ok_def Let_def task_detach_def task_cancel_def split: if_splits)
  show "timer_ok (s\<lparr>wf_timer := snd (task_destroy (wf_timer s)), wf_due := None, wf_self := x, wf_result := r, wf_task := R\<rparr>)"
    using t c assms(3,4) by (auto simp: timer_ok_def Let_def task_destroy_def split: if_splits)
qed

lemma wf_finish_inv:
  assumes "ending s" "result_due s r"
  shows "wf_inv (wf_finish r s)"
proof -
  note e = assms(1) [unfolded ending_def]
  define q where "q = (if r = Inl CancelledError \<and> wf_timed_out s then Inl TimeoutError else r)"
  define x where "x = snd (final_suspend (case q of Inr v \<Rightarrow> return_value v (wf_self s) | Inl e \<Rightarrow> unhandled_exception e (wf_self s)))"
  define R where "R = drop_task (wf_me s) (wf_task s)"
  obtain b where b: "wf_begun_at s = Some b" using e by blast
  have x: "\<not> has_handle x" "frame x = Gone" "pr_attached x" "\<not> pending_io x" "\<not> defer_cancel x" "cancelled x = cancelled (wf_self s)"
    using e final_suspend_state [of "case q of Inr v \<Rightarrow> return_value v (wf_self s) | Inl e \<Rightarrow> unhandled_exception e (wf_self s)"]
    by (auto simp: x_def return_value_def unhandled_exception_def split: sum.splits)
  have R: "task_inv R" "\<not> has_handle (tk R)" "parked R = None" "result (tk R) = result (tk (wf_task s))" "exception (tk R) = exception (tk (wf_task s))"
    using drop_task_inv [of "wf_task s" "wf_me s"] e by (simp_all add: R_def)
  let ?T = "case r of Inr _ \<Rightarrow> s\<lparr>wf_timer := task_detach (snd (task_cancel False (wf_timer s)))\<rparr> | Inl _ \<Rightarrow> drop_timer s"
  have u: "wf_finish r s = ?T\<lparr>wf_self := x, wf_result := Some q, wf_task := R\<rparr>"
    by (cases r) (simp_all add: wf_finish_def Let_def x_def R_def q_def drop_timer_def)
  have T: "timer_ok (wf_finish r s)" unfolding u
    using timer_stopped [OF _ _ b x(2), where r = "Some q" and R = R] e by (cases r) (auto simp: drop_timer_def)
  have fits: "result_fits (wf_finish r s) q" using assms(2) R unfolding u
    by (cases r) (auto simp: result_fits_def result_due_def q_def drop_timer_def)
  show ?thesis using x R T fits e unfolding u
    by (cases r) (auto intro!: wf_invI simp: self_ok_def awaited_ok_def result_ok_def waits_ok_def drop_timer_def b)
qed

text \<open>The body of \<open>wait_for\<close> is resumed; it may also not have been suspended.\<close>

lemma take_result_cases:
  obtains (failed) e where "take_result t = (Inl e, t)" "exception t = Some e \<or> e = LogicError"
  | (gives) v where "take_result t = (Inr v, t\<lparr>result_consumed := True\<rparr>)" "result t = Some v" "exception t = None"
  by (cases "exception t"; cases "result_consumed t"; cases "result t") (auto simp: take_result_def)

lemma await_resume_inv:
  assumes "pr_attached (wf_self s)" "cancelled (wf_self s) \<longrightarrow> wf_cancel_asked s" "wf_begun_at s \<noteq> None" "timer_ok s"
    "frame (wf_self s) \<noteq> Gone" "\<not> wf_late s" "task_inv (wf_task s)" "frame (tk (wf_task s)) \<noteq> Running"
    "parked (wf_task s) = None \<or> parked (wf_task s) = Some (wf_me s)"
  shows "wf_inv (wf_await_resume s)"
proof -
  let ?x = "(wf_self s)\<lparr>suspended := False, pending_io := False, defer_cancel := False, frame := Running\<rparr>"
  have timer: "timer_ok (s\<lparr>wf_self := x, wf_task := R\<rparr>)" if "frame x = Running" for x R
    using assms(3-5) that by (cases "wf_begun_at s") (simp_all add: timer_ok_def Let_def)
  show ?thesis
  proof (cases "cancelled (wf_self s)")
    case True
    then have "wf_await_resume s = wf_finish (Inl CancelledError) (s\<lparr>wf_self := ?x\<lparr>cancelled := False\<rparr>, wf_task := wf_task s\<rparr>)"
      by (simp add: wf_await_resume_def wrap_resume_def Let_def)
    moreover have "ending (s\<lparr>wf_self := ?x\<lparr>cancelled := False\<rparr>, wf_task := wf_task s\<rparr>)"
      using assms timer [of "?x\<lparr>cancelled := False\<rparr>" "wf_task s"] by (simp add: ending_def)
    ultimately show ?thesis using assms(2) True by (auto intro!: wf_finish_inv simp: result_due_def)
  next
    case False
    let ?R = "(wf_task s)\<lparr>tk := snd (take_result (tk (wf_task s)))\<rparr>"
    have e: "wf_await_resume s = wf_finish (fst (take_result (tk (wf_task s)))) (s\<lparr>wf_self := ?x, wf_task := ?R\<rparr>)"
      using False by (simp add: wf_await_resume_def wrap_resume_def Let_def)
    have "ending (s\<lparr>wf_self := ?x, wf_task := ?R\<rparr>) \<and> result_due (s\<lparr>wf_self := ?x, wf_task := ?R\<rparr>) (fst (take_result (tk (wf_task s))))"
      using assms timer [of ?x ?R] False
      by (cases "tk (wf_task s)" rule: take_result_cases) (auto simp: ending_def result_due_def result_consumed_inv)
    then show ?thesis unfolding e by (intro wf_finish_inv) simp_all
  qed
qed

lemma resumed_inv:
  assumes "wf_inv s" "frame (tk (wf_task s)) \<noteq> Running" "frame (wf_self s) = Queued" "suspended (wf_self s)"
  shows "wf_inv (wf_await_resume s)"
proof (rule await_resume_inv)
  show "wf_begun_at s \<noteq> None" using wf_invD(1) [OF assms(1)] assms(3,4) by (auto simp: self_ok_def Let_def)
qed (use wf_invD [OF assms(1)] assms in \<open>auto simp: self_ok_def awaited_ok_def result_ok_def Let_def\<close>)

lemma begin_inv:
  assumes inv: "wf_inv s" and f: "frame (tk (wf_task s)) \<noteq> Running" "frame (wf_self s) = Queued" "\<not> suspended (wf_self s)"
  shows "wf_inv (wf_begin s)"
proof -
  define s1 where "s1 = s\<lparr>wf_self := (wf_self s)\<lparr>frame := Running\<rparr>, wf_timer := snd (task_start task_new), wf_begun_at := Some (wf_now s)\<rparr>"
  have n: "wf_begun_at s = None" using wf_invD(1) [OF inv] f by (auto simp: self_ok_def Let_def)
  have c: "\<not> wf_timed_out s" "wf_result s = None" using wf_invD(3) [OF inv] by (simp_all add: timer_ok_def Let_def n)
  have p: "parked (wf_task s) = None" using wf_invD(2) [OF inv] n by (auto simp: awaited_ok_def Let_def)
  have self: "pr_attached (wf_self s)" "\<not> pending_io (wf_self s)" "\<not> defer_cancel (wf_self s)" "has_handle (wf_self s)" "started (wf_self s)"
    "\<not> ready (wf_self s)" "cancelled (wf_self s) \<longrightarrow> wf_cancel_asked s"
    using wf_invD(1) [OF inv] f by (simp_all add: self_ok_def Let_def)
  have timer: "timer_ok (s1\<lparr>wf_self := x, wf_task := R\<rparr>)" if "frame x \<noteq> Gone" for x R
    using that c by (simp add: timer_ok_def s1_def task_start_def task_new_def)
  have late: "\<not> wf_late s" using wf_invD(4) [OF inv] by (simp add: result_ok_def)
  note t = wf_awaited_inv [OF inv]
  consider (now) "wrap_ready (task_await_ready (tk (wf_task s))) (wf_self s1)"
    | (error) e where "\<not> wrap_ready (task_await_ready (tk (wf_task s))) (wf_self s1)" "task_await_suspend (wf_me s) (wf_loop s) (tk (wf_task s)) = Inl e"
    | (waits) as u where "\<not> wrap_ready (task_await_ready (tk (wf_task s))) (wf_self s1)" "task_await_suspend (wf_me s) (wf_loop s) (tk (wf_task s)) = Inr (as, u)"
    by (cases "task_await_suspend (wf_me s) (wf_loop s) (tk (wf_task s))") auto
  then show ?thesis
  proof cases
    case now
    then have e: "wf_begin s = wf_await_resume s1" by (simp add: wf_begin_def s1_def Let_def)
    have "timer_ok s1" using c by (simp add: timer_ok_def s1_def task_start_def task_new_def)
    then show ?thesis unfolding e using self late t f p by (intro await_resume_inv) (simp_all add: s1_def)
  next
    case error
    let ?x = "wrap_threw (wrap_suspend Await_Plain (wf_self s1))"
    have e: "wf_begin s = wf_finish (Inl e) (s1\<lparr>wf_self := ?x, wf_task := wf_task s\<rparr>)"
      using error by (simp add: wf_begin_def s1_def Let_def)
    have "e = RuntimeError \<or> e = LogicError" using error(2) by (auto simp: task_await_suspend_def Let_def split: if_splits)
    then show ?thesis unfolding e using timer [of ?x "wf_task s"] self late t f p
      by (intro wf_finish_inv) (auto simp: ending_def result_due_def s1_def wrap_threw_def wrap_suspend_def)
  next
    case waits
    let ?x = "wrap_suspend Await_Plain (wf_self s1)" and ?R = "(wf_task s)\<lparr>tk := u, parked := Some (wf_me s)\<rparr>"
    have e: "wf_begin s = s1\<lparr>wf_self := ?x, wf_task := ?R\<rparr>" using waits by (simp add: wf_begin_def s1_def Let_def)
    have "task_inv ?R" using waits t by (intro task_step_inv [OF tr_await]) (auto simp: wrap_ready_def split: if_splits)
    moreover have "has_handle u" using await_suspend_state [OF waits(2)] by simp
    moreover have "\<not> cancelled (wf_self s)" using waits(1) by (simp add: wrap_ready_def s1_def split: if_splits)
    ultimately show ?thesis unfolding e using timer [of ?x ?R] self late c
      by (intro wf_invI) (simp_all add: self_ok_def awaited_ok_def result_ok_def waits_ok_def s1_def wrap_suspend_def)
  qed
qed

text \<open>What the owner of \<open>wait_for\<close> does.\<close>

lemma asked_inv: "wf_inv s \<Longrightarrow> wf_inv (s\<lparr>wf_cancel_asked := True\<rparr>)"
proof (rule wf_invI)
  assume "wf_inv s"
  then show "result_ok (s\<lparr>wf_cancel_asked := True\<rparr>)" by (intro result_ok_same [OF wf_invD(4)]) simp_all
  show "self_ok (s\<lparr>wf_cancel_asked := True\<rparr>)" using wf_invD(1) [OF \<open>wf_inv s\<close>] by (auto simp: self_ok_def Let_def)
  show "timer_ok (s\<lparr>wf_cancel_asked := True\<rparr>)" using wf_invD(3) [OF \<open>wf_inv s\<close>] by (cases "wf_begun_at s") (auto simp: timer_ok_def Let_def)
qed (simp_all add: wf_inv_def waits_ok_def awaited_ok_def)

lemma unwind_inv:
  assumes inv: "wf_inv s" and f: "frame (wf_self s) \<noteq> Gone" "frame (tk (wf_task s)) \<noteq> Running"
    and x: "frame x = Gone" "\<not> has_handle x" "pr_attached x" "\<not> pending_io x" "\<not> defer_cancel x" "cancelled x \<longrightarrow> wf_cancel_asked s"
  shows "wf_inv (wf_set_self x s)"
proof -
  define R where "R = drop_task (wf_me s) (wf_task s)"
  have R: "task_inv R" "\<not> has_handle (tk R)" "parked R = None"
    using drop_task_inv [of "wf_task s" "wf_me s"] wf_invD(2) [OF inv] f(2) by (simp_all add: R_def awaited_ok_def Let_def)
  have r: "wf_result s = None" "\<not> wf_late s" using wf_invD(4) [OF inv] f(1) by (auto simp: result_ok_def)
  show ?thesis
  proof (cases "wf_begun_at s")
    case None
    then have e: "wf_set_self x s = s\<lparr>wf_self := x, wf_task := R\<rparr>" using f x by (simp add: wf_set_self_def wf_unwind_def R_def)
    show ?thesis unfolding e using R r x wf_invD(3) [OF inv]
      by (intro wf_invI) (simp_all add: self_ok_def awaited_ok_def timer_ok_def result_ok_def waits_ok_def None)
  next
    case (Some b)
    then have e: "wf_set_self x s = s\<lparr>wf_timer := snd (task_destroy (wf_timer s)), wf_due := None, wf_self := x, wf_result := wf_result s, wf_task := R\<rparr>"
      using f x by (simp add: wf_set_self_def wf_unwind_def R_def drop_timer_def Let_def)
    have "timer_ok (wf_set_self x s)" unfolding e using wf_invD(3) [OF inv] f(1) Some x(1) by (rule timer_stopped)
    then show ?thesis using R r x
      by (intro wf_invI) (simp_all add: e self_ok_def awaited_ok_def result_ok_def waits_ok_def Some)
  qed
qed

text \<open>A change of the frame of \<open>wait_for\<close> that leaves it alive.\<close>

lemma self_frame_inv:
  assumes inv: "wf_inv s" and f: "frame (wf_self s) \<noteq> Gone" "frame x \<noteq> Gone" "frame x \<noteq> Waiting"
    and x: "self_ok (s\<lparr>wf_self := x\<rparr>)" "waits_ok (s\<lparr>wf_self := x\<rparr>)"
  shows "wf_inv (wf_set_self x s)"
proof -
  have e: "wf_set_self x s = s\<lparr>wf_self := x\<rparr>" using f by (simp add: wf_set_self_def)
  have "timer_ok (s\<lparr>wf_self := x\<rparr>)" using wf_invD(3) [OF inv] f by (cases "wf_begun_at s") (simp_all add: timer_ok_def Let_def)
  moreover have "result_ok (s\<lparr>wf_self := x\<rparr>)" using wf_invD(4) [OF inv] f(1) by (auto simp: result_ok_def)
  moreover have "awaited_ok (s\<lparr>wf_self := x\<rparr>)" using wf_invD(2) [OF inv] f by (auto simp: awaited_ok_def Let_def)
  ultimately show ?thesis unfolding e using x by (intro wf_invI)
qed

lemma own_cancel_inv:
  assumes "wf_inv s" "frame (tk (wf_task s)) \<noteq> Running \<or> started (wf_self s)" "wf_cancel_asked s"
  shows "wf_inv (wf_set_self (snd (task_cancel False (wf_self s))) s)"
proof -
  let ?t = "wf_self s"
  have self: "pr_attached ?t" "\<not> pending_io ?t" "\<not> defer_cancel ?t" "frame ?t \<noteq> Running" "has_handle ?t \<longrightarrow> frame ?t \<noteq> Doomed \<and> frame ?t \<noteq> Gone"
    "frame ?t = Fresh \<longleftrightarrow> has_handle ?t \<and> \<not> started ?t" using wf_invD(1) [OF assms(1)] by (simp_all add: self_ok_def Let_def)
  consider (none) "\<not> (has_handle ?t \<and> \<not> ready ?t)" | (fresh) "has_handle ?t" "\<not> ready ?t" "\<not> started ?t"
    | (asleep) "has_handle ?t" "\<not> ready ?t" "started ?t" "suspended ?t" | (queued) "has_handle ?t" "\<not> ready ?t" "started ?t" "\<not> suspended ?t" by blast
  then show ?thesis
  proof cases
    case none
    then have "snd (task_cancel False ?t) = ?t" by (auto simp: task_cancel_def)
    then show ?thesis using assms(1) by (simp add: wf_set_self_def)
  next
    case fresh
    then have "frame (snd (task_cancel False ?t)) = Gone" "\<not> has_handle (snd (task_cancel False ?t))" "pr_attached (snd (task_cancel False ?t))"
      "\<not> pending_io (snd (task_cancel False ?t))" "\<not> defer_cancel (snd (task_cancel False ?t))"
      using self by (auto simp: task_cancel_def release_handle_def store_result_def Let_def split: option.split)
    then show ?thesis using assms self fresh by (intro unwind_inv) auto
  next
    case asleep
    then have e: "snd (task_cancel False ?t) = ?t\<lparr>cancelled := True, frame := Queued\<rparr>" using self by (simp add: task_cancel_def)
    have "self_ok (s\<lparr>wf_self := ?t\<lparr>cancelled := True, frame := Queued\<rparr>\<rparr>)" "waits_ok (s\<lparr>wf_self := ?t\<lparr>cancelled := True, frame := Queued\<rparr>\<rparr>)"
      using wf_invD(1,5) [OF assms(1)] asleep self assms(3) by (cases "frame ?t"; auto simp: self_ok_def waits_ok_def Let_def)+
    then show ?thesis unfolding e using asleep self by (intro self_frame_inv [OF assms(1)]) simp_all
  next
    case queued
    then have e: "snd (task_cancel False ?t) = ?t\<lparr>cancelled := True\<rparr>" using self by (simp add: task_cancel_def)
    have "frame ?t \<noteq> Waiting" using wf_invD(1,3) [OF assms(1)] queued by (cases "wf_begun_at s") (auto simp: self_ok_def timer_ok_def Let_def)
    moreover have "self_ok (s\<lparr>wf_self := ?t\<lparr>cancelled := True\<rparr>\<rparr>)" "waits_ok (s\<lparr>wf_self := ?t\<lparr>cancelled := True\<rparr>\<rparr>)"
      using wf_invD(1,5) [OF assms(1)] queued assms(3) calculation by (simp_all add: self_ok_def waits_ok_def Let_def)
    ultimately show ?thesis unfolding e using queued self by (intro self_frame_inv [OF assms(1)]) simp_all
  qed
qed

lemma own_destroy_inv:
  assumes "wf_inv s" "frame (tk (wf_task s)) \<noteq> Running"
  shows "wf_inv (wf_set_self (snd (task_destroy (wf_self s))) s)"
proof -
  let ?t = "wf_self s"
  have self: "pr_attached ?t" "\<not> pending_io ?t" "\<not> defer_cancel ?t" "has_handle ?t \<longrightarrow> frame ?t \<noteq> Doomed \<and> frame ?t \<noteq> Gone"
    "cancelled ?t \<longrightarrow> wf_cancel_asked s" using wf_invD(1) [OF assms(1)] by (simp_all add: self_ok_def Let_def)
  consider (none) "\<not> has_handle ?t" | (queued) "has_handle ?t" "started ?t" "\<not> ready ?t" "frame ?t = Queued"
    | (gone) "has_handle ?t" "\<not> (started ?t \<and> \<not> ready ?t \<and> frame ?t = Queued)" by blast
  then show ?thesis
  proof cases
    case none
    then show ?thesis using assms(1) by (simp add: task_destroy_def wf_set_self_def)
  next
    case queued
    then have e: "snd (task_destroy ?t) = ?t\<lparr>has_handle := False, frame := Doomed\<rparr>" using self by (simp add: task_destroy_def)
    have "self_ok (s\<lparr>wf_self := ?t\<lparr>has_handle := False, frame := Doomed\<rparr>\<rparr>)"
      using wf_invD(1) [OF assms(1)] queued by (simp add: self_ok_def Let_def)
    then show ?thesis unfolding e using queued by (intro self_frame_inv [OF assms(1)]) (simp_all add: waits_ok_def)
  next
    case gone
    then have "snd (task_destroy ?t) = ?t\<lparr>has_handle := False, frame := Gone\<rparr>" using self by (auto simp: task_destroy_def)
    then show ?thesis using assms self gone by (intro unwind_inv) auto
  qed
qed

lemma reap_inv:
  assumes "wf_inv s" "frame (tk (wf_task s)) \<noteq> Running" "frame (wf_self s) = Doomed"
  shows "wf_inv (wf_set_self ((wf_self s)\<lparr>frame := Gone\<rparr>) s)"
  using assms wf_invD(1) [OF assms(1)] by (intro unwind_inv) (auto simp: self_ok_def Let_def)

lemma wf_step_inv: "wf_step s s' \<Longrightarrow> wf_inv s \<Longrightarrow> wf_inv s'"
proof (induction rule: wf_step.induct)
  case (wf_own_cancel s)
  then show ?case using own_cancel_inv [of "s\<lparr>wf_cancel_asked := True\<rparr>"] asked_inv [of s] by simp
qed (simp_all add: tick_inv body_inv own_start_inv own_destroy_inv reap_inv begin_inv resumed_inv timer_begin_inv timer_due_inv
  timer_resume_inv timer_reap_inv)

interpretation timeouts: inductive_invariant wf_start wf_step wf_inv
  by unfold_locales (auto intro: wf_inv_init wf_step_inv)


subsection \<open>Properties\<close>

lemma round_up_ms_bounds: "d \<le> round_up_ms d * 1000000 \<and> round_up_ms d * 1000000 < d + 1000000"
proof -
  have "(- d) div 1000000 * 1000000 + (- d) mod 1000000 = - d" by (rule div_mult_mod_eq)
  moreover have "0 \<le> (- d) mod 1000000" "(- d) mod 1000000 < 1000000" by simp_all
  ultimately show ?thesis unfolding round_up_ms_def by linarith
qed

lemma waiting_state:
  assumes inv: "wf_inv s" and w: "frame (wf_self s) = Waiting"
  shows "parked (wf_task s) = Some (wf_me s)" "has_handle (tk (wf_task s))" "live (tk (wf_task s))"
    "\<not> wf_timed_out s \<longrightarrow> frame (wf_timer s) = Queued \<or> frame (wf_timer s) = Waiting \<and> wf_due s \<noteq> None"
    "frame (wf_timer s) = Queued \<longrightarrow> \<not> cancelled (wf_timer s)"
proof -
  show "parked (wf_task s) = Some (wf_me s)" and h: "has_handle (tk (wf_task s))"
    using wf_invD(2,5) [OF inv] w by (auto simp: waits_ok_def awaited_ok_def Let_def)
  show "live (tk (wf_task s))" using wf_awaited_inv [OF inv] h by (simp add: task_inv_def handle_ok_def)
  show "\<not> wf_timed_out s \<longrightarrow> frame (wf_timer s) = Queued \<or> frame (wf_timer s) = Waiting \<and> wf_due s \<noteq> None"
    "frame (wf_timer s) = Queued \<longrightarrow> \<not> cancelled (wf_timer s)"
    using wf_invD(3) [OF inv] w by (cases "wf_begun_at s"; auto simp: timer_ok_def Let_def split: if_splits)+
qed

lemma fire_cancels:
  assumes inv: "wf_inv s" and w: "frame (wf_self s) = Waiting" "frame (wf_timer s) = Queued"
  shows "let R = wf_task (timer_resume d s)
     in wf_timed_out (timer_resume d s) \<and> cancelled (tk R) \<and> (frame (tk R) = Waiting \<longrightarrow> asked R)"
proof -
  note st = waiting_state [OF inv w(1)]
  obtain as u where u: "task_cancel d (tk (wf_task s)) = (as, u)" by force
  have e: "wf_task (timer_resume d s) = (wf_task s)\<lparr>tk := u, asked := asked (wf_task s) \<or> asks as\<rparr>" "wf_timed_out (timer_resume d s)"
    using u st(5) w(2) by (simp_all add: timer_resume_def wrap_resume_def timer_fire_def Let_def)
  have "\<not> ready (tk (wf_task s))" "started (tk (wf_task s))" "flags_ok (tk (wf_task s))"
    using st wf_awaited_inv [OF inv] by (auto simp: task_inv_def handle_ok_def awaiter_ok_def)
  from task_cancel_started [OF u st(2) this st(3)]
  have "cancelled u \<and> (frame u = Waiting \<longrightarrow> asks as)" by force
  then show ?thesis by (simp add: e Let_def)
qed

lemma result_reported:
  assumes inv: "wf_inv s"
  shows "case wf_result s of
       None \<Rightarrow> True
     | Some (Inr v) \<Rightarrow> result (tk (wf_task s)) = Some v \<and> exception (tk (wf_task s)) = None
     | Some (Inl e) \<Rightarrow>
         e = TimeoutError \<and> (\<exists>b. wf_begun_at s = Some b \<and> b + wf_timeout_ms s * 1000000 \<le> wf_now s) \<or>
         e = CancelledError \<and> wf_cancel_asked s \<and> \<not> wf_timed_out s \<or>
         exception (tk (wf_task s)) = Some e \<and> (e = CancelledError \<longrightarrow> \<not> wf_timed_out s) \<or> e = RuntimeError \<or> e = LogicError"
proof (cases "wf_result s")
  case (Some r)
  then have "result_fits s r" using wf_invD(4) [OF inv] by (simp add: result_ok_def)
  moreover have "wf_timed_out s \<longrightarrow> (\<exists>b. wf_begun_at s = Some b \<and> b + wf_timeout_ms s * 1000000 \<le> wf_now s)"
    using wf_invD(3) [OF inv] by (cases "wf_begun_at s") (simp_all add: timer_ok_def Let_def)
  ultimately show ?thesis using Some by (cases r) (auto simp: result_fits_def)
qed simp


text \<open>A run with a timeout of 5 ms on a task that never ends by itself.\<close>

definition run0 :: "nat wait_for_run" where
  "run0 = wait_for 1 0 0 \<lparr>tk = task_new, parked = None, woken = [], asked = False\<rparr> 5000000"

definition run1 :: "nat wait_for_run" where
  "run1 = timer_begin False (wf_begin (run0\<lparr>wf_self := snd (task_start (wf_self run0))\<rparr>))"

definition run2 :: "nat wait_for_run" where
  "run2 = run1\<lparr>wf_now := 5000000, wf_timer := (wf_timer run1)\<lparr>frame := Queued\<rparr>, wf_due := None\<rparr>"

lemmas run_defs = run0_def run1_def run2_def wait_for_def wf_begin_def timer_begin_def task_new_def task_start_def wrap_ready_def
  wrap_suspend_def task_await_suspend_def task_await_ready_def sleep_def round_up_ms_def Let_def

lemma run2_reachable: "reachable wf_start wf_step run2"
proof -
  let ?a = "run0\<lparr>wf_self := snd (task_start (wf_self run0))\<rparr>"
  have "reachable task_begin task_step (\<lparr>tk = task_new, parked = None, woken = [], asked = False\<rparr> :: nat task_run)"
    by (rule reachable.reachable_init) (simp add: task_begin_def)
  then have "reachable wf_start wf_step run0"
    unfolding run0_def by (intro reachable.reachable_init, unfold wf_start_def, intro exI conjI) (rule refl, assumption, simp)
  then have "reachable wf_start wf_step ?a" by (rule reachable.reachable_step) (rule wf_own_start)
  then have "reachable wf_start wf_step (wf_begin ?a)" by (rule reachable.reachable_step) (rule wf_first; simp add: run_defs)
  then have "reachable wf_start wf_step run1"
    unfolding run1_def by (rule reachable.reachable_step) (rule wf_timer_first; simp add: run_defs)
  then have 1: "reachable wf_start wf_step (run1\<lparr>wf_now := 5000000\<rparr>)"
    by (rule reachable.reachable_step) (rule wf_tick; simp add: run_defs)
  have "wf_step (run1\<lparr>wf_now := 5000000\<rparr>) run2"
    using wf_timer_due [of "run1\<lparr>wf_now := 5000000\<rparr>" 5000000] by (simp add: run_defs)
  with 1 show ?thesis by (rule reachable.reachable_step)
qed


text \<open>A cancellation by the owner that comes between the deadline and the resumption of the timer is
  reported as a timeout, although the comment in \<open>wait_for\<close> asks that it stays a \<open>CancelledError\<close>.\<close>

lemma cancel_reported_as_timeout:
  "\<exists>s s' :: nat wait_for_run. reachable wf_start wf_step s \<and> frame (wf_self s) = Queued \<and> cancelled (wf_self s) \<and> \<not> wf_timed_out s \<and>
     wf_step\<^sup>*\<^sup>* s s' \<and> wf_result s' = Some (Inl TimeoutError)"
proof -
  define s where "s = wf_set_self (snd (task_cancel False (wf_self run2))) (run2\<lparr>wf_cancel_asked := True\<rparr>)"
  have "reachable wf_start wf_step s" unfolding s_def
    by (rule reachable.reachable_step [OF run2_reachable]) (rule wf_own_cancel; simp add: run_defs)
  moreover have q: "frame (wf_self s) = Queued" "cancelled (wf_self s)" "\<not> wf_timed_out s"
    by (simp_all add: s_def wf_set_self_def task_cancel_def run_defs)
  moreover have "wf_step s (timer_resume False s)"
    by (rule wf_timer_resumed) (simp_all add: s_def wf_set_self_def task_cancel_def run_defs)
  moreover have "wf_step (timer_resume False s) (wf_await_resume (timer_resume False s))"
    by (rule wf_resumed) (simp_all add: s_def wf_set_self_def task_cancel_def timer_resume_def timer_fire_def wrap_resume_def run_defs)
  moreover have "wf_result (wf_await_resume (timer_resume False s)) = Some (Inl TimeoutError)"
    by (simp add: s_def wf_set_self_def task_cancel_def timer_resume_def timer_fire_def wrap_resume_def wf_await_resume_def wf_finish_def
        drop_timer_def run_defs)
  ultimately show ?thesis
    by (intro exI [of _ s] exI [of _ "wf_await_resume (timer_resume False s)"] conjI) (simp_all add: converse_rtranclp_into_rtranclp)
qed

text \<open>The timer of \<open>wait_until\<close> does not fire before the deadline and is set to less than a millisecond after
  it, when the timer task starts at once.\<close>

lemma wait_until_deadline:
  "let s = wait_until h lp now R deadline
   in max now deadline \<le> sleep now (wf_timeout_ms s * 1000000) \<and> sleep now (wf_timeout_ms s * 1000000) < max now deadline + 1000000"
  using round_up_ms_bounds [of "deadline - now"] round_up_ms_bounds [of 0]
  by (simp add: wait_until_def wait_for_def sleep_def Let_def max_def)

end
