(* ===== verification/Thread_Pool.thy ===== *)
theory Thread_Pool
  imports Future_Promise
begin

section \<open>The thread pool behind \<open>to_thread\<close>\<close>

text \<open>
  thread.hpp: a fixed number of worker threads that take jobs from one queue, a bound on the queue, a
  stop that lets the queued jobs run, and \<open>to_thread\<close>, which turns a job into a promise. Each step is one
  critical section or one call on the condition variable: a worker that finds nothing to do sleeps,
  \<open>notify_one\<close> comes after the push has released the mutex, and a sleeper may wake for no reason. A
  job is known by its number; \<open>accepted\<close>, \<open>begun\<close> and \<open>ended\<close> record the jobs in the order in which these
  things happened to them. A job given to the pool by \<open>to_thread\<close> does not throw.
\<close>

subsection \<open>Model\<close>

datatype worker_pc = Checking | Asleep | Working nat | Exited

record thread_pool =
  jobs :: "nat list"
  stopping :: bool
  max_pending :: nat
  worker :: "nat \<Rightarrow> worker_pc option"
  notify_one_due :: nat
  notify_all_due :: nat
  accepted :: "nat list"
  begun :: "nat list"
  ended :: "nat list"

definition thread_pool_new :: "nat \<Rightarrow> nat \<Rightarrow> thread_pool" where
  "thread_pool_new n m = \<lparr>jobs = [], stopping = False, max_pending = m,
     worker = (\<lambda>w. if w < (if n = 0 then 1 else n) then Some Checking else None),
     notify_one_due = 0, notify_all_due = 0, accepted = [], begun = [], ended = []\<rparr>"

text \<open>\<open>try_submit\<close> up to the end of its critical section; a \<open>notify_one\<close> is due when it accepts.\<close>

definition try_submit :: "nat \<Rightarrow> thread_pool \<Rightarrow> bool \<times> thread_pool" where
  "try_submit j p =
    (if stopping p then (False, p)
     else if max_pending p \<noteq> 0 \<and> length (jobs p) \<ge> max_pending p then (False, p)
     else (True, p\<lparr>jobs := jobs p @ [j], accepted := accepted p @ [j], notify_one_due := notify_one_due p + 1\<rparr>))"

definition submit :: "nat \<Rightarrow> thread_pool \<Rightarrow> thread_pool result" where
  "submit j p = (case try_submit j p of (True, p') \<Rightarrow> Inr p' | (False, _) \<Rightarrow> Inl OverloadError)"

definition pool_pending :: "thread_pool \<Rightarrow> nat" where
  "pool_pending p = length (jobs p)"

definition pool_stopped :: "thread_pool \<Rightarrow> bool" where
  "pool_stopped p = stopping p"

definition set_worker :: "nat \<Rightarrow> worker_pc \<Rightarrow> thread_pool \<Rightarrow> thread_pool" where
  "set_worker w pc p = p\<lparr>worker := (worker p)(w \<mapsto> pc)\<rparr>"

text \<open>\<open>notify_one\<close> with the sleeper it wakes, if there is one; \<open>stop_and_join\<close> up to the joins.\<close>

definition notify_one :: "nat option \<Rightarrow> thread_pool \<Rightarrow> thread_pool" where
  "notify_one sleeper p =
    (let p = p\<lparr>notify_one_due := notify_one_due p - 1\<rparr>
     in case sleeper of Some w \<Rightarrow> set_worker w Checking p | None \<Rightarrow> p)"

definition begin_stop :: "thread_pool \<Rightarrow> thread_pool" where
  "begin_stop p = p\<lparr>stopping := True, notify_all_due := notify_all_due p + 1\<rparr>"

definition rouse :: "worker_pc option \<Rightarrow> worker_pc option" where
  "rouse pc = (if pc = Some Asleep then Some Checking else pc)"

definition pool_notify_all :: "thread_pool \<Rightarrow> thread_pool" where
  "pool_notify_all p = p\<lparr>worker := rouse \<circ> worker p, notify_all_due := notify_all_due p - 1\<rparr>"

definition joined :: "thread_pool \<Rightarrow> bool" where
  "joined p \<longleftrightarrow> (\<forall>w pc. worker p w = Some pc \<longrightarrow> pc = Exited)"

text \<open>\<open>worker_loop\<close>: the critical section, and the end of the job.\<close>

definition worker_section :: "nat \<Rightarrow> thread_pool \<Rightarrow> thread_pool" where
  "worker_section w p =
    (if \<not> (stopping p \<or> jobs p \<noteq> []) then set_worker w Asleep p
     else case jobs p of
       [] \<Rightarrow> set_worker w Exited p
     | j # js \<Rightarrow> set_worker w (Working j) (p\<lparr>jobs := js, begun := begun p @ [j]\<rparr>))"

definition worker_job_end :: "nat \<Rightarrow> nat \<Rightarrow> thread_pool \<Rightarrow> thread_pool" where
  "worker_job_end w j p = set_worker w Checking (p\<lparr>ended := ended p @ [j]\<rparr>)"

inductive tp_step :: "thread_pool \<Rightarrow> thread_pool \<Rightarrow> bool" where
  tp_submit: "try_submit j p = (True, p') \<Longrightarrow> tp_step p p'"
| tp_notify: "0 < notify_one_due p \<Longrightarrow> worker p w = Some Asleep \<Longrightarrow> tp_step p (notify_one (Some w) p)"
| tp_notify_none: "0 < notify_one_due p \<Longrightarrow> \<forall>w. worker p w \<noteq> Some Asleep \<Longrightarrow> tp_step p (notify_one None p)"
| tp_spurious: "worker p w = Some Asleep \<Longrightarrow> tp_step p (set_worker w Checking p)"
| tp_stop: "tp_step p (begin_stop p)"
| tp_notify_all: "0 < notify_all_due p \<Longrightarrow> tp_step p (pool_notify_all p)"
| tp_section: "worker p w = Some Checking \<Longrightarrow> tp_step p (worker_section w p)"
| tp_job_end: "worker p w = Some (Working j) \<Longrightarrow> tp_step p (worker_job_end w j p)"

definition tp_start :: "thread_pool \<Rightarrow> bool" where
  "tp_start p \<longleftrightarrow> (\<exists>n m. p = thread_pool_new n m)"

text \<open>\<open>submit_to_pool\<close>: the job runs the callable, whose outcome is \<open>res\<close>, and completes the promise; a
  job the pool refuses fails the promise.\<close>

definition pool_task :: "'a result \<Rightarrow> 'a shared_state \<Rightarrow> 'a shared_state result" where
  "pool_task res st =
    (case res of
       Inl e \<Rightarrow> publish_exception (Some e) (Some st)
     | Inr v \<Rightarrow>
         (case publish_value v (Some st) of
            Inr st' \<Rightarrow> Inr st'
          | Inl e \<Rightarrow> publish_exception (Some e) (Some st)))"

definition submit_to_pool :: "nat \<Rightarrow> 'a shared_state \<Rightarrow> thread_pool \<Rightarrow> 'a shared_state result \<times> thread_pool" where
  "submit_to_pool j st p =
    (case try_submit j p of
       (True, p') \<Rightarrow> (Inr st, p')
     | (False, p') \<Rightarrow> (publish_exception (Some OverloadError) (Some st), p'))"

definition to_thread :: "nat \<Rightarrow> thread_pool \<Rightarrow> 'a shared_state result \<times> thread_pool" where
  "to_thread j p = submit_to_pool j shared_new p"

subsection \<open>The invariant\<close>

fun is_checking :: "worker_pc \<Rightarrow> bool" where
  "is_checking Checking = True"
| "is_checking _ = False"

definition some_asleep :: "thread_pool \<Rightarrow> bool" where
  "some_asleep p \<longleftrightarrow> (\<exists>w. worker p w = Some Asleep)"

definition tp_inv :: "thread_pool \<Rightarrow> bool" where
  "tp_inv p \<longleftrightarrow>
    finite (dom (worker p)) \<and> dom (worker p) \<noteq> {} \<and> accepted p = begun p @ jobs p \<and>
    (max_pending p \<noteq> 0 \<longrightarrow> length (jobs p) \<le> max_pending p) \<and>
    (some_asleep p \<longrightarrow> length (jobs p) \<le> card (marked is_checking (worker p)) + notify_one_due p) \<and>
    (some_asleep p \<longrightarrow> stopping p \<longrightarrow> 0 < notify_all_due p) \<and>
    (\<forall>w. worker p w = Some Exited \<longrightarrow> stopping p \<and> jobs p = []) \<and>
    (\<forall>j \<in> set (begun p). j \<in> set (ended p) \<or> (\<exists>w. worker p w = Some (Working j)))"

lemma checking_upd:
  "finite (dom N) \<Longrightarrow> N w = Some q \<Longrightarrow>
   card (marked is_checking (N(w \<mapsto> pc))) + (if is_checking q then 1 else 0) = card (marked is_checking N) + (if is_checking pc then 1 else 0)"
  using card_marked_upd [of N is_checking w pc] by simp

lemma working_upd:
  "N w = Some q \<Longrightarrow> \<forall>j. q \<noteq> Working j \<Longrightarrow>
   \<forall>j \<in> B. j \<in> E \<or> (\<exists>v. N v = Some (Working j)) \<Longrightarrow> \<forall>j \<in> B. j \<in> E \<or> (\<exists>v. (N(w \<mapsto> pc)) v = Some (Working j))"
  by (metis fun_upd_other option.inject)

lemma wake_inv:
  assumes "tp_inv p" "worker p w = Some Asleep" "n \<le> notify_one_due p" "notify_one_due p \<le> Suc n"
  shows "tp_inv (set_worker w Checking (p\<lparr>notify_one_due := n\<rparr>))"
proof -
  let ?q = "set_worker w Checking (p\<lparr>notify_one_due := n\<rparr>)"
  have "some_asleep p" using assms(2) by (auto simp: some_asleep_def)
  then have "length (jobs p) \<le> card (marked is_checking (worker p)) + notify_one_due p" "stopping p \<longrightarrow> 0 < notify_all_due p"
    using assms(1) by (simp_all add: tp_inv_def)
  moreover have "card (marked is_checking (worker ?q)) = card (marked is_checking (worker p)) + 1"
    using checking_upd [of "worker p" w Asleep Checking] assms(1,2) by (simp add: tp_inv_def set_worker_def)
  moreover have "\<forall>j \<in> set (begun p). j \<in> set (ended p) \<or> (\<exists>w. worker ?q w = Some (Working j))"
    using working_upd [of "worker p" w Asleep "set (begun p)" "set (ended p)" Checking] assms(1,2) by (simp add: tp_inv_def set_worker_def)
  ultimately show ?thesis using assms
    by (auto simp: tp_inv_def set_worker_def)
qed

lemma pool_notify_all_inv:
  assumes "tp_inv p"
  shows "tp_inv (pool_notify_all p)"
proof -
  have no: "\<not> some_asleep (pool_notify_all p)" by (simp add: some_asleep_def pool_notify_all_def rouse_def)
  have d: "dom (rouse \<circ> worker p) = dom (worker p)" by (auto simp: rouse_def dom_def)
  have e: "(rouse \<circ> worker p) w = Some (Working j) \<longleftrightarrow> worker p w = Some (Working j)"
    "(rouse \<circ> worker p) w = Some Exited \<longleftrightarrow> worker p w = Some Exited" for w j
    by (auto simp: rouse_def)
  show ?thesis using assms no d e by (simp add: tp_inv_def pool_notify_all_def del: comp_apply)
qed

lemma section_inv:
  assumes "tp_inv p" "worker p w = Some Checking"
  shows "tp_inv (worker_section w p)"
proof -
  have wk: "\<forall>j \<in> set (begun p). j \<in> set (ended p) \<or> (\<exists>v. ((worker p)(w \<mapsto> pc)) v = Some (Working j))" for pc
    using working_upd [of "worker p" w Checking "set (begun p)" "set (ended p)" pc] assms by (simp add: tp_inv_def)
  show ?thesis
  proof (cases "jobs p")
    case Nil
    then show ?thesis using assms wk
      by (auto simp: tp_inv_def worker_section_def set_worker_def some_asleep_def split: if_splits)
  next
    case (Cons j js)
    have sleep: "some_asleep p" if "some_asleep (worker_section w p)"
      using that Cons by (auto simp: some_asleep_def worker_section_def set_worker_def split: if_splits)
    have "card (marked is_checking ((worker p)(w \<mapsto> Working j))) + 1 = card (marked is_checking (worker p))"
      using checking_upd [of "worker p" w Checking "Working j"] assms by (simp add: tp_inv_def)
    then show ?thesis using assms wk [of "Working j"] sleep Cons
      by (auto simp: tp_inv_def worker_section_def set_worker_def)
  qed
qed

lemma job_end_inv:
  assumes "tp_inv p" "worker p w = Some (Working j)"
  shows "tp_inv (worker_job_end w j p)"
proof -
  have sleep: "some_asleep p" if "some_asleep (worker_job_end w j p)"
    using that by (auto simp: some_asleep_def worker_job_end_def set_worker_def split: if_splits)
  have c: "card (marked is_checking ((worker p)(w \<mapsto> Checking))) = card (marked is_checking (worker p)) + 1"
    using checking_upd [of "worker p" w "Working j" Checking] assms by (simp add: tp_inv_def)
  have base: "\<forall>i \<in> set (begun p). i \<in> set (ended p) \<or> (\<exists>v. worker p v = Some (Working i))"
    using assms(1) by (simp add: tp_inv_def)
  have wk: "\<forall>i \<in> set (begun p). i = j \<or> i \<in> set (ended p) \<or> (\<exists>v. v \<noteq> w \<and> worker p v = Some (Working i))"
  proof
    fix i
    assume "i \<in> set (begun p)"
    then consider "i \<in> set (ended p)" | v where "worker p v = Some (Working i)" using base by blast
    then show "i = j \<or> i \<in> set (ended p) \<or> (\<exists>v. v \<noteq> w \<and> worker p v = Some (Working i))"
    proof cases
      case (2 v)
      then show ?thesis using assms(2) by (cases "v = w") auto
    qed simp
  qed
  have ex: "stopping p \<and> jobs p = []" if "((worker p)(w \<mapsto> Checking)) v = Some Exited" for v
    using that assms(1) by (simp add: tp_inv_def split: if_splits) blast
  have inv: "finite (dom (worker p))" "accepted p = begun p @ jobs p" "max_pending p \<noteq> 0 \<longrightarrow> length (jobs p) \<le> max_pending p"
    "some_asleep p \<longrightarrow> length (jobs p) \<le> card (marked is_checking (worker p)) + notify_one_due p"
    "some_asleep p \<longrightarrow> stopping p \<longrightarrow> 0 < notify_all_due p"
    using assms(1) unfolding tp_inv_def by blast+
  have "length (jobs p) \<le> card (marked is_checking ((worker p)(w \<mapsto> Checking))) + notify_one_due p"
    if "some_asleep (worker_job_end w j p)"
    using inv(4) sleep [OF that] c by simp
  then show ?thesis using inv sleep wk ex
    by (simp add: tp_inv_def worker_job_end_def set_worker_def) blast
qed

lemma tp_step_inv: "tp_step p p' \<Longrightarrow> tp_inv p \<Longrightarrow> tp_inv p'"
proof (induction rule: tp_step.induct)
  case (tp_submit j p p')
  then show ?case by (auto simp: tp_inv_def try_submit_def some_asleep_def split: if_splits)
next
  case (tp_notify p w)
  then show ?case using wake_inv [of p w "notify_one_due p - 1"] by (simp add: notify_one_def Let_def)
next
  case (tp_notify_none p)
  then show ?case by (simp add: tp_inv_def notify_one_def Let_def some_asleep_def)
next
  case (tp_spurious p w)
  then show ?case using wake_inv [of p w "notify_one_due p"] by (simp add: set_worker_def)
qed (simp_all add: pool_notify_all_inv section_inv job_end_inv, simp add: tp_inv_def begin_stop_def some_asleep_def)

interpretation executors: inductive_invariant tp_start tp_step tp_inv
proof
  show "tp_inv p" if s: "tp_start p" for p
  proof -
    obtain n m where p: "p = thread_pool_new n m" using s by (auto simp: tp_start_def)
    have "dom (worker p) = {..< (if n = 0 then 1 else n)}" using p by (auto simp: thread_pool_new_def split: if_splits)
    then show ?thesis using p by (auto simp: tp_inv_def thread_pool_new_def some_asleep_def split: if_splits)
  qed
qed (rule tp_step_inv)


subsection \<open>Properties\<close>

text \<open>C16. The pool starts the jobs it has accepted in the order in which it accepted them, never holds
  more waiting jobs than its bound, refuses every job once it is stopping, and when the join of a stop
  returns every accepted job has been started exactly once and has ended.\<close>

theorem executor_drains:
  assumes "reachable tp_start tp_step p"
  shows "accepted p = begun p @ jobs p \<and> (max_pending p \<noteq> 0 \<longrightarrow> pool_pending p \<le> max_pending p) \<and>
    (pool_stopped p \<longrightarrow> submit j p = Inl OverloadError) \<and>
    (joined p \<longrightarrow> jobs p = [] \<and> begun p = accepted p \<and> set (accepted p) \<subseteq> set (ended p))"
proof -
  have inv: "tp_inv p" using executors.invariant_reachable [OF assms] .
  have w: "\<exists>w pc. worker p w = Some pc" "\<forall>w. worker p w = Some Exited \<longrightarrow> jobs p = []"
    "\<forall>j \<in> set (begun p). j \<in> set (ended p) \<or> (\<exists>w. worker p w = Some (Working j))"
    using inv by (auto simp: tp_inv_def dom_def)
  have "jobs p = []" "set (begun p) \<subseteq> set (ended p)" if "joined p"
    using w that unfolding joined_def by blast+
  then show ?thesis using inv by (auto simp: tp_inv_def pool_pending_def pool_stopped_def submit_def try_submit_def)
qed

text \<open>C17. No job is forgotten while the pool sleeps: as long as a job waits, some worker is awake and
  will look at the queue, or a \<open>notify_one\<close> is on its way to a sleeping worker; and once the pool is
  stopping, no worker stays asleep without a \<open>notify_all\<close> on its way. A worker that looks at the queue
  takes the job at its front.\<close>

theorem executor_no_lost_job:
  assumes "reachable tp_start tp_step p"
  shows "(jobs p \<noteq> [] \<longrightarrow>
      (\<exists>w. worker p w = Some Checking \<or> (\<exists>j. worker p w = Some (Working j))) \<or> (0 < notify_one_due p \<and> some_asleep p)) \<and>
    (pool_stopped p \<and> some_asleep p \<longrightarrow> 0 < notify_all_due p) \<and>
    (\<forall>j js w. jobs p = j # js \<and> worker p w = Some Checking \<longrightarrow>
      worker (worker_section w p) w = Some (Working j) \<and> jobs (worker_section w p) = js)"
proof -
  have inv: "tp_inv p" using executors.invariant_reachable [OF assms] .
  have "(\<exists>w. worker p w = Some Checking \<or> (\<exists>j. worker p w = Some (Working j))) \<or> (0 < notify_one_due p \<and> some_asleep p)"
    if "jobs p \<noteq> []"
  proof -
    obtain w pc where w: "worker p w = Some pc" using inv by (auto simp: tp_inv_def dom_def)
    have none: "marked is_checking (worker p) = {}" if "\<forall>w. worker p w \<noteq> Some Checking"
      using that by (auto simp: marked_def elim: is_checking.elims)
    show ?thesis
    proof (cases "some_asleep p")
      case True
      then have "length (jobs p) \<le> card (marked is_checking (worker p)) + notify_one_due p" using inv by (simp add: tp_inv_def)
      then show ?thesis using True none \<open>jobs p \<noteq> []\<close> by fastforce
    next
      case False
      then show ?thesis using w inv \<open>jobs p \<noteq> []\<close> by (cases pc) (auto simp: tp_inv_def some_asleep_def)
    qed
  qed
  then show ?thesis using inv by (auto simp: tp_inv_def pool_stopped_def worker_section_def set_worker_def)
qed


definition tiny_pool :: thread_pool where
  "tiny_pool = thread_pool_new 1 1"

lemma tiny_steps:
  "tp_step\<^sup>*\<^sup>* tiny_pool (snd (try_submit 5 tiny_pool))"
  "worker tiny_pool 0 = Some Checking" "jobs tiny_pool = []"
  by (auto simp: tiny_pool_def thread_pool_new_def try_submit_def intro!: tp_submit)

lemma tiny_reachable: "reachable tp_start tp_step (snd (try_submit 5 tiny_pool))"
proof (rule reachable_steps [OF tiny_steps(1)])
  show "reachable tp_start tp_step tiny_pool"
    by (rule reachable.reachable_init) (auto simp: tp_start_def tiny_pool_def)
qed

theorem executor_drains_witness:
  "accepted (snd (try_submit 5 tiny_pool)) = [5] \<and> pool_pending (snd (try_submit 5 tiny_pool)) \<le> 1"
  using executor_drains [OF tiny_reachable] by (simp add: tiny_pool_def thread_pool_new_def try_submit_def)

theorem executor_no_lost_job_witness:
  "worker (worker_section 0 (snd (try_submit 5 tiny_pool))) 0 = Some (Working 5)"
  using executor_no_lost_job [OF tiny_reachable] by (simp add: tiny_pool_def thread_pool_new_def try_submit_def)


end
