(* ===== verification/Task_Registry.thy ===== *)
theory Task_Registry
  imports Coro_Prelude
begin

section \<open>The registry of a server's tasks\<close>

text \<open>
  task_registry.hpp: the tasks a server has spawned, their number, the bound on it, and the end of
  the server: waiting until no task is left, and \<open>settle\<close>. A task is known by its number; the thread of
  its loop runs \<open>finish\<close> when it ends, in three accesses: the entry is erased under the mutex, the
  atomic count goes down, and the thread that saw the last entry go sets the idle event. One coroutine
  waits in \<open>wait_empty\<close>, until it returns or its frame is destroyed; the idle event is its flag.
\<close>

subsection \<open>Model\<close>

text \<open>\<open>Erased e\<close>: the entry is gone, \<open>e\<close> says that it was the last one.\<close>

datatype entry_phase = Live | Erased bool | Announcing | Finished

datatype registry_wait_pc = R_Idle | R_Check | R_Clear | R_Recheck | R_Wait | R_Parked | R_Done

record registry =
  entries :: "nat list"
  active :: nat
  rejected :: nat
  exceptions :: nat
  capacity :: nat
  idle_event :: "bool option"
  phase :: "nat \<Rightarrow> entry_phase option"
  waiter :: registry_wait_pc

definition registry_new :: "nat \<Rightarrow> registry" where
  "registry_new cap = \<lparr>entries = [], active = 0, rejected = 0, exceptions = 0, capacity = cap, idle_event = None,
     phase = Map.empty, waiter = R_Idle\<rparr>"

definition set_entry :: "nat \<Rightarrow> entry_phase \<Rightarrow> registry \<Rightarrow> registry" where
  "set_entry e p r = r\<lparr>phase := (phase r)(e \<mapsto> p)\<rparr>"

definition registry_size :: "registry \<Rightarrow> nat" where
  "registry_size r = active r"

definition registry_empty :: "registry \<Rightarrow> bool" where
  "registry_empty r = (registry_size r = 0)"

definition set_capacity :: "nat \<Rightarrow> registry \<Rightarrow> registry" where
  "set_capacity c r = r\<lparr>capacity := c\<rparr>"

text \<open>\<open>spawn\<close>: the entry is registered or refused; a valid lease is \<open>True\<close>. A factory that throws
  afterwards is followed by \<open>finish\<close>.\<close>

definition registry_spawn :: "nat \<Rightarrow> registry \<Rightarrow> bool \<times> registry" where
  "registry_spawn e r =
    (if capacity r \<noteq> 0 \<and> length (entries r) \<ge> capacity r then (False, r\<lparr>rejected := rejected r + 1\<rparr>)
     else (True, set_entry e Live (r\<lparr>entries := entries r @ [e], active := active r + 1\<rparr>)))"

text \<open>The three accesses of \<open>finish\<close>, and the whole of it.\<close>

definition finish_erase :: "nat \<Rightarrow> registry \<Rightarrow> registry" where
  "finish_erase e r =
    (if phase r e \<noteq> Some Live then r
     else let es = remove1 e (entries r) in set_entry e (Erased (es = [])) (r\<lparr>entries := es\<rparr>))"

definition finish_sub :: "nat \<Rightarrow> bool \<Rightarrow> registry \<Rightarrow> registry" where
  "finish_sub e became_empty r = set_entry e (if became_empty then Announcing else Finished) (r\<lparr>active := active r - 1\<rparr>)"

definition registry_event_set :: "registry \<Rightarrow> registry" where
  "registry_event_set r = r\<lparr>idle_event := Some True, waiter := (if waiter r = R_Parked then R_Check else waiter r)\<rparr>"

definition finish_announce :: "nat \<Rightarrow> registry \<Rightarrow> registry" where
  "finish_announce e r = set_entry e Finished (case idle_event r of None \<Rightarrow> r | Some _ \<Rightarrow> registry_event_set r)"

definition finish :: "nat \<Rightarrow> registry \<Rightarrow> registry" where
  "finish e r =
    (let r = finish_erase e r
     in case phase r e of
          Some (Erased b) \<Rightarrow> let r = finish_sub e b r in if b then finish_announce e r else r
        | _ \<Rightarrow> r)"

text \<open>The end of a task: \<open>runner\<close> counts an exception that is not a cancellation, then \<open>finish\<close>.\<close>

definition runner_end :: "nat \<Rightarrow> coro_error option \<Rightarrow> registry \<Rightarrow> registry" where
  "runner_end e failure r =
    finish e (case failure of
      None \<Rightarrow> r
    | Some er \<Rightarrow> if er = CancelledError then r else r\<lparr>exceptions := exceptions r + 1\<rparr>)"

text \<open>\<open>wait_empty\<close>, one access at a time.\<close>

definition wait_begin :: "registry \<Rightarrow> registry" where
  "wait_begin r =
    (if registry_empty r then r\<lparr>waiter := R_Done\<rparr>
     else r\<lparr>idle_event := (if idle_event r = None then Some False else idle_event r), waiter := R_Check\<rparr>)"

definition wait_step :: "registry \<Rightarrow> registry" where
  "wait_step r =
    (case waiter r of
       R_Check \<Rightarrow> r\<lparr>waiter := (if registry_empty r then R_Done else R_Clear)\<rparr>
     | R_Clear \<Rightarrow> r\<lparr>idle_event := Some False, waiter := R_Recheck\<rparr>
     | R_Recheck \<Rightarrow> r\<lparr>waiter := (if registry_empty r then R_Done else R_Wait)\<rparr>
     | R_Wait \<Rightarrow> r\<lparr>waiter := (if idle_event r = Some True then R_Check else R_Parked)\<rparr>
     | _ \<Rightarrow> r)"

text \<open>\<open>request_cancel_all\<close>: the tasks that are asked to cancel, each on its own loop.\<close>

definition request_cancel_all :: "registry \<Rightarrow> nat list" where
  "request_cancel_all r = filter (\<lambda>e. phase r e = Some Live) (entries r)"

record shutdown_report =
  drained :: bool
  unfinished :: nat

text \<open>\<open>settle\<close>: \<open>r1\<close> and \<open>r2\<close> are the states in which the two waits return or time out.\<close>

definition registry_settle :: "nat \<Rightarrow> nat \<Rightarrow> registry \<Rightarrow> registry \<Rightarrow> registry \<Rightarrow> nat list \<times> shutdown_report" where
  "registry_settle drain settle_window r r1 r2 =
    (let r = (if drain > 0 \<and> \<not> registry_empty r then r1 else r)
     in if registry_empty r then ([], \<lparr>drained = True, unfinished = 0\<rparr>)
        else let c = request_cancel_all r; r = (if settle_window > 0 \<and> \<not> registry_empty r then r2 else r)
        in (c, \<lparr>drained = registry_empty r, unfinished = registry_size r\<rparr>))"

subsection \<open>Tasks on several loops\<close>

inductive reg_step :: "registry \<Rightarrow> registry \<Rightarrow> bool" where
  re_spawn: "phase r e = None \<Longrightarrow> reg_step r (snd (registry_spawn e r))"
| re_erase: "phase r e = Some Live \<Longrightarrow> reg_step r (finish_erase e r)"
| re_sub: "phase r e = Some (Erased b) \<Longrightarrow> reg_step r (finish_sub e b r)"
| re_announce: "phase r e = Some Announcing \<Longrightarrow> reg_step r (finish_announce e r)"
| re_begin: "waiter r \<in> {R_Idle, R_Done} \<Longrightarrow> reg_step r (wait_begin r)"
| re_wait: "reg_step r (wait_step r)"
| re_abandon: "reg_step r (r\<lparr>waiter := R_Idle\<rparr>)"

definition reg_start :: "nat \<Rightarrow> registry \<Rightarrow> bool" where
  "reg_start cap r \<longleftrightarrow> r = registry_new cap"

text \<open>All tasks on one loop: \<open>finish\<close> runs without interruption.\<close>

inductive local_step :: "registry \<Rightarrow> registry \<Rightarrow> bool" where
  lo_spawn: "phase r e = None \<Longrightarrow> local_step r (snd (registry_spawn e r))"
| lo_finish: "phase r e = Some Live \<Longrightarrow> local_step r (runner_end e failure r)"
| lo_begin: "waiter r \<in> {R_Idle, R_Done} \<Longrightarrow> local_step r (wait_begin r)"
| lo_wait: "local_step r (wait_step r)"
| lo_abandon: "local_step r (r\<lparr>waiter := R_Idle\<rparr>)"

subsection \<open>The counts\<close>

fun unsettled :: "entry_phase \<Rightarrow> bool" where
  "unsettled Live = True"
| "unsettled (Erased b) = True"
| "unsettled _ = False"

definition reg_inv :: "nat \<Rightarrow> registry \<Rightarrow> bool" where
  "reg_inv cap r \<longleftrightarrow>
    finite (dom (phase r)) \<and> distinct (entries r) \<and> set (entries r) = {e. phase r e = Some Live} \<and>
    active r = card (marked unsettled (phase r)) \<and> capacity r = cap \<and> (cap \<noteq> 0 \<longrightarrow> length (entries r) \<le> cap)"

lemma card_phase_upd:
  "finite (dom N) \<Longrightarrow> N e = Some q \<Longrightarrow>
   card (marked unsettled (N(e \<mapsto> p))) + (if unsettled q then 1 else 0) = card (marked unsettled N) + (if unsettled p then 1 else 0)"
  using card_marked_upd [of N unsettled e p] by simp

lemma card_phase_new:
  "finite (dom N) \<Longrightarrow> N e = None \<Longrightarrow> unsettled p \<Longrightarrow> card (marked unsettled (N(e \<mapsto> p))) = Suc (card (marked unsettled N))"
  using card_marked_upd [of N unsettled e p] by simp

lemma reg_inv_same:
  "reg_inv cap r \<Longrightarrow> entries r' = entries r \<Longrightarrow> active r' = active r \<Longrightarrow> phase r' = phase r \<Longrightarrow> capacity r' = capacity r \<Longrightarrow> reg_inv cap r'"
  by (simp add: reg_inv_def)

lemma wait_frame:
  "entries (wait_step r) = entries r" "active (wait_step r) = active r" "phase (wait_step r) = phase r" "capacity (wait_step r) = capacity r"
  "entries (wait_begin r) = entries r" "active (wait_begin r) = active r" "phase (wait_begin r) = phase r" "capacity (wait_begin r) = capacity r"
  by (cases "waiter r"; simp add: wait_step_def wait_begin_def)+

lemma announce_frame:
  "entries (finish_announce e r) = entries r" "active (finish_announce e r) = active r"
  "phase (finish_announce e r) = (phase r)(e \<mapsto> Finished)" "capacity (finish_announce e r) = capacity r"
  by (simp_all add: finish_announce_def registry_event_set_def set_entry_def split: option.split)

lemma spawn_inv: "reg_inv cap r \<Longrightarrow> phase r e = None \<Longrightarrow> reg_inv cap (snd (registry_spawn e r))"
  using card_phase_new [of "phase r" e Live] by (auto simp: reg_inv_def registry_spawn_def set_entry_def)

lemma erase_inv:
  assumes "reg_inv cap r" "phase r e = Some Live"
  shows "reg_inv cap (finish_erase e r)"
  using assms card_phase_upd [of "phase r" e Live "Erased (remove1 e (entries r) = [])"] length_remove1 [of e "entries r"]
  by (auto simp: reg_inv_def finish_erase_def set_entry_def Let_def split: if_splits)

lemma sub_inv:
  assumes "reg_inv cap r" "phase r e = Some (Erased b)"
  shows "reg_inv cap (finish_sub e b r)"
  using assms card_phase_upd [of "phase r" e "Erased b" "if b then Announcing else Finished"]
  by (auto simp: reg_inv_def finish_sub_def set_entry_def)

lemma announce_inv:
  assumes "reg_inv cap r" "phase r e = Some Announcing"
  shows "reg_inv cap (finish_announce e r)"
  using assms card_phase_upd [of "phase r" e Announcing Finished]
  by (auto simp: reg_inv_def announce_frame)

lemma reg_step_inv: "reg_step r r' \<Longrightarrow> reg_inv cap r \<Longrightarrow> reg_inv cap r'"
proof (induction rule: reg_step.induct)
  case (re_begin r)
  then show ?case by (intro reg_inv_same [OF re_begin.prems]) (simp_all add: wait_frame)
next
  case (re_wait r)
  then show ?case by (intro reg_inv_same [OF re_wait.prems]) (simp_all add: wait_frame)
next
  case (re_abandon r)
  then show ?case by (intro reg_inv_same [OF re_abandon.prems]) simp_all
qed (simp_all add: spawn_inv erase_inv sub_inv announce_inv)

interpretation registries: inductive_invariant "reg_start cap" reg_step "reg_inv cap" for cap
proof
  show "reg_inv cap r" if "reg_start cap r" for r
    using that by (simp add: reg_start_def registry_new_def reg_inv_def marked_upd)
qed (rule reg_step_inv)

subsection \<open>Tasks on one loop\<close>

definition local_inv :: "registry \<Rightarrow> bool" where
  "local_inv r \<longleftrightarrow>
    active r = length (entries r) \<and> distinct (entries r) \<and> set (entries r) = {e. phase r e = Some Live} \<and>
    (waiter r \<in> {R_Check, R_Clear, R_Recheck, R_Wait, R_Parked} \<longrightarrow> idle_event r \<noteq> None) \<and>
    (waiter r = R_Wait \<longrightarrow> 0 < active r \<or> idle_event r = Some True) \<and>
    (waiter r = R_Parked \<longrightarrow> 0 < active r)"

definition gone :: "nat \<Rightarrow> registry \<Rightarrow> registry" where
  "gone e r = r\<lparr>entries := remove1 e (entries r), active := active r - 1, phase := (phase r)(e \<mapsto> Finished)\<rparr>"

lemma finish_eq:
  assumes "phase r e = Some Live"
  shows "finish e r = (if remove1 e (entries r) = [] \<and> idle_event r \<noteq> None then registry_event_set (gone e r) else gone e r)"
  using assms
  by (cases "idle_event r")
    (simp_all add: finish_def finish_erase_def finish_sub_def finish_announce_def registry_event_set_def set_entry_def gone_def Let_def)

lemma finish_local:
  assumes "local_inv r" "phase r e = Some Live"
  shows "local_inv (finish e r)"
proof -
  have e: "e \<in> set (entries r)" using assms by (simp add: local_inv_def)
  have l: "active (gone e r) = length (entries (gone e r))" using e assms(1) by (simp add: local_inv_def gone_def length_remove1)
  have s: "set (entries (gone e r)) = {x. phase (gone e r) x = Some Live}" "distinct (entries (gone e r))"
    using assms(1) by (auto simp: local_inv_def gone_def)
  have f: "idle_event (gone e r) = idle_event r" "waiter (gone e r) = waiter r" by (simp_all add: gone_def)
  have g: "entries (gone e r) = remove1 e (entries r)" by (simp add: gone_def)
  have w: "waiter r \<in> {R_Check, R_Clear, R_Recheck, R_Wait, R_Parked} \<longrightarrow> idle_event r \<noteq> None" using assms(1) by (simp add: local_inv_def)
  show ?thesis
  proof (cases "entries (gone e r) = [] \<and> idle_event r \<noteq> None")
    case True
    then have "finish e r = registry_event_set (gone e r)" unfolding finish_eq [OF assms(2)] g by simp
    then show ?thesis using l s f by (simp add: local_inv_def registry_event_set_def)
  next
    case False
    then have "finish e r = gone e r" unfolding finish_eq [OF assms(2)] g by auto
    moreover have "entries (gone e r) \<noteq> []" if "waiter r \<in> {R_Wait, R_Parked}" using that False w by auto
    ultimately show ?thesis using l s f w by (auto simp: local_inv_def)
  qed
qed

lemma local_inv_counted: "local_inv (r\<lparr>exceptions := n\<rparr>) = local_inv r" "local_inv (r\<lparr>rejected := n\<rparr>) = local_inv r"
  by (simp_all add: local_inv_def)

lemma spawn_local:
  assumes "local_inv r" "phase r e = None"
  shows "local_inv (snd (registry_spawn e r))"
proof -
  let ?q = "set_entry e Live (r\<lparr>entries := entries r @ [e], active := active r + 1\<rparr>)"
  have "e \<notin> set (entries r)" "{x. phase ?q x = Some Live} = insert e {x. phase r x = Some Live}"
    using assms by (auto simp: local_inv_def set_entry_def)
  then have "local_inv ?q" using assms(1) by (simp add: local_inv_def set_entry_def)
  moreover have "local_inv (r\<lparr>rejected := rejected r + 1\<rparr>)" using assms(1) by (simp only: local_inv_counted)
  ultimately show ?thesis by (simp only: registry_spawn_def snd_conv if_split) simp
qed

lemma runner_local:
  assumes "local_inv r" "phase r e = Some Live"
  shows "local_inv (runner_end e failure r)"
proof -
  have "local_inv (finish e (r\<lparr>exceptions := n\<rparr>))" for n
    using finish_local [of "r\<lparr>exceptions := n\<rparr>" e] assms by (simp add: local_inv_counted)
  then show ?thesis using finish_local [OF assms] unfolding runner_end_def by (auto split: option.split)
qed

lemma wait_local: "local_inv r \<Longrightarrow> local_inv (wait_step r)"
  by (cases "waiter r") (auto simp: local_inv_def wait_step_def registry_empty_def registry_size_def)

lemma abandon_local: "local_inv r \<Longrightarrow> local_inv (r\<lparr>waiter := R_Idle\<rparr>)"
  by (simp add: local_inv_def)

lemma begin_local:
  assumes "local_inv r"
  shows "local_inv (wait_begin r)"
proof (cases "registry_empty r")
  case True
  have "local_inv (r\<lparr>waiter := R_Done\<rparr>)" using assms by (simp add: local_inv_def)
  then show ?thesis using True by (simp add: wait_begin_def)
next
  case False
  have "local_inv (r\<lparr>idle_event := Some b, waiter := R_Check\<rparr>)" for b using assms by (simp add: local_inv_def)
  moreover have "\<exists>b. wait_begin r = r\<lparr>idle_event := Some b, waiter := R_Check\<rparr>"
    using False by (cases "idle_event r") (auto simp: wait_begin_def)
  ultimately show ?thesis by metis
qed

lemma local_step_inv: "local_step r r' \<Longrightarrow> local_inv r \<Longrightarrow> local_inv r'"
proof (induction rule: local_step.induct)
  case (lo_spawn r e)
  then show ?case by (simp add: spawn_local)
next
  case (lo_finish r e failure)
  then show ?case by (simp add: runner_local)
next
  case (lo_begin r)
  then show ?case using begin_local by blast
next
  case (lo_wait r)
  then show ?case by (simp add: wait_local)
next
  case (lo_abandon r)
  then show ?case by (simp add: abandon_local)
qed

interpretation local_registries: inductive_invariant "reg_start cap" local_step local_inv for cap
proof
  show "local_inv r" if "reg_start cap r" for r
    using that by (simp add: reg_start_def registry_new_def local_inv_def)
qed (rule local_step_inv)


subsection \<open>Properties\<close>

lemma reg_reach:
  assumes "reachable (reg_start c) reg_step r"
  shows "phase r e = None \<Longrightarrow> reachable (reg_start c) reg_step (snd (registry_spawn e r))"
    "phase r e = Some Live \<Longrightarrow> reachable (reg_start c) reg_step (finish_erase e r)"
    "phase r e = Some (Erased b) \<Longrightarrow> reachable (reg_start c) reg_step (finish_sub e b r)"
    "phase r e = Some Announcing \<Longrightarrow> reachable (reg_start c) reg_step (finish_announce e r)"
    "waiter r = R_Idle \<Longrightarrow> reachable (reg_start c) reg_step (wait_begin r)"
    "reachable (reg_start c) reg_step (wait_step r)"
  using assms by (auto intro: reachable.reachable_step reg_step.intros)

lemma reg_reach_new: "reachable (reg_start c) reg_step (registry_new c)"
  by (rule reachable.reachable_init) (simp add: reg_start_def)

text \<open>In every state the registry reaches, with tasks ending on any number of loops, its entries are
  exactly the tasks that have not begun to end, without repetition and never more than the capacity;
  the count covers every one of them, so an empty registry (count zero) has no live task. At the
  capacity a spawn is refused, the refusal is counted and nothing else changes.\<close>

theorem registry_accounts:
  assumes "reachable (reg_start cap) reg_step r"
  shows "distinct (entries r) \<and> set (entries r) = {e. phase r e = Some Live} \<and> (cap \<noteq> 0 \<longrightarrow> length (entries r) \<le> cap) \<and>
    length (entries r) \<le> registry_size r \<and> (registry_empty r \<longrightarrow> entries r = [] \<and> request_cancel_all r = []) \<and>
    (cap \<noteq> 0 \<and> length (entries r) = cap \<longrightarrow> registry_spawn e r = (False, r\<lparr>rejected := rejected r + 1\<rparr>))"
proof -
  have inv: "reg_inv cap r" using registries.invariant_reachable [OF assms] .
  then have "set (entries r) \<subseteq> marked unsettled (phase r)" "finite (marked unsettled (phase r))"
    by (auto simp: reg_inv_def marked_iff intro: finite_marked)
  then have "length (entries r) \<le> registry_size r"
    using inv card_mono [of "marked unsettled (phase r)" "set (entries r)"] distinct_card [of "entries r"]
    by (simp add: reg_inv_def registry_size_def)
  then show ?thesis using inv
    by (auto simp: reg_inv_def registry_empty_def request_cancel_all_def registry_spawn_def)
qed

text \<open>C18. When all tasks end on one loop, a coroutine suspended in \<open>wait_empty\<close> always has a live task to
  wait for, and the end of the last one resumes it.\<close>

theorem wait_empty_not_stranded:
  assumes "reachable (reg_start cap) local_step r" "waiter r = R_Parked"
  shows "entries r \<noteq> [] \<and> registry_size r = length (entries r) \<and>
    (\<forall>e. entries r = [e] \<longrightarrow> waiter (runner_end e failure r) = R_Check \<and> registry_empty (runner_end e failure r))"
proof -
  have inv: "local_inv r" using local_registries.invariant_reachable [OF assms(1)] .
  then have f: "active r = length (entries r)" "0 < active r" "idle_event r \<noteq> None" "set (entries r) = {e. phase r e = Some Live}"
    using assms(2) unfolding local_inv_def by auto
  have end1: "waiter (finish e r') = R_Check \<and> registry_empty (finish e r')"
    if "entries r' = [e]" "phase r' e = Some Live" "waiter r' = R_Parked" "idle_event r' \<noteq> None" "active r' = 1" for r' e
    using finish_eq [OF that(2)] that by (simp add: registry_event_set_def gone_def registry_empty_def registry_size_def)
  have "waiter (runner_end e failure r) = R_Check \<and> registry_empty (runner_end e failure r)" if "entries r = [e]" for e
  proof -
    have "phase r e = Some Live" using f(4) that by (metis list.set_intros(1) mem_Collect_eq)
    then show ?thesis
      using end1 [of r e] end1 [of "r\<lparr>exceptions := exceptions r + 1\<rparr>" e] that f assms(2)
      by (auto simp: runner_end_def split: option.split)
  qed
  then show ?thesis using f by (auto simp: registry_size_def)
qed

definition served :: registry where
  "served = wait_step (wait_step (wait_step (wait_step (wait_begin (snd (registry_spawn 7 (registry_new 1)))))))"

lemmas registry_defs =
  wait_step_def wait_begin_def registry_spawn_def registry_new_def set_entry_def registry_empty_def registry_size_def

lemma served_state:
  "served = \<lparr>entries = [7], active = 1, rejected = 0, exceptions = 0, capacity = 1, idle_event = Some False,
     phase = [7 \<mapsto> Live], waiter = R_Parked\<rparr>"
  by (simp add: served_def registry_defs)

lemma served_reachable: "reachable (reg_start 1) local_step served"
proof -
  let ?s = "snd (registry_spawn 7 (registry_new 1))"
  have "local_step (registry_new 1) ?s" by (rule lo_spawn) (simp add: registry_new_def)
  moreover have "local_step ?s (wait_begin ?s)" by (rule lo_begin) (simp add: registry_spawn_def registry_new_def set_entry_def)
  ultimately have "local_step\<^sup>*\<^sup>* (registry_new 1) served"
    unfolding served_def by (meson lo_wait rtranclp.rtrancl_into_rtrancl rtranclp.rtrancl_refl)
  then show ?thesis by (rule reachable_steps) (simp add: reachable.reachable_init reg_start_def)
qed

theorem wait_empty_not_stranded_witness:
  "waiter (runner_end 7 (Some TimeoutError) served) = R_Check \<and> registry_empty (runner_end 7 (Some TimeoutError) served)"
  using wait_empty_not_stranded [OF served_reachable] by (simp add: served_state)

theorem registry_accounts_witness:
  "fst (registry_spawn 8 (snd (registry_spawn 7 (registry_new 1)))) = False"
proof -
  let ?s = "snd (registry_spawn 7 (registry_new 1))"
  have "reachable (reg_start 1) reg_step ?s"
    by (rule reg_reach(1) [OF reg_reach_new]) (simp add: registry_new_def)
  from registry_accounts [OF this] show ?thesis by (simp add: registry_defs)
qed

text \<open>\<open>settle\<close>: what it reports, and that no task is asked to cancel before the grace period is over.\<close>

lemma settle_report:
  assumes "registry_settle drain window r r1 r2 = (c, rep)"
  shows "(drained rep \<longleftrightarrow> unfinished rep = 0)" "drain > 0 \<Longrightarrow> c \<noteq> [] \<Longrightarrow> \<not> registry_empty r1 \<and> c = request_cancel_all r1"
  using assms by (auto simp: registry_settle_def Let_def registry_empty_def registry_size_def split: if_splits)

text \<open>Tasks that end on two loops: the one that erases the last entry counts down and sets the event
  before the other has counted down. The waiting coroutine sees the count at one, waits again, and the
  other task, which did not see the last entry go, sets no event.\<close>

lemma interleaved_finish_strands_wait:
  "\<exists>r. reachable (reg_start 0) reg_step r \<and> waiter r = R_Parked \<and> registry_empty r \<and> (\<forall>e p. phase r e = Some p \<longrightarrow> p = Finished)"
proof -
  define r0 where "r0 = snd (registry_spawn 2 (snd (registry_spawn 1 (registry_new 0))))"
  define r1 where "r1 = wait_step (wait_step (wait_step (wait_step (wait_begin r0))))"
  define r2 where "r2 = finish_announce 2 (finish_sub 2 True (finish_erase 2 (finish_erase 1 r1)))"
  define r3 where "r3 = wait_step (wait_step (wait_step (wait_step r2)))"
  define r4 where "r4 = finish_sub 1 False r3"
  have e0: "r0 = \<lparr>entries = [1, 2], active = 2, rejected = 0, exceptions = 0, capacity = 0, idle_event = None,
      phase = [1 \<mapsto> Live, 2 \<mapsto> Live], waiter = R_Idle\<rparr>"
    by (simp add: r0_def registry_defs)
  have e1: "r1 = r0\<lparr>idle_event := Some False, waiter := R_Parked\<rparr>" by (simp add: r1_def e0 registry_defs)
  have e2: "r2 = r0\<lparr>entries := [], active := 1, idle_event := Some True, waiter := R_Check, phase := [1 \<mapsto> Erased False, 2 \<mapsto> Finished]\<rparr>"
    by (simp add: r2_def e1 e0 finish_announce_def finish_sub_def finish_erase_def registry_event_set_def set_entry_def)
  have e3: "r3 = r2\<lparr>idle_event := Some False, waiter := R_Parked\<rparr>" by (simp add: r3_def e2 e0 registry_defs)
  let ?R = "reachable (reg_start 0) reg_step"
  have "?R (snd (registry_spawn 1 (registry_new 0)))" by (rule reg_reach(1) [OF reg_reach_new]) (simp add: registry_new_def)
  then have s0: "?R r0" unfolding r0_def by (rule reg_reach(1)) (simp add: registry_defs)
  have "?R (wait_begin r0)" by (rule reg_reach(5) [OF s0]) (simp add: e0)
  then have s1: "?R r1" unfolding r1_def by (intro reg_reach(6))
  have "?R (finish_erase 1 r1)" by (rule reg_reach(2) [OF s1]) (simp add: e1 e0)
  then have "?R (finish_erase 2 (finish_erase 1 r1))" by (rule reg_reach(2)) (simp add: e1 e0 finish_erase_def set_entry_def)
  then have "?R (finish_sub 2 True (finish_erase 2 (finish_erase 1 r1)))"
    by (rule reg_reach(3)) (simp add: e1 e0 finish_erase_def set_entry_def)
  then have s2: "?R r2" unfolding r2_def
    by (rule reg_reach(4)) (simp add: e1 e0 finish_erase_def finish_sub_def set_entry_def)
  then have s3: "?R r3" unfolding r3_def by (intro reg_reach(6))
  have "?R r4" unfolding r4_def by (rule reg_reach(3) [OF s3]) (simp add: e3 e2 e0)
  then show ?thesis
    by (intro exI [of _ r4]) (simp add: r4_def e3 e2 e0 finish_sub_def set_entry_def registry_empty_def registry_size_def)
qed

end
