(* ===== verification/Socket_Servers.thy ===== *)
theory Socket_Servers
  imports Task_Registry
begin

section \<open>The TCP and UDP servers\<close>

text \<open>
  tcp_udp/tcp_server.hpp and tcp_udp/udp_server.hpp: the life of a server from \<open>start\<close> to its shutdown
  report. Both servers own a registry of handlers (the registry theory), an entry task that accepts
  connections or receives datagrams, and a supervisor that is the only one to stop the server. All of
  them run on one loop, so a step is what a coroutine does between two suspensions. What the socket
  gives is the argument of the entry task's step; the clock, in milliseconds, moves by its own step.
  The UDP server is the same record with the fields that bound the bytes of its datagrams.
\<close>

subsection \<open>The life of a server\<close>

datatype server_phase = Phase_Idle | Phase_Running | Phase_Draining | Phase_Cancelling | Phase_Stopped

datatype entry_pc = Entry_None | Entry_Waiting | Entry_Over

datatype supervisor_pc = Sup_None | Sup_Running | Sup_Draining time | Sup_Cancelling time | Sup_Over

record server =
  sv_registry :: registry
  sv_phase :: server_phase
  handled :: nat
  grace_ms :: time
  cancel_grace_ms :: time
  listening :: bool
  has_handler :: bool
  entry :: entry_pc
  supervisor :: supervisor_pc
  last_report :: shutdown_report
  clock :: time
  cancel_requests :: "nat set"

definition no_report :: shutdown_report where
  "no_report = \<lparr>drained = False, unfinished = 0\<rparr>"

definition task_pending :: "'a server_scheme \<Rightarrow> bool" where
  "task_pending s = (entry s = Entry_Waiting \<or> supervisor s \<notin> {Sup_None, Sup_Over})"

text \<open>\<open>set_config\<close>: the grace periods and the bound on the handlers.\<close>

definition server_set_config :: "nat \<Rightarrow> time \<Rightarrow> time \<Rightarrow> 'a server_scheme \<Rightarrow> 'a server_scheme result" where
  "server_set_config cap g cg s =
    (if g < 0 \<or> cg < 0 then Inl InvalidArgument
     else Inr (s\<lparr>sv_registry := set_capacity cap (sv_registry s), grace_ms := g, cancel_grace_ms := cg\<rparr>))"

text \<open>\<open>start\<close>; \<open>bound\<close> is the result of \<open>bind_listen\<close>, \<open>g\<close> and \<open>cg\<close> the configured grace periods.\<close>

definition server_start :: "bool \<Rightarrow> time \<Rightarrow> time \<Rightarrow> 'a server_scheme \<Rightarrow> bool \<times> 'a server_scheme" where
  "server_start bound g cg s =
    (if sv_phase s \<noteq> Phase_Idle \<and> sv_phase s \<noteq> Phase_Stopped then (False, s)
     else if \<not> has_handler s then (False, s)
     else if \<not> registry_empty (sv_registry s) \<or> task_pending s then (False, s)
     else if \<not> bound then (False, s)
     else (True, s\<lparr>listening := True, last_report := no_report, grace_ms := g, cancel_grace_ms := cg, sv_phase := Phase_Running,
                   entry := Entry_Waiting, supervisor := Sup_Running\<rparr>))"

definition stop_request :: "'a server_scheme \<Rightarrow> 'a server_scheme" where
  "stop_request s =
    (if sv_phase s = Phase_Running then s\<lparr>sv_phase := Phase_Draining, listening := False\<rparr> else s)"

definition cancel_handlers :: "'a server_scheme \<Rightarrow> 'a server_scheme" where
  "cancel_handlers s = s\<lparr>cancel_requests := cancel_requests s \<union> set (request_cancel_all (sv_registry s))\<rparr>"

definition server_stop :: "'a server_scheme \<Rightarrow> 'a server_scheme" where
  "server_stop s =
    (let s = stop_request s
     in cancel_handlers (if sv_phase s = Phase_Draining then s\<lparr>sv_phase := Phase_Cancelling\<rparr> else s))"

text \<open>\<open>shutdown\<close> up to its first wait, and what its waits wait for.\<close>

definition shutdown_begin :: "time \<Rightarrow> time \<Rightarrow> 'a server_scheme \<Rightarrow> 'a server_scheme result" where
  "shutdown_begin g cg s =
    (if g < 0 \<or> cg < 0 then Inl InvalidArgument
     else if sv_phase s = Phase_Idle then Inr (s\<lparr>last_report := \<lparr>drained = True, unfinished = 0\<rparr>, sv_phase := Phase_Stopped\<rparr>)
     else Inr (stop_request (s\<lparr>grace_ms := g, cancel_grace_ms := cg\<rparr>)))"

definition shutdown_done :: "'a server_scheme \<Rightarrow> bool" where
  "shutdown_done s = (sv_phase s = Phase_Stopped \<and> \<not> task_pending s)"

text \<open>The entry task's end, its scope included.\<close>

definition entry_exit :: "'a server_scheme \<Rightarrow> 'a server_scheme" where
  "entry_exit s =
    s\<lparr>entry := Entry_Over, sv_phase := (if sv_phase s = Phase_Running then Phase_Draining else sv_phase s)\<rparr>"

text \<open>\<open>accept_loop\<close> when \<open>accept\<close> returns: a connection for the handler with number \<open>e\<close>, an error that
  passes, or another error. The result also says whether the connection has been closed.\<close>

datatype accepted = Connection nat | Transient_Error | Fatal_Error

definition accept_step :: "accepted \<Rightarrow> 'a server_scheme \<Rightarrow> bool \<times> 'a server_scheme" where
  "accept_step c s =
    (case c of
       Connection e \<Rightarrow>
         if sv_phase s \<noteq> Phase_Running then (True, entry_exit s)
         else (case registry_spawn e (sv_registry s) of
                 (leased, r) \<Rightarrow> (\<not> leased, s\<lparr>handled := handled s + 1, sv_registry := r\<rparr>))
     | Transient_Error \<Rightarrow> if sv_phase s \<noteq> Phase_Running then (False, entry_exit s) else (False, s)
     | Fatal_Error \<Rightarrow> (False, entry_exit s))"

text \<open>A handler ends; \<open>connection_handler\<close> and \<open>datagram_handler\<close> keep its exceptions to themselves.\<close>

definition handler_end :: "nat \<Rightarrow> 'a server_scheme \<Rightarrow> 'a server_scheme" where
  "handler_end e s = s\<lparr>sv_registry := runner_end e None (sv_registry s)\<rparr>"

text \<open>\<open>supervisor\<close>, from each of its waits to the next.\<close>

definition sup_finish :: "'a server_scheme \<Rightarrow> 'a server_scheme" where
  "sup_finish s =
    s\<lparr>last_report := \<lparr>drained = registry_empty (sv_registry s), unfinished = registry_size (sv_registry s)\<rparr>,
      sv_phase := Phase_Stopped, listening := False, supervisor := Sup_Over\<rparr>"

definition sup_cancelling :: "time \<Rightarrow> 'a server_scheme \<Rightarrow> 'a server_scheme" where
  "sup_cancelling d s =
    (if \<not> registry_empty (sv_registry s) \<and> clock s < d then s\<lparr>supervisor := Sup_Cancelling d\<rparr> else sup_finish s)"

definition sup_draining :: "time \<Rightarrow> 'a server_scheme \<Rightarrow> 'a server_scheme" where
  "sup_draining d s =
    (if \<not> registry_empty (sv_registry s) \<and> clock s < d \<and> sv_phase s \<noteq> Phase_Cancelling then s\<lparr>supervisor := Sup_Draining d\<rparr>
     else if \<not> registry_empty (sv_registry s)
     then sup_cancelling (clock s + cancel_grace_ms s) (cancel_handlers (s\<lparr>sv_phase := Phase_Cancelling\<rparr>))
     else sup_finish s)"

definition sup_step :: "'a server_scheme \<Rightarrow> 'a server_scheme" where
  "sup_step s =
    (case supervisor s of
       Sup_Running \<Rightarrow> if sv_phase s = Phase_Running then s else sup_draining (clock s + grace_ms s) s
     | Sup_Draining d \<Rightarrow> sup_draining d s
     | Sup_Cancelling d \<Rightarrow> sup_cancelling d s
     | _ \<Rightarrow> s)"

definition tick :: "time \<Rightarrow> 'a server_scheme \<Rightarrow> 'a server_scheme" where
  "tick t s = s\<lparr>clock := clock s + t\<rparr>"

definition tcp_new :: "nat \<Rightarrow> bool \<Rightarrow> server" where
  "tcp_new cap h = \<lparr>sv_registry = registry_new cap, sv_phase = Phase_Idle, handled = 0, grace_ms = 1000, cancel_grace_ms = 500,
     listening = False, has_handler = h, entry = Entry_None, supervisor = Sup_None, last_report = no_report, clock = 0,
     cancel_requests = {}\<rparr>"

inductive tcp_step :: "server \<Rightarrow> server \<Rightarrow> bool" where
  sv_start: "server_start True g cg s = (True, s') \<Longrightarrow> 0 \<le> g \<Longrightarrow> 0 \<le> cg \<Longrightarrow> tcp_step s s'"
| sv_stop_request: "tcp_step s (stop_request s)"
| sv_stop: "tcp_step s (server_stop s)"
| sv_shutdown: "shutdown_begin g cg s = Inr s' \<Longrightarrow> tcp_step s s'"
| sv_accept: "entry s = Entry_Waiting \<Longrightarrow> (\<forall>e. c = Connection e \<longrightarrow> phase (sv_registry s) e = None) \<Longrightarrow>
    tcp_step s (snd (accept_step c s))"
| sv_handler_end: "phase (sv_registry s) e = Some Live \<Longrightarrow> tcp_step s (handler_end e s)"
| sv_supervisor: "tcp_step s (sup_step s)"
| sv_tick: "0 \<le> t \<Longrightarrow> tcp_step s (tick t s)"

definition tcp_start :: "server \<Rightarrow> bool" where
  "tcp_start s \<longleftrightarrow> (\<exists>cap h. s = tcp_new cap h)"

subsection \<open>The bytes of the UDP server\<close>

record udp_server = server +
  pending_bytes :: nat
  bytes_dropped :: nat
  truncated :: nat
  buffer_size :: nat
  max_pending_bytes :: nat
  datagram :: "nat \<Rightarrow> nat"

definition size_limit :: nat where
  "size_limit = 2 ^ 64 - 1"

definition reserve_bytes :: "nat \<Rightarrow> nat \<Rightarrow> udp_server \<Rightarrow> bool \<times> udp_server" where
  "reserve_bytes need limit s =
    (let ceiling = (if limit = 0 then size_limit else limit)
     in if pending_bytes s > ceiling \<or> need > ceiling - pending_bytes s then (False, s)
        else (True, s\<lparr>pending_bytes := pending_bytes s + need\<rparr>))"

definition release_bytes :: "nat \<Rightarrow> udp_server \<Rightarrow> udp_server" where
  "release_bytes freed s = s\<lparr>pending_bytes := pending_bytes s - freed\<rparr>"

text \<open>\<open>recv_loop\<close> when \<open>recvfrom\<close> returns \<open>n\<close> bytes, or an error (\<open>None\<close>); \<open>e\<close> is the number of the handler.
  A datagram the registry refuses gives its reservation back.\<close>

definition recv_step :: "nat \<Rightarrow> nat option \<Rightarrow> udp_server \<Rightarrow> udp_server" where
  "recv_step e got s =
    (case got of
       None \<Rightarrow> entry_exit s
     | Some n \<Rightarrow>
         if sv_phase s \<noteq> Phase_Running then entry_exit s
         else
           let s = s\<lparr>handled := handled s + 1, truncated := truncated s + (if n = buffer_size s then 1 else 0)\<rparr>
           in case reserve_bytes n (max_pending_bytes s) s of
                (False, s) \<Rightarrow> s\<lparr>bytes_dropped := bytes_dropped s + 1\<rparr>
              | (True, s) \<Rightarrow>
                  (case registry_spawn e (sv_registry s) of
                     (True, r) \<Rightarrow> s\<lparr>sv_registry := r, datagram := (datagram s)(e := n)\<rparr>
                   | (False, r) \<Rightarrow> release_bytes n (s\<lparr>sv_registry := r\<rparr>)))"

definition datagram_end :: "nat \<Rightarrow> udp_server \<Rightarrow> udp_server" where
  "datagram_end e s = release_bytes (datagram s e) (handler_end e s)"

definition udp_new :: "nat \<Rightarrow> bool \<Rightarrow> nat \<Rightarrow> nat \<Rightarrow> udp_server" where
  "udp_new cap h buf limit = server.extend (tcp_new cap h)
     (udp_server.fields 0 0 0 buf limit (\<lambda>_. 0))"

definition udp_set_config :: "nat \<Rightarrow> nat \<Rightarrow> time \<Rightarrow> time \<Rightarrow> udp_server \<Rightarrow> udp_server result" where
  "udp_set_config datagram_max cap g cg s =
    (if datagram_max = 0 \<or> datagram_max > 65535 then Inl InvalidArgument else server_set_config cap g cg s)"

inductive udp_step :: "udp_server \<Rightarrow> udp_server \<Rightarrow> bool" where
  us_start: "server_start True g cg s = (True, s') \<Longrightarrow> 0 \<le> g \<Longrightarrow> 0 \<le> cg \<Longrightarrow> udp_step s s'"
| us_stop_request: "udp_step s (stop_request s)"
| us_stop: "udp_step s (server_stop s)"
| us_shutdown: "shutdown_begin g cg s = Inr s' \<Longrightarrow> udp_step s s'"
| us_recv: "entry s = Entry_Waiting \<Longrightarrow> phase (sv_registry s) e = None \<Longrightarrow> udp_step s (recv_step e got s)"
| us_end: "phase (sv_registry s) e = Some Live \<Longrightarrow> udp_step s (datagram_end e s)"
| us_supervisor: "udp_step s (sup_step s)"
| us_tick: "0 \<le> t \<Longrightarrow> udp_step s (tick t s)"

definition udp_start :: "udp_server \<Rightarrow> bool" where
  "udp_start s \<longleftrightarrow> (\<exists>cap h buf limit. limit \<le> size_limit \<and> s = udp_new cap h buf limit)"

subsection \<open>The invariant of both servers\<close>

fun phases_agree :: "server_phase \<Rightarrow> supervisor_pc \<Rightarrow> bool" where
  "phases_agree Phase_Idle p = (p = Sup_None)"
| "phases_agree Phase_Running p = (p = Sup_Running)"
| "phases_agree Phase_Draining p = (p \<notin> {Sup_None, Sup_Over})"
| "phases_agree Phase_Cancelling p = (p \<notin> {Sup_None, Sup_Over})"
| "phases_agree Phase_Stopped p = (p \<in> {Sup_None, Sup_Over})"

definition report_ok :: "'a server_scheme \<Rightarrow> bool" where
  "report_ok s \<longleftrightarrow>
    (sv_phase s = Phase_Stopped \<longrightarrow>
      (drained (last_report s) \<longleftrightarrow> unfinished (last_report s) = 0) \<and> registry_size (sv_registry s) \<le> unfinished (last_report s)) \<and>
    (sv_phase s = Phase_Idle \<longrightarrow> registry_empty (sv_registry s))"

definition server_ok :: "'a server_scheme \<Rightarrow> bool" where
  "server_ok s \<longleftrightarrow> local_inv (sv_registry s) \<and> phases_agree (sv_phase s) (supervisor s) \<and> report_ok s"

lemma stop_request_ok: "server_ok s \<Longrightarrow> server_ok (stop_request s)"
  by (auto simp: server_ok_def stop_request_def report_ok_def)

lemma server_stop_ok:
  assumes "server_ok s"
  shows "server_ok (server_stop s)"
proof -
  have c: "server_ok (cancel_handlers t) = server_ok t" for t :: "'a server_scheme"
    by (simp add: server_ok_def cancel_handlers_def report_ok_def)
  have "server_ok (t\<lparr>sv_phase := Phase_Cancelling\<rparr>)" if "server_ok t" "sv_phase t = Phase_Draining" for t :: "'a server_scheme"
    using that by (simp add: server_ok_def report_ok_def)
  then show ?thesis using stop_request_ok [OF assms] by (simp add: server_stop_def Let_def c)
qed

lemma start_ok: "server_ok s \<Longrightarrow> server_start b g cg s = (True, s') \<Longrightarrow> server_ok s'"
  by (auto simp: server_ok_def server_start_def report_ok_def split: if_splits)

lemma shutdown_ok: "server_ok s \<Longrightarrow> shutdown_begin g cg s = Inr s' \<Longrightarrow> server_ok s'"
  by (auto simp: server_ok_def shutdown_begin_def stop_request_def report_ok_def registry_empty_def split: if_splits)

lemma entry_exit_ok: "server_ok s \<Longrightarrow> server_ok (entry_exit s)"
  by (auto simp: server_ok_def entry_exit_def report_ok_def)

lemma sup_finish_ok: "server_ok s \<Longrightarrow> server_ok (sup_finish s)"
  by (simp add: server_ok_def sup_finish_def report_ok_def registry_empty_def)

lemma sup_cancelling_ok:
  "server_ok s \<Longrightarrow> supervisor s \<notin> {Sup_None, Sup_Over} \<Longrightarrow> sv_phase s \<noteq> Phase_Running \<Longrightarrow> server_ok (sup_cancelling d s)"
  by (cases "sv_phase s") (simp_all add: sup_cancelling_def sup_finish_ok, simp_all add: server_ok_def report_ok_def)

lemma sup_draining_ok:
  assumes "server_ok s" "supervisor s \<notin> {Sup_None, Sup_Over}" "sv_phase s \<noteq> Phase_Running"
  shows "server_ok (sup_draining d s)"
proof -
  have p: "sv_phase s \<in> {Phase_Draining, Phase_Cancelling}" using assms by (cases "sv_phase s") (auto simp: server_ok_def)
  have "server_ok (cancel_handlers (s\<lparr>sv_phase := Phase_Cancelling\<rparr>))"
    using assms(1,2) by (simp add: server_ok_def cancel_handlers_def report_ok_def)
  then have "server_ok (sup_cancelling d' (cancel_handlers (s\<lparr>sv_phase := Phase_Cancelling\<rparr>)))" for d'
    using assms(2) by (intro sup_cancelling_ok) (simp_all add: cancel_handlers_def)
  moreover have "server_ok (s\<lparr>supervisor := Sup_Draining d\<rparr>)" using assms(1) p by (auto simp: server_ok_def report_ok_def)
  ultimately show ?thesis using sup_finish_ok [OF assms(1)] unfolding sup_draining_def by auto
qed

lemma sup_step_ok:
  assumes "server_ok s"
  shows "server_ok (sup_step s)"
proof (cases "supervisor s")
  case (Sup_Draining d)
  then have "sv_phase s \<noteq> Phase_Running" using assms by (auto simp: server_ok_def)
  then show ?thesis using sup_draining_ok [OF assms] Sup_Draining by (simp add: sup_step_def)
next
  case (Sup_Cancelling d)
  then have "sv_phase s \<noteq> Phase_Running" using assms by (auto simp: server_ok_def)
  then show ?thesis using sup_cancelling_ok [OF assms] Sup_Cancelling by (simp add: sup_step_def)
next
  case Sup_Running
  then show ?thesis using sup_draining_ok [OF assms] assms by (simp add: sup_step_def)
qed (use assms in \<open>simp_all add: sup_step_def\<close>)

lemma tick_ok: "server_ok s \<Longrightarrow> server_ok (tick t s)"
  by (simp add: server_ok_def tick_def report_ok_def)

lemma runner_size:
  assumes "local_inv r" "phase r e = Some Live"
  shows "registry_size (runner_end e None r) \<le> registry_size r" "entries (runner_end e None r) = remove1 e (entries r)"
    "phase (runner_end e None r) = (phase r)(e \<mapsto> Finished)"
  using finish_eq [OF assms(2)] by (simp_all add: runner_end_def registry_size_def registry_event_set_def gone_def)

lemma handler_end_ok:
  assumes "server_ok s" "phase (sv_registry s) e = Some Live"
  shows "server_ok (handler_end e s)"
proof -
  have l: "local_inv (sv_registry s)" using assms(1) by (simp add: server_ok_def)
  then have "registry_size (runner_end e None (sv_registry s)) \<le> registry_size (sv_registry s)" using runner_size [OF _ assms(2)] by simp
  then show ?thesis using assms runner_local [OF l assms(2)]
    by (auto simp: server_ok_def handler_end_def report_ok_def registry_empty_def)
qed

lemma accept_ok:
  assumes "server_ok s" "\<forall>e. c = Connection e \<longrightarrow> phase (sv_registry s) e = None"
  shows "server_ok (snd (accept_step c s))"
proof (cases c)
  case (Connection e)
  then have "local_inv (snd (registry_spawn e (sv_registry s)))"
    using assms spawn_local [of "sv_registry s" e] by (simp add: server_ok_def)
  then show ?thesis using assms(1) Connection entry_exit_ok [OF assms(1)]
    by (auto simp: accept_step_def server_ok_def report_ok_def split: prod.split)
qed (use assms entry_exit_ok [OF assms(1)] in \<open>simp_all add: accept_step_def\<close>)

interpretation tcp_servers: inductive_invariant tcp_start tcp_step server_ok
proof
  show "server_ok s" if s: "tcp_start s" for s
  proof -
    obtain cap h where n: "s = tcp_new cap h" using s by (auto simp: tcp_start_def)
    have "local_inv (registry_new cap)" by (rule local_registries.inv_init [of cap]) (simp add: reg_start_def)
    then show ?thesis by (simp add: n tcp_new_def server_ok_def report_ok_def registry_empty_def registry_size_def registry_new_def)
  qed
next
  show "server_ok t" if "server_ok s" "tcp_step s t" for s t
    using that(2,1)
  proof (induction rule: tcp_step.induct)
    case (sv_start g cg s s')
    then show ?case using start_ok by blast
  next
    case (sv_shutdown g cg s s')
    then show ?case using shutdown_ok by blast
  qed (simp_all add: stop_request_ok server_stop_ok accept_ok handler_end_ok sup_step_ok tick_ok)
qed


subsection \<open>The bytes in flight\<close>

definition byte_ceiling :: "udp_server \<Rightarrow> nat" where
  "byte_ceiling s = (if max_pending_bytes s = 0 then size_limit else max_pending_bytes s)"

definition bytes_ok :: "udp_server \<Rightarrow> bool" where
  "bytes_ok s \<longleftrightarrow>
    pending_bytes s = sum_list (map (datagram s) (entries (sv_registry s))) \<and> pending_bytes s \<le> byte_ceiling s \<and> byte_ceiling s \<le> size_limit"

definition same_bytes :: "udp_server \<Rightarrow> udp_server \<Rightarrow> bool" where
  "same_bytes s t \<longleftrightarrow> sv_registry t = sv_registry s \<and> pending_bytes t = pending_bytes s \<and> datagram t = datagram s \<and>
    max_pending_bytes t = max_pending_bytes s"

lemma same_bytes_ok: "same_bytes s t \<Longrightarrow> bytes_ok s \<Longrightarrow> bytes_ok t"
  by (auto simp: same_bytes_def bytes_ok_def byte_ceiling_def)

lemma lifecycle_bytes:
  "same_bytes s (stop_request s)" "same_bytes s (server_stop s)" "same_bytes s (tick t s)" "same_bytes s (entry_exit s)"
  by (simp_all add: same_bytes_def stop_request_def server_stop_def cancel_handlers_def tick_def entry_exit_def Let_def)

lemma start_bytes: "server_start b g cg s = (True, s') \<Longrightarrow> same_bytes s s'"
  by (auto simp: server_start_def same_bytes_def split: if_splits)

lemma shutdown_bytes: "shutdown_begin g cg s = Inr s' \<Longrightarrow> same_bytes s s'"
  by (auto simp: shutdown_begin_def same_bytes_def stop_request_def split: if_splits)

lemma sup_bytes: "same_bytes s (sup_step s)"
  by (cases "supervisor s")
    (simp_all add: sup_step_def sup_draining_def sup_cancelling_def sup_finish_def cancel_handlers_def same_bytes_def)

lemma recv_exit: "got = None \<or> sv_phase s \<noteq> Phase_Running \<Longrightarrow> recv_step e got s = entry_exit s"
  by (cases got) (simp_all add: recv_step_def)

lemma recv_server_ok:
  assumes "server_ok s" "phase (sv_registry s) e = None"
  shows "server_ok (recv_step e got s)"
proof -
  have keep: "server_ok (t\<lparr>sv_registry := snd (registry_spawn e (sv_registry t))\<rparr>)"
    if "server_ok t" "phase (sv_registry t) e = None" "sv_phase t = Phase_Running" for t :: udp_server
    using that spawn_local [of "sv_registry t" e] by (simp add: server_ok_def report_ok_def)
  have upd: "server_ok t' \<longleftrightarrow> server_ok t"
    if "sv_registry t' = sv_registry t" "sv_phase t' = sv_phase t" "supervisor t' = supervisor t" "last_report t' = last_report t"
    for t t' :: udp_server
    using that by (simp add: server_ok_def report_ok_def)
  show ?thesis
  proof (cases "got = None \<or> sv_phase s \<noteq> Phase_Running")
    case True
    then show ?thesis using entry_exit_ok [OF assms(1)] by (simp add: recv_exit)
  next
    case False
    obtain leased r where sp: "registry_spawn e (sv_registry s) = (leased, r)" by fastforce
    have "server_ok (s\<lparr>sv_registry := r\<rparr>)" using keep [OF assms] False sp by simp
    then have "server_ok t" if "sv_registry t \<in> {r, sv_registry s}" "sv_phase t = sv_phase s" "supervisor t = supervisor s"
        "last_report t = last_report s" for t :: udp_server
      using that upd [of t s] upd [of t "s\<lparr>sv_registry := r\<rparr>"] assms(1) by auto
    then show ?thesis using False sp
      by (auto simp: recv_step_def reserve_bytes_def release_bytes_def Let_def split: bool.split)
  qed
qed

lemma recv_bytes_ok:
  assumes "bytes_ok s" "e \<notin> set (entries (sv_registry s))"
  shows "bytes_ok (recv_step e got s)"
proof (cases "got = None \<or> sv_phase s \<noteq> Phase_Running")
  case True
  then show ?thesis using same_bytes_ok [OF lifecycle_bytes(4) assms(1)] by (simp add: recv_exit)
next
  case False
  then obtain n where n: "got = Some n" "sv_phase s = Phase_Running" by auto
  have "map ((datagram s)(e := n)) (entries (sv_registry s)) = map (datagram s) (entries (sv_registry s))"
    using assms(2) by auto
  then have m: "sum_list (map ((datagram s)(e := n)) (entries (sv_registry s))) = sum_list (map (datagram s) (entries (sv_registry s)))"
    by (rule arg_cong)
  show ?thesis using assms(1) n m
    by (auto simp: recv_step_def reserve_bytes_def release_bytes_def registry_spawn_def set_entry_def bytes_ok_def byte_ceiling_def Let_def)
qed

lemma datagram_end_bytes:
  assumes "bytes_ok s" "local_inv (sv_registry s)" "phase (sv_registry s) e = Some Live"
  shows "bytes_ok (datagram_end e s)"
proof -
  have e: "e \<in> set (entries (sv_registry s))" using assms(2,3) by (simp add: local_inv_def)
  have "sum_list (map (datagram s) (entries (sv_registry s))) =
      datagram s e + sum_list (map (datagram s) (remove1 e (entries (sv_registry s))))"
    by (rule sum_list_map_remove1 [OF e])
  then show ?thesis using assms(1) runner_size(2) [OF assms(2,3)]
    by (auto simp: bytes_ok_def datagram_end_def release_bytes_def handler_end_def byte_ceiling_def)
qed

lemma datagram_end_ok:
  assumes "server_ok s" "phase (sv_registry s) e = Some Live"
  shows "server_ok (datagram_end e s)"
  using handler_end_ok [OF assms] by (simp add: datagram_end_def release_bytes_def server_ok_def report_ok_def)

interpretation udp_servers: inductive_invariant udp_start udp_step "\<lambda>s. server_ok s \<and> bytes_ok s"
proof
  show "server_ok s \<and> bytes_ok s" if s: "udp_start s" for s
  proof -
    obtain cap h buf limit where n: "s = udp_new cap h buf limit" "limit \<le> size_limit" using s by (auto simp: udp_start_def)
    have "local_inv (registry_new cap)" by (rule local_registries.inv_init [of cap]) (simp add: reg_start_def)
    then show ?thesis using n(2)
      by (simp add: n(1) udp_new_def server.defs udp_server.defs tcp_new_def server_ok_def report_ok_def bytes_ok_def byte_ceiling_def
          registry_empty_def registry_size_def registry_new_def)
  qed
next
  show "server_ok t \<and> bytes_ok t" if "server_ok s \<and> bytes_ok s" "udp_step s t" for s t
    using that(2,1)
  proof (induction rule: udp_step.induct)
    case (us_start g cg s s')
    then show ?case using start_ok same_bytes_ok [OF start_bytes] by blast
  next
    case (us_shutdown g cg s s')
    then show ?case using shutdown_ok same_bytes_ok [OF shutdown_bytes] by blast
  next
    case (us_recv s e got)
    then have "e \<notin> set (entries (sv_registry s))" by (auto simp: server_ok_def local_inv_def)
    then show ?case using us_recv by (simp add: recv_server_ok recv_bytes_ok)
  next
    case (us_end s e)
    have "local_inv (sv_registry s)" using us_end.prems by (simp add: server_ok_def)
    then show ?case using us_end datagram_end_bytes datagram_end_ok by blast
  qed (auto intro: stop_request_ok server_stop_ok sup_step_ok tick_ok same_bytes_ok lifecycle_bytes sup_bytes)
qed


subsection \<open>Properties\<close>


definition drain_left :: "'a server_scheme \<Rightarrow> time" where
  "drain_left s = (case supervisor s of Sup_Running \<Rightarrow> grace_ms s | Sup_Draining d \<Rightarrow> d - clock s | _ \<Rightarrow> 0)"

definition cancel_left :: "'a server_scheme \<Rightarrow> time" where
  "cancel_left s = (case supervisor s of Sup_Cancelling d \<Rightarrow> d - clock s | _ \<Rightarrow> cancel_grace_ms s)"

lemma sup_draining_cases:
  "supervisor (sup_draining d s) = Sup_Draining d \<and> clock s < d \<or>
   supervisor (sup_draining d s) = Sup_Cancelling (clock s + cancel_grace_ms s) \<or> supervisor (sup_draining d s) = Sup_Over"
  by (auto simp: sup_draining_def sup_cancelling_def sup_finish_def cancel_handlers_def)

lemma over_stopped: "server_ok s \<Longrightarrow> supervisor s = Sup_Over \<Longrightarrow> sv_phase s = Phase_Stopped"
  by (cases "sv_phase s") (auto simp: server_ok_def)

lemma cancelling_stops:
  assumes "supervisor s = Sup_Cancelling d" "d \<le> clock s"
  shows "sv_phase (sup_step s) = Phase_Stopped"
  using assms by (simp add: sup_step_def sup_cancelling_def sup_finish_def)

text \<open>C29. A shutdown ends in time, whatever the handlers do: when the server has left the running phase,
  the third look of its supervisor finds it stopped, if the grace period has passed between the first
  two looks and the cancellation's grace period between the last two. Between the looks anything may
  happen (\<open>s1\<close> and \<open>s2\<close> are any states of the server in which the supervisor is where it was left).\<close>

theorem shutdown_ends_in_time:
  assumes "reachable tcp_start tcp_step s" "sv_phase s \<in> {Phase_Draining, Phase_Cancelling}"
    and "reachable tcp_start tcp_step s1" "supervisor s1 = supervisor (sup_step s)" "clock s + drain_left s \<le> clock s1"
    and "reachable tcp_start tcp_step s2" "supervisor s2 = supervisor (sup_step s1)" "clock s1 + cancel_left s1 \<le> clock s2"
  shows "sv_phase (sup_step s2) = Phase_Stopped"
proof -
  note ok = tcp_servers.invariant_reachable
  have over: ?thesis if "supervisor s2 = Sup_Over" using over_stopped [OF ok [OF assms(6)] that] that by (simp add: sup_step_def)
  have c1: ?thesis if "supervisor s1 = Sup_Cancelling d" for d
  proof -
    have "supervisor s2 = Sup_Cancelling d \<or> supervisor s2 = Sup_Over"
      using that assms(7) by (simp add: sup_step_def sup_cancelling_def sup_finish_def)
    then show ?thesis using that assms(8) over cancelling_stops [of s2 d] by (auto simp: cancel_left_def)
  qed
  have d1: ?thesis if "supervisor s1 = Sup_Draining d" "d \<le> clock s1" for d
  proof -
    have "supervisor s2 = Sup_Cancelling (clock s1 + cancel_grace_ms s1) \<or> supervisor s2 = Sup_Over"
      using sup_draining_cases [of d s1] that assms(7) by (simp add: sup_step_def)
    then show ?thesis using that(1) assms(8) over cancelling_stops [of s2 "clock s1 + cancel_grace_ms s1"] by (auto simp: cancel_left_def)
  qed
  have o1: ?thesis if "supervisor s1 = Sup_Over" using over that assms(7) by (simp add: sup_step_def)
  have pcs: "supervisor s \<notin> {Sup_None, Sup_Over}" using ok [OF assms(1)] assms(2) by (auto simp: server_ok_def)
  show ?thesis
  proof (cases "supervisor s")
    case Sup_Running
    then have "supervisor s1 = supervisor (sup_draining (clock s + grace_ms s) s)" using assms(2,4) by (auto simp: sup_step_def)
    then show ?thesis using sup_draining_cases [of "clock s + grace_ms s" s] Sup_Running assms(5) c1 d1 o1 by (auto simp: drain_left_def)
  next
    case (Sup_Draining d)
    then have "supervisor s1 = supervisor (sup_draining d s)" using assms(4) by (simp add: sup_step_def)
    then show ?thesis using sup_draining_cases [of d s] Sup_Draining assms(5) c1 d1 o1 by (auto simp: drain_left_def)
  next
    case (Sup_Cancelling d)
    then have "supervisor s1 = Sup_Cancelling d \<or> supervisor s1 = Sup_Over"
      using assms(4) by (simp add: sup_step_def sup_cancelling_def sup_finish_def)
    then show ?thesis using c1 o1 by auto
  qed (use pcs in simp_all)
qed



subsection \<open>A run of each server\<close>

definition demo_running :: server where
  "demo_running = snd (accept_step (Connection 7) (snd (server_start True 1000 500 (tcp_new 0 True))))"

definition demo_draining :: server where
  "demo_draining = stop_request demo_running"

definition demo_waiting :: server where
  "demo_waiting = tick 1000 (sup_step demo_draining)"

definition demo_cancelling :: server where
  "demo_cancelling = tick 500 (sup_step demo_waiting)"

definition demo_registry :: registry where
  "demo_registry = snd (registry_spawn 7 (registry_new 0))"

lemmas server_defs =
  accept_step_def server_start_def task_pending_def tcp_new_def stop_request_def tick_def sup_step_def sup_draining_def sup_cancelling_def
  sup_finish_def cancel_handlers_def no_report_def

lemma demo_registry_facts:
  "registry_spawn 7 (registry_new 0) = (True, demo_registry)" "registry_size demo_registry = 1" "registry_empty (registry_new 0)"
  "\<not> registry_empty demo_registry"
  by (simp_all add: demo_registry_def registry_spawn_def registry_new_def registry_size_def registry_empty_def set_entry_def)

lemma demo_states:
  "sv_phase demo_running = Phase_Running" "sv_registry demo_running = demo_registry" "entry demo_running = Entry_Waiting"
  "supervisor demo_running = Sup_Running" "clock demo_running = 0" "grace_ms demo_running = 1000" "cancel_grace_ms demo_running = 500"
  by (simp_all add: demo_running_def server_defs demo_registry_facts)

lemma demo_draining_states:
  "sv_phase demo_draining = Phase_Draining" "drain_left demo_draining = 1000" "clock demo_draining = 0"
  "supervisor demo_waiting = supervisor (sup_step demo_draining)" "clock demo_waiting = 1000" "cancel_left demo_waiting = 500"
  "supervisor demo_cancelling = supervisor (sup_step demo_waiting)" "clock demo_cancelling = 1500"
  by (simp_all add: demo_draining_def demo_waiting_def demo_cancelling_def stop_request_def tick_def sup_step_def sup_draining_def
      sup_cancelling_def cancel_handlers_def drain_left_def cancel_left_def demo_states demo_registry_facts)

lemma tcp_reach:
  assumes "reachable tcp_start tcp_step s"
  shows "reachable tcp_start tcp_step (sup_step s)" "reachable tcp_start tcp_step (stop_request s)"
    "0 \<le> t \<Longrightarrow> reachable tcp_start tcp_step (tick t s)"
  using assms by (auto intro: reachable.reachable_step tcp_step.intros)

lemma demo_reachable:
  "reachable tcp_start tcp_step demo_draining" "reachable tcp_start tcp_step demo_waiting" "reachable tcp_start tcp_step demo_cancelling"
proof -
  let ?s = "snd (server_start True 1000 500 (tcp_new 0 True))"
  have "reachable tcp_start tcp_step (tcp_new 0 True)" by (rule reachable.reachable_init) (auto simp: tcp_start_def)
  moreover have "tcp_step (tcp_new 0 True) ?s"
    by (rule sv_start [of 1000 500]) (simp_all add: server_start_def tcp_new_def task_pending_def demo_registry_facts)
  moreover have "tcp_step ?s demo_running" unfolding demo_running_def
    by (rule sv_accept) (simp_all add: server_start_def tcp_new_def task_pending_def demo_registry_facts registry_new_def registry_empty_def registry_size_def)
  ultimately have "reachable tcp_start tcp_step demo_running" by (blast intro: reachable.reachable_step)
  then show 1: "reachable tcp_start tcp_step demo_draining" unfolding demo_draining_def by (rule tcp_reach)
  show 2: "reachable tcp_start tcp_step demo_waiting" unfolding demo_waiting_def by (intro tcp_reach 1) simp
  show "reachable tcp_start tcp_step demo_cancelling" unfolding demo_cancelling_def by (intro tcp_reach 2) simp
qed

theorem shutdown_ends_in_time_witness: "sv_phase (sup_step demo_cancelling) = Phase_Stopped"
  by (rule shutdown_ends_in_time [OF demo_reachable(1) _ demo_reachable(2) _ _ demo_reachable(3)]) (simp_all add: demo_draining_states)


definition demo_udp :: udp_server where
  "demo_udp = recv_step 7 (Some 60) (snd (server_start True 1000 500 (udp_new 0 True 512 100)))"

lemma demo_udp_facts:
  "sv_phase demo_udp = Phase_Running" "pending_bytes demo_udp = 60" "max_pending_bytes demo_udp = 100" "bytes_dropped demo_udp = 0"
  by (simp_all add: demo_udp_def udp_new_def server.defs udp_server.defs tcp_new_def server_start_def task_pending_def recv_step_def
      reserve_bytes_def demo_registry_facts)


end
