(* ===== verification/Context.thy ===== *)
theory Context
  imports Coro_Prelude
begin

section \<open>Cancellation sources and contexts\<close>

text \<open>
  context.hpp: the state that a cancellation source shares with its tokens and contexts, the awaiter of
  \<open>Context::wait\<close>, shields that put a cancellation off, and the deadlines of contexts. A wait is known
  by its number. Threads that cancel, leave a shield or fire timers interleave with the coroutines at
  each access under the mutex or on an atomic: \<open>await_suspend\<close> joins the list of waiters and then looks
  at the flag again; a thread that wakes the waiters takes one record at a time and then settles its
  outcome and schedules it. \<open>queued\<close> says that an entry for the wait is in its loop's ready queue; a
  live timer entry fires as the event loop does it (the outcome is claimed before the entry is queued).
\<close>

subsection \<open>The shared state\<close>

datatype cancel_outcome = O_Pending | O_Cancelled | O_Timeout

record cancellation_state =
  cancelled :: bool
  waiters :: "nat list"
  shield_depth :: nat
  deferred_cancel :: bool

definition cancellation_new :: cancellation_state where
  "cancellation_new = \<lparr>cancelled = False, waiters = [], shield_depth = 0, deferred_cancel = False\<rparr>"

definition claim_cancel_shielded :: "cancellation_state \<Rightarrow> bool \<times> cancellation_state" where
  "claim_cancel_shielded st =
    (if shield_depth st > 0 then (False, st\<lparr>deferred_cancel := True\<rparr>)
     else if cancelled st then (False, st)
     else (True, st\<lparr>cancelled := True\<rparr>))"

definition shield_enter :: "cancellation_state \<Rightarrow> cancellation_state" where
  "shield_enter st = st\<lparr>shield_depth := shield_depth st + 1\<rparr>"

definition shield_exit :: "cancellation_state \<Rightarrow> bool \<times> cancellation_state" where
  "shield_exit st =
    (let st = (if shield_depth st > 0 then st\<lparr>shield_depth := shield_depth st - 1\<rparr> else st)
     in if shield_depth st = 0 \<and> deferred_cancel st
        then (\<not> cancelled st, st\<lparr>deferred_cancel := False, cancelled := True\<rparr>)
        else (False, st))"

definition take_waiter :: "cancellation_state \<Rightarrow> nat option \<times> cancellation_state" where
  "take_waiter st =
    (if waiters st = [] then (None, st) else (Some (last (waiters st)), st\<lparr>waiters := butlast (waiters st)\<rparr>))"

definition add_waiter :: "nat \<Rightarrow> cancellation_state \<Rightarrow> cancellation_state" where
  "add_waiter a st = st\<lparr>waiters := waiters st @ [a]\<rparr>"

definition drop_waiter :: "nat \<Rightarrow> cancellation_state \<Rightarrow> cancellation_state" where
  "drop_waiter a st = st\<lparr>waiters := remove1 a (waiters st)\<rparr>"

subsection \<open>Waits and the threads around them\<close>

datatype await_pc = A_Added | A_Parked | A_Over

record wait_node =
  pc :: await_pc
  outcome :: cancel_outcome
  deadline :: "time option"
  timer :: bool
  queued :: bool

text \<open>\<open>wakers\<close>: the threads about to take a waiter; \<open>held\<close>: the waiters taken and not yet settled.
  \<open>requested\<close> records that \<open>cancel\<close> has been called.\<close>

record context_run =
  source :: cancellation_state
  nodes :: "nat \<Rightarrow> wait_node option"
  wakers :: nat
  held :: "nat list"
  requested :: bool

definition context_new :: context_run where
  "context_new = \<lparr>source = cancellation_new, nodes = Map.empty, wakers = 0, held = [], requested = False\<rparr>"

definition set_node :: "nat \<Rightarrow> wait_node \<Rightarrow> context_run \<Rightarrow> context_run" where
  "set_node a n w = w\<lparr>nodes := (nodes w)(a \<mapsto> n)\<rparr>"

definition source_cancel :: "context_run \<Rightarrow> context_run" where
  "source_cancel w =
    (case claim_cancel_shielded (source w) of
       (claimed, st) \<Rightarrow> w\<lparr>source := st, wakers := wakers w + (if claimed then 1 else 0), requested := True\<rparr>)"

definition make_shield :: "context_run \<Rightarrow> context_run" where
  "make_shield w = w\<lparr>source := shield_enter (source w)\<rparr>"

definition shield_destroy :: "context_run \<Rightarrow> context_run" where
  "shield_destroy w =
    (case shield_exit (source w) of
       (claimed, st) \<Rightarrow> w\<lparr>source := st, wakers := wakers w + (if claimed then 1 else 0)\<rparr>)"

text \<open>The loop of \<open>wake_waiters\<close>, which the destructor of a shield repeats: taking a record, and settling it.\<close>

definition wake_take :: "context_run \<Rightarrow> context_run" where
  "wake_take w =
    (case take_waiter (source w) of
       (None, st) \<Rightarrow> w\<lparr>source := st, wakers := wakers w - 1\<rparr>
     | (Some a, st) \<Rightarrow> w\<lparr>source := st, wakers := wakers w - 1, held := a # held w\<rparr>)"

definition wake_post :: "nat \<Rightarrow> context_run \<Rightarrow> context_run" where
  "wake_post a w =
    (let w = w\<lparr>held := remove1 a (held w), wakers := wakers w + 1\<rparr>
     in case nodes w a of
          None \<Rightarrow> w
        | Some n \<Rightarrow> if outcome n = O_Pending then set_node a (n\<lparr>outcome := O_Cancelled, queued := True\<rparr>) w else w)"

text \<open>\<open>context_wait_awaiter\<close>.\<close>

definition wait_ready :: "context_run \<Rightarrow> bool" where
  "wait_ready w = cancelled (source w)"

definition retire :: "nat \<Rightarrow> context_run \<Rightarrow> context_run" where
  "retire a w =
    (case nodes w a of
       None \<Rightarrow> w
     | Some n \<Rightarrow> set_node a (n\<lparr>timer := False\<rparr>) (w\<lparr>source := drop_waiter a (source w)\<rparr>))"

definition suspend_add :: "nat \<Rightarrow> time option \<Rightarrow> context_run \<Rightarrow> context_run" where
  "suspend_add a d w =
    set_node a \<lparr>pc = A_Added, outcome = O_Pending, deadline = d, timer = False, queued = False\<rparr>
      (w\<lparr>source := add_waiter a (source w)\<rparr>)"

definition suspend_check :: "nat \<Rightarrow> wait_node \<Rightarrow> context_run \<Rightarrow> context_run" where
  "suspend_check a n w =
    (if cancelled (source w)
     then set_node a (n\<lparr>pc := A_Parked, timer := False, queued := True\<rparr>) (retire a w)
     else set_node a (n\<lparr>pc := A_Parked, timer := (deadline n \<noteq> None)\<rparr>) w)"

definition timer_fires :: "nat \<Rightarrow> wait_node \<Rightarrow> context_run \<Rightarrow> context_run" where
  "timer_fires a n w =
    (if outcome n = O_Pending then set_node a (n\<lparr>outcome := O_Timeout, timer := False, queued := True\<rparr>) w
     else set_node a (n\<lparr>timer := False\<rparr>) w)"

definition wait_result :: "wait_node \<Rightarrow> cancellation_state \<Rightarrow> coro_error" where
  "wait_result n st =
    (case outcome n of
       O_Cancelled \<Rightarrow> CancelledError
     | O_Timeout \<Rightarrow> TimeoutError
     | O_Pending \<Rightarrow> if cancelled st then CancelledError else TimeoutError)"

definition wait_over :: "nat \<Rightarrow> wait_node \<Rightarrow> context_run \<Rightarrow> context_run" where
  "wait_over a n w = set_node a (n\<lparr>pc := A_Over, timer := False, queued := False\<rparr>) (retire a w)"

definition context_resume :: "nat \<Rightarrow> wait_node \<Rightarrow> context_run \<Rightarrow> coro_error \<times> context_run" where
  "context_resume a n w = (let w' = wait_over a n w in (wait_result n (source w'), w'))"

inductive ctx_step :: "context_run \<Rightarrow> context_run \<Rightarrow> bool" where
  cx_cancel: "ctx_step w (source_cancel w)"
| cx_shield: "ctx_step w (make_shield w)"
| cx_unshield: "0 < shield_depth (source w) \<Longrightarrow> ctx_step w (shield_destroy w)"
| cx_take: "0 < wakers w \<Longrightarrow> ctx_step w (wake_take w)"
| cx_post: "a \<in> set (held w) \<Longrightarrow> ctx_step w (wake_post a w)"
| cx_add: "nodes w a = None \<Longrightarrow> ctx_step w (suspend_add a d w)"
| cx_check: "nodes w a = Some n \<Longrightarrow> pc n = A_Added \<Longrightarrow> ctx_step w (suspend_check a n w)"
| cx_timer: "nodes w a = Some n \<Longrightarrow> timer n \<Longrightarrow> ctx_step w (timer_fires a n w)"
| cx_resume: "nodes w a = Some n \<Longrightarrow> pc n = A_Parked \<Longrightarrow> queued n \<Longrightarrow> ctx_step w (snd (context_resume a n w))"
| cx_destroy: "nodes w a = Some n \<Longrightarrow> pc n = A_Parked \<Longrightarrow> ctx_step w (wait_over a n w)"

definition ctx_start :: "context_run \<Rightarrow> bool" where
  "ctx_start w \<longleftrightarrow> w = context_new"

subsection \<open>Contexts\<close>

text \<open>A context is the source it shares, known by its number (\<open>None\<close>: a source of its own that nobody can
  cancel), and its deadline.\<close>

record ctx =
  ctx_state :: "nat option"
  ctx_deadline :: "time option"

definition earlier :: "time option \<Rightarrow> time option \<Rightarrow> time option" where
  "earlier a b = (case a of None \<Rightarrow> b | Some x \<Rightarrow> (case b of None \<Rightarrow> a | Some y \<Rightarrow> if x < y then a else b))"

definition context_from :: "nat option \<Rightarrow> time option \<Rightarrow> ctx" where
  "context_from token d = \<lparr>ctx_state = token, ctx_deadline = d\<rparr>"

definition make_child :: "ctx \<Rightarrow> ctx" where
  "make_child c = c"

definition with_deadline_at :: "time \<Rightarrow> ctx \<Rightarrow> ctx" where
  "with_deadline_at t c = c\<lparr>ctx_deadline := earlier (ctx_deadline c) (Some t)\<rparr>"

definition with_deadline :: "time \<Rightarrow> time \<Rightarrow> ctx \<Rightarrow> ctx" where
  "with_deadline now d c = c\<lparr>ctx_deadline := earlier (ctx_deadline c) (Some (now + d))\<rparr>"

definition deadline_passed :: "time \<Rightarrow> ctx \<Rightarrow> bool" where
  "deadline_passed now c = (case ctx_deadline c of None \<Rightarrow> False | Some d \<Rightarrow> now \<ge> d)"

definition throw_if_cancelled :: "time \<Rightarrow> bool \<Rightarrow> ctx \<Rightarrow> unit result" where
  "throw_if_cancelled now is_cancelled c =
    (if is_cancelled then Inl CancelledError else if deadline_passed now c then Inl TimeoutError else Inr ())"

subsection \<open>The invariant\<close>

definition source_ok :: "context_run \<Rightarrow> bool" where
  "source_ok w \<longleftrightarrow>
    (deferred_cancel (source w) \<longrightarrow> 0 < shield_depth (source w)) \<and>
    (requested w \<longrightarrow> cancelled (source w) \<or> deferred_cancel (source w)) \<and>
    (0 < wakers w \<or> held w \<noteq> [] \<longrightarrow> cancelled (source w)) \<and>
    (cancelled (source w) \<or> deferred_cancel (source w) \<longrightarrow> requested w)"

fun node_ok :: "context_run \<Rightarrow> nat \<Rightarrow> wait_node \<Rightarrow> bool" where
  "node_ok w a n \<longleftrightarrow>
    (pc n = A_Parked \<and> \<not> queued n \<longrightarrow> outcome n = O_Pending \<and> a \<in> set (waiters (source w)) \<union> set (held w)) \<and>
    (pc n = A_Added \<longrightarrow> (outcome n = O_Pending \<longrightarrow> a \<in> set (waiters (source w)) \<union> set (held w)) \<and> \<not> timer n \<and> outcome n \<noteq> O_Timeout) \<and>
    (queued n \<longrightarrow> outcome n \<noteq> O_Pending \<or> cancelled (source w)) \<and>
    (outcome n = O_Cancelled \<longrightarrow> cancelled (source w) \<and> (pc n \<noteq> A_Over \<longrightarrow> queued n)) \<and>
    (outcome n = O_Timeout \<longrightarrow> deadline n \<noteq> None) \<and> (timer n \<longrightarrow> deadline n \<noteq> None) \<and>
    (pc n \<noteq> A_Added \<and> a \<in> set (waiters (source w)) \<and> cancelled (source w) \<longrightarrow> 0 < wakers w \<or> held w \<noteq> [])"

definition ctx_inv :: "context_run \<Rightarrow> bool" where
  "ctx_inv w \<longleftrightarrow> source_ok w \<and> set (waiters (source w)) \<union> set (held w) \<subseteq> dom (nodes w) \<and>
    distinct (waiters (source w)) \<and> (\<forall>a n. nodes w a = Some n \<longrightarrow> node_ok w a n)"

abbreviation linked :: "context_run \<Rightarrow> nat set" where
  "linked w \<equiv> set (waiters (source w)) \<union> set (held w)"

abbreviation waking :: "context_run \<Rightarrow> bool" where
  "waking w \<equiv> 0 < wakers w \<or> held w \<noteq> []"

declare node_ok.simps [simp del]

lemma node_ok_frame:
  assumes "node_ok w a n" "a \<in> linked w \<longrightarrow> a \<in> linked w'" "cancelled (source w) \<longrightarrow> cancelled (source w')"
    and "pc n \<noteq> A_Added \<and> a \<in> set (waiters (source w')) \<and> cancelled (source w') \<longrightarrow> waking w'"
  shows "node_ok w' a n"
  using assms by (auto simp: node_ok.simps)

lemma ctx_inv_frame:
  assumes "ctx_inv w" "nodes w' = nodes w" "source_ok w'" "linked w' = linked w" "distinct (waiters (source w'))"
    and "cancelled (source w) \<longrightarrow> cancelled (source w')"
    and "\<And>a n. nodes w a = Some n \<Longrightarrow> pc n \<noteq> A_Added \<Longrightarrow> a \<in> set (waiters (source w')) \<Longrightarrow> cancelled (source w') \<Longrightarrow> waking w'"
  shows "ctx_inv w'"
proof -
  have "node_ok w' a n" if "nodes w a = Some n" for a n
    by (rule node_ok_frame [of w]) (use assms that in \<open>auto simp: ctx_inv_def\<close>)
  then show ?thesis using assms(1-5) by (simp add: ctx_inv_def)
qed

lemma ctx_inv_upd:
  assumes "ctx_inv w" "nodes w' = (nodes w)(a \<mapsto> n')" "source_ok w'" "linked w' \<subseteq> insert a (dom (nodes w))" "distinct (waiters (source w'))"
    and "cancelled (source w) \<longrightarrow> cancelled (source w')" "node_ok w' a n'"
    and "\<And>b. b \<noteq> a \<Longrightarrow> b \<in> linked w \<Longrightarrow> b \<in> linked w'"
    and "\<And>b n. b \<noteq> a \<Longrightarrow> nodes w b = Some n \<Longrightarrow> pc n \<noteq> A_Added \<Longrightarrow> b \<in> set (waiters (source w')) \<Longrightarrow> cancelled (source w') \<Longrightarrow> waking w'"
  shows "ctx_inv w'"
proof -
  have "node_ok w' b n" if "b \<noteq> a" "nodes w b = Some n" for b n
    by (rule node_ok_frame [of w]) (use assms that in \<open>auto simp: ctx_inv_def\<close>)
  then show ?thesis using assms(2-5,7) by (auto simp: ctx_inv_def)
qed

lemma inv_waking:
  "ctx_inv w \<Longrightarrow> nodes w a = Some n \<Longrightarrow> pc n \<noteq> A_Added \<Longrightarrow> a \<in> set (waiters (source w)) \<Longrightarrow> cancelled (source w) \<Longrightarrow> waking w"
  by (auto simp: ctx_inv_def node_ok.simps)

lemma ctx_inv_source:
  assumes inv: "ctx_inv w" and "nodes w' = nodes w" "held w' = held w" "waiters (source w') = waiters (source w)" "source_ok w'"
    and "wakers w \<le> wakers w'" "cancelled (source w) \<longrightarrow> cancelled (source w')"
    and new: "cancelled (source w') \<and> \<not> cancelled (source w) \<longrightarrow> 0 < wakers w'"
  shows "ctx_inv w'"
proof (rule ctx_inv_frame [OF inv])
  show "distinct (waiters (source w'))" using inv assms(4) by (simp add: ctx_inv_def)
  show "waking w'" if n: "nodes w a = Some n" "pc n \<noteq> A_Added" "a \<in> set (waiters (source w'))" "cancelled (source w')" for a n
  proof (cases "cancelled (source w)")
    case True
    then have "waking w" using inv_waking [OF inv n(1,2)] n(3) assms(4) by simp
    then show ?thesis using assms(3,6) by auto
  qed (use new n(4) in simp)
qed (use assms in auto)

lemma source_ok_steps:
  assumes "source_ok w"
  shows "source_ok (source_cancel w)" "source_ok (make_shield w)" "source_ok (shield_destroy w)"
  using assms
  by (auto simp: source_ok_def source_cancel_def claim_cancel_shielded_def make_shield_def shield_enter_def shield_destroy_def
      shield_exit_def Let_def)

lemma inv_source_ok: "ctx_inv w \<Longrightarrow> source_ok w"
  by (simp add: ctx_inv_def)

lemma source_steps_inv:
  assumes inv: "ctx_inv w"
  shows "ctx_inv (source_cancel w)" "ctx_inv (make_shield w)" "ctx_inv (shield_destroy w)"
proof -
  note ok = source_ok_steps [OF inv_source_ok [OF inv]]
  show "ctx_inv (source_cancel w)"
    by (rule ctx_inv_source [OF inv _ _ _ ok(1)]) (simp_all add: source_cancel_def claim_cancel_shielded_def)
  show "ctx_inv (make_shield w)"
    by (rule ctx_inv_source [OF inv _ _ _ ok(2)]) (simp_all add: make_shield_def shield_enter_def)
  show "ctx_inv (shield_destroy w)"
    by (rule ctx_inv_source [OF inv _ _ _ ok(3)]) (simp_all add: shield_destroy_def shield_exit_def Let_def)
qed

lemma take_inv:
  assumes inv: "ctx_inv w" and "0 < wakers w"
  shows "ctx_inv (wake_take w)"
proof (cases "waiters (source w) = []")
  case True
  have ok: "source_ok (wake_take w)" using inv_source_ok [OF inv] True by (auto simp: wake_take_def take_waiter_def source_ok_def)
  show ?thesis
    by (rule ctx_inv_frame [OF inv _ ok]) (simp_all add: wake_take_def take_waiter_def True)
next
  case False
  then obtain ws a where ws: "waiters (source w) = ws @ [a]" by (metis append_butlast_last_id)
  have "source_ok (wake_take w)" using inv_source_ok [OF inv] ws assms(2)
    by (auto simp: wake_take_def take_waiter_def source_ok_def)
  moreover have "distinct (ws @ [a])" using inv ws by (simp add: ctx_inv_def)
  ultimately show ?thesis
    by (intro ctx_inv_frame [OF inv]) (auto simp: wake_take_def take_waiter_def ws)
qed

lemma post_inv:
  assumes inv: "ctx_inv w" and a: "a \<in> set (held w)"
  shows "ctx_inv (wake_post a w)"
proof -
  obtain n where n: "nodes w a = Some n" using inv a by (auto simp: ctx_inv_def)
  have c: "cancelled (source w)" "source_ok w" using inv a by (auto simp: ctx_inv_def source_ok_def)
  have old: "node_ok w a n" using inv n by (simp add: ctx_inv_def)
  let ?n = "if outcome n = O_Pending then n\<lparr>outcome := O_Cancelled, queued := True\<rparr> else n"
  have nodes': "nodes (wake_post a w) = (nodes w)(a \<mapsto> ?n)" using n by (auto simp: wake_post_def set_node_def Let_def)
  have f: "source (wake_post a w) = source w" "held (wake_post a w) = remove1 a (held w)" "0 < wakers (wake_post a w)"
    "requested (wake_post a w) = requested w"
    using n by (simp_all add: wake_post_def set_node_def Let_def)
  have ok: "source_ok (wake_post a w)" using c by (simp add: source_ok_def f)
  have new: "node_ok (wake_post a w) a ?n" using old c(1) f by (cases "outcome n") (simp_all add: node_ok.simps)
  have sub: "set (remove1 a (held w)) \<subseteq> set (held w)" by (rule set_remove1_subset)
  have l: "linked (wake_post a w) \<subseteq> insert a (dom (nodes w))" using inv sub unfolding ctx_inv_def f by blast
  have k: "b \<in> linked (wake_post a w)" if "b \<noteq> a" "b \<in> linked w" for b using that by (simp add: f)
  show ?thesis
    by (rule ctx_inv_upd [OF inv nodes' ok l _ _ new k]) (use inv f in \<open>simp_all add: ctx_inv_def\<close>)
qed


text \<open>A step of one wait changes its node and at most its own place in the list.\<close>

lemma own_step_inv:
  assumes inv: "ctx_inv w" and nodes': "nodes w' = (nodes w)(a \<mapsto> n')"
    and f: "source w' = (source w)\<lparr>waiters := ws\<rparr>" "held w' = held w" "wakers w' = wakers w" "requested w' = requested w"
    and ws: "distinct ws" "set ws \<union> {a} = set (waiters (source w)) \<union> {a}"
    and new: "node_ok w' a n'"
  shows "ctx_inv w'"
proof (rule ctx_inv_upd [OF inv nodes' _ _ _ _ new])
  show "source_ok w'" using inv_source_ok [OF inv] by (simp add: source_ok_def f)
  show "linked w' \<subseteq> insert a (dom (nodes w))" using inv ws(2) unfolding ctx_inv_def f by auto
  show "distinct (waiters (source w'))" using ws(1) by (simp add: f)
  show "b \<in> linked w'" if "b \<noteq> a" "b \<in> linked w" for b using that ws(2) by (auto simp: f)
  show "waking w'" if "b \<noteq> a" "nodes w b = Some n" "pc n \<noteq> A_Added" "b \<in> set (waiters (source w'))" "cancelled (source w')" for b n
  proof -
    have "b \<in> set (waiters (source w))" using that(1,4) ws(2) by (auto simp: f)
    then show ?thesis using inv_waking [OF inv that(2,3)] that(5) by (simp add: f)
  qed
qed (simp add: f)

lemma drop_ws: "distinct xs \<Longrightarrow> distinct (remove1 a xs)" "distinct xs \<Longrightarrow> set (remove1 a xs) \<union> {a} = set xs \<union> {a}"
  by auto

lemma over_inv:
  assumes inv: "ctx_inv w" and n: "nodes w a = Some n" "pc n = A_Parked"
  shows "ctx_inv (wait_over a n w)"
proof -
  have d: "distinct (waiters (source w))" and old: "node_ok w a n" using inv n by (simp_all add: ctx_inv_def)
  have e: "wait_over a n w = w\<lparr>source := (source w)\<lparr>waiters := remove1 a (waiters (source w))\<rparr>,
      nodes := (nodes w)(a \<mapsto> n\<lparr>pc := A_Over, timer := False, queued := False\<rparr>)\<rparr>"
    using n by (simp add: wait_over_def retire_def set_node_def drop_waiter_def)
  have "node_ok (wait_over a n w) a (n\<lparr>pc := A_Over, timer := False, queued := False\<rparr>)"
    using old d n(2) unfolding e by (simp add: node_ok.simps)
  then show ?thesis
    by (intro own_step_inv [OF inv, where a = a and ws = "remove1 a (waiters (source w))"]) (simp_all add: e d drop_ws del: Un_insert_right)
qed

lemma add_inv:
  assumes inv: "ctx_inv w" and n: "nodes w a = None"
  shows "ctx_inv (suspend_add a d w)"
proof -
  have d: "distinct (waiters (source w))" "a \<notin> set (waiters (source w))" using inv n by (auto simp: ctx_inv_def)
  show ?thesis
    by (rule own_step_inv [OF inv, where a = a and ws = "waiters (source w) @ [a]" and
          n' = "\<lparr>pc = A_Added, outcome = O_Pending, deadline = d, timer = False, queued = False\<rparr>"])
      (use d in \<open>simp_all add: suspend_add_def set_node_def add_waiter_def node_ok.simps\<close>)
qed

lemma check_inv:
  assumes inv: "ctx_inv w" and n: "nodes w a = Some n" "pc n = A_Added"
  shows "ctx_inv (suspend_check a n w)"
proof (cases "cancelled (source w)")
  case True
  have d: "distinct (waiters (source w))" and old: "node_ok w a n" using inv n by (simp_all add: ctx_inv_def)
  have e: "suspend_check a n w = w\<lparr>source := (source w)\<lparr>waiters := remove1 a (waiters (source w))\<rparr>,
      nodes := (nodes w)(a \<mapsto> n\<lparr>pc := A_Parked, timer := False, queued := True\<rparr>)\<rparr>"
    using n True by (simp add: suspend_check_def retire_def set_node_def drop_waiter_def)
  have "node_ok (suspend_check a n w) a (n\<lparr>pc := A_Parked, timer := False, queued := True\<rparr>)"
    using old d n(2) True unfolding e by (simp add: node_ok.simps)
  then show ?thesis
    by (intro own_step_inv [OF inv, where a = a and ws = "remove1 a (waiters (source w))"]) (simp_all add: e d drop_ws del: Un_insert_right)
next
  case False
  have d: "distinct (waiters (source w))" and old: "node_ok w a n" using inv n by (simp_all add: ctx_inv_def)
  have e: "suspend_check a n w = w\<lparr>nodes := (nodes w)(a \<mapsto> n\<lparr>pc := A_Parked, timer := (deadline n \<noteq> None)\<rparr>)\<rparr>"
    using False by (simp add: suspend_check_def set_node_def)
  have "outcome n = O_Pending" using old n(2) False by (cases "outcome n") (simp_all add: node_ok.simps)
  then have "node_ok (suspend_check a n w) a (n\<lparr>pc := A_Parked, timer := (deadline n \<noteq> None)\<rparr>)"
    using old n(2) False unfolding e by (simp add: node_ok.simps)
  then show ?thesis
    by (intro own_step_inv [OF inv, where a = a and ws = "waiters (source w)"]) (simp_all add: e d)
qed

lemma timer_inv:
  assumes inv: "ctx_inv w" and n: "nodes w a = Some n" "timer n"
  shows "ctx_inv (timer_fires a n w)"
proof -
  have d: "distinct (waiters (source w))" and old: "node_ok w a n" using inv n by (simp_all add: ctx_inv_def)
  let ?n = "if outcome n = O_Pending then n\<lparr>outcome := O_Timeout, timer := False, queued := True\<rparr> else n\<lparr>timer := False\<rparr>"
  have e: "timer_fires a n w = w\<lparr>nodes := (nodes w)(a \<mapsto> ?n)\<rparr>" by (simp add: timer_fires_def set_node_def)
  have "node_ok (timer_fires a n w) a ?n"
    using old n(2) unfolding e by (auto simp: node_ok.simps)
  then show ?thesis
    by (intro own_step_inv [OF inv, where a = a and ws = "waiters (source w)"]) (simp_all add: e d)
qed

lemma ctx_step_inv: "ctx_step w w' \<Longrightarrow> ctx_inv w \<Longrightarrow> ctx_inv w'"
  by (induction rule: ctx_step.induct)
    (simp_all add: source_steps_inv take_inv post_inv add_inv check_inv timer_inv over_inv context_resume_def Let_def)

interpretation contexts: inductive_invariant ctx_start ctx_step ctx_inv
proof
  show "ctx_inv w" if "ctx_start w" for w
    using that by (simp add: ctx_start_def context_new_def cancellation_new_def ctx_inv_def source_ok_def)
qed (rule ctx_step_inv)


subsection \<open>Properties\<close>

text \<open>C7. A cancellation reaches every wait: once \<open>cancel\<close> has been called, no shield is in force and no
  thread is still waking waiters, the source is cancelled and every coroutine suspended on it is
  runnable, however the calls interleaved; while the wake-up goes on, a suspended coroutine that is
  not runnable is still in the list or in the hands of a waking thread.\<close>

theorem cancellation_reaches_waiters:
  assumes "reachable ctx_start ctx_step w" "requested w" "shield_depth (source w) = 0" "nodes w a = Some n" "pc n = A_Parked"
  shows "wait_ready w \<and> (queued n \<or> (a \<in> linked w \<and> (a \<in> set (held w) \<or> waking w))) \<and> (\<not> waking w \<longrightarrow> queued n)"
proof -
  have inv: "ctx_inv w" using contexts.invariant_reachable [OF assms(1)] .
  have c: "cancelled (source w)" using inv assms(2,3) by (auto simp: ctx_inv_def source_ok_def)
  have "queued n \<or> a \<in> linked w" using inv assms(4,5) by (auto simp: ctx_inv_def node_ok.simps)
  moreover have "waking w" if "a \<in> set (waiters (source w))" using inv_waking [OF inv assms(4) _ that c] assms(5) by simp
  ultimately show ?thesis using c by (auto simp: wait_ready_def)
qed

text \<open>C15. A wait ends with the reason that came first and with only one: what is settled never changes
  afterwards; a resumed wait throws \<open>CancelledError\<close> only if its source is cancelled, and \<open>TimeoutError\<close>
  only if it has a deadline whose timer settled it.\<close>

theorem wait_reason_settled:
  assumes "reachable ctx_start ctx_step w" "nodes w a = Some n"
  shows "(ctx_step w w' \<and> outcome n \<noteq> O_Pending \<longrightarrow> (\<exists>n'. nodes w' a = Some n' \<and> outcome n' = outcome n)) \<and>
    (pc n = A_Parked \<and> queued n \<longrightarrow>
      (fst (context_resume a n w) = CancelledError \<and> cancelled (source w)) \<or>
      (fst (context_resume a n w) = TimeoutError \<and> outcome n = O_Timeout \<and> deadline n \<noteq> None))"
proof (rule conjI; rule impI)
  have keep: "\<exists>n'. nodes w' a = Some n' \<and> outcome n' = outcome n" if "ctx_step w w'" "outcome n \<noteq> O_Pending" "nodes w a = Some n" for w w' n
    using that
  proof (induction rule: ctx_step.induct)
    case (cx_take w)
    then show ?case by (auto simp: wake_take_def split: option.split prod.split)
  qed (auto simp: source_cancel_def make_shield_def shield_destroy_def wake_post_def set_node_def suspend_add_def suspend_check_def
      retire_def timer_fires_def context_resume_def wait_over_def Let_def split: option.split prod.split)
  show "\<exists>n'. nodes w' a = Some n' \<and> outcome n' = outcome n" if "ctx_step w w' \<and> outcome n \<noteq> O_Pending"
    using keep that assms(2) by blast
next
  have "node_ok w a n" using contexts.invariant_reachable [OF assms(1)] assms(2) by (simp add: ctx_inv_def)
  moreover have "cancelled (source (wait_over a n w)) = cancelled (source w)"
    using assms(2) by (simp add: wait_over_def retire_def set_node_def drop_waiter_def)
  moreover assume "pc n = A_Parked \<and> queued n"
  ultimately show "(fst (context_resume a n w) = CancelledError \<and> cancelled (source w)) \<or>
      (fst (context_resume a n w) = TimeoutError \<and> outcome n = O_Timeout \<and> deadline n \<noteq> None)"
    by (cases "outcome n") (simp_all add: node_ok.simps context_resume_def wait_result_def Let_def)
qed

text \<open>A shield puts a cancellation off and never loses it: while a shield is in force no step makes
  the source cancelled; \<open>cancel\<close> is remembered, and the end of the last shield carries it out.\<close>

theorem shield_defers_cancel:
  assumes "reachable ctx_start ctx_step w" "0 < shield_depth (source w)" "\<not> cancelled (source w)"
  shows "(ctx_step w w' \<and> cancelled (source w') \<longrightarrow> shield_depth (source w') = 0 \<and> requested w) \<and>
    (requested w \<and> shield_depth (source w) = 1 \<longrightarrow> cancelled (source (shield_destroy w)) \<and> 0 < wakers (shield_destroy w)) \<and>
    \<not> cancelled (source (source_cancel w)) \<and> requested (source_cancel w)"
proof (intro conjI impI)
  have ok: "source_ok w" using contexts.invariant_reachable [OF assms(1)] by (simp add: ctx_inv_def)
  show "shield_depth (source w') = 0" "requested w" if "ctx_step w w' \<and> cancelled (source w')"
  proof -
    have only: "w' = shield_destroy w" if "ctx_step w w'" "cancelled (source w')" "\<not> cancelled (source w)" "0 < shield_depth (source w)" for w w'
      using that
    proof (induction rule: ctx_step.induct)
      case (cx_take w)
      then show ?case by (simp add: wake_take_def take_waiter_def split: if_splits)
    qed (auto simp: source_cancel_def claim_cancel_shielded_def make_shield_def shield_enter_def wake_post_def set_node_def suspend_add_def
        add_waiter_def suspend_check_def retire_def drop_waiter_def timer_fires_def context_resume_def wait_over_def Let_def
        split: option.splits if_splits)
    have "w' = shield_destroy w" using only that assms(2,3) by blast
    then show "shield_depth (source w') = 0" "requested w"
      using that assms(2,3) ok by (auto simp: shield_destroy_def shield_exit_def Let_def source_ok_def split: if_splits)
  qed
  show "cancelled (source (shield_destroy w))" "0 < wakers (shield_destroy w)" if "requested w \<and> shield_depth (source w) = 1"
    using that assms(3) ok by (simp_all add: shield_destroy_def shield_exit_def Let_def source_ok_def)
  show "\<not> cancelled (source (source_cancel w))" "requested (source_cancel w)"
    using assms(2,3) by (simp_all add: source_cancel_def claim_cancel_shielded_def)
qed


subsection \<open>A run\<close>

definition fresh_node :: "time option \<Rightarrow> wait_node" where
  "fresh_node d = \<lparr>pc = A_Added, outcome = O_Pending, deadline = d, timer = False, queued = False\<rparr>"

definition demo_parked :: context_run where
  "demo_parked = suspend_check 3 (fresh_node (Some 10)) (suspend_add 3 (Some 10) context_new)"

definition demo_woken :: context_run where
  "demo_woken = wake_take (wake_post 3 (wake_take (source_cancel demo_parked)))"

definition demo_shielded :: context_run where
  "demo_shielded = source_cancel (make_shield demo_parked)"

definition demo_late :: context_run where
  "demo_late = timer_fires 3 (fresh_node (Some 10)\<lparr>pc := A_Parked, timer := True\<rparr>) (source_cancel demo_parked)"

lemmas context_defs =
  context_new_def cancellation_new_def suspend_check_def suspend_add_def add_waiter_def set_node_def fresh_node_def source_cancel_def
  claim_cancel_shielded_def wake_take_def take_waiter_def wake_post_def make_shield_def shield_enter_def timer_fires_def
  retire_def drop_waiter_def

lemma demo_parked_state:
  "demo_parked = context_new\<lparr>source := cancellation_new\<lparr>waiters := [3]\<rparr>, nodes := [3 \<mapsto> fresh_node (Some 10)\<lparr>pc := A_Parked, timer := True\<rparr>]\<rparr>"
  by (simp add: demo_parked_def context_defs)

lemma ctx_reach:
  assumes "reachable ctx_start ctx_step w"
  shows "reachable ctx_start ctx_step (source_cancel w)" "reachable ctx_start ctx_step (make_shield w)"
    "0 < wakers w \<Longrightarrow> reachable ctx_start ctx_step (wake_take w)"
    "a \<in> set (held w) \<Longrightarrow> reachable ctx_start ctx_step (wake_post a w)"
    "nodes w a = None \<Longrightarrow> reachable ctx_start ctx_step (suspend_add a d w)"
    "nodes w a = Some n \<Longrightarrow> pc n = A_Added \<Longrightarrow> reachable ctx_start ctx_step (suspend_check a n w)"
    "nodes w a = Some n \<Longrightarrow> timer n \<Longrightarrow> reachable ctx_start ctx_step (timer_fires a n w)"
  using assms by (auto intro: reachable.reachable_step ctx_step.intros)

lemma demo_parked_reachable: "reachable ctx_start ctx_step demo_parked"
proof -
  have "reachable ctx_start ctx_step context_new" by (rule reachable.reachable_init) (simp add: ctx_start_def)
  then have "reachable ctx_start ctx_step (suspend_add 3 (Some 10) context_new)" by (rule ctx_reach) (simp add: context_new_def)
  then show ?thesis unfolding demo_parked_def by (rule ctx_reach) (simp_all add: suspend_add_def set_node_def fresh_node_def)
qed

lemma demo_woken_reachable: "reachable ctx_start ctx_step demo_woken"
  unfolding demo_woken_def
  by (intro ctx_reach demo_parked_reachable) (simp_all add: demo_parked_state context_defs)

lemma demo_late_reachable: "reachable ctx_start ctx_step demo_late"
  unfolding demo_late_def
  by (intro ctx_reach demo_parked_reachable) (simp_all add: demo_parked_state context_defs)

theorem cancellation_reaches_waiters_witness: "wait_ready demo_woken \<and> queued (the (nodes demo_woken 3))"
proof -
  obtain n where n: "nodes demo_woken 3 = Some n" "pc n = A_Parked" "requested demo_woken" "shield_depth (source demo_woken) = 0"
      "\<not> waking demo_woken"
    by (simp add: demo_woken_def demo_parked_state context_defs)
  show ?thesis using cancellation_reaches_waiters [OF demo_woken_reachable n(3,4,1,2)] n(1,5) by simp
qed

theorem wait_reason_settled_witness: "fst (context_resume 3 (the (nodes demo_woken 3)) demo_woken) = CancelledError"
proof -
  obtain n where n: "nodes demo_woken 3 = Some n" "pc n = A_Parked" "queued n" "outcome n = O_Cancelled"
    by (simp add: demo_woken_def demo_parked_state context_defs)
  show ?thesis using wait_reason_settled [OF demo_woken_reachable n(1), of demo_woken] n by simp
qed

theorem shield_defers_cancel_witness: "\<not> cancelled (source demo_shielded) \<and> cancelled (source (shield_destroy demo_shielded))"
proof -
  have r: "reachable ctx_start ctx_step demo_shielded"
    unfolding demo_shielded_def by (intro ctx_reach demo_parked_reachable)
  have f: "shield_depth (source demo_shielded) = 1" "\<not> cancelled (source demo_shielded)" "requested demo_shielded"
    by (simp_all add: demo_shielded_def demo_parked_state context_defs)
  show ?thesis using shield_defers_cancel [OF r _ f(2)] f by simp
qed

text \<open>The comment of the awaiter says that a cancellation, once set, is the reason; a timer that fires
  between the claim of a cancellation and its wake-up still makes the wait throw \<open>TimeoutError\<close>.\<close>

lemma timeout_after_cancel:
  "reachable ctx_start ctx_step demo_late \<and> cancelled (source demo_late) \<and>
   fst (context_resume 3 (the (nodes demo_late 3)) demo_late) = TimeoutError"
  using demo_late_reachable
  by (simp add: demo_late_def demo_parked_state context_defs context_resume_def wait_over_def wait_result_def Let_def)

text \<open>The deadline of a context never moves later on the way down.\<close>

definition no_later :: "time option \<Rightarrow> time option \<Rightarrow> bool" where
  "no_later a b \<longleftrightarrow> (case b of None \<Rightarrow> True | Some y \<Rightarrow> (case a of None \<Rightarrow> False | Some x \<Rightarrow> x \<le> y))"

lemma earlier_least: "no_later (earlier a b) a" "no_later (earlier a b) b" "earlier a b = a \<or> earlier a b = b"
  by (auto simp: earlier_def no_later_def split: option.splits)

lemma no_later_trans: "no_later a b \<Longrightarrow> no_later b c \<Longrightarrow> no_later a c"
  by (auto simp: no_later_def split: option.splits)

lemma nested_deadlines:
  "no_later (ctx_deadline (foldr with_deadline_at ts c)) (ctx_deadline c) \<and>
   (\<forall>t \<in> set ts. no_later (ctx_deadline (foldr with_deadline_at ts c)) (Some t)) \<and>
   ctx_state (foldr with_deadline_at ts c) = ctx_state c"
proof (induction ts)
  case Nil
  then show ?case by (auto simp: no_later_def split: option.split)
next
  case (Cons t ts)
  then show ?case by (auto simp: with_deadline_at_def intro: earlier_least no_later_trans)
qed

end
