(* ===== verification/Signals.thy ===== *)
theory Signals
  imports Coro_Prelude
begin

section \<open>Signals\<close>

text \<open>
  signal.hpp on Linux: the set of signals that may be waited for, the self-pipe with its bitmap for the
  time when it is full, the reader thread that hands a signal to the managers of the loops one after
  the other, and \<open>handle\<close>, which runs a coroutine for the signals that arrive. A loop and a waiting
  coroutine are known by their numbers; a coroutine that is woken is scheduled on its loop. The range of
  the real-time signals is the C library's (\<open>rtmin\<close>, \<open>rtmax\<close>). Calls of \<open>sigaction\<close> are not modelled.
\<close>

subsection \<open>Registration\<close>

definition SIGKILL :: int where "SIGKILL = 9"

definition SIGSTOP :: int where "SIGSTOP = 19"

definition registrable :: "int \<Rightarrow> int \<Rightarrow> int \<Rightarrow> bool" where
  "registrable rtmin rtmax sig =
    (if sig = SIGKILL \<or> sig = SIGSTOP then False
     else if sig > 0 \<and> sig < 32 then True
     else sig \<ge> rtmin \<and> sig \<le> rtmax)"

text \<open>\<open>reading\<close>: the signal the reader thread is handing out, with the loops still to be served.
  \<open>owed\<close> records the waits (loop, signal, coroutine) that were in force when their signal was posted.\<close>

record signals =
  allowed :: "int set"
  waiters :: "nat \<Rightarrow> int \<Rightarrow> nat list"
  managers :: "nat set"
  pipe :: "int list"
  pipe_size :: nat
  pending :: "int set"
  reading :: "(int \<times> nat list) option"
  owed :: "(nat \<times> int \<times> nat) set"

definition signals_new :: "nat \<Rightarrow> signals" where
  "signals_new room = \<lparr>allowed = {2, 15, 1}, waiters = (\<lambda>_ _. []), managers = {}, pipe = [], pipe_size = room, pending = {},
     reading = None, owed = {}\<rparr>"

definition is_allowed :: "int \<Rightarrow> signals \<Rightarrow> bool" where
  "is_allowed sig s = (sig \<in> allowed s)"

definition any_waiters :: "int \<Rightarrow> signals \<Rightarrow> bool" where
  "any_waiters sig s = (\<exists>l \<in> managers s. waiters s l sig \<noteq> [])"

definition allow :: "int \<Rightarrow> int \<Rightarrow> int \<Rightarrow> signals \<Rightarrow> bool \<times> signals" where
  "allow rtmin rtmax sig s =
    (if \<not> registrable rtmin rtmax sig then (False, s)
     else if sig \<in> allowed s then (True, s)
     else (True, s\<lparr>allowed := insert sig (allowed s)\<rparr>))"

definition disallow :: "int \<Rightarrow> signals \<Rightarrow> bool \<times> signals" where
  "disallow sig s =
    (if sig \<notin> allowed s then (False, s)
     else if any_waiters sig s then (False, s)
     else (True, s\<lparr>allowed := allowed s - {sig}\<rparr>))"

subsection \<open>Delivery\<close>

definition set_waiters :: "nat \<Rightarrow> int \<Rightarrow> nat list \<Rightarrow> signals \<Rightarrow> signals" where
  "set_waiters l sig ws s = s\<lparr>waiters := (waiters s)(l := (waiters s l)(sig := ws))\<rparr>"

text \<open>\<open>wait\<close>: \<open>await_ready\<close> with its check, \<open>await_suspend\<close> on loop \<open>l\<close>, and the end of the waiter's frame.\<close>

definition signal_wait_ready :: "int \<Rightarrow> signals \<Rightarrow> bool result" where
  "signal_wait_ready sig s = (if is_allowed sig s then Inr False else Inl InvalidArgument)"

definition signal_wait_suspend :: "nat \<Rightarrow> int \<Rightarrow> nat \<Rightarrow> signals \<Rightarrow> signals" where
  "signal_wait_suspend l sig w s = set_waiters l sig (waiters s l sig @ [w]) (s\<lparr>managers := insert l (managers s)\<rparr>)"

definition signal_waiter_destroyed :: "nat \<Rightarrow> int \<Rightarrow> nat \<Rightarrow> signals \<Rightarrow> signals" where
  "signal_waiter_destroyed l sig w s =
    (set_waiters l sig (filter (\<lambda>v. v \<noteq> w) (waiters s l sig)) s)\<lparr>owed := owed s - {(l, sig, w)}\<rparr>"

text \<open>The end of the signal handler's work and of \<open>notify\<close>: a record in the pipe, or a bit when it is full.\<close>

definition mark_pending :: "int \<Rightarrow> signals \<Rightarrow> signals" where
  "mark_pending sig s = (if sig > 0 \<and> sig < 64 then s\<lparr>pending := insert sig (pending s)\<rparr> else s)"

definition waits_for :: "int \<Rightarrow> signals \<Rightarrow> (nat \<times> int \<times> nat) set" where
  "waits_for sig s = {(l, sig, w) | l w. l \<in> managers s \<and> w \<in> set (waiters s l sig)}"

definition post :: "int \<Rightarrow> signals \<Rightarrow> signals" where
  "post sig s =
    (let s = s\<lparr>owed := owed s \<union> waits_for sig s\<rparr>
     in if length (pipe s) < pipe_size s then s\<lparr>pipe := pipe s @ [sig mod 128]\<rparr> else mark_pending sig s)"

text \<open>The reader thread: the next record, the bits, and the manager that is served next. \<open>ls\<close> is the
  snapshot of the managers; the result of serving is the coroutines to schedule.\<close>

definition read_record :: "nat list \<Rightarrow> signals \<Rightarrow> signals" where
  "read_record ls s = (case pipe s of [] \<Rightarrow> s | sig # rest \<Rightarrow> s\<lparr>pipe := rest, reading := Some (sig, ls)\<rparr>)"

definition read_pending :: "int \<Rightarrow> nat list \<Rightarrow> signals \<Rightarrow> signals" where
  "read_pending sig ls s = (if sig \<in> pending s then s\<lparr>pending := pending s - {sig}, reading := Some (sig, ls)\<rparr> else s)"

definition deliver :: "nat \<Rightarrow> int \<Rightarrow> signals \<Rightarrow> nat list \<times> signals" where
  "deliver l sig s = (waiters s l sig, (set_waiters l sig [] s)\<lparr>owed := owed s - {(l, sig, w) | w. w \<in> set (waiters s l sig)}\<rparr>)"

definition serve_next :: "signals \<Rightarrow> nat list \<times> signals" where
  "serve_next s =
    (case reading s of
       None \<Rightarrow> ([], s)
     | Some (sig, []) \<Rightarrow> ([], s\<lparr>reading := None\<rparr>)
     | Some (sig, l # ls) \<Rightarrow> deliver l sig (s\<lparr>reading := Some (sig, ls)\<rparr>))"

inductive signal_step :: "signals \<Rightarrow> signals \<Rightarrow> bool" where
  si_post: "0 < sig \<Longrightarrow> sig < 64 \<Longrightarrow> signal_step s (post sig s)"
| si_suspend: "signal_wait_ready sig s = Inr False \<Longrightarrow> w \<notin> set (waiters s l sig) \<Longrightarrow> signal_step s (signal_wait_suspend l sig w s)"
| si_destroyed: "signal_step s (signal_waiter_destroyed l sig w s)"
| si_record: "reading s = None \<Longrightarrow> pipe s \<noteq> [] \<Longrightarrow> set ls = managers s \<Longrightarrow> signal_step s (read_record ls s)"
| si_pending: "reading s = None \<Longrightarrow> set ls = managers s \<Longrightarrow> signal_step s (read_pending sig ls s)"
| si_serve: "signal_step s (snd (serve_next s))"
| si_allow: "allow rtmin rtmax sig s = (b, s') \<Longrightarrow> signal_step s s'"
| si_disallow: "disallow sig s = (b, s') \<Longrightarrow> signal_step s s'"

definition signal_start :: "signals \<Rightarrow> bool" where
  "signal_start s \<longleftrightarrow> (\<exists>room. s = signals_new room)"

definition on_its_way :: "nat \<Rightarrow> int \<Rightarrow> signals \<Rightarrow> bool" where
  "on_its_way l sig s \<longleftrightarrow> sig \<in> set (pipe s) \<or> sig \<in> pending s \<or> (\<exists>ls. reading s = Some (sig, ls) \<and> l \<in> set ls)"

definition signal_inv :: "signals \<Rightarrow> bool" where
  "signal_inv s \<longleftrightarrow>
    (\<forall>l sig w. (l, sig, w) \<in> owed s \<longrightarrow> on_its_way l sig s \<and> l \<in> managers s \<and> w \<in> set (waiters s l sig)) \<and>
    (\<forall>l sig. waiters s l sig \<noteq> [] \<longrightarrow> l \<in> managers s)"

lemma signal_post_inv:
  assumes inv: "signal_inv s" and r: "0 < sig" "sig < 64"
  shows "signal_inv (post sig s)"
proof -
  have m: "sig mod 128 = sig" using r by simp
  have f: "waiters (post sig s) = waiters s" "managers (post sig s) = managers s" "reading (post sig s) = reading s"
    "owed (post sig s) = owed s \<union> waits_for sig s"
    by (simp_all add: post_def mark_pending_def Let_def)
  have w: "on_its_way l sig (post sig s)" for l using r m by (auto simp: on_its_way_def post_def mark_pending_def Let_def)
  have k: "on_its_way l g (post sig s)" if "on_its_way l g s" for l g
    using that by (auto simp: on_its_way_def post_def mark_pending_def Let_def)
  show ?thesis using inv w k by (auto simp: signal_inv_def f waits_for_def)
qed

lemma signal_frame_inv:
  assumes "signal_inv s" "owed s' \<subseteq> owed s" "managers s \<subseteq> managers s'"
    and "\<And>l sig w. (l, sig, w) \<in> owed s' \<Longrightarrow> on_its_way l sig s \<Longrightarrow> on_its_way l sig s'"
    and "\<And>l sig w. (l, sig, w) \<in> owed s' \<Longrightarrow> w \<in> set (waiters s l sig) \<Longrightarrow> w \<in> set (waiters s' l sig)"
    and "\<And>l sig. waiters s' l sig \<noteq> [] \<Longrightarrow> waiters s l sig \<noteq> [] \<or> l \<in> managers s'"
  shows "signal_inv s'"
  using assms unfolding signal_inv_def by (metis subsetD)

lemma signal_serve_inv:
  assumes "signal_inv s"
  shows "signal_inv (snd (serve_next s))"
proof (cases "reading s")
  case None
  then show ?thesis using assms by (simp add: serve_next_def)
next
  case (Some p)
  obtain sig ls where p: "p = (sig, ls)" by fastforce
  show ?thesis
  proof (cases ls)
    case Nil
    have e: "snd (serve_next s) = s\<lparr>reading := None\<rparr>" using Some p Nil by (simp add: serve_next_def)
    show ?thesis unfolding e
      by (rule signal_frame_inv [OF assms]) (use Some p Nil in \<open>auto simp: on_its_way_def\<close>)
  next
    case (Cons l ls')
    have e: "snd (serve_next s) = snd (deliver l sig (s\<lparr>reading := Some (sig, ls')\<rparr>))"
      using Some p Cons by (simp add: serve_next_def)
    have ow: "(l, sig, w) \<notin> owed (snd (serve_next s))" for w
      using assms unfolding e by (auto simp: deliver_def signal_inv_def)
    show ?thesis
      by (rule signal_frame_inv [OF assms])
        (use Some p Cons ow in \<open>auto simp: e deliver_def set_waiters_def on_its_way_def split: if_splits\<close>)
  qed
qed

lemma signal_step_inv: "signal_step s s' \<Longrightarrow> signal_inv s \<Longrightarrow> signal_inv s'"
proof (induction rule: signal_step.induct)
  case (si_post sig s)
  then show ?case by (simp add: signal_post_inv)
next
  case (si_suspend sig s w l)
  show ?case
    by (rule signal_frame_inv [OF si_suspend.prems]) (auto simp: signal_wait_suspend_def set_waiters_def on_its_way_def split: if_splits)
next
  case (si_destroyed s l sig w)
  show ?case
    by (rule signal_frame_inv [OF si_destroyed.prems])
      (auto simp: signal_waiter_destroyed_def set_waiters_def on_its_way_def split: if_splits)
next
  case (si_record s ls)
  obtain g rest where g: "pipe s = g # rest" using si_record.hyps by (cases "pipe s") auto
  show ?case
    by (rule signal_frame_inv [OF si_record.prems])
      (use si_record g in \<open>auto simp: read_record_def on_its_way_def signal_inv_def\<close>)
next
  case (si_pending s ls sig)
  show ?case
    by (rule signal_frame_inv [OF si_pending.prems])
      (use si_pending in \<open>auto simp: read_pending_def on_its_way_def signal_inv_def split: if_splits\<close>)
next
  case (si_serve s)
  then show ?case by (simp add: signal_serve_inv)
next
  case (si_allow rtmin rtmax sig s b s')
  show ?case
    by (rule signal_frame_inv [OF si_allow.prems]) (use si_allow.hyps in \<open>auto simp: allow_def on_its_way_def split: if_splits\<close>)
next
  case (si_disallow sig s b s')
  show ?case
    by (rule signal_frame_inv [OF si_disallow.prems]) (use si_disallow.hyps in \<open>auto simp: disallow_def on_its_way_def split: if_splits\<close>)
qed

interpretation signal_system: inductive_invariant signal_start signal_step signal_inv
proof
  show "signal_inv s" if "signal_start s" for s
    using that by (auto simp: signal_start_def signals_new_def signal_inv_def)
qed (rule signal_step_inv)

subsection \<open>Persistent handlers\<close>

text \<open>\<open>handle\<close>: the collector, always waiting for the next signal, and the loop that runs the factory, both
  on one loop thread. \<open>H_Run n\<close>: \<open>n\<close> calls of the factory are still to be made. \<open>due\<close> records that a signal has
  arrived since the factory was last called. A factory may throw; only a cancellation is caught.\<close>

datatype collector_pc = C_Waiting | C_Woken

datatype loop_pc = H_Check | H_Parked | H_Run nat | H_Ended

record handle_state =
  collector :: collector_pc
  pending_runs :: nat
  wake :: bool
  runner :: loop_pc
  due :: bool

definition handle_new :: handle_state where
  "handle_new = \<lparr>collector = C_Waiting, pending_runs = 0, wake = False, runner = H_Check, due = False\<rparr>"

definition signal_arrives :: "handle_state \<Rightarrow> handle_state" where
  "signal_arrives h = h\<lparr>collector := C_Woken, due := True\<rparr>"

definition handle_collect :: "handle_state \<Rightarrow> handle_state" where
  "handle_collect h =
    h\<lparr>pending_runs := pending_runs h + 1, wake := True, collector := C_Waiting,
      runner := (if runner h = H_Parked then H_Check else runner h)\<rparr>"

definition handle_loop :: "bool \<Rightarrow> handle_state \<Rightarrow> handle_state" where
  "handle_loop throws h =
    (case runner h of
       H_Check \<Rightarrow>
         if pending_runs h > 0 then h\<lparr>wake := False, runner := H_Run (pending_runs h), pending_runs := 0\<rparr>
         else if wake h then h else h\<lparr>runner := H_Parked\<rparr>
     | H_Run 0 \<Rightarrow> h\<lparr>runner := H_Check\<rparr>
     | H_Run (Suc n) \<Rightarrow> h\<lparr>runner := (if throws then H_Ended else H_Run n), due := False\<rparr>
     | _ \<Rightarrow> h)"

inductive handle_step :: "handle_state \<Rightarrow> handle_state \<Rightarrow> bool" where
  ha_arrives: "handle_step h (signal_arrives h)"
| ha_collect: "collector h = C_Woken \<Longrightarrow> handle_step h (handle_collect h)"
| ha_loop: "handle_step h (handle_loop False h)"

definition handle_inv :: "handle_state \<Rightarrow> bool" where
  "handle_inv h \<longleftrightarrow>
    (due h \<longrightarrow> collector h = C_Woken \<or> 0 < pending_runs h \<or> (\<exists>n. runner h = H_Run (Suc n))) \<and>
    (runner h = H_Parked \<longrightarrow> pending_runs h = 0) \<and> (wake h \<longrightarrow> 0 < pending_runs h) \<and> runner h \<noteq> H_Ended"

lemma handle_step_inv: "handle_step h h' \<Longrightarrow> handle_inv h \<Longrightarrow> handle_inv h'"
proof (induction rule: handle_step.induct)
  case (ha_loop h)
  have "\<exists>n. pending_runs h = Suc n" if "0 < pending_runs h" using that by (simp add: gr0_conv_Suc)
  then show ?case using ha_loop
    by (cases "runner h") (auto simp: handle_inv_def handle_loop_def split: nat.splits)
qed (auto simp: handle_inv_def signal_arrives_def handle_collect_def)

interpretation handlers: inductive_invariant "\<lambda>h. h = handle_new" handle_step handle_inv
proof
  show "handle_inv h" if "h = handle_new" for h
    using that by (simp add: handle_new_def handle_inv_def)
qed (rule handle_step_inv)


subsection \<open>Properties\<close>


definition sent :: signals where
  "sent = read_record [4] (post 2 (signal_wait_suspend 4 2 9 (signals_new 1)))"

lemma sent_facts: "(4, 2, 9) \<in> owed sent" "reading sent = Some (2, [4])"
  by (simp_all add: sent_def read_record_def post_def signal_wait_suspend_def set_waiters_def signals_new_def Let_def waits_for_def)

lemma sent_reachable: "reachable signal_start signal_step sent"
proof -
  let ?a = "signal_wait_suspend 4 2 9 (signals_new 1)"
  have "reachable signal_start signal_step (signals_new 1)" by (rule reachable.reachable_init) (auto simp: signal_start_def)
  moreover have "signal_step (signals_new 1) ?a"
    by (rule si_suspend) (simp_all add: signal_wait_ready_def is_allowed_def signals_new_def)
  moreover have "signal_step ?a (post 2 ?a)" by (rule si_post) simp_all
  moreover have "signal_step (post 2 ?a) sent" unfolding sent_def
    by (rule si_record) (simp_all add: post_def signal_wait_suspend_def set_waiters_def signals_new_def Let_def)
  ultimately show ?thesis by (blast intro: reachable.reachable_step)
qed




subsection \<open>Where signals are lost\<close>

text \<open>The bitmap covers the signals below 64 only; the last real-time signal of Linux, 64, may be registered
  and is dropped when the pipe is full.\<close>

lemma last_realtime_signal_dropped:
  "registrable 34 64 64 \<and> length (pipe s) \<ge> pipe_size s \<longrightarrow> pipe (post 64 s) = pipe s \<and> pending (post 64 s) = pending s"
  by (simp add: post_def mark_pending_def Let_def)

text \<open>A factory that throws ends the loop: later signals are collected and no call is made for them.\<close>

lemma throwing_factory_ends_handler:
  assumes "runner h = H_Run (Suc n)" "h' = handle_loop True h"
  shows "handle_step\<^sup>*\<^sup>* h' g \<Longrightarrow> runner g = H_Ended"
proof (induction rule: rtranclp_induct)
  case base
  then show ?case using assms by (simp add: handle_loop_def)
next
  case (step g g')
  from step(2,3) show ?case
    by (cases rule: handle_step.cases) (simp_all add: signal_arrives_def handle_collect_def handle_loop_def)
qed

end
