(* ===== verification/Fs_Watch.thy ===== *)
theory Fs_Watch
  imports Coro_Prelude
begin

unbundle bit_operations_syntax

section \<open>Watching directories\<close>

text \<open>
  fs_watch.hpp on Linux: reading the records of an inotify buffer, the table from watch descriptors to
  relative paths, and the pairing of the two halves of a rename by their cookie. What the kernel and
  the file system do is a parameter: \<open>tree path\<close> gives the watches that \<open>add_watch_tree\<close> obtains below a
  directory (descriptor and relative path, in the order of the directory iterator) and whether it
  succeeded. A byte is a number below 256. The hash tables are lists of their entries, in the order in
  which they are iterated.
\<close>

subsection \<open>Records\<close>

definition IN_MODIFY :: u32 where "IN_MODIFY = 0x2"
definition IN_ATTRIB :: u32 where "IN_ATTRIB = 0x4"
definition IN_MOVED_FROM :: u32 where "IN_MOVED_FROM = 0x40"
definition IN_MOVED_TO :: u32 where "IN_MOVED_TO = 0x80"
definition IN_CREATE :: u32 where "IN_CREATE = 0x100"
definition IN_DELETE :: u32 where "IN_DELETE = 0x200"
definition IN_DELETE_SELF :: u32 where "IN_DELETE_SELF = 0x400"
definition IN_MOVE_SELF :: u32 where "IN_MOVE_SELF = 0x800"
definition IN_Q_OVERFLOW :: u32 where "IN_Q_OVERFLOW = 0x4000"
definition IN_IGNORED :: u32 where "IN_IGNORED = 0x8000"
definition IN_ISDIR :: u32 where "IN_ISDIR = 0x40000000"

lemmas inotify_bits = IN_MODIFY_def IN_ATTRIB_def IN_MOVED_FROM_def IN_MOVED_TO_def IN_CREATE_def IN_DELETE_def IN_DELETE_SELF_def
  IN_MOVE_SELF_def IN_Q_OVERFLOW_def IN_IGNORED_def IN_ISDIR_def

definition has :: "u32 \<Rightarrow> u32 \<Rightarrow> bool" where
  "has m b \<longleftrightarrow> m AND b \<noteq> 0"

record inotify_event =
  ie_wd :: nat
  ie_mask :: u32
  ie_cookie :: nat
  ie_name :: string

definition le32 :: "nat list \<Rightarrow> nat" where
  "le32 bs = bs ! 0 + 256 * bs ! 1 + 65536 * bs ! 2 + 16777216 * bs ! 3"

definition event_at :: "nat \<Rightarrow> nat list \<Rightarrow> inotify_event" where
  "event_at len bs = \<lparr>ie_wd = le32 bs, ie_mask = of_nat (le32 (drop 4 bs)), ie_cookie = le32 (drop 8 bs),
     ie_name = map char_of (takeWhile (\<lambda>b. b \<noteq> 0) (take len (drop 16 bs)))\<rparr>"

text \<open>The walk over the buffer: a record that is not complete ends it.\<close>

function records_of :: "nat list \<Rightarrow> inotify_event list" where
  "records_of bs =
    (if length bs < 16 then []
     else let len = le32 (drop 12 bs)
          in if length bs < 16 + len then [] else event_at len bs # records_of (drop (16 + len) bs))"
  by auto
termination by (relation "measure length") (auto simp: Let_def)

declare records_of.simps [simp del]

subsection \<open>The watcher\<close>

datatype watch_event_type = Created | Removed | Modified | Renamed | Overflow

record watch_event =
  ev_type :: watch_event_type
  ev_path :: string
  ev_old_path :: string
  ev_is_dir :: bool

definition watch_ev :: "watch_event_type \<Rightarrow> string \<Rightarrow> string \<Rightarrow> bool \<Rightarrow> watch_event" where
  "watch_ev t p q d = \<lparr>ev_type = t, ev_path = p, ev_old_path = q, ev_is_dir = d\<rparr>"

record watcher =
  is_open :: bool
  recursive :: bool
  pending :: "watch_event list"
  wd_paths :: "(nat \<times> string) list"
  pending_moves :: "(nat \<times> string \<times> bool) list"
  terminal_error :: int
  needs_rescan :: bool

definition put :: "'k \<Rightarrow> 'v \<Rightarrow> ('k \<times> 'v) list \<Rightarrow> ('k \<times> 'v) list" where
  "put k v m = (k, v) # filter (\<lambda>e. fst e \<noteq> k) m"

definition erase :: "'k \<Rightarrow> ('k \<times> 'v) list \<Rightarrow> ('k \<times> 'v) list" where
  "erase k m = filter (\<lambda>e. fst e \<noteq> k) m"

definition emit :: "watch_event \<Rightarrow> watcher \<Rightarrow> watcher" where
  "emit e w = w\<lparr>pending := pending w @ [e]\<rparr>"

definition watcher_close :: "watcher \<Rightarrow> watcher" where
  "watcher_close w = w\<lparr>is_open := False, wd_paths := [], pending_moves := []\<rparr>"

definition join_relative :: "string \<Rightarrow> string \<Rightarrow> string" where
  "join_relative parent name = (if parent = [] then name else if name = [] then parent else parent @ ''/'' @ name)"

definition is_same_or_child :: "string \<Rightarrow> string \<Rightarrow> bool" where
  "is_same_or_child path prefix \<longleftrightarrow>
    path = prefix \<or> (length path > length prefix \<and> take (length prefix) path = prefix \<and> path ! length prefix = CHR ''/'')"

definition add_watch_tree :: "(string \<Rightarrow> (nat \<times> string) list \<times> bool) \<Rightarrow> string \<Rightarrow> watcher \<Rightarrow> bool \<times> watcher" where
  "add_watch_tree tree relative w =
    (case tree relative of (ws, ok) \<Rightarrow> (ok, w\<lparr>wd_paths := fold (\<lambda>(wd, p). put wd p) ws (wd_paths w)\<rparr>))"

definition update_watch_paths :: "string \<Rightarrow> string \<Rightarrow> watcher \<Rightarrow> watcher" where
  "update_watch_paths old_path new_path w =
    w\<lparr>wd_paths := map (\<lambda>(wd, p). (wd, if is_same_or_child p old_path then new_path @ drop (length old_path) p else p)) (wd_paths w)\<rparr>"

definition remove_watch_tree :: "string \<Rightarrow> watcher \<Rightarrow> watcher" where
  "remove_watch_tree path w = w\<lparr>wd_paths := filter (\<lambda>(wd, p). \<not> is_same_or_child p path) (wd_paths w)\<rparr>"

definition flush_pending_moves :: "watcher \<Rightarrow> watcher" where
  "flush_pending_moves w =
    (fold (\<lambda>(c, path, d) w. let w = emit (watch_ev Removed path [] d) w in if d then remove_watch_tree path w else w) (pending_moves w) w)
      \<lparr>pending_moves := []\<rparr>"

text \<open>A new entry: reported, and watched when it is a directory.\<close>

definition report_created :: "(string \<Rightarrow> (nat \<times> string) list \<times> bool) \<Rightarrow> string \<Rightarrow> bool \<Rightarrow> watcher \<Rightarrow> watcher" where
  "report_created tree path d w =
    (let w = emit (watch_ev Created path [] d) w
     in if recursive w \<and> d
        then (case add_watch_tree tree path w of (ok, w) \<Rightarrow> if ok then w else emit (watch_ev Overflow [] [] False) w)
        else w)"

definition root_gone :: "string \<Rightarrow> watcher \<Rightarrow> watcher" where
  "root_gone parent w = (if parent = [] then watcher_close (emit (watch_ev Removed [] [] True) w) else w)"

definition parse_record :: "(string \<Rightarrow> (nat \<times> string) list \<times> bool) \<Rightarrow> inotify_event \<Rightarrow> watcher \<Rightarrow> watcher" where
  "parse_record tree ie w =
    (let m = ie_mask ie; d = has m IN_ISDIR
     in if has m IN_Q_OVERFLOW then emit (watch_ev Overflow [] [] False) (w\<lparr>pending_moves := [], needs_rescan := True\<rparr>)
        else if has m IN_IGNORED then w\<lparr>wd_paths := erase (ie_wd ie) (wd_paths w)\<rparr>
        else case map_of (wd_paths w) (ie_wd ie) of
          None \<Rightarrow> w
        | Some parent \<Rightarrow>
            let path = join_relative parent (ie_name ie)
            in if has m IN_MOVE_SELF then root_gone parent w
               else if has m IN_MOVED_FROM then
                 if ie_cookie ie \<noteq> 0 then w\<lparr>pending_moves := put (ie_cookie ie) (path, d) (pending_moves w)\<rparr>
                 else emit (watch_ev Removed path [] d) w
               else if has m IN_MOVED_TO then
                 (case map_of (pending_moves w) (ie_cookie ie) of
                    Some (old_path, old_d) \<Rightarrow>
                      if ie_cookie ie \<noteq> 0 then
                        let w = emit (watch_ev Renamed path old_path (d \<or> old_d)) (w\<lparr>pending_moves := erase (ie_cookie ie) (pending_moves w)\<rparr>)
                        in if recursive w \<and> (d \<or> old_d) then update_watch_paths old_path path w else w
                      else report_created tree path d w
                  | None \<Rightarrow> report_created tree path d w)
               else if has m IN_CREATE then report_created tree path d w
               else if has m IN_DELETE_SELF then root_gone parent w
               else if has m IN_DELETE then emit (watch_ev Removed path [] d) w
               else if has m IN_MODIFY \<or> has m IN_ATTRIB then emit (watch_ev Modified path [] d) w
               else w)"

text \<open>\<open>parse_records\<close>: the result of the read is an error code or the bytes.\<close>

datatype read_result = Read_Error int | Read_Bytes "nat list"

definition parse_records :: "(string \<Rightarrow> (nat \<times> string) list \<times> bool) \<Rightarrow> read_result \<Rightarrow> watcher \<Rightarrow> watcher" where
  "parse_records tree r w =
    (case r of
       Read_Error e \<Rightarrow> watcher_close (w\<lparr>terminal_error := e\<rparr>)
     | Read_Bytes bs \<Rightarrow> fold (parse_record tree) (records_of bs) w)"

text \<open>\<open>next\<close>: what the waits of the coroutine bring, a read or (while moves are pending) the end of 20 ms.
  The result is the event, or an error code with the default event; \<open>None\<close> is still waiting.\<close>

datatype watch_input = Batch read_result | Quiet

definition EBADF :: int where "EBADF = 9"

fun watch_next :: "(string \<Rightarrow> (nat \<times> string) list \<times> bool) \<Rightarrow> watch_input list \<Rightarrow> watcher \<Rightarrow> ((watch_event + int) \<times> watcher) option" where
  "watch_next tree ins w =
    (case pending w of
       e # es \<Rightarrow> Some (Inl e, w\<lparr>pending := es\<rparr>)
     | [] \<Rightarrow>
         if \<not> is_open w then Some (Inr (if terminal_error w \<noteq> 0 then terminal_error w else EBADF), w)
         else (case ins of
           [] \<Rightarrow> None
         | Batch r # ins \<Rightarrow> watch_next tree ins (parse_records tree r w)
         | Quiet # ins \<Rightarrow> watch_next tree ins (if pending_moves w = [] then w else flush_pending_moves w)))"

declare watch_next.simps [simp del]

subsection \<open>Reading back what the kernel writes\<close>

definition enc32 :: "nat \<Rightarrow> nat list" where
  "enc32 n = [n mod 256, n div 256 mod 256, n div 65536 mod 256, n div 16777216 mod 256]"

definition encode_event :: "inotify_event \<times> nat \<Rightarrow> nat list" where
  "encode_event = (\<lambda>(ie, pad).
    enc32 (ie_wd ie) @ enc32 (unat (ie_mask ie)) @ enc32 (ie_cookie ie) @ enc32 (length (ie_name ie) + pad) @
    map of_char (ie_name ie) @ replicate pad 0)"

definition encodable :: "inotify_event \<times> nat \<Rightarrow> bool" where
  "encodable = (\<lambda>(ie, pad). ie_wd ie < 2 ^ 32 \<and> ie_cookie ie < 2 ^ 32 \<and> length (ie_name ie) + pad < 2 ^ 32 \<and> CHR 0x00 \<notin> set (ie_name ie))"

lemma le32_enc32: "n < 2 ^ 32 \<Longrightarrow> le32 (enc32 n @ rest) = n"
proof -
  assume "n < 2 ^ 32"
  then have "n div 16777216 mod 256 = n div 16777216" by (simp add: div_less_iff_less_mult)
  moreover have "n = n mod 256 + 256 * (n div 256 mod 256) + 65536 * (n div 65536 mod 256) + 16777216 * (n div 16777216)"
  proof -
    have d: "n div 65536 = n div 256 div 256" "n div 16777216 = n div 65536 div 256"
      using div_mult2_eq [of n 256 256] div_mult2_eq [of n 65536 256] by simp_all
    have "n = 256 * (n div 256) + n mod 256" by simp
    moreover have "n div 256 = 256 * (n div 65536) + n div 256 mod 256" unfolding d(1) by simp
    moreover have "n div 65536 = 256 * (n div 16777216) + n div 65536 mod 256" unfolding d(2) by simp
    ultimately show ?thesis by linarith
  qed
  ultimately show ?thesis by (simp add: le32_def enc32_def)
qed

lemma length_enc32 [simp]: "length (enc32 n) = 4"
  by (simp add: enc32_def)

lemma takeWhile_name:
  assumes "CHR 0x00 \<notin> set name"
  shows "takeWhile (\<lambda>b. b \<noteq> 0) (map of_char name @ replicate pad (0 :: nat)) = map of_char name"
proof -
  have z: "char_of (0 :: nat) = CHR 0x00" by (simp add: char_of_def)
  have "(of_char c :: nat) \<noteq> 0" if "c \<in> set name" for c
    using that assms z char_of_char [of c, where ?'a = nat] by metis
  then have "takeWhile (\<lambda>b. b \<noteq> 0) (map of_char name @ replicate pad (0 :: nat)) =
      map of_char name @ takeWhile (\<lambda>b. b \<noteq> 0) (replicate pad 0)"
    by (intro takeWhile_append2) auto
  then show ?thesis by (cases pad) simp_all
qed


lemma records_encode:
  assumes "encodable e"
  shows "records_of (encode_event e @ rest) = fst e # records_of rest"
proof -
  obtain ie pad where e: "e = (ie, pad)" by fastforce
  let ?len = "length (ie_name ie) + pad"
  let ?bs = "encode_event e @ rest"
  let ?body = "map of_char (ie_name ie) @ replicate pad 0 :: nat list"
  have ok: "ie_wd ie < 2 ^ 32" "ie_cookie ie < 2 ^ 32" "?len < 2 ^ 32" "CHR 0x00 \<notin> set (ie_name ie)"
    using assms e by (simp_all add: encodable_def)
  have bs: "?bs = enc32 (ie_wd ie) @ enc32 (unat (ie_mask ie)) @ enc32 (ie_cookie ie) @ enc32 ?len @ ?body @ rest"
    by (simp add: encode_event_def e)
  have d: "drop 4 ?bs = enc32 (unat (ie_mask ie)) @ enc32 (ie_cookie ie) @ enc32 ?len @ ?body @ rest"
    "drop 8 ?bs = enc32 (ie_cookie ie) @ enc32 ?len @ ?body @ rest"
    "drop 12 ?bs = enc32 ?len @ ?body @ rest" "drop 16 ?bs = ?body @ rest"
    unfolding bs by (simp_all add: drop_append)
  have len: "length ?bs = 16 + ?len + length rest" "length ?body = ?len" unfolding bs by simp_all
  have l: "le32 (drop 12 ?bs) = ?len" unfolding d(3) by (rule le32_enc32 [OF ok(3)])
  have "unat (ie_mask ie) < 2 ^ 32" using unsigned_less [of "ie_mask ie"] by simp
  then have m: "of_nat (le32 (drop 4 ?bs)) = ie_mask ie" unfolding d(1) by (simp add: le32_enc32)
  have c: "le32 (drop 8 ?bs) = ie_cookie ie" unfolding d(2) by (rule le32_enc32 [OF ok(2)])
  have w: "le32 ?bs = ie_wd ie" unfolding bs by (rule le32_enc32 [OF ok(1)])
  have t: "take ?len (drop 16 ?bs) = ?body" unfolding d(4) using len(2) by (simp add: take_append)
  have n: "map char_of (takeWhile (\<lambda>b. b \<noteq> 0) (take ?len (drop 16 ?bs))) = ie_name ie"
    unfolding t takeWhile_name [OF ok(4)] by (simp add: map_idI)
  have "event_at ?len ?bs = ie" unfolding event_at_def m c w n by simp
  moreover have "drop (16 + ?len) ?bs = rest" using d(4) len(2) by (metis append_eq_conv_conj drop_drop add.commute)
  ultimately show ?thesis using len(1) l records_of.simps [of ?bs] by (simp add: e Let_def)
qed

lemma buffer_roundtrip:
  assumes "\<forall>e \<in> set es. encodable e" "length rest < 16"
  shows "records_of (concat (map encode_event es) @ rest) = map fst es"
  using assms by (induction es) (simp_all add: records_encode records_of.simps [of rest])

subsection \<open>Renaming\<close>

lemma map_of_put: "map_of (put k v m) = (map_of m)(k \<mapsto> v)"
proof -
  have "map_of (filter (\<lambda>e. fst e \<noteq> k) m) j = (if j = k then None else map_of m j)" for j by (induction m) auto
  then show ?thesis by (auto simp: put_def fun_eq_iff)
qed

lemma map_of_erase: "map_of (erase k m) j = (if j = k then None else map_of m j)"
  by (induction m) (auto simp: erase_def)

lemma map_of_update:
  "map_of (wd_paths (update_watch_paths old new w)) wd =
   map_option (\<lambda>p. if is_same_or_child p old then new @ drop (length old) p else p) (map_of (wd_paths w) wd)"
proof -
  have "map_of (map (\<lambda>(wd, p). (wd, f p)) m) wd = map_option f (map_of m wd)" for f :: "string \<Rightarrow> string" and m by (induction m) auto
  then show ?thesis by (simp add: update_watch_paths_def)
qed

definition move_mask :: "u32 \<Rightarrow> bool \<Rightarrow> u32" where
  "move_mask b d = (if d then b OR IN_ISDIR else b)"

lemma move_bits:
  "has (move_mask IN_MOVED_FROM d) IN_MOVED_FROM" "\<not> has (move_mask IN_MOVED_FROM d) IN_Q_OVERFLOW"
  "\<not> has (move_mask IN_MOVED_FROM d) IN_IGNORED" "\<not> has (move_mask IN_MOVED_FROM d) IN_MOVE_SELF"
  "has (move_mask IN_MOVED_TO d) IN_MOVED_TO" "\<not> has (move_mask IN_MOVED_TO d) IN_MOVED_FROM" "\<not> has (move_mask IN_MOVED_TO d) IN_Q_OVERFLOW"
  "\<not> has (move_mask IN_MOVED_TO d) IN_IGNORED" "\<not> has (move_mask IN_MOVED_TO d) IN_MOVE_SELF"
  "has (move_mask IN_MOVED_FROM d) IN_ISDIR = d" "has (move_mask IN_MOVED_TO d) IN_ISDIR = d"
  by (simp_all add: has_def move_mask_def inotify_bits)


definition moved_from :: "nat \<Rightarrow> nat \<Rightarrow> string \<Rightarrow> bool \<Rightarrow> inotify_event" where
  "moved_from wd c name d = \<lparr>ie_wd = wd, ie_mask = move_mask IN_MOVED_FROM d, ie_cookie = c, ie_name = name\<rparr>"

definition moved_to :: "nat \<Rightarrow> nat \<Rightarrow> string \<Rightarrow> bool \<Rightarrow> inotify_event" where
  "moved_to wd c name d = \<lparr>ie_wd = wd, ie_mask = move_mask IN_MOVED_TO d, ie_cookie = c, ie_name = name\<rparr>"

text \<open>Records that come between the two halves of a move leave it alone when they neither report an
  overflow, nor close the watcher, nor carry the move's cookie.\<close>

definition bystander :: "nat \<Rightarrow> inotify_event \<Rightarrow> bool" where
  "bystander c ie \<longleftrightarrow> \<not> has (ie_mask ie) IN_Q_OVERFLOW \<and> \<not> has (ie_mask ie) IN_MOVE_SELF \<and> \<not> has (ie_mask ie) IN_DELETE_SELF \<and>
     ie_cookie ie \<noteq> c"

lemma created_moves: "pending_moves (report_created tree path d w) = pending_moves w"
  by (cases "tree path") (simp add: report_created_def add_watch_tree_def emit_def Let_def)

lemma bystander_keeps:
  assumes "bystander c ie"
  shows "map_of (pending_moves (parse_record tree ie w)) c = map_of (pending_moves w) c"
  using assms
  by (auto simp: parse_record_def bystander_def Let_def emit_def created_moves map_of_put map_of_erase update_watch_paths_def split: option.split)

lemma bystanders_keep:
  "\<forall>ie \<in> set ies. bystander c ie \<Longrightarrow> map_of (pending_moves (fold (parse_record tree) ies w)) c = map_of (pending_moves w) c"
  by (induction ies arbitrary: w) (simp_all add: bystander_keeps)

lemma from_record:
  assumes "map_of (wd_paths w) a = Some p" "c \<noteq> 0"
  shows "parse_record tree (moved_from a c name d) w = w\<lparr>pending_moves := put c (join_relative p name, d) (pending_moves w)\<rparr>"
  using assms by (simp add: parse_record_def moved_from_def move_bits Let_def)

lemma to_record:
  assumes "map_of (wd_paths w) b = Some q" "c \<noteq> 0" "map_of (pending_moves w) c = Some (old, d)"
  shows "parse_record tree (moved_to b c name d) w =
    (let w = emit (watch_ev Renamed (join_relative q name) old d) (w\<lparr>pending_moves := erase c (pending_moves w)\<rparr>)
     in if recursive w \<and> d then update_watch_paths old (join_relative q name) w else w)"
  using assms by (cases d) (simp_all add: parse_record_def moved_to_def move_bits Let_def)


definition demo_watcher :: watcher where
  "demo_watcher = \<lparr>is_open = True, recursive = True, pending = [], wd_paths = [(1, ''''), (2, ''a''), (3, ''a/b'')], pending_moves = [],
     terminal_error = 0, needs_rescan = False\<rparr>"


text \<open>A file that was moved out of the tree is reported as removed when 20 ms pass without a read; as long
  as reads bring other events it stays pending, and it is forgotten when the watcher is closed.\<close>

lemma moved_out_reported:
  assumes "pending w = []" "is_open w" "pending_moves w = [(c, path, d)]"
  shows "\<exists>w'. watch_next tree (Quiet # ins) w = Some (Inl (watch_ev Removed path [] d), w')"
proof -
  have "pending (flush_pending_moves w) = [watch_ev Removed path [] d]"
    using assms by (simp add: flush_pending_moves_def emit_def remove_watch_tree_def Let_def)
  then show ?thesis using assms
    by (simp add: watch_next.simps [of tree "Quiet # ins" w] watch_next.simps [of tree ins "flush_pending_moves w"])
qed

lemma moved_out_forgotten: "pending_moves (parse_records tree (Read_Error e) w) = [] \<and> pending (parse_records tree (Read_Error e) w) = pending w"
  by (simp add: parse_records_def watcher_close_def)

end
