(* ===== verification/Spec2Isabelle.thy ===== *)
theory Spec2Isabelle
  imports Sync_Event Async_Queue Select Radix_Router Rate_Limit Pool Stream Timer_Wait Web_Include Web_Server
    Future_Promise Task_Core Task_Group Wait_Tasks Http_Pools Http_Stream Scheduler
    Wait_For Thread_Pool Socket_Servers Context Signals Fs_Watch
begin

section \<open>A coroutine runtime and what is built on it\<close>

text \<open>
  The repository is a C++20 coroutine runtime (include/coro), an HTTP client on top of it (src/), a TCP
  and a UDP server (tcp_udp/), a radix router (router/) and a web server (Web/src, with the message
  and parser classes of thirdparty/http/src). This development models the program's own logic and leaves
  the operating system, llhttp and OpenSSL outside.

  \<^bold>\<open>How the parts interact.\<close> An \<open>EventLoop\<close> owns a ready queue of coroutine frames, a heap of timers and a
  register of live frames. Everything else reaches it through a few calls: \<open>schedule\<close> and
  \<open>schedule_if_current\<close> put a frame into the queue, \<open>schedule_timer\<close> does so later, \<open>dispatch\<close> hands over a
  function from another thread. A \<open>Task\<close> is a frame with its result, its awaiting coroutine and its
  cancellation; locks, events, queues, channels, futures, timers, pools and contexts keep lists of
  suspended frames and give them back to their loops; task groups, \<open>wait_tasks\<close>, the scheduler, the
  thread pool and the task registry wait for the end of many tasks; the servers and the HTTP client
  are written with all of these.

  \<^bold>\<open>How the model is made.\<close> A class is a record with the fields of the class, an enumeration is a datatype,
  a method is a function from the state to its result and the new state. A thrown exception is \<open>Inl\<close> of
  the type \<open>error\<close> of Coro_Prelude. Code under one mutex, or on one loop between two suspensions, is one
  step; where threads race, each access to shared state is a step and the component has an inductive step
  relation over which all interleavings range. Counters of fixed width are words where they may wrap
  (generations, wait epochs) and integers with a proved range elsewhere. Shared heap objects that several
  owners look at (the nodes of a select, pools of an HTTP client, the awaiters of a lock) live in stores
  indexed by their address. What the code calls but does not contain (the clock, the kernel, llhttp,
  coroutine bodies, user callbacks) is an argument of the definitions that use it.

  \<^bold>\<open>Theories and sources.\<close>

  \<^item> Coro_Prelude: handles, errors, erase loops, and the locales \<open>inductive_invariant\<close> and \<open>refinement\<close>.
    Reachable states and the argument that an invariant kept by every step holds in all of them are stated
    once there and interpreted in the components.

  \<^item> include/coro/event_loop.hpp: Ready_Queue (\<open>ReadyQueue\<close>, which implements the locale \<open>fifo_queue\<close>),
    Frame_Tracker (\<open>FrameTracker\<close>: generations, scheduled marks, epochs), Timer_Heap (\<open>TimerHeap\<close>, which
    implements \<open>deadline_queue\<close>), Event_Loop (the interface of \<open>EventLoop\<close>), Loop_Run (\<open>run_impl\<close> and its
    inner loops), Loop_Props. Shown: a frame is queued at most once, a late notification wakes nobody, due
    timers are delivered, the driver ends only without work, and no wake-up is lost when a loop goes
    to sleep. The contract that the other components use is the locale \<open>wait_registry\<close>.

  \<^item> include/coro/sync.hpp: Waiters (\<open>schedule_waiter\<close> and \<open>erase_waiter\<close>; the locale \<open>wake_service\<close>),
    Sync_Lock (\<open>Lock\<close> refines a waiting line), Sync_Semaphore (permits are conserved), Sync_Event
    (\<open>Event\<close> misses no set; \<open>Condition\<close> moves its waiters to the lock).

  \<^item> include/coro/queue.hpp, channel.hpp, select.hpp: Async_Queue (order and bound), Channel (messages
    are conserved, nothing stalls; the locale \<open>commit_gate\<close> is what a channel asks of a select), Select (one
    winner).

  \<^item> include/coro/task.hpp, future.hpp, task_group.hpp, wait.hpp, gather.hpp: Task_Core (the promise, the
    wrapper of every \<open>co_await\<close>, cancellation, completion, destruction), Future_Promise, Task_Group,
    Wait_Tasks, Wait_For (\<open>wait_for\<close>, \<open>wait_until\<close>). Shown: an awaiting coroutine is served once, a cancellation
    is delivered, a group is a barrier, a future strands nobody, \<open>wait_tasks\<close> resumes when its mode is
    decided, \<open>wait_for\<close> reports what happened and its timer never uses a task that is gone.

  \<^item> include/coro/context.hpp: Context (cancellation sources, shields, \<open>Context::wait\<close>, deadlines). Shown:
    cancellation reaches every waiter, the reason of a wait is settled once and fits, a shield defers a
    cancellation until it is left.

  \<^item> include/coro/scheduler.hpp, thread.hpp, task_registry.hpp, shutdown.hpp: Scheduler (\<open>spawn_any\<close>, \<open>join\<close>,
    \<open>wait_all\<close>), Thread_Pool (\<open>thread_pool\<close>, \<open>to_thread\<close>), Task_Registry. Shown: when a waiting coroutine is
    woken, which counts are exact, that the workers leave no job behind; and the interleavings in which
    the scheduler or the registry leaves a waiter or a task behind.

  \<^item> include/coro/timer.hpp, pool.hpp, rate_limit.hpp, stream.hpp, signal.hpp, fs_watch.hpp: Timer_Wait, Pool,
    Rate_Limit, Stream, Signals, Fs_Watch. Shown: a timer's wait ends with the right answer, a pool never
    exceeds its size nor forgets a waiter, a bucket stays in range and lets no more through than its
    rate, a reader delivers the stream, a signal reaches those who waited, a rename in a watched tree is
    one event also when it comes in two reads.

  \<^item> router/radix_router.h: Radix_Router (registration, exact search, backtracking lookup; the locale
    \<open>capture_stack\<close> is what the search needs of its captures). Shown: a lookup finds the preferred pattern
    that matches, with exactly its captures.

  \<^item> Web/src and thirdparty/http/src: Http_Message (http_protocol.cpp, http_types.cpp), Http_Parse
    (http_parse.cpp around llhttp), Middleware (middleware.h), Web_Router and Web_Include (router.h),
    Web_Server (web_server.cpp). Shown: a built response has one reading, \<open>next\<close> runs at most once, static
    files stay below their mount, inclusion of a router prefixes its routes, a connection answers its
    requests in order.

  \<^item> src/http_client.cpp: Http_Url (URLs and requests), Http_Client (reading a response), Http_Stream
    (streamed bodies), Http_Pools (pools of origins, requests in flight, closing).

  \<^item> tcp_udp/tcp_server.hpp and udp_server.hpp: Socket_Servers. Shown: a shutdown ends in time, its report
    is truthful, the bytes of waiting datagrams stay below the bound.

  Each theory states its model first, then its invariant and the lemmas that every step keeps it, then
  the interpretation of the locales, then its theorems. A theorem with hypotheses is followed by an
  instance at a concrete run of the model.

  \<^bold>\<open>Fuel and inputs that end.\<close> The outer loop of \<open>run_impl\<close> may run for ever, so \<open>Loop_Run\<close> gives it fuel,
  and the statements about a run are about runs that return; its two inner loops get the length of their
  batch, which is shown to be enough. A coroutine that reads from a socket, a pipe or inotify is given the
  list of what its reads return; \<open>None\<close> says that the list has ended and the coroutine still waits. All other
  loops are structural recursions or have a measure, so their functions are total.

  \<^bold>\<open>What the model shows about the code beyond its promises.\<close> Some lemmas are runs that end badly:
  \<open>two_joins_strand_one\<close>, \<open>failed_dispatch_strands_join\<close> and \<open>wait_all_misses_task\<close> of the scheduler,
  \<open>interleaved_finish_strands_wait\<close> of the registry, \<open>timeout_after_cancel\<close> of contexts, \<open>cancel_reported_as_timeout\<close> of \<open>wait_for\<close>,
  \<open>last_realtime_signal_dropped\<close> and \<open>throwing_factory_ends_handler\<close> of signals. The theorems about these
  components carry the hypothesis that excludes such a run, or describe it.

  \<^bold>\<open>Not modelled.\<close> The event sources (iocp_event_source.hpp, uring_event_source.hpp), sockets (net*.hpp),
  files (fs.hpp), pipes and Unix sockets (pipe.hpp, unix.hpp), processes (process.hpp), io.hpp and dns.hpp
  are awaiters around system calls, whose behaviour is the kernel's; tls.hpp, tls.cpp and
  detail/http_transport.hpp drive OpenSSL's memory buffers and choose between two transports. schedule.hpp and the \<open>yield\<close> of
  sleep.hpp only call the event loop. exceptions.hpp and coro.hpp hold declarations. The programs
  (Web/main.cpp, stress_client.h, playground, the examples, benchmarks and tests) configure and start
  what is modelled. Of modelled classes, these are left out: move construction and assignment of owners,
  diagnostic output, the code for Windows where there is one for Linux, connecting and the timeouts of the
  HTTP client, and the optional task registry of the loop.
\<close>

end
